(* ===== verification/Prelude.thy ===== *)
theory Prelude
  imports Main "HOL-Library.Word" "HOL-Library.Multiset"
begin

text \<open>
  The types every component of the model shares: the machine integers of an
  x86-64 build, pointers, the faults that undefined or aborting C code ends in,
  and the result type in which a C function that can fault is written. It also
  holds the generic facts on words and lists the component theories share.
\<close>

unbundle bit_operations_syntax

section \<open>Machine integers and pointers\<close>

type_synonym u8 = "8 word"
type_synonym u16 = "16 word"
type_synonym u32 = "32 word"
type_synonym u64 = "64 word"
type_synonym ptr = "64 word"

abbreviation (input) NULL :: ptr where
  "NULL \<equiv> 0"

section \<open>Error numbers\<close>

abbreviation EIO :: int where "EIO \<equiv> 5"
abbreviation ENOMEM :: int where "ENOMEM \<equiv> 12"
abbreviation ENODEV :: int where "ENODEV \<equiv> 19"
abbreviation EINVAL :: int where "EINVAL \<equiv> 22"
abbreviation ERANGE :: int where "ERANGE \<equiv> 34"

section \<open>Faults\<close>

text \<open>
  C code that leaves its defined behaviour, or that stops the process, does not
  return a value. \<open>OutOfBounds\<close> is an access outside an array or a buffer,
  \<open>NullDeref\<close> a use of the null pointer, \<open>BadShift\<close> a shift by the operand's
  width or more, \<open>DivByZero\<close> an integer division by zero, \<open>Abort\<close> a failed
  \<open>BUG_ON\<close> or \<open>PANIC_ON_TRUE\<close>, \<open>Exit\<close> a call of \<open>exit\<close>,
  \<open>SignedOverflow\<close> a signed counter that runs past its largest value,
  \<open>ImplDefined\<close> a conversion to a signed type that cannot hold the value, whose
  result C leaves to the implementation, and \<open>NoFuel\<close> a loop cut off by the bound
  it was run with.
\<close>

datatype fault = OutOfBounds | NullDeref | BadShift | DivByZero | SignedOverflow | ImplDefined | Abort | Exit int | NoFuel

type_synonym 'a res = "fault + 'a"

definition bindE :: "'a res \<Rightarrow> ('a \<Rightarrow> 'b res) \<Rightarrow> 'b res" where
  "bindE r f = (case r of Inl e \<Rightarrow> Inl e | Inr x \<Rightarrow> f x)"

lemma bindE_simps [simp]:
  "bindE (Inl e) f = Inl e"
  "bindE (Inr x) f = f x"
  by (simp_all add: bindE_def)

lemma bindE_eq_Inr:
  "bindE r f = Inr y \<longleftrightarrow> (\<exists>x. r = Inr x \<and> f x = Inr y)"
  by (cases r) auto

lemma bindE_eq_Inl: "bindE r f = Inl e \<longleftrightarrow> r = Inl e \<or> (\<exists>x. r = Inr x \<and> f x = Inl e)"
  by (cases r) auto

lemma bindE_InrE:
  assumes "bindE r f = Inr y"
  obtains x where "r = Inr x" "f x = Inr y"
  using assms by (auto simp: bindE_eq_Inr)

lemma bindE_assoc [simp]: "bindE (bindE r f) g = bindE r (\<lambda>x. bindE (f x) g)"
  by (cases r) auto

text \<open>A guard stands for a condition the code relies on at run time.\<close>

definition guardE :: "fault \<Rightarrow> bool \<Rightarrow> unit res" where
  "guardE e b = (if b then Inr () else Inl e)"

lemma guardE_simps [simp]:
  "guardE e True = Inr ()"
  "guardE e False = Inl e"
  by (simp_all add: guardE_def)

lemma guardE_eq_Inr [simp]: "guardE e b = Inr u \<longleftrightarrow> b"
  by (simp add: guardE_def)

text \<open>Array access: an index outside the array is a fault.\<close>

definition nthE :: "'a list \<Rightarrow> nat \<Rightarrow> 'a res" where
  "nthE xs i = (if i < length xs then Inr (xs ! i) else Inl OutOfBounds)"

definition updE :: "'a list \<Rightarrow> nat \<Rightarrow> 'a \<Rightarrow> 'a list res" where
  "updE xs i v = (if i < length xs then Inr (xs[i := v]) else Inl OutOfBounds)"

lemma nthE_Inr [simp]: "i < length xs \<Longrightarrow> nthE xs i = Inr (xs ! i)"
  by (simp add: nthE_def)

lemma nthE_eq_Inr: "nthE xs i = Inr v \<longleftrightarrow> i < length xs \<and> v = xs ! i"
  by (auto simp: nthE_def)

lemma updE_Inr [simp]: "i < length xs \<Longrightarrow> updE xs i v = Inr (xs[i := v])"
  by (simp add: updE_def)

lemma updE_eq_Inr: "updE xs i v = Inr ys \<longleftrightarrow> i < length xs \<and> ys = xs[i := v]"
  by (auto simp: updE_def)

text \<open>A loop over a list of values whose body can fault.\<close>

primrec foldE :: "('a \<Rightarrow> 's \<Rightarrow> 's res) \<Rightarrow> 'a list \<Rightarrow> 's \<Rightarrow> 's res" where
  "foldE f [] s = Inr s"
| "foldE f (x # xs) s = bindE (f x s) (foldE f xs)"

lemma foldE_append [simp]: "foldE f (xs @ ys) s = bindE (foldE f xs s) (foldE f ys)"
  by (induction xs arbitrary: s) (auto simp: bindE_def split: sum.splits)

lemma foldE_invariant:
  assumes "foldE f xs s = Inr s'" "I s" "\<And>x s s'. x \<in> set xs \<Longrightarrow> I s \<Longrightarrow> f x s = Inr s' \<Longrightarrow> I s'"
  shows "I s'"
  using assms by (induction xs arbitrary: s) (auto simp: bindE_eq_Inr)

lemma foldE_cong:
  assumes "\<And>x s. x \<in> set xs \<Longrightarrow> f x s = g x s"
  shows "foldE f xs s = foldE g xs s"
  using assms by (induction xs arbitrary: s) (auto simp: bindE_def split: sum.splits)

lemma foldE_map: "foldE f (map h xs) = foldE (\<lambda>x. f (h x)) xs"
proof
  show "foldE f (map h xs) s = foldE (\<lambda>x. f (h x)) xs s" for s
    by (induction xs arbitrary: s) (auto simp: bindE_def split: sum.splits)
qed

lemma foldE_concat: "foldE f (concat xss) = foldE (foldE f) xss"
proof
  show "foldE f (concat xss) s = foldE (foldE f) xss s" for s
    by (induction xss arbitrary: s) (auto simp: bindE_def split: sum.splits)
qed

lemma foldE_Inr: "foldE (\<lambda>x s. Inr (h x s)) xs s = Inr (fold h xs s)"
  by (induction xs arbitrary: s) auto

text \<open>
  A \<open>for\<close> loop whose counter is a signed \<open>int\<close>: the counter is incremented
  after every round, also after the last one.
\<close>

abbreviation INT_MAX :: nat where "INT_MAX \<equiv> 2147483647"

definition for_int :: "nat \<Rightarrow> nat \<Rightarrow> (nat \<Rightarrow> 's \<Rightarrow> 's res) \<Rightarrow> 's \<Rightarrow> 's res" where
  "for_int lo hi f = foldE (\<lambda>i s. bindE (f i s) (\<lambda>s.
     bindE (guardE SignedOverflow (i < INT_MAX)) (\<lambda>_. Inr s))) [lo..<hi]"

lemma for_int_foldE:
  assumes "hi \<le> INT_MAX"
  shows "for_int lo hi f = foldE f [lo..<hi]"
  unfolding for_int_def using assms
  by (intro ext foldE_cong) (auto simp: bindE_def split: sum.splits)

section \<open>Words\<close>

lemma unat_bound:
  fixes x :: "'a::len word"
  shows "unat x < 2 ^ LENGTH('a)"
  by (rule unsigned_less)

lemma unat_lt_imp_Suc:
  fixes x y :: "'a::len word"
  assumes "x < y"
  shows "unat (x + 1) = Suc (unat x)"
proof -
  have "unat x < unat y" using assms by (simp add: word_less_nat_alt)
  moreover have "unat y < 2 ^ LENGTH('a)" by (rule unsigned_less)
  ultimately have "unat x + 1 < 2 ^ LENGTH('a)" by linarith
  then show ?thesis by (simp add: unat_word_ariths)
qed

lemma unat_of_nat_less:
  assumes "k < 2 ^ LENGTH('a::len)"
  shows "unat (of_nat k :: 'a word) = k"
  using assms by (simp add: unat_of_nat)

lemma unat_diff_of_nat:
  fixes x :: "'a::len word"
  assumes "k < 2 ^ LENGTH('a)"
  shows "unat (x - of_nat k) = (if k \<le> unat x then unat x - k else unat x + 2 ^ LENGTH('a) - k)"
  using assms by (simp add: unat_sub_if' unat_of_nat_less)

lemma unat_exp:
  assumes "n < LENGTH('a::len)"
  shows "unat (2 ^ n :: 'a word) = 2 ^ n"
proof -
  have "(2::nat) ^ n < 2 ^ LENGTH('a)" using assms by simp
  then have "unat (of_nat (2 ^ n) :: 'a word) = 2 ^ n" by (rule unat_of_nat_less)
  then show ?thesis by simp
qed

lemma and_mask_mod:
  fixes x :: "'a::len word"
  assumes "n < LENGTH('a)"
  shows "unat (x AND (2 ^ n - 1)) = unat x mod 2 ^ n"
proof -
  have "x AND (2 ^ n - 1) = take_bit n x"
    by (simp add: take_bit_eq_mask mask_eq_exp_minus_1)
  also have "\<dots> = x mod 2 ^ n" by (simp add: take_bit_eq_mod)
  finally show ?thesis using assms by (simp add: unat_mod_distrib unat_exp)
qed

lemma bit_iff_odd_unat:
  fixes x :: "'a::len word"
  assumes "n < LENGTH('a)"
  shows "bit x n \<longleftrightarrow> odd (unat x div 2 ^ n)"
proof -
  have "bit x n \<longleftrightarrow> bit (unat x) n"
    using assms by (simp add: bit_unsigned_iff)
  then show ?thesis by (simp add: bit_iff_odd)
qed

lemma sint_neg_iff:
  fixes x :: "'a::len word"
  shows "sint x < 0 \<longleftrightarrow> 2 ^ (LENGTH('a) - 1) \<le> unat x"
proof -
  let ?n = "LENGTH('a) - Suc 0"
  have less: "unat x < 2 * 2 ^ ?n"
    using unsigned_less [of x] by (metis One_nat_def Suc_pred len_gt_0 power_Suc)
  have "odd (unat x div 2 ^ ?n) \<longleftrightarrow> 2 ^ ?n \<le> unat x"
  proof
    assume "odd (unat x div 2 ^ ?n)"
    then show "2 ^ ?n \<le> unat x" by (metis div_less even_zero not_le)
  next
    assume "2 ^ ?n \<le> unat x"
    with less have "unat x div 2 ^ ?n = 1" by (intro div_nat_eqI) auto
    then show "odd (unat x div 2 ^ ?n)" by simp
  qed
  then show ?thesis by (simp add: bit_iff_odd_unat flip: bit_last_iff)
qed

text \<open>Unsigned ints added to and subtracted from pointers and sizes.\<close>

lemma u32_fits: "unat (n :: u32) < 2 ^ LENGTH(32)"
  by (rule unsigned_less)

lemma unat_ucast_u32 [simp]: "unat (ucast (n :: u32) :: u64) = unat n"
  by (simp add: unsigned_ucast_eq take_bit_nat_eq_self less_trans [OF u32_fits])

lemma unat_ucast_u64_less:
  fixes x :: u64
  assumes "unat x < 2 ^ LENGTH(32)"
  shows "unat (ucast x :: u32) = unat x"
  using assms by (simp add: unsigned_ucast_eq take_bit_nat_eq_self)

lemma unat_add_ucast:
  fixes x :: u64 and n :: u32
  assumes "unat x < 2 ^ LENGTH(32)"
  shows "unat (x + ucast n) = unat x + unat n"
proof -
  have "unat x + unat n < 2 ^ LENGTH(64)" using assms u32_fits [of n] by simp
  then show ?thesis by (simp add: unat_word_ariths)
qed

lemma unat_diff_ucast:
  fixes x :: u64 and n :: u32
  assumes "unat n \<le> unat x"
  shows "unat (x - ucast n) = unat x - unat n"
  using assms by (simp add: unat_sub_if')

end
