(* ===== verification/Scan.thy ===== *)
theory Scan
  imports Prelude "HOL-Library.Char_ord"
begin

text \<open>
  What the program uses of the C library to read numbers: \<open>strtol\<close>, \<open>strtoul\<close>, \<open>strtoull\<close> and the integer
  conversions of \<open>sscanf\<close>. A C string is the list of its characters without the final zero, and a pointer into it is the
  rest of the list. The parsers of inc/base/parse.h and of pci.c are built on them.
\<close>

section \<open>Digits\<close>

definition is_space :: "char \<Rightarrow> bool" where
  "is_space c \<longleftrightarrow> (let n = of_char c :: nat in n = 32 \<or> 9 \<le> n \<and> n \<le> 13)"

definition digit_val :: "char \<Rightarrow> nat" where
  "digit_val c = (let n = of_char c :: nat in
     if 48 \<le> n \<and> n \<le> 57 then n - 48
     else if 97 \<le> n \<and> n \<le> 102 then n - 87
     else if 65 \<le> n \<and> n \<le> 70 then n - 55 else 16)"

definition is_digit :: "nat \<Rightarrow> char \<Rightarrow> bool" where
  "is_digit base c \<longleftrightarrow> digit_val c < base"

definition number :: "nat \<Rightarrow> string \<Rightarrow> nat" where
  "number base ds = foldl (\<lambda>a c. a * base + digit_val c) 0 ds"

section \<open>The \<open>strto\<close> family\<close>

text \<open>White space, a sign, the prefix of the base, and the longest run of digits; nothing when there is no digit.\<close>

definition split_sign :: "string \<Rightarrow> bool \<times> string" where
  "split_sign s = (case s of [] \<Rightarrow> (False, [])
     | c # t \<Rightarrow> if c = CHR ''-'' then (True, t) else if c = CHR ''+'' then (False, t) else (False, s))"

definition has_hex_prefix :: "string \<Rightarrow> bool" where
  "has_hex_prefix s \<longleftrightarrow> (case s of z # x # d # _ \<Rightarrow> z = CHR ''0'' \<and> (x = CHR ''x'' \<or> x = CHR ''X'') \<and> is_digit 16 d | _ \<Rightarrow> False)"

definition pick_base :: "nat \<Rightarrow> string \<Rightarrow> nat \<times> string" where
  "pick_base base s =
     (if (base = 0 \<or> base = 16) \<and> has_hex_prefix s then (16, drop 2 s)
      else if base = 0 then (case s of z # _ \<Rightarrow> (if z = CHR ''0'' then 8 else 10, s) | [] \<Rightarrow> (10, s))
      else (base, s))"

definition strto :: "nat \<Rightarrow> string \<Rightarrow> (bool \<times> nat \<times> string) option" where
  "strto base s =
     (let (neg, t) = split_sign (dropWhile is_space s);
          (b, u) = pick_base base t;
          ds = takeWhile (is_digit b) u
      in if ds = [] then None else Some (neg, number b ds, dropWhile (is_digit b) u))"

text \<open>
  The value, the error number afterwards and the rest. A value that does not fit is the largest one, and
  the error number is set; it is left alone otherwise.
\<close>

definition strtoul :: "nat \<Rightarrow> string \<Rightarrow> int \<Rightarrow> u64 \<times> int \<times> string" where
  "strtoul base s err =
     (case strto base s of None \<Rightarrow> (0, err, s)
      | Some (neg, v, r) \<Rightarrow>
          if v < 2 ^ 64 then (if neg then - of_nat v else of_nat v, err, r) else (- 1, ERANGE, r))"

definition strtol :: "nat \<Rightarrow> string \<Rightarrow> int \<Rightarrow> int \<times> int \<times> string" where
  "strtol base s err =
     (case strto base s of None \<Rightarrow> (0, err, s)
      | Some (neg, v, r) \<Rightarrow>
          if neg then (if v \<le> 2 ^ 63 then (- int v, err, r) else (- (2 ^ 63), ERANGE, r))
          else if v < 2 ^ 63 then (int v, err, r) else (2 ^ 63 - 1, ERANGE, r))"

section \<open>\<open>sscanf\<close>\<close>

record conversion =
  cv_base :: nat
  cv_width :: "nat option"
  cv_signed :: bool
  cv_next :: "char option"

text \<open>A hexadecimal prefix with no digit behind it is consumed, and the conversion fails.\<close>

definition bare_prefix :: "nat \<Rightarrow> string \<Rightarrow> bool" where
  "bare_prefix base s \<longleftrightarrow> base = 16 \<and> \<not> has_hex_prefix s \<and>
     (case s of z # x # _ \<Rightarrow> z = CHR ''0'' \<and> (x = CHR ''x'' \<or> x = CHR ''X'') | _ \<Rightarrow> False)"

definition scan_conv :: "conversion \<Rightarrow> string \<Rightarrow> (u64 \<times> string) option" where
  "scan_conv cv s =
     (let s = dropWhile is_space s;
          t = (case cv_width cv of None \<Rightarrow> s | Some w \<Rightarrow> take w s) in
      if bare_prefix (cv_base cv) (snd (split_sign t)) then None
      else (case strto (cv_base cv) t of None \<Rightarrow> None
        | Some (_, _, r) \<Rightarrow>
            Some (if cv_signed cv then word_of_int (fst (strtol (cv_base cv) t 0)) else fst (strtoul (cv_base cv) t 0),
              drop (length t - length r) s)))"

text \<open>The values converted before the first conversion or separator that does not match.\<close>

primrec scan_fields :: "conversion list \<Rightarrow> string \<Rightarrow> u64 list" where
  "scan_fields [] s = []"
| "scan_fields (cv # cvs) s =
     (case scan_conv cv s of None \<Rightarrow> []
      | Some (v, r) \<Rightarrow> v # (case cv_next cv of None \<Rightarrow> scan_fields cvs r
          | Some c \<Rightarrow> (case r of [] \<Rightarrow> [] | x # r \<Rightarrow> if x = c then scan_fields cvs r else [])))"

section \<open>inc/base/parse.h\<close>

text \<open>The conversions of \<open>%2x:%2x:%2x:%2x:%2x:%2x\<close> and \<open>%hhu.%hhu.%hhu.%hhu\<close>.\<close>

definition mac_format :: "conversion list" where
  "mac_format = replicate 5 \<lparr>cv_base = 16, cv_width = Some 2, cv_signed = False, cv_next = Some CHR '':''\<rparr>
     @ [\<lparr>cv_base = 16, cv_width = Some 2, cv_signed = False, cv_next = None\<rparr>]"

definition ip_format :: "conversion list" where
  "ip_format = replicate 3 \<lparr>cv_base = 10, cv_width = None, cv_signed = False, cv_next = Some CHR ''.''\<rparr>
     @ [\<lparr>cv_base = 10, cv_width = None, cv_signed = False, cv_next = None\<rparr>]"

definition str_to_mac :: "string \<Rightarrow> u8 list \<Rightarrow> int \<times> u8 list" where
  "str_to_mac s mac_out =
     (let values = scan_fields mac_format s in
      if length values \<noteq> 6 then (EINVAL, mac_out) else (0, map (\<lambda>v. ucast (ucast v :: u32)) values))"

text \<open>The error number of the process is not cleared before the conversion.\<close>

definition str_to_long :: "string \<Rightarrow> int \<Rightarrow> int \<times> int \<times> int" where
  "str_to_long str err =
     (case strtol 10 str err of (val, err, endptr) \<Rightarrow>
      if length endptr = length str \<or> (endptr \<noteq> [] \<and> hd endptr \<noteq> CHR 0x0A) \<or>
         ((val = - (2 ^ 63) \<or> val = 2 ^ 63 - 1) \<and> err = ERANGE)
      then (- EINVAL, val, err) else (0, val, err))"

definition MAKE_IP_ADDR :: "u8 \<Rightarrow> u8 \<Rightarrow> u8 \<Rightarrow> u8 \<Rightarrow> u32" where
  "MAKE_IP_ADDR a b c d = push_bit 24 (ucast a) OR push_bit 16 (ucast b) OR push_bit 8 (ucast c) OR ucast d"

definition str_to_ip :: "string \<Rightarrow> u32 \<Rightarrow> int \<times> u32" where
  "str_to_ip str addr =
     (case scan_fields ip_format str of
        [a, b, c, d] \<Rightarrow> (0, MAKE_IP_ADDR (ucast a) (ucast b) (ucast c) (ucast d))
      | _ \<Rightarrow> (- EINVAL, addr))"

section \<open>Addresses on the bus\<close>

record pci_addr =
  domain :: u16
  bus :: u8
  slot_no :: u8
  func_no :: u8

definition pci_format :: "conversion list" where
  "pci_format = [\<lparr>cv_base = 16, cv_width = Some 4, cv_signed = False, cv_next = Some CHR '':''\<rparr>,
     \<lparr>cv_base = 16, cv_width = Some 2, cv_signed = False, cv_next = Some CHR '':''\<rparr>,
     \<lparr>cv_base = 16, cv_width = Some 2, cv_signed = False, cv_next = Some CHR ''.''\<rparr>,
     \<lparr>cv_base = 10, cv_width = None, cv_signed = True, cv_next = None\<rparr>]"

text \<open>The fields converted before a mismatch are stored even when the call fails.\<close>

definition store_pci :: "u64 list \<Rightarrow> pci_addr \<Rightarrow> pci_addr" where
  "store_pci vs a =
     (let a = (if 0 < length vs then a\<lparr>domain := ucast (vs ! 0)\<rparr> else a);
          a = (if 1 < length vs then a\<lparr>bus := ucast (vs ! 1)\<rparr> else a);
          a = (if 2 < length vs then a\<lparr>slot_no := ucast (vs ! 2)\<rparr> else a)
      in if 3 < length vs then a\<lparr>func_no := ucast (vs ! 3)\<rparr> else a)"

definition pci_str_to_addr :: "string \<Rightarrow> pci_addr \<Rightarrow> int \<times> pci_addr" where
  "pci_str_to_addr str addr =
     (let vs = scan_fields pci_format str in
      (if length vs \<noteq> 4 then - EINVAL else 0, store_pci vs addr))"

end
