(* ===== verification/Stddef.thy ===== *)
theory Stddef
  imports Prelude
begin

text \<open>
  The macros of inc/base/stddef.h on unsigned integers of any width (powers of
  two, alignment, rounding division) and its comparisons of free-running 32-bit
  counters, with the page constants and macros of inc/base/mem.h.
\<close>

section \<open>Powers of two, alignment, rounding\<close>

definition is_power_of_two :: "'a::len word \<Rightarrow> bool" where
  "is_power_of_two x \<longleftrightarrow> x \<noteq> 0 \<and> x AND (x - 1) = 0"

definition align_up :: "'a::len word \<Rightarrow> 'a word \<Rightarrow> 'a word" where
  "align_up x align = ((x - 1) OR (align - 1)) + 1"

definition align_down :: "'a::len word \<Rightarrow> 'a word \<Rightarrow> 'a word" where
  "align_down x align = x AND NOT (align - 1)"

definition div_up :: "'a::len word \<Rightarrow> 'a word \<Rightarrow> 'a word" where
  "div_up x d = (x + d - 1) div d"

definition BIT :: "nat \<Rightarrow> u64" where
  "BIT n = push_bit n 1"

section \<open>Comparing counters that wrap around\<close>

definition wraps_lt :: "u32 \<Rightarrow> u32 \<Rightarrow> bool" where
  "wraps_lt a b \<longleftrightarrow> sint (a - b) < 0"

definition wraps_lte :: "u32 \<Rightarrow> u32 \<Rightarrow> bool" where
  "wraps_lte a b \<longleftrightarrow> sint (a - b) \<le> 0"

definition wraps_gt :: "u32 \<Rightarrow> u32 \<Rightarrow> bool" where
  "wraps_gt a b \<longleftrightarrow> sint (b - a) < 0"

definition wraps_gte :: "u32 \<Rightarrow> u32 \<Rightarrow> bool" where
  "wraps_gte a b \<longleftrightarrow> sint (b - a) \<le> 0"

lemma is_power_of_two_exp:
  assumes "n < LENGTH('a::len)"
  shows "is_power_of_two (2 ^ n :: 'a word)"
proof -
  have "unat ((2 ^ n :: 'a word) AND (2 ^ n - 1)) = 0"
    using assms by (simp add: and_mask_mod unat_exp)
  moreover have "unat (2 ^ n :: 'a word) \<noteq> 0"
    using assms by (simp add: unat_exp)
  ultimately show ?thesis
    by (auto simp: is_power_of_two_def unat_eq_zero)
qed

lemma exp_bounds_nat:
  fixes k :: nat
  assumes "0 < k"
  obtains n where "2 ^ n \<le> k" "k < 2 * 2 ^ n"
proof -
  have "\<exists>n. 2 ^ n \<le> k \<and> k < 2 * 2 ^ n" using assms
  proof (induction k rule: less_induct)
    case (less k)
    show ?case
    proof (cases "k = 1")
      case True
      then show ?thesis by (intro exI [of _ 0]) simp
    next
      case False
      with less.prems have "0 < k div 2" "k div 2 < k" by auto
      with less.IH obtain n where "2 ^ n \<le> k div 2" "k div 2 < 2 * 2 ^ n" by blast
      then show ?thesis by (intro exI [of _ "Suc n"]) auto
    qed
  qed
  then show thesis using that by blast
qed

lemma is_power_of_twoD:
  fixes x :: "'a::len word"
  assumes "is_power_of_two x"
  obtains n where "n < LENGTH('a)" "x = 2 ^ n"
proof -
  have nz: "x \<noteq> 0" and anded: "x AND (x - 1) = 0"
    using assms by (auto simp: is_power_of_two_def)
  obtain n where n: "2 ^ n \<le> unat x" "unat x < 2 * 2 ^ n"
    using exp_bounds_nat [of "unat x"] nz by (auto simp: unat_gt_0)
  have len: "n < LENGTH('a)"
    using n(1) unsigned_less [of x] by (metis le_less_trans nat_power_less_imp_less zero_less_numeral)
  have "unat x = 2 ^ n"
  proof (rule ccontr)
    assume ne: "unat x \<noteq> 2 ^ n"
    then have "unat x div 2 ^ n = 1" "(unat x - 1) div 2 ^ n = 1"
      using n by (auto intro!: div_nat_eqI)
    then have "bit x n \<and> bit (x - 1) n"
      using len nz by (simp add: bit_iff_odd_unat unat_minus_one)
    then have "bit (x AND (x - 1)) n" by (simp add: bit_and_iff)
    with anded show False by simp
  qed
  then have "x = 2 ^ n" using len by (simp add: word_unat_eq_iff unat_exp)
  with len show thesis by (rule that)
qed

lemma and_plus_and_not:
  fixes x m :: "'a::len word"
  shows "(x AND m) + (x AND NOT m) = x"
proof -
  have "(x AND m) + (x AND NOT m) = (x AND m) OR (x AND NOT m)"
    by (rule disjunctive_add) (auto simp: bit_simps)
  also have "\<dots> = x" by (rule bit_word_eqI) (auto simp: bit_simps)
  finally show ?thesis .
qed

lemma or_eq_and_not_plus:
  fixes x m :: "'a::len word"
  shows "x OR m = (x AND NOT m) + m"
proof -
  have "(x AND NOT m) + m = (x AND NOT m) OR m"
    by (rule disjunctive_add) (auto simp: bit_simps)
  also have "\<dots> = x OR m" by (rule bit_word_eqI) (auto simp: bit_simps)
  finally show ?thesis by simp
qed

lemma unat_align_down:
  fixes x :: "'a::len word"
  assumes "n < LENGTH('a)"
  shows "unat (align_down x (2 ^ n)) = unat x div 2 ^ n * 2 ^ n"
proof -
  let ?m = "2 ^ n - 1 :: 'a word"
  have "x AND NOT ?m = x - (x AND ?m)"
    using and_plus_and_not [of x ?m] by (metis add_diff_cancel_left')
  moreover have "(x AND ?m) \<le> x" by (rule word_and_le2)
  ultimately have "unat (align_down x (2 ^ n)) = unat x - unat x mod 2 ^ n"
    using assms by (simp add: align_down_def unat_sub and_mask_mod)
  then show ?thesis by (simp add: minus_mod_eq_div_mult)
qed

lemma align_up_eq_align_down:
  fixes x :: "'a::len word"
  shows "align_up x a = align_down (x - 1) a + a"
proof -
  have "align_up x a = ((x - 1) AND NOT (a - 1)) + (a - 1) + 1"
    by (simp only: align_up_def or_eq_and_not_plus)
  then show ?thesis by (simp add: align_down_def)
qed

lemma unat_align_up:
  fixes x :: "'a::len word"
  assumes n: "n < LENGTH('a)" and fits: "unat x + 2 ^ n \<le> 2 ^ LENGTH('a)"
  shows "unat (align_up x (2 ^ n)) = (unat x + 2 ^ n - 1) div 2 ^ n * 2 ^ n"
proof (cases "x = 0")
  case True
  then show ?thesis
    by (simp add: align_up_def)
next
  case False
  let ?q = "(unat x - 1) div 2 ^ n"
  have pos: "0 < unat x" using False by (simp add: unat_gt_0)
  have le: "?q * 2 ^ n \<le> unat x - 1" by (rule div_times_less_eq_dividend)
  then have "?q * 2 ^ n + 2 ^ n < 2 ^ LENGTH('a)"
    using pos fits by linarith
  then have "unat (align_up x (2 ^ n)) = ?q * 2 ^ n + 2 ^ n"
    using False n
    by (simp add: align_up_eq_align_down unat_word_ariths unat_align_down unat_minus_one unat_exp)
  moreover have "(unat x + 2 ^ n - 1) div 2 ^ n = Suc ?q"
  proof -
    have "unat x + 2 ^ n - 1 = (unat x - 1) + 2 ^ n" using pos by simp
    then show ?thesis using div_add_self2 [of "2 ^ n" "unat x - 1"] by simp
  qed
  ultimately show ?thesis by simp
qed

lemma sint_diff_window:
  fixes a b :: u32
  assumes "unat (b - a) < 2 ^ 31"
  shows "sint (a - b) \<le> 0 \<and> (sint (a - b) < 0 \<longleftrightarrow> a \<noteq> b)"
    and "(sint (b - a) < 0 \<longleftrightarrow> False) \<and> (sint (b - a) \<le> 0 \<longleftrightarrow> a = b)"
proof -
  have pos: "\<not> sint (b - a) < 0"
    using assms sint_neg_iff [of "b - a"] by simp
  have z: "sint (b - a) = 0 \<longleftrightarrow> a = b" "sint (a - b) = 0 \<longleftrightarrow> a = b"
    by (auto simp: signed_eq_0_iff)
  show "(sint (b - a) < 0 \<longleftrightarrow> False) \<and> (sint (b - a) \<le> 0 \<longleftrightarrow> a = b)"
    using pos z by (auto simp: le_less)
  have "sint (a - b) < 0" if "a \<noteq> b"
  proof -
    have eq: "a - b = 0 - (b - a)" by simp
    have nz: "0 < unat (b - a)" using that by (simp add: unat_gt_0)
    then have "unat (a - b) = 2 ^ LENGTH(32) - unat (b - a)"
      unfolding eq using nz by (simp only: unat_sub_if' [of 0]) simp
    then show ?thesis using assms sint_neg_iff [of "a - b"] by simp
  qed
  then show "sint (a - b) \<le> 0 \<and> (sint (a - b) < 0 \<longleftrightarrow> a \<noteq> b)"
    using z by force
qed

text \<open>
  The comparisons of free-running 32-bit counters: when \<open>b\<close> is
  fewer than 2^31 steps ahead of \<open>a\<close>, wherever the counter wraps in between,
  \<open>a\<close> compares as at most \<open>b\<close>, as less unless they are equal, and never as greater.
\<close>

theorem wraps_compare:
  assumes "k < 2 ^ 31" "b = a + of_nat k"
  shows "wraps_lte a b \<and> wraps_gte b a \<and> (wraps_lt a b \<longleftrightarrow> 0 < k) \<and> (wraps_gt b a \<longleftrightarrow> 0 < k)
    \<and> \<not> wraps_lt b a \<and> \<not> wraps_gt a b \<and> (wraps_lte b a \<longleftrightarrow> k = 0) \<and> (wraps_gte a b \<longleftrightarrow> k = 0)"
proof -
  have "k < 2 ^ LENGTH(32)" using assms(1) by simp
  then have u: "unat (b - a) = k" using assms(2) by (simp add: unat_of_nat_less)
  then have "a = b \<longleftrightarrow> k = 0" using assms(2) by (auto simp: unat_eq_zero)
  then show ?thesis
    using sint_diff_window [of b a] u assms(1)
    by (auto simp: wraps_lt_def wraps_lte_def wraps_gt_def wraps_gte_def)
qed

lemma wraps_compare_witness: "wraps_lt 0xFFFFFFFE 3 \<and> \<not> wraps_lt 3 0xFFFFFFFE"
  using wraps_compare [of 5 3 "0xFFFFFFFE"] by simp

end
