(* ===== verification/Memory.thy ===== *)
theory Memory
  imports Stddef
begin

text \<open>
  Byte-addressed memory: loads and stores of byte runs, the copies and fills of
  string.h on them, and the little-endian representation of the machine
  integers. The copy routines, the packet headers and the descriptor rings are
  stated on this memory.
\<close>

type_synonym mem = "ptr \<Rightarrow> u8"

definition load_bytes :: "mem \<Rightarrow> ptr \<Rightarrow> nat \<Rightarrow> u8 list" where
  "load_bytes m a n = map (\<lambda>i. m (a + of_nat i)) [0..<n]"

definition store_bytes :: "mem \<Rightarrow> ptr \<Rightarrow> u8 list \<Rightarrow> mem" where
  "store_bytes m a bs = (\<lambda>x. let i = unat (x - a) in if i < length bs then bs ! i else m x)"

definition memcpy :: "mem \<Rightarrow> ptr \<Rightarrow> ptr \<Rightarrow> nat \<Rightarrow> mem" where
  "memcpy m dst src n = store_bytes m dst (load_bytes m src n)"

definition memset :: "mem \<Rightarrow> ptr \<Rightarrow> u8 \<Rightarrow> nat \<Rightarrow> mem" where
  "memset m a v n = store_bytes m a (replicate n v)"

text \<open>Two regions that share no address.\<close>

definition disjoint_regions :: "ptr \<Rightarrow> nat \<Rightarrow> ptr \<Rightarrow> nat \<Rightarrow> bool" where
  "disjoint_regions d k s n \<longleftrightarrow> k \<le> unat (s - d) \<and> n \<le> unat (d - s)"

text \<open>An address inside a region.\<close>

definition in_region :: "ptr \<Rightarrow> nat \<Rightarrow> ptr \<Rightarrow> bool" where
  "in_region a n x \<longleftrightarrow> unat (x - a) < n"

section \<open>Loads and stores\<close>

lemma length_load_bytes [simp]: "length (load_bytes m a n) = n"
  by (simp add: load_bytes_def)

lemma nth_load_bytes [simp]: "i < n \<Longrightarrow> load_bytes m a n ! i = m (a + of_nat i)"
  by (simp add: load_bytes_def)

lemma load_bytes_0 [simp]: "load_bytes m a 0 = []"
  by (simp add: load_bytes_def)

lemma store_bytes_Nil [simp]: "store_bytes m a [] = m"
  by (simp add: store_bytes_def fun_eq_iff)

lemma load_bytes_add:
  "load_bytes m a (j + k) = load_bytes m a j @ load_bytes m (a + of_nat j) k"
  by (rule nth_equalityI) (auto simp: nth_append add.assoc simp flip: of_nat_add)

lemma take_load_bytes [simp]: "k \<le> n \<Longrightarrow> take k (load_bytes m a n) = load_bytes m a k"
  by (rule nth_equalityI) auto

lemma drop_load_bytes [simp]:
  "drop k (load_bytes m a n) = load_bytes m (a + of_nat k) (n - k)"
  by (rule nth_equalityI) (auto simp: add.assoc simp flip: of_nat_add)

lemma store_bytes_outside:
  "length bs \<le> unat (x - a) \<Longrightarrow> store_bytes m a bs x = m x"
  by (simp add: store_bytes_def)

lemma store_bytes_at:
  fixes a :: ptr
  assumes "i < length bs" "length bs \<le> 2 ^ 64"
  shows "store_bytes m a bs (a + of_nat i) = bs ! i"
proof -
  have "i < 2 ^ LENGTH(64)" using assms by simp
  then have "unat (a + of_nat i - a) = i" by (simp add: unat_of_nat_less)
  then show ?thesis using assms by (simp add: store_bytes_def)
qed

lemma load_store_same:
  assumes "length bs = n" "n \<le> 2 ^ 64"
  shows "load_bytes (store_bytes m a bs) a n = bs"
  using assms by (intro nth_equalityI) (auto simp: store_bytes_at)

lemma unat_offset_from:
  fixes x a :: ptr
  assumes "j \<le> k" "k \<le> 2 ^ 64"
  shows "j \<le> unat (x - a) \<and> unat (x - a) < k \<longleftrightarrow> unat (x - (a + of_nat j)) < k - j"
    and "j \<le> unat (x - a) \<Longrightarrow> unat (x - a) < k \<Longrightarrow> unat (x - (a + of_nat j)) = unat (x - a) - j"
proof -
  have eq: "x - (a + of_nat j) = (x - a) - of_nat j" by simp
  have u: "unat (x - a) < 2 ^ LENGTH(64)" by (rule unsigned_less)
  have jk: "j < 2 ^ LENGTH(64) \<or> j = k" using assms by auto
  show "j \<le> unat (x - a) \<and> unat (x - a) < k \<longleftrightarrow> unat (x - (a + of_nat j)) < k - j"
  proof (cases "j < 2 ^ LENGTH(64)")
    case True
    then show ?thesis unfolding eq using u assms by (auto simp: unat_diff_of_nat)
  next
    case False
    then show ?thesis using u assms by simp
  qed
  show "j \<le> unat (x - a) \<Longrightarrow> unat (x - a) < k \<Longrightarrow> unat (x - (a + of_nat j)) = unat (x - a) - j"
    unfolding eq using u assms by (simp add: unat_diff_of_nat)
qed

text \<open>
  Overwriting from offset \<open>j\<close> of a run that reaches at least there leaves one
  longer run.
\<close>

lemma store_bytes_overlap:
  fixes a :: ptr
  assumes "j \<le> length bs" "length bs \<le> j + length cs" "j + length cs \<le> 2 ^ 64"
  shows "store_bytes (store_bytes m a bs) (a + of_nat j) cs = store_bytes m a (take j bs @ cs)"
proof
  fix x
  let ?i = "unat (x - a)"
  show "store_bytes (store_bytes m a bs) (a + of_nat j) cs x = store_bytes m a (take j bs @ cs) x"
  proof (cases "j \<le> ?i \<and> ?i < j + length cs")
    case True
    then have "unat (x - (a + of_nat j)) = ?i - j" "unat (x - (a + of_nat j)) < length cs"
      using assms(3) unat_offset_from [of j "j + length cs" x a] by auto
    then show ?thesis using True assms by (simp add: store_bytes_def Let_def nth_append)
  next
    case False
    then have "\<not> unat (x - (a + of_nat j)) < length cs"
      using assms(3) unat_offset_from(1) [of j "j + length cs" x a] by auto
    then show ?thesis using False assms by (auto simp: store_bytes_def Let_def nth_append)
  qed
qed

lemma store_bytes_append:
  fixes a :: ptr
  assumes "length bs + length cs \<le> 2 ^ 64"
  shows "store_bytes (store_bytes m a bs) (a + of_nat (length bs)) cs = store_bytes m a (bs @ cs)"
  using store_bytes_overlap [of "length bs" bs cs m a] assms by simp

lemma disjoint_regions_sym: "disjoint_regions d k s n \<longleftrightarrow> disjoint_regions s n d k"
  by (auto simp: disjoint_regions_def)

lemma disjoint_regions_offset:
  fixes d s :: ptr
  assumes "disjoint_regions d k s n" "j < n" "i < k"
  shows "k \<le> unat (s + of_nat j - d)"
proof (rule ccontr)
  assume c: "\<not> k \<le> unat (s + of_nat j - d)"
  have ks: "k \<le> unat (s - d)" and nd: "n \<le> unat (d - s)" using assms by (auto simp: disjoint_regions_def)
  have ub: "unat (s - d) < 2 ^ LENGTH(64)" "unat (d - s) < 2 ^ LENGTH(64)" by (rule unsigned_less)+
  have j: "j < 2 ^ LENGTH(64)" using assms(2) nd ub(2) by linarith
  have "unat (s + of_nat j - d) = unat ((s - d) + of_nat j)" by (simp add: algebra_simps)
  also have "\<dots> = (unat (s - d) + j) mod 2 ^ LENGTH(64)"
    using j by (simp only: unat_word_ariths(1) unat_of_nat_less)
  finally have "unat (s + of_nat j - d) = (unat (s - d) + j) mod 2 ^ LENGTH(64)" .
  note eq = this
  have ge: "2 ^ LENGTH(64) \<le> unat (s - d) + j"
  proof (rule ccontr)
    assume "\<not> 2 ^ LENGTH(64) \<le> unat (s - d) + j"
    then have "unat (s + of_nat j - d) = unat (s - d) + j"
      using eq by (simp only: not_le mod_less)
    with c ks show False by linarith
  qed
  have "unat (d - s) = 2 ^ LENGTH(64) - unat (s - d)"
  proof -
    have "s \<noteq> d" using ks assms(3) by auto
    then have "unat s \<noteq> unat d" by (simp add: word_unat_eq_iff)
    moreover have "unat s < 2 ^ LENGTH(64)" "unat d < 2 ^ LENGTH(64)" by (rule unsigned_less)+
    ultimately show ?thesis
      by (cases "unat s \<le> unat d") (simp_all add: unat_sub_if' [of s d] unat_sub_if' [of d s])
  qed
  with ge nd assms(2) show False by linarith
qed

lemma load_store_disjoint:
  assumes "disjoint_regions d (length bs) s n"
  shows "load_bytes (store_bytes m d bs) s n = load_bytes m s n"
proof (rule nth_equalityI)
  fix i
  assume "i < length (load_bytes (store_bytes m d bs) s n)"
  then have i: "i < n" by simp
  have "length bs \<le> unat (s + of_nat i - d)"
  proof (cases "bs = []")
    case False
    then show ?thesis using disjoint_regions_offset [OF assms i, of 0] by simp
  qed simp
  then show "load_bytes (store_bytes m d bs) s n ! i = load_bytes m s n ! i"
    using i by (simp add: store_bytes_outside)
qed simp

text \<open>A store behind a window leaves the window as it is.\<close>

lemma load_before_store:
  fixes d :: ptr
  assumes "k + length bs \<le> 2 ^ 64"
  shows "load_bytes (store_bytes m (d + of_nat k) bs) d k = load_bytes m d k"
proof (rule nth_equalityI)
  fix i
  assume "i < length (load_bytes (store_bytes m (d + of_nat k) bs) d k)"
  then have i: "i < k" by simp
  have "length bs \<le> unat (d + of_nat i - (d + of_nat k))"
  proof -
    have u: "unat (of_nat i :: ptr) = i" if "i < 2 ^ LENGTH(64)" using that by (rule unat_of_nat_less)
    show ?thesis
    proof (cases "k < 2 ^ LENGTH(64)")
      case True
      have "d + of_nat i - (d + of_nat k) = (of_nat i :: ptr) - of_nat k" by simp
      moreover have "unat ((of_nat i :: ptr) - of_nat k) = i + 2 ^ LENGTH(64) - k"
        using i True by (simp only: unat_diff_of_nat u [OF less_trans [OF i True]]) simp
      ultimately show ?thesis using assms i by simp
    next
      case False
      then show ?thesis using assms by simp
    qed
  qed
  then show "load_bytes (store_bytes m (d + of_nat k) bs) d k ! i = load_bytes m d k ! i"
    using i by (simp add: store_bytes_outside)
qed simp

lemma load_after_append:
  fixes d :: ptr
  assumes "k + n \<le> 2 ^ 64"
  shows "load_bytes (memcpy m (d + of_nat k) s n) d (k + n) = load_bytes m d k @ load_bytes m s n"
  using assms by (simp add: memcpy_def load_bytes_add load_before_store load_store_same)

text \<open>
  Copying a run in pieces: after the first \<open>k\<close> bytes are in place, copying the
  piece from \<open>j\<close> to \<open>j + w\<close>, which may overlap what is already there, leaves the
  first \<open>j + w\<close> bytes in place.
\<close>

lemma memcpy_extend:
  fixes d s :: ptr
  assumes "disjoint_regions d N s N" "N \<le> 2 ^ 64"
    and "j \<le> k" "k \<le> j + w" "j + w \<le> N"
  shows "store_bytes (memcpy m d s k) (d + of_nat j) (load_bytes (memcpy m d s k) (s + of_nat j) w)
    = memcpy m d s (j + w)"
proof -
  have "disjoint_regions d k s (j + w)"
    using assms by (auto simp: disjoint_regions_def)
  then have "load_bytes (memcpy m d s k) s (j + w) = load_bytes m s (j + w)"
    by (simp add: memcpy_def load_store_disjoint)
  then have "drop j (load_bytes (memcpy m d s k) s (j + w)) = drop j (load_bytes m s (j + w))"
    by simp
  then have src: "load_bytes (memcpy m d s k) (s + of_nat j) w = load_bytes m (s + of_nat j) w"
    by simp
  have "store_bytes (memcpy m d s k) (d + of_nat j) (load_bytes m (s + of_nat j) w)
      = store_bytes m d (take j (load_bytes m s k) @ load_bytes m (s + of_nat j) w)"
    unfolding memcpy_def using assms by (intro store_bytes_overlap) auto
  also have "\<dots> = memcpy m d s (j + w)"
    using assms by (simp add: memcpy_def load_bytes_add)
  finally show ?thesis using src by simp
qed

section \<open>Little-endian integers\<close>

definition le16 :: "u16 \<Rightarrow> u8 list" where
  "le16 v = [ucast v, ucast (drop_bit 8 v)]"

definition le32 :: "u32 \<Rightarrow> u8 list" where
  "le32 v = map (\<lambda>i. ucast (drop_bit (8 * i) v)) [0..<4]"

definition le64 :: "u64 \<Rightarrow> u8 list" where
  "le64 v = map (\<lambda>i. ucast (drop_bit (8 * i) v)) [0..<8]"

definition of_le16 :: "u8 list \<Rightarrow> u16" where
  "of_le16 bs = ucast (bs ! 0) OR push_bit 8 (ucast (bs ! 1))"

definition of_le32 :: "u8 list \<Rightarrow> u32" where
  "of_le32 bs = ucast (bs ! 0) OR push_bit 8 (ucast (bs ! 1)) OR push_bit 16 (ucast (bs ! 2))
     OR push_bit 24 (ucast (bs ! 3))"

definition of_le64 :: "u8 list \<Rightarrow> u64" where
  "of_le64 bs = ucast (bs ! 0) OR push_bit 8 (ucast (bs ! 1)) OR push_bit 16 (ucast (bs ! 2))
     OR push_bit 24 (ucast (bs ! 3)) OR push_bit 32 (ucast (bs ! 4)) OR push_bit 40 (ucast (bs ! 5))
     OR push_bit 48 (ucast (bs ! 6)) OR push_bit 56 (ucast (bs ! 7))"

lemma length_le [simp]:
  "length (le16 a) = 2" "length (le32 b) = 4" "length (le64 c) = 8"
  by (simp_all add: le16_def le32_def le64_def)

lemma bit_byte_at:
  fixes v :: "'a::len word"
  shows "bit (push_bit k (ucast (ucast (drop_bit k v) :: u8)) :: 'a word) n
    \<longleftrightarrow> k \<le> n \<and> n < k + 8 \<and> bit v n"
  using bit_imp_le_length [of v n] by (auto simp: bit_simps)

lemma bit_byte_0:
  fixes v :: "'a::len word"
  shows "bit (ucast (ucast v :: u8) :: 'a word) n \<longleftrightarrow> n < 8 \<and> bit v n"
  using bit_byte_at [of 0 v n] by simp

lemma of_le16_le16 [simp]: "of_le16 (le16 v @ r) = v"
  by (rule bit_word_eqI) (auto simp: of_le16_def le16_def bit_or_iff bit_byte_at bit_byte_0)

lemma of_le32_le32 [simp]: "of_le32 (le32 v @ r) = v"
  by (rule bit_word_eqI) (auto simp: of_le32_def le32_def bit_or_iff bit_byte_at bit_byte_0 upt_rec)

lemma of_le64_le64 [simp]: "of_le64 (le64 v @ r) = v"
  by (rule bit_word_eqI) (auto simp: of_le64_def le64_def bit_or_iff bit_byte_at bit_byte_0 upt_rec)

text \<open>The value of a word put together from two shorter ones.\<close>

lemma unat_or_push:
  fixes a :: "'a::len word" and b :: "'b::len word"
  assumes "LENGTH('a) + LENGTH('b) \<le> LENGTH('c::len)"
  shows "unat (ucast a OR push_bit LENGTH('a) (ucast b) :: 'c word) = unat a + 2 ^ LENGTH('a) * unat b"
proof -
  let ?a = "ucast a :: 'c word" and ?b = "ucast b :: 'c word"
  have u: "unat a < 2 ^ LENGTH('a)" "unat b < 2 ^ LENGTH('b)" by (rule unsigned_less)+
  moreover have "(2::nat) ^ LENGTH('a) \<le> 2 ^ LENGTH('c)" "(2::nat) ^ LENGTH('b) \<le> 2 ^ LENGTH('c)"
    using assms by simp_all
  ultimately have "unat a < 2 ^ LENGTH('c)" "unat b < 2 ^ LENGTH('c)" by linarith+
  then have ab: "unat ?a = unat a" "unat ?b = unat b"
    by (simp_all add: unsigned_ucast_eq take_bit_nat_eq_self)
  have "2 ^ LENGTH('a) * Suc (unat b) \<le> 2 ^ LENGTH('a) * 2 ^ LENGTH('b)"
    using u(2) by (intro mult_le_mono2 Suc_leI)
  also have "\<dots> \<le> 2 ^ LENGTH('c)" using assms by (simp flip: power_add)
  finally have "2 ^ LENGTH('a) + 2 ^ LENGTH('a) * unat b \<le> 2 ^ LENGTH('c)"
    by (simp only: mult_Suc_right)
  then have less: "unat a + 2 ^ LENGTH('a) * unat b < 2 ^ LENGTH('c)"
    using u(1) by linarith
  have "?a OR push_bit LENGTH('a) ?b = ?a + push_bit LENGTH('a) ?b"
    by (rule disjunctive_add [symmetric]) (auto simp: bit_simps dest: bit_imp_le_length)
  moreover have "unat (push_bit LENGTH('a) ?b) = 2 ^ LENGTH('a) * unat b"
  proof -
    have "push_bit LENGTH('a) ?b = of_nat (2 ^ LENGTH('a) * unat b)"
      by (simp add: push_bit_eq_mult ac_simps)
    then show ?thesis using less by (simp only: unat_of_nat_less)
  qed
  ultimately show ?thesis using ab less by (simp add: unat_word_ariths)
qed

lemma of_le16_value: "unat (of_le16 bs) = unat (bs ! 0) + 256 * unat (bs ! 1)"
  using unat_or_push [of "bs ! 0" "bs ! 1", where ?'c = 16] by (simp add: of_le16_def)

lemma ucast_byte:
  fixes b :: u8
  assumes "k + 8 \<le> LENGTH('b::len)" "LENGTH('b) \<le> LENGTH('c::len)"
  shows "ucast (push_bit k (ucast b) :: 'b word) = (push_bit k (ucast b) :: 'c word)"
proof (rule bit_word_eqI)
  fix n
  assume "n < LENGTH('c)"
  have "bit b (n - k) \<Longrightarrow> n - k < 8" using bit_imp_le_length [of b "n - k"] by simp
  then show "bit (ucast (push_bit k (ucast b) :: 'b word) :: 'c word) n
      \<longleftrightarrow> bit (push_bit k (ucast b) :: 'c word) n"
    using assms \<open>n < LENGTH('c)\<close> by (auto simp: bit_unsigned_iff bit_push_bit_iff)
qed

lemma ucast_byte_0:
  fixes b :: u8
  assumes "8 \<le> LENGTH('b::len)" "LENGTH('b) \<le> LENGTH('c::len)"
  shows "ucast (ucast b :: 'b word) = (ucast b :: 'c word)"
  using ucast_byte [of 0, where ?'b = 'b and ?'c = 'c] assms by simp

lemma of_le32_halves: "of_le32 bs = ucast (of_le16 bs) OR push_bit 16 (ucast (of_le16 (drop 2 bs)))"
  if "4 \<le> length bs"
  using that
  by (simp add: of_le32_def of_le16_def unsigned_or_eq ucast_byte ucast_byte_0 push_bit_or or.assoc)

lemma of_le64_halves: "of_le64 bs = ucast (of_le32 bs) OR push_bit 32 (ucast (of_le32 (drop 4 bs)))"
  if "8 \<le> length bs"
  using that
  by (simp add: of_le64_def of_le32_def unsigned_or_eq ucast_byte ucast_byte_0 push_bit_or or.assoc)

lemma of_le32_value:
  "4 \<le> length bs \<Longrightarrow> unat (of_le32 bs) = unat (of_le16 bs) + 65536 * unat (of_le16 (drop 2 bs))"
  using unat_or_push [of "of_le16 bs" "of_le16 (drop 2 bs)", where ?'c = 32] by (simp add: of_le32_halves)

lemma of_le64_value:
  "8 \<le> length bs \<Longrightarrow> unat (of_le64 bs) = unat (of_le32 bs) + 2 ^ 32 * unat (of_le32 (drop 4 bs))"
  using unat_or_push [of "of_le32 bs" "of_le32 (drop 4 bs)", where ?'c = 64] by (simp add: of_le64_halves)

section \<open>Loads and stores of the scalar types\<close>

definition ld16 :: "mem \<Rightarrow> ptr \<Rightarrow> u16" where
  "ld16 m p = of_le16 (load_bytes m p 2)"

definition ld32 :: "mem \<Rightarrow> ptr \<Rightarrow> u32" where
  "ld32 m p = of_le32 (load_bytes m p 4)"

definition ld64 :: "mem \<Rightarrow> ptr \<Rightarrow> u64" where
  "ld64 m p = of_le64 (load_bytes m p 8)"

definition st8 :: "mem \<Rightarrow> ptr \<Rightarrow> u8 \<Rightarrow> mem" where
  "st8 m p v = store_bytes m p [v]"

definition st16 :: "mem \<Rightarrow> ptr \<Rightarrow> u16 \<Rightarrow> mem" where
  "st16 m p v = store_bytes m p (le16 v)"

definition st32 :: "mem \<Rightarrow> ptr \<Rightarrow> u32 \<Rightarrow> mem" where
  "st32 m p v = store_bytes m p (le32 v)"

definition st64 :: "mem \<Rightarrow> ptr \<Rightarrow> u64 \<Rightarrow> mem" where
  "st64 m p v = store_bytes m p (le64 v)"

lemmas scalar_defs = ld16_def ld32_def ld64_def st8_def st16_def st32_def st64_def

text \<open>Parts of two disjoint structures are disjoint.\<close>

lemma unat_diff_swap:
  fixes d s :: ptr
  assumes "s \<noteq> d"
  shows "unat (d - s) = 2 ^ LENGTH(64) - unat (s - d)"
proof -
  have "unat s \<noteq> unat d" using assms by (simp add: word_unat_eq_iff)
  moreover have "unat s < 2 ^ LENGTH(64)" "unat d < 2 ^ LENGTH(64)" by (rule unsigned_less)+
  ultimately show ?thesis
    by (cases "unat s \<le> unat d") (simp_all add: unat_sub_if' [of s d] unat_sub_if' [of d s])
qed

lemma part_distance:
  assumes "disjoint_regions d K s N" "unat i + k \<le> K" "unat j + n \<le> N" "0 < k" "0 < n"
  shows "k \<le> unat ((s + j) - (d + i))"
proof -
  have K: "K \<le> unat (s - d)" and N: "N \<le> unat (d - s)"
    using assms(1) by (auto simp: disjoint_regions_def)
  have "s \<noteq> d" using K assms(2,4) by auto
  then have "unat (s - d) + N \<le> 2 ^ LENGTH(64)"
    using N unat_diff_swap [of s d] unat_bound [of "s - d"] by linarith
  then have "unat (s - d) + unat j < 2 ^ LENGTH(64)" using assms(3,5) by linarith
  then have sum: "unat (s - d + j) = unat (s - d) + unat j" by (simp only: unat_word_ariths(1) mod_less)
  have "unat i \<le> unat (s - d + j)" using sum K assms(2) by linarith
  then have "unat (s - d + j - i) = unat (s - d) + unat j - unat i"
    using sum by (simp only: unat_sub_if' if_True)
  moreover have "(s + j) - (d + i) = s - d + j - i" by simp
  ultimately have "unat ((s + j) - (d + i)) = unat (s - d) + unat j - unat i" by (simp only:)
  then show ?thesis using K assms(2) by linarith
qed

lemma disjoint_parts:
  assumes "disjoint_regions d K s N"
  shows "unat i + k \<le> K \<Longrightarrow> unat j + n \<le> N \<Longrightarrow> 0 < k \<Longrightarrow> 0 < n \<Longrightarrow> disjoint_regions (d + i) k (s + j) n"
    and "k \<le> K \<Longrightarrow> unat j + n \<le> N \<Longrightarrow> 0 < k \<Longrightarrow> 0 < n \<Longrightarrow> disjoint_regions d k (s + j) n"
    and "unat i + k \<le> K \<Longrightarrow> n \<le> N \<Longrightarrow> 0 < k \<Longrightarrow> 0 < n \<Longrightarrow> disjoint_regions (d + i) k s n"
    and "k \<le> K \<Longrightarrow> n \<le> N \<Longrightarrow> disjoint_regions d k s n"
proof -
  have all: "disjoint_regions (d + i) k (s + j) n"
    if "unat i + k \<le> K" "unat j + n \<le> N" "0 < k" "0 < n" for i j :: ptr
    using part_distance [OF assms that] part_distance [OF disjoint_regions_sym [THEN iffD1, OF assms] that(2,1,4,3)]
    by (simp only: disjoint_regions_def simp_thms)
  show "unat i + k \<le> K \<Longrightarrow> unat j + n \<le> N \<Longrightarrow> 0 < k \<Longrightarrow> 0 < n \<Longrightarrow> disjoint_regions (d + i) k (s + j) n"
    by (rule all)
  show "k \<le> K \<Longrightarrow> unat j + n \<le> N \<Longrightarrow> 0 < k \<Longrightarrow> 0 < n \<Longrightarrow> disjoint_regions d k (s + j) n"
    using all [of 0 j] by simp
  show "unat i + k \<le> K \<Longrightarrow> n \<le> N \<Longrightarrow> 0 < k \<Longrightarrow> 0 < n \<Longrightarrow> disjoint_regions (d + i) k s n"
    using all [of i 0] by simp
  show "k \<le> K \<Longrightarrow> n \<le> N \<Longrightarrow> disjoint_regions d k s n"
    using assms by (auto simp: disjoint_regions_def)
qed

text \<open>Loads after stores at fixed distances, as the accesses to the fields of a structure are.\<close>

named_theorems field_access

lemma load_st_same [field_access]:
  "load_bytes (st8 m p v8) p (Suc 0) = [v8]"
  "load_bytes (st16 m p v16) p 2 = le16 v16"
  "load_bytes (st32 m p v32) p 4 = le32 v32"
  "load_bytes (st64 m p v64) p 8 = le64 v64"
  by (simp_all add: scalar_defs load_store_same)

lemma byte_st_same [field_access]: "st8 m p v8 p = v8"
  by (simp add: st8_def store_bytes_def)

lemma load_memcpy_same [field_access]: "n \<le> 2 ^ 64 \<Longrightarrow> load_bytes (memcpy m d s n) d n = load_bytes m s n"
  by (simp add: memcpy_def load_store_same)

lemma load_st_disjoint [field_access]:
  "disjoint_regions p 1 q n \<Longrightarrow> load_bytes (st8 m p v8) q n = load_bytes m q n"
  "disjoint_regions p 2 q n \<Longrightarrow> load_bytes (st16 m p v16) q n = load_bytes m q n"
  "disjoint_regions p 4 q n \<Longrightarrow> load_bytes (st32 m p v32) q n = load_bytes m q n"
  "disjoint_regions p 8 q n \<Longrightarrow> load_bytes (st64 m p v64) q n = load_bytes m q n"
  "disjoint_regions p k q n \<Longrightarrow> load_bytes (memcpy m p s k) q n = load_bytes m q n"
  by (simp_all add: scalar_defs memcpy_def load_store_disjoint)

lemma byte_eq_load: "m p = hd (load_bytes m p (Suc 0))"
  by (simp add: load_bytes_def)

lemma byte_st_disjoint [field_access]:
  "disjoint_regions p 1 q (Suc 0) \<Longrightarrow> st8 m p v8 q = m q"
  "disjoint_regions p 2 q (Suc 0) \<Longrightarrow> st16 m p v16 q = m q"
  "disjoint_regions p 4 q (Suc 0) \<Longrightarrow> st32 m p v32 q = m q"
  "disjoint_regions p 8 q (Suc 0) \<Longrightarrow> st64 m p v64 q = m q"
  "disjoint_regions p k q (Suc 0) \<Longrightarrow> memcpy m p s k q = m q"
  by (simp_all only: byte_eq_load load_st_disjoint)

lemma ld_le [simp]:
  "of_le16 (le16 v16) = v16" "of_le32 (le32 v32) = v32" "of_le64 (le64 v64) = v64"
  using of_le16_le16 [of v16 "[]"] of_le32_le32 [of v32 "[]"] of_le64_le64 [of v64 "[]"] by simp_all

lemma le32_of_le32:
  assumes "length bs = 4"
  shows "le32 (of_le32 bs) = bs"
proof -
  obtain a b c d where bs: "bs = [a, b, c, d]"
    using assms by (auto simp: length_Suc_conv eval_nat_numeral)
  have "bit (le32 (of_le32 bs) ! i) n = bit (bs ! i) n" if "i < 4" for i n
  proof -
    have "i = 0 \<or> i = 1 \<or> i = 2 \<or> i = 3" using that by auto
    then show ?thesis
      by (elim disjE) (auto simp: le32_def of_le32_def bs upt_rec bit_simps dest: bit_imp_le_length)
  qed
  then show ?thesis
    using assms by (intro nth_equalityI) (auto simp: bit_eq_iff)
qed

end
