(* ===== verification/Mempool.thy ===== *)
theory Mempool
  imports Memory
begin

text \<open>
  The preallocated item pools of mempool.c and inc/base/mempool.h, behind the
  interface every client of a pool relies on: a stack of free items, a count of
  the items in use, allocation from the top of the stack and release onto it.
\<close>

section \<open>The interface of an item allocator\<close>

text \<open>
  One step of the clients of an allocator: an allocation that succeeds adds the
  item to those the clients hold, an allocation that returns NULL changes
  nothing, and a release gives back one of the items held.
\<close>

inductive pool_step ::
  "('p \<Rightarrow> (ptr \<times> 'p) res) \<Rightarrow> ('p \<Rightarrow> ptr \<Rightarrow> 'p res) \<Rightarrow> 'p \<times> ptr list \<Rightarrow> 'p \<times> ptr list \<Rightarrow> bool"
  for al fr where
  taken: "al p = Inr (x, p') \<Longrightarrow> x \<noteq> NULL \<Longrightarrow> pool_step al fr (p, held) (p', x # held)"
| refused: "al p = Inr (NULL, p') \<Longrightarrow> pool_step al fr (p, held) (p', held)"
| given_back: "x \<in> set held \<Longrightarrow> fr p x = Inr p' \<Longrightarrow> pool_step al fr (p, held) (p', remove1 x held)"

inductive_cases pool_stepE: "pool_step al fr (p, held) (p', held')"

locale allocator =
  fixes alloc :: "'p \<Rightarrow> (ptr \<times> 'p) res"
    and free :: "'p \<Rightarrow> ptr \<Rightarrow> 'p res"
    and free_stack :: "'p \<Rightarrow> ptr list"
    and in_use :: "'p \<Rightarrow> nat"
    and inv :: "'p \<Rightarrow> bool"
  assumes alloc_empty: "inv p \<Longrightarrow> free_stack p = [] \<Longrightarrow> alloc p = Inr (NULL, p)"
    and alloc_top: "inv p \<Longrightarrow> free_stack p = x # xs \<Longrightarrow>
      \<exists>p'. alloc p = Inr (x, p') \<and> free_stack p' = xs \<and> in_use p' = Suc (in_use p) \<and> inv p'"
    and free_push: "inv p \<Longrightarrow> 0 < in_use p \<Longrightarrow>
      \<exists>p'. free p x = Inr p' \<and> free_stack p' = x # free_stack p \<and> Suc (in_use p') = in_use p \<and> inv p'"
begin

lemma alloc_cases:
  assumes "inv p" "alloc p = Inr (x, p')"
  obtains "free_stack p = []" "x = NULL" "p' = p"
    | "free_stack p = x # free_stack p'" "in_use p' = Suc (in_use p)" "inv p'"
proof (cases "free_stack p")
  case Nil
  then show thesis using alloc_empty [OF assms(1)] assms(2) that by auto
next
  case (Cons y ys)
  then show thesis using alloc_top [OF assms(1) Cons] assms(2) that by auto
qed

lemma alloc_total: "inv p \<Longrightarrow> \<exists>x p'. alloc p = Inr (x, p')"
  using alloc_empty alloc_top by (cases "free_stack p") blast+

text \<open>What holds between the pool and the items its clients hold.\<close>

definition consistent :: "ptr list \<Rightarrow> 'p \<times> ptr list \<Rightarrow> bool" where
  "consistent items s \<longleftrightarrow> (case s of (p, held) \<Rightarrow>
     inv p \<and> in_use p = length held \<and> mset (free_stack p) + mset held = mset items)"

lemma step_consistent:
  assumes "pool_step alloc free (p, held) (p', held')" "consistent items (p, held)"
    and "NULL \<notin> set items"
  shows "consistent items (p', held')"
proof (rule pool_stepE [OF assms(1)])
  fix x assume step: "held' = x # held" "alloc p = Inr (x, p')" "x \<noteq> NULL"
  have "inv p" using assms(2) by (simp add: consistent_def)
  then show ?thesis
  proof (rule alloc_cases [OF _ step(2)])
    assume "free_stack p = x # free_stack p'" "in_use p' = Suc (in_use p)" "inv p'"
    then show ?thesis using step(1) assms(2) by (simp add: consistent_def)
  qed (use step(3) in simp)
next
  assume step: "held' = held" "alloc p = Inr (NULL, p')"
  have "inv p" using assms(2) by (simp add: consistent_def)
  then show ?thesis
  proof (rule alloc_cases [OF _ step(2)])
    assume "free_stack p = NULL # free_stack p'"
    then have "mset items = add_mset NULL (mset (free_stack p') + mset held)"
      using assms(2) by (simp add: consistent_def)
    then have "NULL \<in># mset items" by simp
    then show ?thesis using assms(3) by simp
  qed (use step assms(2) in auto)
next
  fix x assume step: "held' = remove1 x held" "x \<in> set held" "free p x = Inr p'"
  have p: "inv p" "in_use p = length held" using assms(2) by (auto simp: consistent_def)
  then have "0 < in_use p" using step(2) by (cases held) auto
  then obtain q where q: "free p x = Inr q" "free_stack q = x # free_stack p"
    "Suc (in_use q) = in_use p" "inv q" using free_push [OF p(1)] by blast
  then have "q = p'" using step(3) by simp
  have held: "mset held = add_mset x (mset held')" "length held = Suc (length held')"
    using step(1,2) by (simp_all add: length_remove1) (cases held; simp)
  have "mset (free_stack p) + mset held = mset items" using assms(2) by (simp add: consistent_def)
  then have "mset (free_stack p') + mset held' = mset items"
    using q(2) held(1) \<open>q = p'\<close> by simp
  then show ?thesis using q(3,4) p held(2) \<open>q = p'\<close> by (simp add: consistent_def)
qed

lemma steps_consistent:
  assumes "(pool_step alloc free)\<^sup>*\<^sup>* s s'" "consistent items s" "NULL \<notin> set items"
  shows "consistent items s'"
  using assms(1,2)
proof (induction rule: rtranclp_induct)
  case (step t u)
  then show ?case using step_consistent assms(3) by (cases t; cases u) blast
qed

lemma conservation:
  assumes "(pool_step alloc free)\<^sup>*\<^sup>* (p0, []) (p, held)"
    and "inv p0" "in_use p0 = 0" "NULL \<notin> set (free_stack p0)"
  shows "mset (free_stack p) + mset held = mset (free_stack p0) \<and> in_use p = length held"
  using steps_consistent [OF assms(1), of "free_stack p0"] assms(2-)
  by (simp add: consistent_def)

lemma held_distinct:
  assumes "(pool_step alloc free)\<^sup>*\<^sup>* (p0, []) (p, held)"
    and "inv p0" "in_use p0 = 0" "NULL \<notin> set (free_stack p0)" "distinct (free_stack p0)"
  shows "distinct held \<and> set held \<inter> set (free_stack p) = {}
    \<and> set held \<union> set (free_stack p) = set (free_stack p0)"
proof -
  have ms: "mset (free_stack p @ held) = mset (free_stack p0)"
    using conservation [OF assms(1-4)] by simp
  then have "distinct (free_stack p @ held)" using assms(5) mset_eq_imp_distinct_iff by blast
  moreover have "set (free_stack p @ held) = set (free_stack p0)" using ms by (rule mset_eq_setD)
  ultimately show ?thesis by auto
qed

lemma release_reuses:
  assumes "(pool_step alloc free)\<^sup>*\<^sup>* (p0, []) (p, held)"
    and "inv p0" "in_use p0 = 0" "NULL \<notin> set (free_stack p0)" "x \<in> set held"
  shows "\<exists>p' p''. free p x = Inr p' \<and> alloc p' = Inr (x, p'')"
proof -
  have "consistent (free_stack p0) (p, held)"
    using steps_consistent [OF assms(1), of "free_stack p0"] assms(2-4)
    by (simp add: consistent_def)
  then have "inv p" "in_use p = length held" by (auto simp: consistent_def)
  moreover have "held \<noteq> []" using assms(5) by auto
  ultimately obtain p' where "free p x = Inr p'" "free_stack p' = x # free_stack p" "inv p'"
    using free_push [of p x] by auto
  then show ?thesis using alloc_top [of p' x] by blast
qed

end

section \<open>The pools of mempool.c\<close>

text \<open>
  \<open>mp_free_items\<close> is the array that \<open>calloc\<close> returned, as a list of its
  entries; \<open>free\<close> leaves no entry that could be read.
\<close>

record mempool =
  mp_free_items :: "ptr list"
  allocated :: u64
  capacity :: u64
  buf :: ptr
  len :: u64
  pgsize :: u64
  item_len :: u64

definition zero_mempool :: mempool where
  "zero_mempool = \<lparr>mp_free_items = [], allocated = 0, capacity = 0, buf = NULL, len = 0,
     pgsize = 0, item_len = 0\<rparr>"

definition mempool_alloc :: "mempool \<Rightarrow> (ptr \<times> mempool) res" where
  "mempool_alloc m = (if capacity m \<le> allocated m then Inr (NULL, m)
     else bindE (nthE (mp_free_items m) (unat (allocated m))) (\<lambda>item.
       Inr (item, m\<lparr>allocated := allocated m + 1\<rparr>)))"

definition mempool_free :: "mempool \<Rightarrow> ptr \<Rightarrow> mempool res" where
  "mempool_free m item = (let a = allocated m - 1 in
     bindE (updE (mp_free_items m) (unat a) item) (\<lambda>fi.
       Inr (m\<lparr>mp_free_items := fi, allocated := a\<rparr>)))"

definition mempool_populate ::
  "bool \<Rightarrow> mempool \<Rightarrow> ptr \<Rightarrow> u64 \<Rightarrow> u64 \<Rightarrow> u64 \<Rightarrow> (int \<times> mempool) res" where
  "mempool_populate calloc_ok m b l pg il =
     bindE (guardE DivByZero (il \<noteq> 0 \<and> pg \<noteq> 0)) (\<lambda>_.
     let items_per_page = pg div il;
         nr_pages = l div pg in
     if \<not> calloc_ok then Inr (- ENOMEM, m\<lparr>mp_free_items := []\<rparr>)
     else bindE (for_int 0 (unat nr_pages) (\<lambda>i. for_int 0 (unat items_per_page) (\<lambda>j m.
            bindE (updE (mp_free_items m) (unat (capacity m)) (b + pg * of_nat i + il * of_nat j)) (\<lambda>fi.
              Inr (m\<lparr>mp_free_items := fi, capacity := capacity m + 1\<rparr>))))
            (m\<lparr>mp_free_items := replicate (unat (nr_pages * items_per_page)) NULL\<rparr>)) (\<lambda>m.
          Inr (0, m)))"

definition mempool_create ::
  "bool \<Rightarrow> mempool \<Rightarrow> ptr \<Rightarrow> u64 \<Rightarrow> u64 \<Rightarrow> u64 \<Rightarrow> (int \<times> mempool) res" where
  "mempool_create calloc_ok m b l pg il =
     (if il = 0 \<or> \<not> is_power_of_two pg \<or> l mod pg \<noteq> 0 then Inr (- EINVAL, m)
      else mempool_populate calloc_ok
        (m\<lparr>allocated := 0, buf := b, len := l, pgsize := pg, item_len := il\<rparr>) b l pg il)"

definition mempool_destroy :: "mempool \<Rightarrow> mempool" where
  "mempool_destroy m = m\<lparr>mp_free_items := []\<rparr>"

text \<open>The checks a debug build adds to every allocation and release.\<close>

definition mempool_common_check :: "mempool \<Rightarrow> ptr \<Rightarrow> unit res" where
  "mempool_common_check m item =
     bindE (guardE Abort (buf m \<le> item \<and> item < buf m + len m)) (\<lambda>_.
     bindE (guardE DivByZero (item_len m \<noteq> 0)) (\<lambda>_.
     guardE Abort ((buf m AND (pgsize m - 1)) mod item_len m = 0)))"

definition mempool_alloc_debug_check :: "mempool \<Rightarrow> ptr \<Rightarrow> mem \<Rightarrow> mem res" where
  "mempool_alloc_debug_check m item h = bindE (mempool_common_check m item) (\<lambda>_.
     Inr (memset h item 0xAB (unat (item_len m))))"

definition mempool_free_debug_check :: "mempool \<Rightarrow> ptr \<Rightarrow> mem \<Rightarrow> mem res" where
  "mempool_free_debug_check m item h = bindE (mempool_common_check m item) (\<lambda>_.
     Inr (memset h item 0xCD (unat (item_len m))))"

subsection \<open>Allocation and release implement the interface\<close>

definition pool_free_stack :: "mempool \<Rightarrow> ptr list" where
  "pool_free_stack m = drop (unat (allocated m)) (mp_free_items m)"

definition pool_inv :: "mempool \<Rightarrow> bool" where
  "pool_inv m \<longleftrightarrow> allocated m \<le> capacity m \<and> length (mp_free_items m) = unat (capacity m)"

lemma pool_alloc_top:
  assumes "pool_inv m" "pool_free_stack m = x # xs"
  shows "\<exists>m'. mempool_alloc m = Inr (x, m') \<and> pool_free_stack m' = xs
    \<and> unat (allocated m') = Suc (unat (allocated m)) \<and> pool_inv m'"
proof -
  have len: "unat (allocated m) < length (mp_free_items m)"
    using assms(2) unfolding pool_free_stack_def by (metis drop_all list.distinct(1) not_le)
  then have lt: "allocated m < capacity m"
    using assms(1) by (simp add: pool_inv_def word_less_nat_alt)
  have split: "mp_free_items m ! unat (allocated m) # drop (Suc (unat (allocated m))) (mp_free_items m) = x # xs"
    using len assms(2) by (simp add: pool_free_stack_def Cons_nth_drop_Suc)
  show ?thesis
    using assms(1) len lt split unat_lt_imp_Suc [OF lt]
    by (simp add: mempool_alloc_def pool_inv_def pool_free_stack_def word_le_nat_alt)
qed

lemma pool_free_push:
  assumes "pool_inv m" "0 < unat (allocated m)"
  shows "\<exists>m'. mempool_free m x = Inr m' \<and> pool_free_stack m' = x # pool_free_stack m
    \<and> Suc (unat (allocated m')) = unat (allocated m) \<and> pool_inv m'"
proof -
  obtain k where k: "unat (allocated m) = Suc k" using assms(2) gr0_implies_Suc by blast
  then have a: "unat (allocated m - 1) = k" by (subst unat_minus_one) auto
  have len: "k < length (mp_free_items m)"
    using assms(1) k by (simp add: pool_inv_def word_le_nat_alt)
  have "drop k ((mp_free_items m)[k := x]) = x # drop (Suc k) (mp_free_items m)"
    using len by (simp add: drop_update_swap Cons_nth_drop_Suc [symmetric])
  then show ?thesis
    using assms(1) len k a
    by (simp add: mempool_free_def Let_def pool_inv_def pool_free_stack_def word_le_nat_alt)
qed

interpretation pool: allocator mempool_alloc mempool_free pool_free_stack "\<lambda>m. unat (allocated m)" pool_inv
proof unfold_locales
  fix m assume "pool_inv m" "pool_free_stack m = []"
  then show "mempool_alloc m = Inr (NULL, m)"
    by (simp add: mempool_alloc_def pool_inv_def pool_free_stack_def word_le_nat_alt)
qed (simp_all add: pool_alloc_top pool_free_push)

subsection \<open>The layout a pool is created with\<close>

definition item_addr :: "ptr \<Rightarrow> u64 \<Rightarrow> u64 \<Rightarrow> nat \<times> nat \<Rightarrow> ptr" where
  "item_addr b pg il ij = b + pg * of_nat (fst ij) + il * of_nat (snd ij)"

definition pool_items :: "ptr \<Rightarrow> u64 \<Rightarrow> u64 \<Rightarrow> u64 \<Rightarrow> ptr list" where
  "pool_items b l pg il =
     concat (map (\<lambda>i. map (\<lambda>j. item_addr b pg il (i, j)) [0..<unat (pg div il)]) [0..<unat (l div pg)])"

lemma pool_items_product:
  "pool_items b l pg il =
     map (item_addr b pg il) (List.product [0..<unat (l div pg)] [0..<unat (pg div il)])"
  by (simp add: pool_items_def product_concat_map map_concat comp_def)

lemma length_pool_items: "length (pool_items b l pg il) = unat (l div pg) * unat (pg div il)"
  by (simp add: pool_items_product)

definition push_item :: "ptr \<Rightarrow> mempool \<Rightarrow> mempool res" where
  "push_item x m = bindE (updE (mp_free_items m) (unat (capacity m)) x) (\<lambda>fi.
     Inr (m\<lparr>mp_free_items := fi, capacity := capacity m + 1\<rparr>))"

lemma push_items:
  assumes "unat (capacity m) + length xs \<le> length (mp_free_items m)"
    and "length (mp_free_items m) < 2 ^ LENGTH(64)"
  shows "foldE push_item xs m = Inr (m\<lparr>
      mp_free_items := take (unat (capacity m)) (mp_free_items m) @ xs
        @ drop (unat (capacity m) + length xs) (mp_free_items m),
      capacity := capacity m + of_nat (length xs)\<rparr>)"
  using assms
proof (induction xs arbitrary: m)
  case (Cons x xs)
  let ?c = "unat (capacity m)"
  let ?m = "m\<lparr>mp_free_items := (mp_free_items m)[?c := x], capacity := capacity m + 1\<rparr>"
  have lt: "?c < length (mp_free_items m)" using Cons.prems(1) by simp
  have c: "unat (capacity m + 1) = Suc ?c"
    using lt Cons.prems(2) by (simp add: unat_word_ariths)
  have "foldE push_item (x # xs) m = foldE push_item xs ?m"
    using lt by (simp add: push_item_def)
  also have "\<dots> = Inr (?m\<lparr>mp_free_items := take (Suc ?c) ((mp_free_items m)[?c := x]) @ xs
      @ drop (Suc ?c + length xs) ((mp_free_items m)[?c := x]),
      capacity := capacity m + 1 + of_nat (length xs)\<rparr>)"
    using Cons.IH [of ?m] Cons.prems c by simp
  also have "take (Suc ?c) ((mp_free_items m)[?c := x]) = take ?c (mp_free_items m) @ [x]"
    using lt by (simp add: take_Suc_conv_app_nth)
  also have "drop (Suc ?c + length xs) ((mp_free_items m)[?c := x])
      = drop (Suc ?c + length xs) (mp_free_items m)"
    by simp
  finally show ?case by (simp add: add.assoc)
qed simp

lemma mempool_populate_push:
  assumes "il \<noteq> 0" "pg \<noteq> 0" "unat (l div pg) \<le> INT_MAX" "unat (pg div il) \<le> INT_MAX"
  shows "mempool_populate True m b l pg il =
    bindE (foldE push_item (pool_items b l pg il)
      (m\<lparr>mp_free_items := replicate (unat ((l div pg) * (pg div il))) NULL\<rparr>)) (\<lambda>m. Inr (0, m))"
  using assms
  by (simp add: mempool_populate_def Let_def for_int_foldE pool_items_def foldE_concat foldE_map
      push_item_def [abs_def] item_addr_def)

lemma items_total_less:
  fixes l pg il :: u64
  assumes "il \<noteq> 0" "pg \<noteq> 0"
  shows "unat (l div pg) * unat (pg div il) \<le> unat l"
    and "unat ((l div pg) * (pg div il)) = unat (l div pg) * unat (pg div il)"
proof -
  have "unat (pg div il) \<le> unat pg" by (simp add: unat_div_distrib div_le_dividend)
  then have "unat (l div pg) * unat (pg div il) \<le> unat (l div pg) * unat pg" by (rule mult_le_mono2)
  also have "\<dots> \<le> unat l" by (simp add: unat_div_distrib)
  finally show "unat (l div pg) * unat (pg div il) \<le> unat l" .
  then show "unat ((l div pg) * (pg div il)) = unat (l div pg) * unat (pg div il)"
    by (simp only: unat_word_ariths mod_less le_less_trans [OF _ unsigned_less])
qed

lemma mempool_create_eq:
  assumes "il \<noteq> 0" "is_power_of_two pg" "l mod pg = 0" "capacity m = 0"
    and "unat (l div pg) \<le> INT_MAX" "unat (pg div il) \<le> INT_MAX"
  shows "mempool_create True m b l pg il = Inr (0, \<lparr>
    mp_free_items = pool_items b l pg il, allocated = 0,
    capacity = of_nat (length (pool_items b l pg il)),
    buf = b, len = l, pgsize = pg, item_len = il\<rparr>)"
proof -
  have pg: "pg \<noteq> 0" using assms(2) by (simp add: is_power_of_two_def)
  note n = items_total_less [OF assms(1) pg, of l]
  let ?m = "m\<lparr>allocated := 0, buf := b, len := l, pgsize := pg, item_len := il,
    mp_free_items := replicate (unat ((l div pg) * (pg div il))) NULL\<rparr>"
  have "unat (l div pg) * unat (pg div il) < 2 ^ LENGTH(64)"
    using n(1) unsigned_less [of l] by (rule le_less_trans)
  then have "foldE push_item (pool_items b l pg il) ?m = Inr (?m\<lparr>
      mp_free_items := pool_items b l pg il,
      capacity := of_nat (length (pool_items b l pg il))\<rparr>)"
    using assms(4) n(2) by (subst push_items) (simp_all add: length_pool_items)
  then show ?thesis
    using assms pg by (simp add: mempool_create_def mempool_populate_push)
qed

lemma item_addr_bounds:
  assumes "unat b + unat l \<le> 2 ^ LENGTH(64)"
    and "i < unat (l div pg)" "j < unat (pg div il)"
  shows "unat (item_addr b pg il (i, j)) = unat b + unat pg * i + unat il * j"
    and "unat il * j + unat il \<le> unat pg"
    and "unat pg * i + unat pg \<le> unat l"
proof -
  have "unat il * Suc j \<le> unat il * unat (pg div il)" using assms(3) by (intro mult_le_mono2) simp
  also have "\<dots> \<le> unat pg" by (simp add: unat_div_distrib)
  finally show page: "unat il * j + unat il \<le> unat pg" by simp
  have "unat pg * Suc i \<le> unat pg * unat (l div pg)" using assms(2) by (intro mult_le_mono2) simp
  also have "\<dots> \<le> unat l" by (simp add: unat_div_distrib)
  finally show buf: "unat pg * i + unat pg \<le> unat l" by simp
  have "0 < unat il"
  proof (rule ccontr)
    assume "\<not> 0 < unat il"
    then have "il = 0" by (simp add: unat_eq_zero)
    then show False using assms(3) by simp
  qed
  then have "unat b + unat pg * i + unat il * j < 2 ^ LENGTH(64)"
    using page buf assms(1) by linarith
  moreover have "item_addr b pg il (i, j) = of_nat (unat b + unat pg * i + unat il * j)"
    by (simp add: item_addr_def)
  ultimately show "unat (item_addr b pg il (i, j)) = unat b + unat pg * i + unat il * j"
    by (simp only: unat_of_nat_less)
qed

lemma mult_add_le:
  fixes a i i' r d :: nat
  assumes "i < i'" "r + d \<le> a"
  shows "a * i + r + d \<le> a * i'"
proof -
  have "a * Suc i \<le> a * i'" using assms(1) by (intro mult_le_mono2) simp
  then show ?thesis using assms(2) by simp
qed

lemma item_addr_apart:
  assumes "unat b + unat l \<le> 2 ^ LENGTH(64)"
    and "i < unat (l div pg)" "j < unat (pg div il)" "i' < unat (l div pg)" "j' < unat (pg div il)"
    and "(i, j) \<noteq> (i', j')"
  shows "unat (item_addr b pg il (i, j)) + unat il \<le> unat (item_addr b pg il (i', j'))
    \<or> unat (item_addr b pg il (i', j')) + unat il \<le> unat (item_addr b pg il (i, j))"
proof -
  note x = item_addr_bounds [OF assms(1,2,3)]
  note y = item_addr_bounds [OF assms(1,4,5)]
  consider "i < i'" | "i' < i" | "i = i'" "j < j'" | "i = i'" "j' < j"
    using assms(6) by fastforce
  then show ?thesis
  proof cases
    case 1
    then show ?thesis using mult_add_le [OF 1 x(2)] x y by linarith
  next
    case 2
    then show ?thesis using mult_add_le [OF 2 y(2)] x y by linarith
  next
    case 3
    then show ?thesis using mult_add_le [of j j' 0 "unat il" "unat il"] x y by simp
  next
    case 4
    then show ?thesis using mult_add_le [of j' j 0 "unat il" "unat il"] x y by simp
  qed
qed

lemma pool_itemsE:
  assumes "x \<in> set (pool_items b l pg il)"
  obtains i j where "i < unat (l div pg)" "j < unat (pg div il)" "x = item_addr b pg il (i, j)"
  using assms that by (auto simp: pool_items_product)

lemma pool_items_distinct:
  assumes "unat b + unat l \<le> 2 ^ LENGTH(64)" "il \<noteq> 0"
  shows "distinct (pool_items b l pg il)"
proof -
  have "inj_on (item_addr b pg il)
      (set (List.product [0..<unat (l div pg)] [0..<unat (pg div il)]))"
  proof (rule inj_onI)
    fix p q
    assume in_range: "p \<in> set (List.product [0..<unat (l div pg)] [0..<unat (pg div il)])"
      "q \<in> set (List.product [0..<unat (l div pg)] [0..<unat (pg div il)])"
      and eq: "item_addr b pg il p = item_addr b pg il q"
    have "0 < unat il" using assms(2) by (simp add: unat_gt_0)
    then show "p = q"
      using item_addr_apart [OF assms(1), of "fst p" pg "snd p" il "fst q" "snd q"] in_range eq
      by (cases p; cases q) auto
  qed
  then show ?thesis by (simp add: pool_items_product distinct_map distinct_product)
qed

text \<open>
  What the layout promises: items lie inside the buffer, do not overlap, and no
  item crosses from one page of the buffer into the next.
\<close>

definition well_laid_out :: "mempool \<Rightarrow> bool" where
  "well_laid_out m \<longleftrightarrow> (let xs = mp_free_items m in
     distinct xs \<and> length xs = unat (len m div pgsize m) * unat (pgsize m div item_len m)
     \<and> (\<forall>x \<in> set xs. unat (buf m) \<le> unat x \<and> unat x + unat (item_len m) \<le> unat (buf m) + unat (len m)
         \<and> (unat x - unat (buf m)) div unat (pgsize m)
             = (unat x + unat (item_len m) - 1 - unat (buf m)) div unat (pgsize m))
     \<and> (\<forall>x \<in> set xs. \<forall>y \<in> set xs. x \<noteq> y \<longrightarrow>
         unat x + unat (item_len m) \<le> unat y \<or> unat y + unat (item_len m) \<le> unat x))"

lemma item_within_page:
  fixes p r d i :: nat
  assumes "r + d \<le> p" "0 < d"
  shows "(p * i + r) div p = (p * i + r + d - 1) div p"
proof -
  have "(p * i + r) div p = i" using assms by (intro div_nat_eqI) auto
  moreover have "(p * i + (r + d - 1)) div p = i" using assms by (intro div_nat_eqI) auto
  moreover have "p * i + r + d - 1 = p * i + (r + d - 1)" using assms(2) by simp
  ultimately show ?thesis by simp
qed

lemma pool_items_laid_out:
  assumes "mp_free_items m = pool_items (buf m) (len m) (pgsize m) (item_len m)"
    and "unat (buf m) + unat (len m) \<le> 2 ^ LENGTH(64)" "item_len m \<noteq> 0"
  shows "well_laid_out m"
proof -
  let ?xs = "pool_items (buf m) (len m) (pgsize m) (item_len m)"
  have each: "unat (buf m) \<le> unat x \<and> unat x + unat (item_len m) \<le> unat (buf m) + unat (len m)
      \<and> (unat x - unat (buf m)) div unat (pgsize m)
        = (unat x + unat (item_len m) - 1 - unat (buf m)) div unat (pgsize m)"
    if x: "x \<in> set ?xs" for x
  proof -
    obtain i j where ij: "i < unat (len m div pgsize m)" "j < unat (pgsize m div item_len m)"
      "x = item_addr (buf m) (pgsize m) (item_len m) (i, j)" using x by (rule pool_itemsE)
    note a = item_addr_bounds [OF assms(2) ij(1,2)]
    have "0 < unat (item_len m)" using assms(3) by (simp add: unat_gt_0)
    then show ?thesis
      using a item_within_page [OF a(2), of i] ij(3) by (simp add: add.assoc)
  qed
  have apart: "unat x + unat (item_len m) \<le> unat y \<or> unat y + unat (item_len m) \<le> unat x"
    if x: "x \<in> set ?xs" and y: "y \<in> set ?xs" and ne: "x \<noteq> y" for x y
  proof -
    obtain i j where ij: "i < unat (len m div pgsize m)" "j < unat (pgsize m div item_len m)"
      "x = item_addr (buf m) (pgsize m) (item_len m) (i, j)" using x by (rule pool_itemsE)
    obtain i' j' where ij': "i' < unat (len m div pgsize m)" "j' < unat (pgsize m div item_len m)"
      "y = item_addr (buf m) (pgsize m) (item_len m) (i', j')" using y by (rule pool_itemsE)
    have "(i, j) \<noteq> (i', j')" using ij(3) ij'(3) ne by auto
    then show ?thesis unfolding ij(3) ij'(3)
      by (rule item_addr_apart [OF assms(2) ij(1,2) ij'(1,2)])
  qed
  show ?thesis
    unfolding well_laid_out_def Let_def assms(1)
    using each apart pool_items_distinct [OF assms(2,3)] by (simp add: length_pool_items)
qed

subsection \<open>What a pool promises\<close>

lemma pool_created:
  assumes "il \<noteq> 0" "is_power_of_two pg" "l mod pg = 0" "capacity m = 0"
    and "unat b + unat l \<le> 2 ^ 64" "unat (l div pg) \<le> INT_MAX" "unat (pg div il) \<le> INT_MAX"
  shows "\<exists>m'. mempool_create True m b l pg il = Inr (0, m') \<and> well_laid_out m' \<and> pool_inv m'
    \<and> allocated m' = 0 \<and> buf m' = b \<and> len m' = l \<and> pgsize m' = pg \<and> item_len m' = il"
proof -
  have pg: "pg \<noteq> 0" using assms(2) by (simp add: is_power_of_two_def)
  have "unat (l div pg) * unat (pg div il) < 2 ^ LENGTH(64)"
    using items_total_less(1) [OF assms(1) pg] unsigned_less [of l] by (rule le_less_trans)
  then have "unat (of_nat (length (pool_items b l pg il)) :: u64) = length (pool_items b l pg il)"
    by (simp only: length_pool_items unat_of_nat_less)
  then show ?thesis
    using assms by (simp add: mempool_create_eq pool_inv_def pool_items_laid_out)
qed

text \<open>
  C21. A pool created on a buffer of whole pages holds one entry for every
  item that fits into a page, for every page, and nothing is in use: the items
  are distinct, lie inside the buffer, do not overlap, and none straddles a page
  boundary, as the comment at the top of mempool.c asks for DMA.
\<close>

theorem mempool_create_layout:
  assumes "il \<noteq> 0" "is_power_of_two pg" "l mod pg = 0" "capacity m = 0"
    and "unat b + unat l \<le> 2 ^ 64" "unat (l div pg) \<le> INT_MAX" "unat (pg div il) \<le> INT_MAX"
  shows "\<exists>m'. mempool_create True m b l pg il = Inr (0, m') \<and> well_laid_out m' \<and> pool_inv m'
    \<and> allocated m' = 0 \<and> buf m' = b \<and> len m' = l \<and> pgsize m' = pg \<and> item_len m' = il"
  using assms by (rule pool_created)

lemma mempool_create_layout_witness:
  "\<exists>m'. mempool_create True zero_mempool 0x200000 0x400000 0x200000 0x600 = Inr (0, m') \<and> well_laid_out m' \<and> pool_inv m'
    \<and> allocated m' = 0 \<and> buf m' = 0x200000 \<and> len m' = 0x400000 \<and> pgsize m' = 0x200000 \<and> item_len m' = 0x600"
  by (rule mempool_create_layout) (simp_all add: is_power_of_two_def zero_mempool_def)

text \<open>
  C22. Whatever sequence of allocations and releases the clients of a freshly
  created pool run, every item is either free or held by exactly one client,
  the count of items in use is the number held, and releasing a held item never
  writes outside the free list.
\<close>

theorem mempool_conservation:
  assumes "mempool_create True m0 b l pg il = Inr (0, p0)" "capacity m0 = 0"
    and "unat b + unat l \<le> 2 ^ 64" "b \<noteq> NULL"
    and "unat (l div pg) \<le> INT_MAX" "unat (pg div il) \<le> INT_MAX"
    and "(pool_step mempool_alloc mempool_free)\<^sup>*\<^sup>* (p0, []) (p, held)"
  shows "distinct held \<and> set held \<inter> set (pool_free_stack p) = {}
    \<and> set held \<union> set (pool_free_stack p) = set (mp_free_items p0)
    \<and> unat (allocated p) = length held
    \<and> (\<forall>x \<in> set held. \<exists>p' p''. mempool_free p x = Inr p' \<and> mempool_alloc p' = Inr (x, p''))"
proof -
  have args: "il \<noteq> 0" "is_power_of_two pg" "l mod pg = 0"
    using assms(1) by (auto simp: mempool_create_def split: if_splits)
  obtain q where q: "mempool_create True m0 b l pg il = Inr (0, q)" "well_laid_out q" "pool_inv q"
    "allocated q = 0" "buf q = b" "len q = l" "pgsize q = pg" "item_len q = il"
    using pool_created [OF args assms(2,3,5,6)] by blast
  then have eq: "q = p0" using assms(1) by simp
  have stack: "pool_free_stack p0 = mp_free_items p0"
    using q(4) eq by (simp add: pool_free_stack_def)
  have "0 < unat b" using assms(4) by (simp add: unat_gt_0)
  then have nn: "NULL \<notin> set (pool_free_stack p0)"
    using q(2,5) eq stack by (fastforce simp: well_laid_out_def Let_def)
  have d: "distinct (pool_free_stack p0)"
    using q(2) eq stack by (simp add: well_laid_out_def Let_def)
  have i: "pool_inv p0" "unat (allocated p0) = 0" using q(3,4) eq by simp_all
  show ?thesis
    using pool.held_distinct [OF assms(7) i nn d] pool.conservation [OF assms(7) i nn]
      pool.release_reuses [OF assms(7) i nn] stack by simp
qed

lemma small_pool:
  "mempool_create True zero_mempool 64 32 16 8 = Inr (0, \<lparr>mp_free_items = [64, 72, 80, 88],
     allocated = 0, capacity = 4, buf = 64, len = 32, pgsize = 16, item_len = 8\<rparr>)"
  by (simp add: mempool_create_eq zero_mempool_def is_power_of_two_def pool_items_def
      item_addr_def upt_rec)

lemma mempool_conservation_witness:
  "\<exists>p. (pool_step mempool_alloc mempool_free)\<^sup>*\<^sup>* (p, []) (p\<lparr>allocated := 2\<rparr>, [72, 64])
    \<and> mempool_create True zero_mempool 64 32 16 8 = Inr (0, p)
    \<and> set [72, 64] \<union> set (pool_free_stack (p\<lparr>allocated := 2\<rparr>)) = set (mp_free_items p)"
proof -
  let ?p = "\<lparr>mp_free_items = [64, 72, 80, 88], allocated = 0, capacity = 4, buf = 64, len = 32,
    pgsize = 16, item_len = 8\<rparr> :: mempool"
  note created = small_pool
  have "pool_step mempool_alloc mempool_free (?p, []) (?p\<lparr>allocated := 1\<rparr>, [64])"
    by (rule pool_step.taken) (simp_all add: mempool_alloc_def word_le_nat_alt)
  moreover have "pool_step mempool_alloc mempool_free (?p\<lparr>allocated := 1\<rparr>, [64]) (?p\<lparr>allocated := 2\<rparr>, [72, 64])"
    by (rule pool_step.taken) (simp_all add: mempool_alloc_def word_le_nat_alt)
  ultimately have steps: "(pool_step mempool_alloc mempool_free)\<^sup>*\<^sup>* (?p, []) (?p\<lparr>allocated := 2\<rparr>, [72, 64])"
    by (rule converse_rtranclp_into_rtranclp [OF _ r_into_rtranclp])
  have "set [72, 64] \<union> set (pool_free_stack (?p\<lparr>allocated := 2\<rparr>)) = set (mp_free_items ?p)"
    using mempool_conservation [OF created _ _ _ _ _ steps] by (simp add: zero_mempool_def)
  then show ?thesis using created steps by blast
qed

text \<open>
  In a debug build, the check on every item of a pool created on a page-aligned
  buffer passes and poisons exactly the bytes of that item.
\<close>

theorem mempool_debug_checks_pass:
  assumes "mempool_create True m0 b l pg il = Inr (0, p)" "capacity m0 = 0"
    and "unat b + unat l < 2 ^ 64" "b AND (pg - 1) = 0"
    and "unat (l div pg) \<le> INT_MAX" "unat (pg div il) \<le> INT_MAX"
    and "x \<in> set (mp_free_items p)"
  shows "mempool_alloc_debug_check p x h = Inr (memset h x 0xAB (unat il))
    \<and> mempool_free_debug_check p x h = Inr (memset h x 0xCD (unat il))"
proof -
  have args: "il \<noteq> 0" "is_power_of_two pg" "l mod pg = 0"
    using assms(1) by (auto simp: mempool_create_def split: if_splits)
  obtain q where q: "mempool_create True m0 b l pg il = Inr (0, q)" "well_laid_out q" "pool_inv q"
    "allocated q = 0" "buf q = b" "len q = l" "pgsize q = pg" "item_len q = il"
    using pool_created [OF args assms(2) less_imp_le [OF assms(3)] assms(5,6)] by blast
  then have eq: "q = p" using assms(1) by simp
  then have x: "unat b \<le> unat x" "unat x + unat il \<le> unat b + unat l"
    using q assms(7) by (auto simp: well_laid_out_def Let_def)
  moreover have "unat (b + l) = unat b + unat l" using assms(3) by (simp add: unat_word_ariths)
  moreover have "0 < unat il" using args(1) by (simp add: unat_gt_0)
  ultimately have "b \<le> x \<and> x < b + l"
    unfolding word_le_nat_alt word_less_nat_alt by linarith
  then show ?thesis
    using q eq assms(4) args(1)
    by (simp add: mempool_alloc_debug_check_def mempool_free_debug_check_def mempool_common_check_def)
qed

lemma mempool_debug_checks_pass_witness:
  "mempool_create True zero_mempool 64 32 16 8 = Inr (0, \<lparr>mp_free_items = [64, 72, 80, 88], allocated = 0,
      capacity = 4, buf = 64, len = 32, pgsize = 16, item_len = 8\<rparr>)
    \<and> mempool_alloc_debug_check \<lparr>mp_free_items = [64, 72, 80, 88], allocated = 0,
      capacity = 4, buf = 64, len = 32, pgsize = 16, item_len = 8\<rparr> 72 (\<lambda>_. 0) = Inr (memset (\<lambda>_. 0) 72 0xAB 8)"
proof -
  let ?p = "\<lparr>mp_free_items = [64, 72, 80, 88], allocated = 0, capacity = 4, buf = 64, len = 32,
    pgsize = 16, item_len = 8\<rparr> :: mempool"
  note created = small_pool
  have "mempool_alloc_debug_check ?p 72 (\<lambda>_. 0) = Inr (memset (\<lambda>_. 0) 72 0xAB (unat (8 :: u64)))"
    using mempool_debug_checks_pass [OF created, of 72 "\<lambda>_. 0"] by (simp add: zero_mempool_def)
  then show ?thesis using created by simp
qed

end
