(* ===== verification/Memcpy.thy ===== *)
theory Memcpy
  imports Memory
begin

text \<open>
  The optimised copy routine of inc/base/rte_memcpy.h, with its SSE moves as
  loads of all registers followed by their stores, its power-of-two rounding
  functions, and the proof that the routine is \<open>memcpy\<close> on regions that do not
  overlap.
\<close>

section \<open>Rounding to powers of two\<close>

definition rte_align32pow2 :: "u32 \<Rightarrow> u32" where
  "rte_align32pow2 x0 =
     (let x = x0 - 1;
          x = x OR drop_bit 1 x;
          x = x OR drop_bit 2 x;
          x = x OR drop_bit 4 x;
          x = x OR drop_bit 8 x;
          x = x OR drop_bit 16 x
      in x + 1)"

definition rte_align64pow2 :: "u64 \<Rightarrow> u64" where
  "rte_align64pow2 v0 =
     (let v = v0 - 1;
          v = v OR drop_bit 1 v;
          v = v OR drop_bit 2 v;
          v = v OR drop_bit 4 v;
          v = v OR drop_bit 8 v;
          v = v OR drop_bit 16 v;
          v = v OR drop_bit 32 v
      in v + 1)"

section \<open>The moves\<close>

text \<open>A \<open>movdqu\<close> load fills one 16-byte register, a store writes one out.\<close>

abbreviation xmm_load :: "mem \<Rightarrow> ptr \<Rightarrow> u8 list" where
  "xmm_load m a \<equiv> load_bytes m a 16"

definition rte_mov16 :: "mem \<Rightarrow> ptr \<Rightarrow> ptr \<Rightarrow> mem" where
  "rte_mov16 m dst src = (let a = xmm_load m src in store_bytes m dst a)"

definition rte_mov32 :: "mem \<Rightarrow> ptr \<Rightarrow> ptr \<Rightarrow> mem" where
  "rte_mov32 m dst src =
     (let a = xmm_load m src; b = xmm_load m (src + 16);
          m1 = store_bytes m dst a
      in store_bytes m1 (dst + 16) b)"

definition rte_mov48 :: "mem \<Rightarrow> ptr \<Rightarrow> ptr \<Rightarrow> mem" where
  "rte_mov48 m dst src =
     (let a = xmm_load m src; b = xmm_load m (src + 16); c = xmm_load m (src + 32);
          m1 = store_bytes m dst a;
          m2 = store_bytes m1 (dst + 16) b
      in store_bytes m2 (dst + 32) c)"

definition rte_mov64 :: "mem \<Rightarrow> ptr \<Rightarrow> ptr \<Rightarrow> mem" where
  "rte_mov64 m dst src =
     (let a = xmm_load m src; b = xmm_load m (src + 16);
          c = xmm_load m (src + 32); d = xmm_load m (src + 48);
          m1 = store_bytes m dst a;
          m2 = store_bytes m1 (dst + 16) b;
          m3 = store_bytes m2 (dst + 32) c
      in store_bytes m3 (dst + 48) d)"

definition rte_mov128 :: "mem \<Rightarrow> ptr \<Rightarrow> ptr \<Rightarrow> mem" where
  "rte_mov128 m dst src =
     (let a = xmm_load m src; b = xmm_load m (src + 16);
          c = xmm_load m (src + 32); d = xmm_load m (src + 48);
          e = xmm_load m (src + 64); f = xmm_load m (src + 80);
          g = xmm_load m (src + 96); h = xmm_load m (src + 112);
          m1 = store_bytes m dst a;
          m2 = store_bytes m1 (dst + 16) b;
          m3 = store_bytes m2 (dst + 32) c;
          m4 = store_bytes m3 (dst + 48) d;
          m5 = store_bytes m4 (dst + 64) e;
          m6 = store_bytes m5 (dst + 80) f;
          m7 = store_bytes m6 (dst + 96) g
      in store_bytes m7 (dst + 112) h)"

definition rte_mov256 :: "mem \<Rightarrow> ptr \<Rightarrow> ptr \<Rightarrow> mem" where
  "rte_mov256 m dst src = rte_mov128 (rte_mov128 m dst src) (dst + 128) (src + 128)"

section \<open>The copy routine\<close>

text \<open>The state of the routine: memory and its three variables dst, src and n.\<close>

type_synonym copy_state = "mem \<times> ptr \<times> ptr \<times> u64"

text \<open>Fewer than 16 bytes: one move for each bit of n that is set.\<close>

definition small_copy :: "mem \<Rightarrow> ptr \<Rightarrow> ptr \<Rightarrow> u64 \<Rightarrow> mem" where
  "small_copy m dst src n =
     (let (m, dst, src) = (if n AND 1 \<noteq> 0 then (memcpy m dst src 1, dst + 1, src + 1) else (m, dst, src));
          (m, dst, src) = (if n AND 2 \<noteq> 0 then (memcpy m dst src 2, dst + 2, src + 2) else (m, dst, src));
          (m, dst, src) = (if n AND 4 \<noteq> 0 then (memcpy m dst src 4, dst + 4, src + 4) else (m, dst, src))
      in if n AND 8 \<noteq> 0 then memcpy m dst src 8 else m)"

function copy256_loop :: "copy_state \<Rightarrow> copy_state" where
  "copy256_loop (m, dst, src, n) =
     (if 256 \<le> n then copy256_loop (rte_mov256 m dst src, dst + 256, src + 256, n - 256)
      else (m, dst, src, n))"
  by pat_completeness auto
termination
  by (relation "measure (\<lambda>(m, dst, src, n). unat n)")
    (auto simp: unat_sub word_le_nat_alt)

declare copy256_loop.simps [simp del]

definition copy64_case :: "copy_state \<Rightarrow> copy_state" where
  "copy64_case st = (case st of (m, dst, src, n) \<Rightarrow> (rte_mov64 m dst src, dst + 64, src + 64, n - 64))"

definition copy64_switch :: "copy_state \<Rightarrow> copy_state" where
  "copy64_switch st = (case st of (m, dst, src, n) \<Rightarrow>
     let c = 3 - drop_bit 6 n in
     if c = 0 then copy64_case (copy64_case (copy64_case st))
     else if c = 1 then copy64_case (copy64_case st)
     else if c = 2 then copy64_case st
     else st)"

definition copy16_case :: "copy_state \<Rightarrow> copy_state" where
  "copy16_case st = (case st of (m, dst, src, n) \<Rightarrow> (rte_mov16 m dst src, dst + 16, src + 16, n - 16))"

definition copy16_switch :: "copy_state \<Rightarrow> copy_state" where
  "copy16_switch st = (case st of (m, dst, src, n) \<Rightarrow>
     let c = 3 - drop_bit 4 n in
     if c = 0 then copy16_case (copy16_case (copy16_case st))
     else if c = 1 then copy16_case (copy16_case st)
     else if c = 2 then copy16_case st
     else st)"

definition rte_memcpy_func :: "mem \<Rightarrow> ptr \<Rightarrow> ptr \<Rightarrow> u64 \<Rightarrow> mem" where
  "rte_memcpy_func m dst src n =
     (if n < 16 then small_copy m dst src n
      else if n \<le> 32 then
        rte_mov16 (rte_mov16 m dst src) (dst - 16 + n) (src - 16 + n)
      else if n \<le> 64 then
        rte_mov32 (rte_mov32 m dst src) (dst - 32 + n) (src - 32 + n)
      else if n \<le> 128 then
        rte_mov64 (rte_mov64 m dst src) (dst - 64 + n) (src - 64 + n)
      else
        (case copy16_switch (copy64_switch (copy256_loop (m, dst, src, n))) of (m, dst, src, n) \<Rightarrow>
           if n \<noteq> 0 then rte_mov16 m (dst - 16 + n) (src - 16 + n) else m))"

section \<open>Each move copies its width\<close>

lemma store_load_step:
  fixes d s :: ptr
  assumes "of_nat k = (w :: ptr)" "k + 16 \<le> 2 ^ 64"
  shows "store_bytes (store_bytes m d (load_bytes m0 s k)) (d + w) (load_bytes m0 (s + w) 16)
    = store_bytes m d (load_bytes m0 s (k + 16))"
  using assms store_bytes_append [of "load_bytes m0 s k" "load_bytes m0 (s + of_nat k) 16" m d]
  by (simp add: load_bytes_add)

lemmas store_load_steps =
  store_load_step [of 16 16, simplified] store_load_step [of 32 32, simplified]
  store_load_step [of 48 48, simplified] store_load_step [of 64 64, simplified]
  store_load_step [of 80 80, simplified] store_load_step [of 96 96, simplified]
  store_load_step [of 112 112, simplified]

lemma mov_eq:
  "rte_mov16 m d s = store_bytes m d (load_bytes m s 16)"
  "rte_mov32 m d s = store_bytes m d (load_bytes m s 32)"
  "rte_mov48 m d s = store_bytes m d (load_bytes m s 48)"
  "rte_mov64 m d s = store_bytes m d (load_bytes m s 64)"
  "rte_mov128 m d s = store_bytes m d (load_bytes m s 128)"
  by (simp_all add: rte_mov16_def rte_mov32_def rte_mov48_def rte_mov64_def rte_mov128_def
      Let_def store_load_steps)

section \<open>The routine is memcpy\<close>

lemma of_nat_sub_unat:
  fixes n :: u64
  assumes "w \<le> unat n"
  shows "of_nat (unat n - w) = n - of_nat w"
  using assms by (simp add: of_nat_diff)

text \<open>
  \<open>copied m dst src N k st\<close>: the state reached when the first \<open>k\<close> of \<open>N\<close> bytes
  are in place.
\<close>

definition copied :: "mem \<Rightarrow> ptr \<Rightarrow> ptr \<Rightarrow> nat \<Rightarrow> nat \<Rightarrow> copy_state \<Rightarrow> bool" where
  "copied m dst src N k st \<longleftrightarrow> (case st of (m', d', s', n') \<Rightarrow>
     m' = memcpy m dst src k \<and> d' = dst + of_nat k \<and> s' = src + of_nat k \<and> k + unat n' = N)"

lemma copied_start: "copied m dst src (unat n) 0 (m, dst, src, n)"
  by (simp add: copied_def memcpy_def)

text \<open>The step all moves share: one move of \<open>w\<close> bytes at the current position.\<close>

lemma copied_move:
  assumes "disjoint_regions dst N src N" "N < 2 ^ 64" "copied m dst src N k (m1, d1, s1, n1)"
    and "w \<le> unat n1"
  shows "copied m dst src N (k + w)
    (store_bytes m1 d1 (load_bytes m1 s1 w), d1 + of_nat w, s1 + of_nat w, n1 - of_nat w)"
proof -
  have st: "m1 = memcpy m dst src k" "d1 = dst + of_nat k" "s1 = src + of_nat k" "k + unat n1 = N"
    using assms(3) by (auto simp: copied_def)
  have "store_bytes m1 d1 (load_bytes m1 s1 w) = memcpy m dst src (k + w)"
    unfolding st using assms st(4) by (intro memcpy_extend) auto
  moreover have "unat (n1 - of_nat w) = unat n1 - w"
  proof -
    have "w < 2 ^ LENGTH(64)" using assms(4) unsigned_less [of n1] by (rule le_less_trans)
    then show ?thesis using assms(4) by (simp only: unat_diff_of_nat if_True)
  qed
  ultimately show ?thesis using st assms(4) by (simp add: copied_def add.assoc)
qed

lemma copied_finish:
  assumes "disjoint_regions dst N src N" "N < 2 ^ 64" "copied m dst src N k (m1, d1, s1, n1)"
    and "w \<le> N" "N - w \<le> k"
  shows "store_bytes m1 (d1 - of_nat w + n1) (load_bytes m1 (s1 - of_nat w + n1) w) = memcpy m dst src N"
proof -
  have st: "m1 = memcpy m dst src k" "d1 = dst + of_nat k" "s1 = src + of_nat k" "k + unat n1 = N"
    using assms(3) by (auto simp: copied_def)
  have "(of_nat N :: ptr) = of_nat k + n1" using st(4) [symmetric] by simp
  then have "(of_nat (N - w) :: ptr) = of_nat k + n1 - of_nat w"
    using assms(4) by (simp add: of_nat_diff)
  then have off: "d1 - of_nat w + n1 = dst + of_nat (N - w)" "s1 - of_nat w + n1 = src + of_nat (N - w)"
    unfolding st(2,3) by (simp_all add: algebra_simps)
  show ?thesis unfolding off unfolding st(1)
    using assms st(4) by (subst memcpy_extend [where N = N]) auto
qed

text \<open>The bits of n decide the moves below 16 bytes.\<close>

lemma small_bits:
  fixes n :: u64
  assumes "unat n < 16"
  shows "unat n = of_bool (n AND 1 \<noteq> 0) + of_bool (n AND 2 \<noteq> 0) * 2
    + of_bool (n AND 4 \<noteq> 0) * 4 + of_bool (n AND 8 \<noteq> 0) * 8"
proof -
  have "unat n \<in> {..<16}" using assms by simp
  then have "n \<in> (of_nat :: nat \<Rightarrow> u64) ` {..<16}"
    by (metis image_eqI of_nat_unat ucast_id)
  also have "(of_nat :: nat \<Rightarrow> u64) ` {..<16}
      = {0, 1, 2, 3, 4, 5, 6, 7, 8, 9, 10, 11, 12, 13, 14, 15}"
    by (auto simp: lessThan_nat_numeral lessThan_Suc)
  finally show ?thesis by auto
qed

lemma small_copy_eq:
  assumes "disjoint_regions dst (unat n) src (unat n)" "unat n < 16"
  shows "small_copy m dst src n = memcpy m dst src (unat n)"
proof -
  have ext: "memcpy (memcpy m dst src k) (dst + of_nat k) (src + of_nat k) w = memcpy m dst src (k + w)"
    if "k + w \<le> unat n" for k w
    using memcpy_extend [of dst "unat n" src k k w m] assms that by (simp add: memcpy_def)
  define k1 :: nat where "k1 = of_bool (n AND 1 \<noteq> 0)"
  define k2 where "k2 = k1 + of_bool (n AND 2 \<noteq> 0) * 2"
  define k3 where "k3 = k2 + of_bool (n AND 4 \<noteq> 0) * 4"
  have n: "unat n = k3 + of_bool (n AND 8 \<noteq> 0) * 8"
    using small_bits [OF assms(2)] by (simp add: k1_def k2_def k3_def)
  have s1: "(if n AND 1 \<noteq> 0 then (memcpy m dst src 1, dst + 1, src + 1) else (m, dst, src))
      = (memcpy m dst src k1, dst + of_nat k1, src + of_nat k1)"
    by (simp add: k1_def memcpy_def)
  have s2: "(if n AND 2 \<noteq> 0
        then (memcpy (memcpy m dst src k1) (dst + of_nat k1) (src + of_nat k1) 2,
              dst + of_nat k1 + 2, src + of_nat k1 + 2)
        else (memcpy m dst src k1, dst + of_nat k1, src + of_nat k1))
      = (memcpy m dst src k2, dst + of_nat k2, src + of_nat k2)"
    using ext [of k1 2] n by (simp add: k2_def k3_def add.assoc)
  have s3: "(if n AND 4 \<noteq> 0
        then (memcpy (memcpy m dst src k2) (dst + of_nat k2) (src + of_nat k2) 4,
              dst + of_nat k2 + 4, src + of_nat k2 + 4)
        else (memcpy m dst src k2, dst + of_nat k2, src + of_nat k2))
      = (memcpy m dst src k3, dst + of_nat k3, src + of_nat k3)"
    using ext [of k2 4] n by (simp add: k3_def add.assoc)
  have s4: "(if n AND 8 \<noteq> 0
        then memcpy (memcpy m dst src k3) (dst + of_nat k3) (src + of_nat k3) 8
        else memcpy m dst src k3) = memcpy m dst src (unat n)"
    using ext [of k3 8] n by simp
  show ?thesis
    unfolding small_copy_def Let_def s1 prod.case s2 s3 s4 ..
qed

lemma copy256_loop_copied:
  assumes "disjoint_regions dst N src N" "N < 2 ^ 64" "copied m dst src N k st"
  shows "\<exists>k' m' d' s' n'. copy256_loop st = (m', d', s', n')
    \<and> copied m dst src N k' (m', d', s', n') \<and> k \<le> k' \<and> unat n' < 256"
  using assms(3)
proof (induction st arbitrary: k rule: copy256_loop.induct)
  case (1 m1 d1 s1 n1)
  show ?case
  proof (cases "256 \<le> n1")
    case True
    then have w: "256 \<le> unat n1" by (simp add: word_le_nat_alt)
    have "copied m dst src N (k + 128)
        (rte_mov128 m1 d1 s1, d1 + of_nat 128, s1 + of_nat 128, n1 - of_nat 128)"
      unfolding mov_eq using assms(1,2) "1.prems" w by (intro copied_move) auto
    moreover have "128 \<le> unat (n1 - of_nat 128)"
      using w unat_diff_of_nat [of 128 n1] by simp
    ultimately have "copied m dst src N (k + 128 + 128)
        (rte_mov256 m1 d1 s1, d1 + of_nat 128 + of_nat 128, s1 + of_nat 128 + of_nat 128,
         n1 - of_nat 128 - of_nat 128)"
      unfolding rte_mov256_def mov_eq using assms(1,2)
      by (metis copied_move of_nat_numeral)
    then have "copied m dst src N (k + 256) (rte_mov256 m1 d1 s1, d1 + 256, s1 + 256, n1 - 256)"
      by (simp add: add.assoc)
    from "1.IH" [OF True this] True show ?thesis
      by (subst copy256_loop.simps) fastforce
  next
    case False
    then have "unat n1 < 256" by (simp add: word_le_nat_alt not_le)
    then show ?thesis using False "1.prems" by (subst copy256_loop.simps) auto
  qed
qed

lemma copied_cases:
  assumes "disjoint_regions dst N src N" "N < 2 ^ 64" "copied m dst src N k (m1, d1, s1, n1)"
  shows "64 \<le> unat n1 \<Longrightarrow> copied m dst src N (k + 64) (copy64_case (m1, d1, s1, n1))"
    and "16 \<le> unat n1 \<Longrightarrow> copied m dst src N (k + 16) (copy16_case (m1, d1, s1, n1))"
  using copied_move [OF assms, of 64] copied_move [OF assms, of 16]
  by (simp_all add: copy64_case_def copy16_case_def mov_eq)

lemma drop_bit_u64: "unat (drop_bit k n) = unat n div 2 ^ k" for n :: u64
  unfolding unat_drop_bit_eq by (rule drop_bit_eq_div)

text \<open>The switch on the quotient runs as many moves as the quotient.\<close>

lemma switch_value:
  fixes n :: u64
  assumes "unat n < 4 * 2 ^ k"
  shows "3 - drop_bit k n = of_nat (3 - unat n div 2 ^ k)"
proof -
  have "unat n div 2 ^ k \<le> 3" using assms by (simp add: less_mult_imp_div_less flip: less_Suc_eq_le)
  moreover have "drop_bit k n = of_nat (unat n div 2 ^ k)"
    by (metis drop_bit_u64 of_nat_unat ucast_id)
  ultimately show ?thesis by (simp add: of_nat_diff)
qed

lemma copy64_switch_copied:
  assumes disj: "disjoint_regions dst N src N" "N < 2 ^ 64"
    and st: "copied m dst src N k (m1, d1, s1, n1)" and n: "unat n1 < 256"
  shows "copied m dst src N (k + unat n1 div 64 * 64) (copy64_switch (m1, d1, s1, n1))"
proof -
  have step: "copied m dst src N (j + 64) (copy64_case st')"
    if "copied m dst src N j st'" "j + 64 \<le> N" for j st'
    using that copied_cases(1) [OF disj] by (cases st') (auto simp: copied_def split: prod.splits)
  have N: "k + unat n1 = N" using st by (simp add: copied_def)
  have c: "3 - drop_bit 6 n1 = of_nat (3 - unat n1 div 64)"
    using switch_value [of n1 6] n by simp
  have "unat n1 div 64 \<in> {0, 1, 2, 3}" using n by auto
  then show ?thesis
    unfolding copy64_switch_def prod.case Let_def c
    using st N step [OF st] step [of "k + 64" "copy64_case (m1, d1, s1, n1)"]
      step [of "k + 64 + 64" "copy64_case (copy64_case (m1, d1, s1, n1))"]
    by (auto simp: add.assoc)
qed

lemma copy16_switch_copied:
  assumes disj: "disjoint_regions dst N src N" "N < 2 ^ 64"
    and st: "copied m dst src N k (m1, d1, s1, n1)" and n: "unat n1 < 64"
  shows "copied m dst src N (k + unat n1 div 16 * 16) (copy16_switch (m1, d1, s1, n1))"
proof -
  have step: "copied m dst src N (j + 16) (copy16_case st')"
    if "copied m dst src N j st'" "j + 16 \<le> N" for j st'
    using that copied_cases(2) [OF disj] by (cases st') (auto simp: copied_def split: prod.splits)
  have N: "k + unat n1 = N" using st by (simp add: copied_def)
  have c: "3 - drop_bit 4 n1 = of_nat (3 - unat n1 div 16)"
    using switch_value [of n1 4] n by simp
  have "unat n1 div 16 \<in> {0, 1, 2, 3}" using n by auto
  then show ?thesis
    unfolding copy16_switch_def prod.case Let_def c
    using st N step [OF st] step [of "k + 16" "copy16_case (m1, d1, s1, n1)"]
      step [of "k + 16 + 16" "copy16_case (copy16_case (m1, d1, s1, n1))"]
    by (auto simp: add.assoc)
qed

lemma small_copy_two:
  assumes "disjoint_regions dst (unat n) src (unat n)" "w \<le> unat n" "unat n \<le> 2 * w"
  shows "store_bytes (store_bytes m dst (load_bytes m src w)) (dst - of_nat w + n)
      (load_bytes (store_bytes m dst (load_bytes m src w)) (src - of_nat w + n) w)
    = memcpy m dst src (unat n)"
proof -
  have lt: "unat n < 2 ^ 64" using unsigned_less [of n] by simp
  have "copied m dst src (unat n) w
      (store_bytes m dst (load_bytes m src w), dst + of_nat w, src + of_nat w, n - of_nat w)"
    using copied_move [OF assms(1) lt copied_start assms(2)] by simp
  from copied_finish [OF assms(1) lt this assms(2)] assms(3)
  show ?thesis by (simp add: algebra_simps)
qed

lemma rte_memcpy_any:
  assumes "disjoint_regions dst (unat n) src (unat n)"
  shows "rte_memcpy_func m dst src n = memcpy m dst src (unat n)"
proof -
  have lt: "unat n < 2 ^ 64" using unsigned_less [of n] by simp
  consider "unat n < 16" | "16 \<le> unat n" "unat n \<le> 32" | "32 < unat n" "unat n \<le> 64"
    | "64 < unat n" "unat n \<le> 128" | "128 < unat n" by linarith
  then show ?thesis
  proof cases
    case 1
    then show ?thesis
      using small_copy_eq [OF assms] by (simp add: rte_memcpy_func_def word_less_nat_alt)
  next
    case 2
    then show ?thesis using small_copy_two [OF assms, of 16 m]
      by (simp add: rte_memcpy_func_def word_less_nat_alt word_le_nat_alt mov_eq)
  next
    case 3
    then show ?thesis using small_copy_two [OF assms, of 32 m]
      by (simp add: rte_memcpy_func_def word_less_nat_alt word_le_nat_alt mov_eq)
  next
    case 4
    then show ?thesis using small_copy_two [OF assms, of 64 m]
      by (simp add: rte_memcpy_func_def word_less_nat_alt word_le_nat_alt mov_eq)
  next
    case 5
    obtain k m1 d1 s1 n1 where l: "copy256_loop (m, dst, src, n) = (m1, d1, s1, n1)"
      "copied m dst src (unat n) k (m1, d1, s1, n1)" "unat n1 < 256"
      using copy256_loop_copied [OF assms lt copied_start] by blast
    obtain m2 d2 s2 n2 where sw: "copy64_switch (m1, d1, s1, n1) = (m2, d2, s2, n2)"
      by (metis prod_cases4)
    define k2 where "k2 = k + unat n1 div 64 * 64"
    have c2: "copied m dst src (unat n) k2 (m2, d2, s2, n2)"
      using copy64_switch_copied [OF assms lt l(2,3)] by (simp add: sw k2_def)
    then have n2: "unat n2 < 64" using l(2) by (auto simp: copied_def k2_def)
    obtain m3 d3 s3 n3 where sw3: "copy16_switch (m2, d2, s2, n2) = (m3, d3, s3, n3)"
      by (metis prod_cases4)
    define k3 where "k3 = k2 + unat n2 div 16 * 16"
    have c3: "copied m dst src (unat n) k3 (m3, d3, s3, n3)"
      using copy16_switch_copied [OF assms lt c2 n2] by (simp add: sw3 k3_def)
    then have n3: "unat n3 < 16" using c2 by (auto simp: copied_def k3_def)
    have k3: "unat n - 16 \<le> k3" "k3 + unat n3 = unat n" using c3 n3 by (auto simp: copied_def)
    have eq: "rte_memcpy_func m dst src n
        = (if n3 \<noteq> 0 then rte_mov16 m3 (d3 - 16 + n3) (s3 - 16 + n3) else m3)"
      using 5 by (simp add: rte_memcpy_func_def word_less_nat_alt word_le_nat_alt l sw sw3)
    show ?thesis
    proof (cases "n3 = 0")
      case True
      then show ?thesis using eq c3 by (auto simp: copied_def)
    next
      case False
      then show ?thesis
        using eq copied_finish [OF assms lt c3, of 16] 5 k3 by (simp add: mov_eq)
    qed
  qed
qed

text \<open>
  C20. For every length, the optimised copy routine
  leaves exactly the memory that \<open>memcpy\<close> leaves, whichever of its branches the
  length selects, provided source and destination do not overlap: the
  destination holds the bytes of the source, and no other byte changes.
\<close>

theorem rte_memcpy_func_correct:
  assumes "disjoint_regions dst (unat n) src (unat n)"
  shows "rte_memcpy_func m dst src n = memcpy m dst src (unat n)
    \<and> load_bytes (rte_memcpy_func m dst src n) dst (unat n) = load_bytes m src (unat n)
    \<and> (\<forall>x. \<not> in_region dst (unat n) x \<longrightarrow> rte_memcpy_func m dst src n x = m x)"
proof -
  have "unat n < 2 ^ LENGTH(64)" by (rule unsigned_less)
  then have "unat n \<le> 2 ^ 64" by simp
  then show ?thesis
    using rte_memcpy_any [OF assms, of m]
    by (simp add: memcpy_def load_store_same in_region_def store_bytes_outside)
qed

theorem rte_memcpy_func_correct_witness:
  "disjoint_regions 4096 (unat (300 :: u64)) 8192 (unat (300 :: u64))
   \<and> rte_memcpy_func (\<lambda>a. ucast a) 4096 8192 300 4395 = 43"
proof -
  have d: "disjoint_regions 4096 (unat (300 :: u64)) 8192 (unat (300 :: u64))"
    by (simp add: disjoint_regions_def)
  have "memcpy (\<lambda>a. ucast a) 4096 8192 300 4395 = 43"
    by (simp add: memcpy_def store_bytes_def Let_def)
  then show ?thesis
    using d conjunct1 [OF rte_memcpy_func_correct [OF d, of "\<lambda>a. ucast a"]] by simp
qed

section \<open>The rounding functions\<close>

text \<open>
  \<open>smeared k y z\<close>: bit \<open>n\<close> of \<open>z\<close> is set when one of the \<open>k\<close> bits of \<open>y\<close> from
  \<open>n\<close> upwards is. Each step of the rounding functions doubles \<open>k\<close>.
\<close>

definition smeared :: "nat \<Rightarrow> 'a::len word \<Rightarrow> 'a word \<Rightarrow> bool" where
  "smeared k y z \<longleftrightarrow> (\<forall>n. bit z n \<longleftrightarrow> (\<exists>i<k. bit y (n + i)))"

lemma smeared_1: "smeared 1 y y"
  by (simp add: smeared_def)

lemma smeared_double:
  assumes "smeared k y z"
  shows "smeared (2 * k) y (z OR drop_bit k z)"
proof -
  have "(\<exists>i<k. bit y (n + i)) \<or> (\<exists>i<k. bit y (n + k + i)) \<longleftrightarrow> (\<exists>i<2 * k. bit y (n + i))" for n
  proof
    assume "(\<exists>i<k. bit y (n + i)) \<or> (\<exists>i<k. bit y (n + k + i))"
    then show "\<exists>i<2 * k. bit y (n + i)"
    proof
      assume "\<exists>i<k. bit y (n + i)"
      then obtain i where "i < k" "bit y (n + i)" by blast
      then show ?thesis by (intro exI [of _ i]) simp
    next
      assume "\<exists>i<k. bit y (n + k + i)"
      then obtain i where "i < k" "bit y (n + (k + i))" by (auto simp: add.assoc)
      then show ?thesis by (intro exI [of _ "k + i"]) simp
    qed
  next
    assume "\<exists>i<2 * k. bit y (n + i)"
    then obtain i where i: "i < 2 * k" "bit y (n + i)" by blast
    then show "(\<exists>i<k. bit y (n + i)) \<or> (\<exists>i<k. bit y (n + k + i))"
    proof (cases "i < k")
      case False
      then have "i - k < k" "bit y (n + k + (i - k))" using i by simp_all
      then show ?thesis by blast
    qed auto
  qed
  then show ?thesis
    using assms by (simp add: smeared_def bit_simps ac_simps)
qed

lemma bit_above_iff:
  fixes y :: "'a::len word"
  shows "(\<exists>i<LENGTH('a). bit y (n + i)) \<longleftrightarrow> 2 ^ n \<le> unat y"
proof
  assume "\<exists>i<LENGTH('a). bit y (n + i)"
  then obtain i where "bit y (n + i)" by blast
  then have "odd (unat y div 2 ^ (n + i))"
    using bit_imp_le_length bit_iff_odd_unat by blast
  then have "2 ^ (n + i) \<le> unat y" by (metis div_less even_zero not_le)
  moreover have "(2::nat) ^ n \<le> 2 ^ (n + i)" by simp
  ultimately show "2 ^ n \<le> unat y" by linarith
next
  assume le: "2 ^ n \<le> unat y"
  then have "0 < unat y" by (metis less_le_trans zero_less_numeral zero_less_power)
  then obtain k where k: "2 ^ k \<le> unat y" "unat y < 2 * 2 ^ k" using exp_bounds_nat by blast
  have "unat y < 2 ^ LENGTH('a)" by (rule unsigned_less)
  with k(1) have len: "k < LENGTH('a)" by (metis le_less_trans nat_power_less_imp_less zero_less_numeral)
  have "unat y div 2 ^ k = 1" using k by (intro div_nat_eqI) auto
  then have "bit y k" using len by (simp add: bit_iff_odd_unat)
  have "(2::nat) ^ n < 2 ^ Suc k" using le k(2) by simp
  then have "n < Suc k" by (rule power_less_imp_less_exp [rotated]) simp
  then have "n \<le> k" by simp
  with \<open>bit y k\<close> len show "\<exists>i<LENGTH('a). bit y (n + i)"
    by (intro exI [of _ "k - n"]) auto
qed

lemma smeared_next_power:
  fixes y z :: "'a::len word"
  assumes "smeared LENGTH('a) y z" "unat y < 2 ^ L" "L < LENGTH('a)"
    and "\<And>n. n < L \<Longrightarrow> 2 ^ n \<le> unat y"
  shows "z + 1 = 2 ^ L"
proof -
  have "z = mask L"
  proof (rule bit_word_eqI)
    fix n
    assume "n < LENGTH('a)"
    have "bit z n \<longleftrightarrow> 2 ^ n \<le> unat y"
      using assms(1) bit_above_iff [of y n] by (simp add: smeared_def)
    also have "\<dots> \<longleftrightarrow> n < L"
    proof
      assume "2 ^ n \<le> unat y"
      then have "(2::nat) ^ n < 2 ^ L" using assms(2) by (rule le_less_trans)
      then show "n < L" by (rule power_less_imp_less_exp [rotated]) simp
    qed (rule assms(4))
    finally show "bit z n \<longleftrightarrow> bit (mask L :: 'a word) n"
      using \<open>n < LENGTH('a)\<close> by (simp add: bit_mask_iff)
  qed
  then show ?thesis by (simp add: mask_eq_exp_minus_1)
qed

lemma rte_align32_smeared: "\<exists>z. smeared 32 (x - 1) z \<and> rte_align32pow2 x = z + 1"
  using smeared_double [OF smeared_double [OF smeared_double [OF smeared_double
      [OF smeared_double [OF smeared_1 [of "x - 1"]]]]]]
  by (auto simp: rte_align32pow2_def Let_def)

lemma rte_align64_smeared: "\<exists>z. smeared 64 (x - 1) z \<and> rte_align64pow2 x = z + 1"
  using smeared_double [OF smeared_double [OF smeared_double [OF smeared_double
      [OF smeared_double [OF smeared_double [OF smeared_1 [of "x - 1"]]]]]]]
  by (auto simp: rte_align64pow2_def Let_def)

text \<open>The exponent of the least power of two that is at least a given number.\<close>

lemma least_exponent:
  fixes k :: nat
  assumes "k \<le> 2 ^ N"
  obtains L where "L \<le> N" "k \<le> 2 ^ L" "\<And>n. n < L \<Longrightarrow> 2 ^ n < k"
proof -
  define L where "L = (LEAST n. k \<le> 2 ^ n)"
  show thesis
  proof (rule that)
    show "L \<le> N" unfolding L_def by (rule Least_le) (rule assms)
    show "k \<le> 2 ^ L" unfolding L_def by (rule LeastI) (rule assms)
    show "2 ^ n < k" if "n < L" for n
      using not_less_Least [OF that [unfolded L_def]] by simp
  qed
qed

lemma rte_align_least:
  shows rte_align32_least: "0 < x \<Longrightarrow> x \<le> 2 ^ 31 \<Longrightarrow>
      \<exists>L\<le>31. rte_align32pow2 x = 2 ^ L \<and> unat x \<le> 2 ^ L \<and> (\<forall>n<L. 2 ^ n < unat x)"
    and rte_align64_least: "0 < y \<Longrightarrow> y \<le> 2 ^ 63 \<Longrightarrow>
      \<exists>L\<le>63. rte_align64pow2 y = 2 ^ L \<and> unat y \<le> 2 ^ L \<and> (\<forall>n<L. 2 ^ n < unat y)"
proof -
  have next_pow: "z + 1 = 2 ^ L"
    if "smeared LENGTH('a) (w - 1) z" "0 < w" "unat w \<le> 2 ^ L" "L < LENGTH('a)"
      "\<And>n. n < L \<Longrightarrow> 2 ^ n < unat w" for w z :: "'a::len word" and L
  proof (rule smeared_next_power [OF that(1) _ that(4)])
    have "w \<noteq> 0" using that(2) by auto
    then have w: "unat (w - 1) = unat w - 1" "0 < unat w"
      by (simp_all add: unat_minus_one unat_gt_0)
    then show "unat (w - 1) < 2 ^ L" using that(3) by linarith
    show "2 ^ n \<le> unat (w - 1)" if "n < L" for n
      using \<open>n < L \<Longrightarrow> 2 ^ n < unat w\<close> [OF that] w by linarith
  qed
  show "\<exists>L\<le>31. rte_align32pow2 x = 2 ^ L \<and> unat x \<le> 2 ^ L \<and> (\<forall>n<L. 2 ^ n < unat x)"
    if "0 < x" "x \<le> 2 ^ 31"
  proof -
    have "unat x \<le> 2 ^ 31" using that by (simp add: word_le_nat_alt)
    then obtain L where L: "L \<le> 31" "unat x \<le> 2 ^ L" "\<And>n. n < L \<Longrightarrow> 2 ^ n < unat x"
      using least_exponent by metis
    obtain z where z: "smeared 32 (x - 1) z" "rte_align32pow2 x = z + 1"
      using rte_align32_smeared by blast
    with next_pow [of x z L] that L show ?thesis by auto
  qed
  show "\<exists>L\<le>63. rte_align64pow2 y = 2 ^ L \<and> unat y \<le> 2 ^ L \<and> (\<forall>n<L. 2 ^ n < unat y)"
    if "0 < y" "y \<le> 2 ^ 63"
  proof -
    have "unat y \<le> 2 ^ 63" using that by (simp add: word_le_nat_alt)
    then obtain L where L: "L \<le> 63" "unat y \<le> 2 ^ L" "\<And>n. n < L \<Longrightarrow> 2 ^ n < unat y"
      using least_exponent by metis
    obtain z where z: "smeared 64 (y - 1) z" "rte_align64pow2 y = z + 1"
      using rte_align64_smeared by blast
    with next_pow [of y z L] that L show ?thesis by auto
  qed
qed

text \<open>
  For a positive argument up to the type's highest power of two, each
  rounding function returns a power of two that is at least the argument, and no
  smaller power of two is.
\<close>

theorem rte_align_pow2_least:
  "(0 < x \<and> x \<le> 2 ^ 31 \<longrightarrow>
     (\<exists>L\<le>31. rte_align32pow2 x = 2 ^ L \<and> unat x \<le> 2 ^ L \<and> (\<forall>n<L. 2 ^ n < unat x)))
   \<and> (0 < y \<and> y \<le> 2 ^ 63 \<longrightarrow>
     (\<exists>L\<le>63. rte_align64pow2 y = 2 ^ L \<and> unat y \<le> 2 ^ L \<and> (\<forall>n<L. 2 ^ n < unat y)))"
  using rte_align32_least [of x] rte_align64_least [of y] by blast

theorem rte_align_pow2_least_witness:
  "\<exists>L\<le>31. rte_align32pow2 100 = 2 ^ L \<and> unat (100 :: u32) \<le> 2 ^ L \<and> (\<forall>n<L. 2 ^ n < unat (100 :: u32))"
  using rte_align_pow2_least [of 100 1] by (simp add: word_le_nat_alt)

end
