(* ===== verification/Mbuf.thy ===== *)
theory Mbuf
  imports Memcpy Stddef
begin

text \<open>
  The packet buffers of inc/base/mbuf.h: a window \<open>data\<close>, \<open>len\<close> into a backing
  buffer \<open>head\<close>, \<open>head_len\<close>, and the operations that move its two ends. The
  variant of the structure in inc/net/mbuf.h has the same window (\<open>mbuf_core\<close>),
  other fields around it, and checks in two operations that here are assertions
  of a debug build only.
\<close>

section \<open>The structures\<close>

text \<open>The functions that the program installs as \<open>release\<close>.\<close>

datatype release_fn = NoRelease | RxCompletion | TxCompletion | ZeroCopyTxCompletion

record mbuf_core =
  m_next :: ptr
  m_head :: ptr
  m_data :: ptr
  m_head_len :: u32
  m_len :: u32

text \<open>\<open>m_txflags\<close> is the union of \<open>txflags\<close> and \<open>rss_hash\<close>.\<close>

record mbuf = mbuf_core +
  m_nb_segs :: u32
  m_pkt_len :: u32
  m_txflags :: u32
  m_release_data :: u64
  m_release :: release_fn
  m_num_wqes :: u64
  m_lkey :: u32

section \<open>Operations\<close>

definition mbuf_pull_raw :: "'a mbuf_core_scheme \<Rightarrow> u32 \<Rightarrow> ptr \<times> 'a mbuf_core_scheme" where
  "mbuf_pull_raw m n = (m_data m, m\<lparr>m_len := m_len m - n, m_data := m_data m + ucast n\<rparr>)"

definition mbuf_pull :: "'a mbuf_core_scheme \<Rightarrow> u32 \<Rightarrow> (ptr \<times> 'a mbuf_core_scheme) res" where
  "mbuf_pull m n = bindE (guardE Abort (\<not> m_len m < n)) (\<lambda>_. Inr (mbuf_pull_raw m n))"

definition mbuf_pull_or_null :: "'a mbuf_core_scheme \<Rightarrow> u32 \<Rightarrow> ptr \<times> 'a mbuf_core_scheme" where
  "mbuf_pull_or_null m n = (if n \<le> m_len m then mbuf_pull_raw m n else (NULL, m))"

definition mbuf_push :: "'a mbuf_core_scheme \<Rightarrow> u32 \<Rightarrow> ptr \<times> 'a mbuf_core_scheme" where
  "mbuf_push m n = (let m = m\<lparr>m_data := m_data m - ucast n\<rparr>; m = m\<lparr>m_len := m_len m + n\<rparr>
     in (m_data m, m))"

definition mbuf_put :: "'a mbuf_core_scheme \<Rightarrow> u32 \<Rightarrow> ptr \<times> 'a mbuf_core_scheme" where
  "mbuf_put m n = (m_data m + ucast (m_len m), m\<lparr>m_len := m_len m + n\<rparr>)"

definition mbuf_trim :: "'a mbuf_core_scheme \<Rightarrow> u32 \<Rightarrow> (ptr \<times> 'a mbuf_core_scheme) res" where
  "mbuf_trim m n = bindE (guardE Abort (\<not> m_len m < n)) (\<lambda>_.
     let m = m\<lparr>m_len := m_len m - n\<rparr> in Inr (m_data m + ucast (m_len m), m))"

definition mbuf_reset :: "'a mbuf_core_scheme \<Rightarrow> u32 \<Rightarrow> 'a mbuf_core_scheme res" where
  "mbuf_reset m off = (let total_len = ucast (m_data m - m_head m + ucast (m_len m)) :: u32 in
     bindE (guardE Abort (\<not> total_len < off)) (\<lambda>_.
     Inr (m\<lparr>m_data := m_head m + ucast off, m_len := total_len - off\<rparr>)))"

definition mbuf_headroom :: "'a mbuf_core_scheme \<Rightarrow> u32" where
  "mbuf_headroom m = ucast (m_data m - m_head m)"

definition mbuf_tailroom :: "'a mbuf_core_scheme \<Rightarrow> u32" where
  "mbuf_tailroom m = ucast (m_head m + ucast (m_head_len m) - m_data m - ucast (m_len m))"

definition mbuf_data :: "'a mbuf_core_scheme \<Rightarrow> ptr" where
  "mbuf_data m = m_data m"

definition mbuf_length :: "'a mbuf_core_scheme \<Rightarrow> u32" where
  "mbuf_length m = m_len m"

definition mbuf_init :: "'a mbuf_core_scheme \<Rightarrow> ptr \<Rightarrow> u32 \<Rightarrow> u32 \<Rightarrow> 'a mbuf_core_scheme" where
  "mbuf_init m start start_len reserve_len = (let m = m\<lparr>m_head := start\<rparr>; m = m\<lparr>m_head_len := start_len\<rparr>;
     m = m\<lparr>m_data := m_head m + ucast reserve_len\<rparr> in m\<lparr>m_len := 0\<rparr>)"

definition mbuf_offset_ptr :: "'a mbuf_core_scheme \<Rightarrow> u64 \<Rightarrow> ptr" where
  "mbuf_offset_ptr m off = m_data m + off"

definition mbuf_copy ::
  "mem \<Rightarrow> 'a mbuf_core_scheme \<Rightarrow> ptr \<Rightarrow> u64 \<Rightarrow> u64 \<Rightarrow> mem \<times> 'a mbuf_core_scheme" where
  "mbuf_copy h m source n off =
     (rte_memcpy_func h (m_data m + off) source n, m\<lparr>m_len := m_len m + ucast n\<rparr>)"

text \<open>
  \<open>mbuf_free\<close> calls the function the mbuf carries; what each function does to
  the program's state \<open>call\<close> says. A null function pointer is called all the same.
\<close>

definition mbuf_free :: "(release_fn \<Rightarrow> ptr \<Rightarrow> 's \<Rightarrow> 's res) \<Rightarrow> release_fn \<Rightarrow> ptr \<Rightarrow> 's \<Rightarrow> 's res" where
  "mbuf_free call f m s = (if f = NoRelease then Inl NullDeref else call f m s)"

section \<open>The variant of inc/net/mbuf.h\<close>

record net_mbuf = mbuf_core +
  n_csum_type :: u32
  n_csum :: u32
  n_txflags :: u32
  n_network_off :: u16
  n_transport_off :: u16
  n_release_data :: u64
  n_timestamp :: u64
  n_seg_seq :: u32
  n_seg_end :: u32
  n_flags :: u8
  n_ref :: u32

definition net_mbuf_push :: "'a net_mbuf_scheme \<Rightarrow> u32 \<Rightarrow> (ptr \<times> 'a net_mbuf_scheme) res" where
  "net_mbuf_push m n = (let m = m\<lparr>m_data := m_data m - ucast n\<rparr> in
     bindE (guardE Abort (\<not> m_data m < m_head m)) (\<lambda>_.
     let m = m\<lparr>m_len := m_len m + n\<rparr> in Inr (m_data m, m)))"

definition net_mbuf_put :: "'a net_mbuf_scheme \<Rightarrow> u32 \<Rightarrow> (ptr \<times> 'a net_mbuf_scheme) res" where
  "net_mbuf_put m n = (let tmp = m_data m + ucast (m_len m); m = m\<lparr>m_len := m_len m + n\<rparr> in
     bindE (guardE Abort (\<not> m_head_len m < m_len m)) (\<lambda>_. Inr (tmp, m)))"

definition mbuf_mark_network_offset :: "'a net_mbuf_scheme \<Rightarrow> 'a net_mbuf_scheme" where
  "mbuf_mark_network_offset m = m\<lparr>n_network_off := ucast (m_data m - m_head m)\<rparr>"

definition mbuf_mark_transport_offset :: "'a net_mbuf_scheme \<Rightarrow> 'a net_mbuf_scheme" where
  "mbuf_mark_transport_offset m = m\<lparr>n_transport_off := ucast (m_data m - m_head m)\<rparr>"

definition mbuf_network_offset :: "'a net_mbuf_scheme \<Rightarrow> ptr" where
  "mbuf_network_offset m = m_head m + ucast (n_network_off m)"

definition mbuf_transport_offset :: "'a net_mbuf_scheme \<Rightarrow> ptr" where
  "mbuf_transport_offset m = m_head m + ucast (n_transport_off m)"

section \<open>The window stays inside the buffer\<close>

definition mbuf_off :: "'a mbuf_core_scheme \<Rightarrow> nat" where
  "mbuf_off m = unat (m_data m - m_head m)"

definition mbuf_ok :: "'a mbuf_core_scheme \<Rightarrow> bool" where
  "mbuf_ok m \<longleftrightarrow> mbuf_off m + unat (m_len m) \<le> unat (m_head_len m)"

lemma mbuf_ok_off: "mbuf_ok m \<Longrightarrow> mbuf_off m < 2 ^ LENGTH(32)"
  using u32_fits [of "m_head_len m"] by (simp add: mbuf_ok_def)

lemma mbuf_headroom_nat: "mbuf_ok m \<Longrightarrow> unat (mbuf_headroom m) = mbuf_off m"
  using mbuf_ok_off [of m] by (simp add: mbuf_headroom_def mbuf_off_def unat_ucast_u64_less)

lemma mbuf_tailroom_nat:
  assumes "mbuf_ok m"
  shows "unat (mbuf_tailroom m) = unat (m_head_len m) - mbuf_off m - unat (m_len m)"
proof -
  let ?hl = "ucast (m_head_len m) :: u64" and ?d = "m_data m - m_head m" and ?l = "ucast (m_len m) :: u64"
  have le: "unat ?d + unat ?l \<le> unat ?hl" using assms by (simp add: mbuf_ok_def mbuf_off_def)
  have "unat (?hl - ?d) = unat ?hl - unat ?d" using le by (simp add: unat_sub_if')
  moreover from this have "unat (?hl - ?d - ?l) = unat ?hl - unat ?d - unat ?l"
    using le by (simp add: unat_sub_if' [of "?hl - ?d"])
  moreover have "m_head m + ?hl - m_data m - ?l = ?hl - ?d - ?l" by simp
  ultimately have t: "unat (m_head m + ?hl - m_data m - ?l) = unat (m_head_len m) - mbuf_off m - unat (m_len m)"
    by (simp only: mbuf_off_def unat_ucast_u32)
  moreover have "\<dots> < 2 ^ LENGTH(32)" using u32_fits [of "m_head_len m"] by linarith
  ultimately show ?thesis unfolding mbuf_tailroom_def by (subst unat_ucast_u64_less) simp_all
qed

lemma mbuf_pull_ok:
  assumes "mbuf_ok m" "n \<le> m_len m"
  shows "\<exists>m'. mbuf_pull m n = Inr (m_data m, m') \<and> mbuf_pull_or_null m n = (m_data m, m') \<and> mbuf_ok m'
    \<and> mbuf_off m' = mbuf_off m + unat n \<and> unat (m_len m') = unat (m_len m) - unat n
    \<and> m_head m' = m_head m \<and> m_head_len m' = m_head_len m"
proof -
  let ?m = "snd (mbuf_pull_raw m n)"
  have n: "unat n \<le> unat (m_len m)" using assms(2) by (simp add: word_le_nat_alt)
  have "m_data m + ucast n - m_head m = (m_data m - m_head m) + ucast n" by simp
  then have "unat (m_data m + ucast n - m_head m) = unat (m_data m - m_head m) + unat n"
    using mbuf_ok_off [OF assms(1)] by (simp only: mbuf_off_def unat_add_ucast)
  then have "mbuf_off ?m = mbuf_off m + unat n" by (simp add: mbuf_pull_raw_def mbuf_off_def)
  moreover have "unat (m_len ?m) = unat (m_len m) - unat n"
    using assms(2) by (simp add: mbuf_pull_raw_def unat_sub)
  ultimately show ?thesis
    using assms n
    by (simp add: mbuf_pull_def mbuf_pull_or_null_def mbuf_pull_raw_def mbuf_ok_def not_less)
qed

lemma mbuf_push_ok:
  assumes "mbuf_ok m" "n \<le> mbuf_headroom m"
  shows "\<exists>m'. mbuf_push m n = (m_data m', m') \<and> mbuf_ok m' \<and> mbuf_off m' + unat n = mbuf_off m
    \<and> unat (m_len m') = unat (m_len m) + unat n
    \<and> m_data m' = m_data m - ucast n \<and> m_head m' = m_head m \<and> m_head_len m' = m_head_len m"
proof -
  let ?m = "snd (mbuf_push m n)"
  have n: "unat n \<le> mbuf_off m"
    using assms mbuf_headroom_nat [OF assms(1)] by (simp add: word_le_nat_alt)
  have "m_data m - ucast n - m_head m = (m_data m - m_head m) - ucast n" by simp
  then have "unat (m_data m - ucast n - m_head m) = unat (m_data m - m_head m) - unat n"
    using n by (simp only: mbuf_off_def unat_diff_ucast)
  then have off: "mbuf_off ?m + unat n = mbuf_off m"
    using n by (simp add: mbuf_push_def Let_def mbuf_off_def)
  have "unat (m_len m) + unat n < 2 ^ LENGTH(32)"
    using assms(1) n u32_fits [of "m_head_len m"] by (simp add: mbuf_ok_def)
  then have "unat (m_len ?m) = unat (m_len m) + unat n"
    by (simp add: mbuf_push_def Let_def unat_word_ariths)
  then show ?thesis
    using assms(1) off by (simp add: mbuf_push_def Let_def mbuf_ok_def)
qed

lemma mbuf_put_ok:
  assumes "mbuf_ok m" "n \<le> mbuf_tailroom m"
  shows "\<exists>m'. mbuf_put m n = (m_data m + ucast (m_len m), m') \<and> mbuf_ok m' \<and> mbuf_off m' = mbuf_off m
    \<and> unat (m_len m') = unat (m_len m) + unat n
    \<and> m_data m' = m_data m \<and> m_head m' = m_head m \<and> m_head_len m' = m_head_len m"
proof -
  let ?m = "snd (mbuf_put m n)"
  have n: "mbuf_off m + unat (m_len m) + unat n \<le> unat (m_head_len m)"
    using assms mbuf_tailroom_nat [OF assms(1)] by (simp add: word_le_nat_alt mbuf_ok_def)
  then have "unat (m_len m) + unat n < 2 ^ LENGTH(32)"
    using u32_fits [of "m_head_len m"] by linarith
  then have "unat (m_len ?m) = unat (m_len m) + unat n"
    by (simp add: mbuf_put_def unat_word_ariths)
  then show ?thesis
    using n by (simp add: mbuf_put_def mbuf_ok_def mbuf_off_def)
qed

lemma mbuf_trim_ok:
  assumes "mbuf_ok m" "n \<le> m_len m"
  shows "\<exists>m'. mbuf_trim m n = Inr (m_data m + ucast (m_len m'), m') \<and> mbuf_ok m'
    \<and> mbuf_off m' = mbuf_off m \<and> unat (m_len m') = unat (m_len m) - unat n
    \<and> m_data m' = m_data m \<and> m_head m' = m_head m \<and> m_head_len m' = m_head_len m"
  using assms unat_sub [OF assms(2)]
  by (simp add: mbuf_trim_def Let_def mbuf_ok_def mbuf_off_def not_less)

lemma mbuf_reset_ok:
  assumes "mbuf_ok m" "unat off \<le> mbuf_off m + unat (m_len m)"
  shows "\<exists>m'. mbuf_reset m off = Inr m' \<and> mbuf_ok m' \<and> mbuf_off m' = unat off
    \<and> unat off + unat (m_len m') = mbuf_off m + unat (m_len m)
    \<and> m_head m' = m_head m \<and> m_head_len m' = m_head_len m"
proof -
  have le: "mbuf_off m + unat (m_len m) < 2 ^ LENGTH(32)"
    using assms(1) u32_fits [of "m_head_len m"] by (simp add: mbuf_ok_def)
  have "unat (m_data m - m_head m + ucast (m_len m)) = mbuf_off m + unat (m_len m)"
    using mbuf_ok_off [OF assms(1)] by (simp add: unat_add_ucast mbuf_off_def)
  then have t: "unat (ucast (m_data m - m_head m + ucast (m_len m)) :: u32) = mbuf_off m + unat (m_len m)"
    using le by (subst unat_ucast_u64_less) simp_all
  then have off: "off \<le> ucast (m_data m - m_head m + ucast (m_len m))"
    using assms(2) by (simp add: word_le_nat_alt)
  show ?thesis
    using assms t off unat_sub [OF off]
    by (simp add: mbuf_reset_def Let_def mbuf_ok_def mbuf_off_def not_less)
qed

lemma mbuf_pull_Inr: "mbuf_pull m n = Inr r \<longleftrightarrow> n \<le> m_len m \<and> r = mbuf_pull_raw m n"
  by (auto simp: mbuf_pull_def bindE_eq_Inr not_less)

lemma mbuf_trim_Inr: "mbuf_trim m n = Inr r \<Longrightarrow> n \<le> m_len m"
  by (auto simp: mbuf_trim_def bindE_eq_Inr not_less)

lemma mbuf_reset_Inr:
  assumes "mbuf_ok m" "mbuf_reset m off = Inr m'"
  shows "unat off \<le> mbuf_off m + unat (m_len m)"
proof -
  let ?t = "m_data m - m_head m + ucast (m_len m)"
  have "off \<le> (ucast ?t :: u32)"
    using assms(2) by (auto simp: mbuf_reset_def Let_def bindE_eq_Inr not_less)
  then have "unat off \<le> unat (ucast ?t :: u32)" by (simp add: word_le_nat_alt)
  also have "\<dots> \<le> unat ?t" by (simp add: unsigned_ucast_eq take_bit_nat_less_eq_self)
  also have "\<dots> = mbuf_off m + unat (m_len m)"
    using mbuf_ok_off [OF assms(1)] by (simp add: unat_add_ucast mbuf_off_def)
  finally show ?thesis .
qed

lemma mbuf_init_ok:
  assumes "reserve_len < start_len"
  shows "mbuf_ok (mbuf_init m start start_len reserve_len) \<and> mbuf_off (mbuf_init m start start_len reserve_len) = unat reserve_len"
  using assms by (simp add: mbuf_init_def Let_def mbuf_ok_def mbuf_off_def word_less_nat_alt)

section \<open>Sequences of operations\<close>

text \<open>
  What a client does to a packet, one operation after the other, on the memory and the mbuf. No operation
  is guarded by more than the code guards it.
\<close>

datatype mbuf_op = Pull u32 | PullOrNull u32 | Push u32 | Put u32 | Trim u32 | Reset u32 | Copy ptr u64 u64

primrec run_op :: "mbuf_op \<Rightarrow> mem \<times> 'a mbuf_core_scheme \<Rightarrow> (mem \<times> 'a mbuf_core_scheme) res" where
  "run_op (Pull n) s = bindE (mbuf_pull (snd s) n) (\<lambda>(p, m). Inr (fst s, m))"
| "run_op (PullOrNull n) s = Inr (fst s, snd (mbuf_pull_or_null (snd s) n))"
| "run_op (Push n) s = Inr (fst s, snd (mbuf_push (snd s) n))"
| "run_op (Put n) s = Inr (fst s, snd (mbuf_put (snd s) n))"
| "run_op (Trim n) s = bindE (mbuf_trim (snd s) n) (\<lambda>(p, m). Inr (fst s, m))"
| "run_op (Reset off) s = bindE (mbuf_reset (snd s) off) (\<lambda>m. Inr (fst s, m))"
| "run_op (Copy src n off) s = Inr (mbuf_copy (fst s) (snd s) src n off)"

text \<open>
  The window as an offset and a length in a buffer of \<open>cap\<close> bytes, and what an operation makes of it; nothing, when the
  operation does not fit.
\<close>

primrec win_op :: "nat \<Rightarrow> mbuf_op \<Rightarrow> nat \<times> nat \<Rightarrow> (nat \<times> nat) option" where
  "win_op cap (Pull n) w = (case w of (off, len) \<Rightarrow> if unat n \<le> len then Some (off + unat n, len - unat n) else None)"
| "win_op cap (PullOrNull n) w = (case w of (off, len) \<Rightarrow> if unat n \<le> len then Some (off + unat n, len - unat n) else Some (off, len))"
| "win_op cap (Push n) w = (case w of (off, len) \<Rightarrow> if unat n \<le> off then Some (off - unat n, len + unat n) else None)"
| "win_op cap (Put n) w = (case w of (off, len) \<Rightarrow> if off + len + unat n \<le> cap then Some (off, len + unat n) else None)"
| "win_op cap (Trim n) w = (case w of (off, len) \<Rightarrow> if unat n \<le> len then Some (off, len - unat n) else None)"
| "win_op cap (Reset k) w = (case w of (off, len) \<Rightarrow> if unat k \<le> off + len then Some (unat k, off + len - unat k) else None)"
| "win_op cap (Copy src n k) w = (case w of (off, len) \<Rightarrow>
     if off + len + unat n \<le> cap \<and> off + unat k + unat n \<le> cap then Some (off, len + unat n) else None)"

primrec win_ops :: "nat \<Rightarrow> mbuf_op list \<Rightarrow> nat \<times> nat \<Rightarrow> (nat \<times> nat) option" where
  "win_ops cap [] w = Some w"
| "win_ops cap (op # ops) w = (case win_op cap op w of None \<Rightarrow> None | Some w \<Rightarrow> win_ops cap ops w)"

text \<open>How an operation that does not fit shows: the ones that check stop the program, the others leave the buffer.\<close>

primrec overruns :: "ptr \<Rightarrow> nat \<Rightarrow> nat \<times> nat \<Rightarrow> mbuf_op \<Rightarrow> (mem \<times> 'a mbuf_core_scheme) res \<Rightarrow> bool" where
  "overruns start cap w (Pull n) r \<longleftrightarrow> r = Inl Abort"
| "overruns start cap w (PullOrNull n) r \<longleftrightarrow> False"
| "overruns start cap w (Push n) r \<longleftrightarrow> (\<exists>h m. r = Inr (h, m) \<and> cap < unat (m_data m - start))"
| "overruns start cap w (Put n) r \<longleftrightarrow> (\<exists>h m. r = Inr (h, m) \<and> unat (m_data m - start) = fst w
     \<and> (cap < fst w + unat (m_len m) \<or> unat (m_len m) + 2 ^ 32 = snd w + unat n))"
| "overruns start cap w (Trim n) r \<longleftrightarrow> r = Inl Abort"
| "overruns start cap w (Reset k) r \<longleftrightarrow> r = Inl Abort"
| "overruns start cap w (Copy src n k) r \<longleftrightarrow> (\<exists>h m. r = Inr (h, m) \<and> unat (m_data m - start) = fst w
     \<and> (cap < fst w + unat (m_len m) \<or> unat (m_len m) < snd w + unat n \<or> cap < fst w + unat k + unat n))"

definition window :: "ptr \<Rightarrow> u32 \<Rightarrow> nat \<times> nat \<Rightarrow> 'a mbuf_core_scheme \<Rightarrow> bool" where
  "window start cap w m \<longleftrightarrow> m_head m = start \<and> m_head_len m = cap \<and> unat (m_data m - start) = fst w
     \<and> unat (m_len m) = snd w \<and> fst w + snd w \<le> unat cap"

lemma window_ok: "window start cap w m \<longleftrightarrow> mbuf_ok m \<and> m_head m = start \<and> m_head_len m = cap \<and> w = (mbuf_off m, unat (m_len m))"
  by (cases w) (auto simp: window_def mbuf_ok_def mbuf_off_def)

lemma mbuf_copy_window:
  assumes "window start cap (off, len) m" "disjoint_regions start (unat cap) src (unat n)"
    and "off + len + unat n \<le> unat cap" "off + unat k + unat n \<le> unat cap"
  shows "\<exists>h' m'. mbuf_copy h m src n k = (h', m') \<and> window start cap (off, len + unat n) m'
    \<and> (\<forall>a. unat cap \<le> unat (a - start) \<longrightarrow> h' a = h a)"
proof -
  have w: "unat (m_data m - start) = off" "unat (m_len m) = len" "m_head m = start" "m_head_len m = cap"
    using assms(1) by (simp_all add: window_def)
  have small: "unat cap < 2 ^ LENGTH(32)" by (rule u32_fits)
  have "unat (ucast n :: u32) = unat n" by (rule unat_ucast_u64_less) (use assms(3) small in linarith)
  then have len: "unat (m_len m + ucast n) = len + unat n"
    using w(2) assms(3) small by (simp add: unat_word_ariths)
  have at: "m_data m + k = start + of_nat (off + unat k)"
  proof -
    have "m_data m = start + (m_data m - start)" by simp
    also have "m_data m - start = of_nat off" using w(1) by (metis of_nat_unat id_apply ucast_id)
    finally show ?thesis by (simp add: add.assoc)
  qed
  have u: "unat (of_nat (off + unat k) :: u64) = off + unat k"
    by (rule unat_of_nat_less) (use assms(4) small in simp)
  have "disjoint_regions (m_data m + k) (unat n) src (unat n)"
  proof (cases "unat n = 0")
    case False
    then show ?thesis unfolding at using disjoint_parts(3) [OF assms(2), of "of_nat (off + unat k)" "unat n" "unat n"] u assms(4) by simp
  qed (simp add: disjoint_regions_def)
  then have copy: "rte_memcpy_func h (m_data m + k) src n = memcpy h (m_data m + k) src (unat n)" by (rule rte_memcpy_any)
  have "memcpy h (m_data m + k) src (unat n) a = h a" if "unat cap \<le> unat (a - start)" for a
  proof -
    have "unat n \<le> unat (a - (start + of_nat (off + unat k)))"
    proof -
      have "a - (start + of_nat (off + unat k)) = (a - start) - of_nat (off + unat k)" by simp
      moreover have "unat ((a - start) - of_nat (off + unat k)) = unat (a - start) - (off + unat k)"
        using that assms(4) u by (simp add: unat_sub_if')
      ultimately have "unat (a - (start + of_nat (off + unat k))) = unat (a - start) - (off + unat k)" by (simp only:)
      then show ?thesis using that assms(4) by linarith
    qed
    then show ?thesis unfolding at memcpy_def by (simp add: store_bytes_outside)
  qed
  then show ?thesis using w len assms(3) by (simp add: mbuf_copy_def copy window_def)
qed

lemma run_op_fits:
  assumes "window start cap w m" "win_op (unat cap) op w = Some w'"
    and "\<And>src n k. op = Copy src n k \<Longrightarrow> disjoint_regions start (unat cap) src (unat n)"
  shows "\<exists>h' m'. run_op op (h, m) = Inr (h', m') \<and> window start cap w' m' \<and> (\<forall>a. unat cap \<le> unat (a - start) \<longrightarrow> h' a = h a)"
proof -
  have ok: "mbuf_ok m" "m_head m = start" "m_head_len m = cap" "w = (mbuf_off m, unat (m_len m))"
    using assms(1) by (simp_all add: window_ok)
  show ?thesis
  proof (cases op)
    case (Pull n)
    then have "n \<le> m_len m" "w' = (mbuf_off m + unat n, unat (m_len m) - unat n)"
      using assms(2) ok(4) by (simp_all add: word_le_nat_alt split: if_splits)
    then show ?thesis using mbuf_pull_ok [OF ok(1), of n] ok Pull by (auto simp: window_ok)
  next
    case (PullOrNull n)
    then show ?thesis
      using assms(2) ok mbuf_pull_ok [OF ok(1), of n]
      by (cases "n \<le> m_len m") (auto simp: window_ok word_le_nat_alt mbuf_pull_or_null_def)
  next
    case (Push n)
    then have "n \<le> mbuf_headroom m" "w' = (mbuf_off m - unat n, unat (m_len m) + unat n)"
      using assms(2) ok mbuf_headroom_nat [OF ok(1)] by (simp_all add: word_le_nat_alt split: if_splits)
    then show ?thesis using mbuf_push_ok [OF ok(1), of n] ok Push by (auto simp: window_ok)
  next
    case (Put n)
    then have "n \<le> mbuf_tailroom m" "w' = (mbuf_off m, unat (m_len m) + unat n)"
      using assms(2) ok mbuf_tailroom_nat [OF ok(1)] by (simp_all add: word_le_nat_alt split: if_splits)
    then show ?thesis using mbuf_put_ok [OF ok(1), of n] ok Put by (auto simp: window_ok)
  next
    case (Trim n)
    then have "n \<le> m_len m" "w' = (mbuf_off m, unat (m_len m) - unat n)"
      using assms(2) ok(4) by (simp_all add: word_le_nat_alt split: if_splits)
    then show ?thesis using mbuf_trim_ok [OF ok(1), of n] ok Trim by (auto simp: window_ok)
  next
    case (Reset k)
    then have "unat k \<le> mbuf_off m + unat (m_len m)" "w' = (unat k, mbuf_off m + unat (m_len m) - unat k)"
      using assms(2) ok(4) by (simp_all split: if_splits)
    then show ?thesis using mbuf_reset_ok [OF ok(1), of k] ok Reset by (auto simp: window_ok)
  next
    case (Copy src n k)
    then have "fst w + snd w + unat n \<le> unat cap" "fst w + unat k + unat n \<le> unat cap" "w' = (fst w, snd w + unat n)"
      using assms(2) by (simp_all split: prod.splits if_splits)
    then show ?thesis
      using mbuf_copy_window [of start cap "fst w" "snd w" m src n k h] assms(1) assms(3) [OF Copy] Copy by auto
  qed
qed

lemma run_op_overruns:
  assumes "window start cap w m" "win_op (unat cap) op w = None"
  shows "overruns start (unat cap) w op (run_op op (h, m))"
proof -
  have ok: "mbuf_ok m" "m_head m = start" "m_head_len m = cap" "w = (mbuf_off m, unat (m_len m))"
    using assms(1) by (simp_all add: window_ok)
  have off: "unat (m_data m - start) = mbuf_off m" by (simp add: mbuf_off_def ok(2))
  have fits: "mbuf_off m + unat (m_len m) \<le> unat cap" using ok(1,3) by (simp add: mbuf_ok_def)
  have small: "unat cap < 2 ^ 32" using u32_fits [of cap] by simp
  have add: "unat (m_len m + n) = (unat (m_len m) + unat n) mod 2 ^ 32" for n :: u32 by (simp add: unat_word_ariths)
  show ?thesis
  proof (cases op)
    case (Pull n)
    then show ?thesis using assms(2) ok(4) by (simp add: mbuf_pull_def word_less_nat_alt split: if_splits)
  next
    case (PullOrNull n)
    then show ?thesis using assms(2) ok(4) by (simp split: if_splits)
  next
    case (Push n)
    then have n: "mbuf_off m < unat n" using assms(2) ok(4) by (simp split: if_splits)
    have "m_data m - ucast n - start = (m_data m - start) - ucast n" by simp
    also have "unat \<dots> = 2 ^ 64 + mbuf_off m - unat n"
      using n off by (simp add: unat_sub_if')
    finally have "unat (m_data m - ucast n - start) = 2 ^ 64 + mbuf_off m - unat n" .
    then have "unat cap < unat (m_data m - ucast n - start)" using small n u32_fits [of n] by simp
    then show ?thesis using Push by (simp add: mbuf_push_def Let_def)
  next
    case (Put n)
    then have n: "unat cap < mbuf_off m + unat (m_len m) + unat n" using assms(2) ok(4) by (simp split: if_splits)
    have "unat cap < mbuf_off m + unat (m_len m + n) \<or> unat (m_len m + n) + 2 ^ 32 = unat (m_len m) + unat n"
    proof (cases "unat (m_len m) + unat n < 2 ^ 32")
      case True
      then show ?thesis using n add [of n] by simp
    next
      case False
      then have "(unat (m_len m) + unat n) mod 2 ^ 32 = unat (m_len m) + unat n - 2 ^ 32"
        using u32_fits [of n] u32_fits [of "m_len m"] by (simp add: le_mod_geq)
      then show ?thesis using add [of n] False by simp
    qed
    then show ?thesis using Put ok(4) off by (simp add: mbuf_put_def)
  next
    case (Trim n)
    then show ?thesis using assms(2) ok(4) by (simp add: mbuf_trim_def word_less_nat_alt split: if_splits)
  next
    case (Reset k)
    then have k: "\<not> unat k \<le> mbuf_off m + unat (m_len m)" using assms(2) ok(4) by (simp split: if_splits)
    have "mbuf_reset m k = Inl Abort"
    proof (cases "mbuf_reset m k")
      case (Inr m')
      then show ?thesis using mbuf_reset_Inr [OF ok(1) Inr] k by simp
    next
      case (Inl e)
      then show ?thesis by (auto simp: mbuf_reset_def Let_def guardE_def split: if_splits)
    qed
    then show ?thesis using Reset by simp
  next
    case (Copy src n k)
    then have n: "unat cap < mbuf_off m + unat (m_len m) + unat n \<or> unat cap < mbuf_off m + unat k + unat n"
      using assms(2) ok(4) by (auto split: if_splits)
    have "unat (m_len m + ucast n) \<le> unat (m_len m) + unat n"
    proof -
      have "unat (m_len m + ucast n) \<le> unat (m_len m) + unat (ucast n :: u32)" by (simp add: unat_word_ariths)
      also have "unat (ucast n :: u32) \<le> unat n" by (simp add: unsigned_ucast_eq take_bit_nat_less_eq_self)
      finally show ?thesis by simp
    qed
    then show ?thesis using Copy ok(4) off n by (auto simp: mbuf_copy_def)
  qed
qed



text \<open>
  The operations undo each other: a pull gives back the packet that a
  push found, a trim the one a put found, and a reset to the old headroom the
  one a pull found.
\<close>

lemma mbuf_inverses:
  assumes "mbuf_ok m"
  shows "(n \<le> mbuf_headroom m \<longrightarrow>
       mbuf_pull (snd (mbuf_push m n)) n = Inr (m_data m - ucast n, m))
    \<and> (n \<le> mbuf_tailroom m \<longrightarrow>
       mbuf_trim (snd (mbuf_put m n)) n = Inr (m_data m + ucast (m_len m), m))
    \<and> (n \<le> m_len m \<longrightarrow> mbuf_reset (snd (mbuf_pull_or_null m n)) (mbuf_headroom m) = Inr m)"
proof -
  have push: "mbuf_pull (snd (mbuf_push m n)) n = Inr (m_data m - ucast n, m)"
    if "n \<le> mbuf_headroom m"
  proof -
    obtain m' where m': "mbuf_push m n = (m_data m', m')" "unat (m_len m') = unat (m_len m) + unat n"
      using mbuf_push_ok [OF assms \<open>n \<le> mbuf_headroom m\<close>] by blast
    then have "n \<le> m_len (snd (mbuf_push m n))" by (simp add: word_le_nat_alt)
    then show ?thesis by (simp add: mbuf_pull_Inr) (simp add: mbuf_pull_raw_def mbuf_push_def Let_def)
  qed
  have put: "mbuf_trim (snd (mbuf_put m n)) n = Inr (m_data m + ucast (m_len m), m)"
    if "n \<le> mbuf_tailroom m"
  proof -
    obtain m' where m': "mbuf_put m n = (m_data m + ucast (m_len m), m')"
      "unat (m_len m') = unat (m_len m) + unat n"
      using mbuf_put_ok [OF assms \<open>n \<le> mbuf_tailroom m\<close>] by blast
    then have "\<not> m_len m' < n" by (simp add: word_less_nat_alt)
    moreover have "m' = m\<lparr>m_len := m_len m + n\<rparr>" using m'(1) by (simp add: mbuf_put_def)
    ultimately show ?thesis by (simp add: mbuf_put_def mbuf_trim_def)
  qed
  have pull: "mbuf_reset (snd (mbuf_pull_or_null m n)) (mbuf_headroom m) = Inr m" if "n \<le> m_len m"
  proof -
    obtain m' where m': "mbuf_pull_or_null m n = (m_data m, m')" "mbuf_ok m'"
        "mbuf_off m' = mbuf_off m + unat n" "unat (m_len m') = unat (m_len m) - unat n"
        "m_head m' = m_head m" "m_head_len m' = m_head_len m"
      using mbuf_pull_ok [OF assms \<open>n \<le> m_len m\<close>] by blast
    have n: "unat n \<le> unat (m_len m)" using \<open>n \<le> m_len m\<close> by (simp add: word_le_nat_alt)
    have "unat (mbuf_headroom m) \<le> mbuf_off m' + unat (m_len m')"
      using m'(3,4) mbuf_headroom_nat [OF assms] by simp
    then obtain r where r: "mbuf_reset m' (mbuf_headroom m) = Inr r" "mbuf_off r = unat (mbuf_headroom m)"
        "unat (mbuf_headroom m) + unat (m_len r) = mbuf_off m' + unat (m_len m')" "m_head r = m_head m'"
      using mbuf_reset_ok [OF m'(2)] by blast
    have "unat (m_data r - m_head r) = unat (m_data m - m_head m)"
      using r(2) mbuf_headroom_nat [OF assms] by (simp add: mbuf_off_def)
    then have "m_data r - m_head r = m_data m - m_head m" by (simp only: word_unat_eq_iff)
    then have data: "m_data r = m_data m" using r(4) m'(5) by simp
    have "unat (m_len r) = unat (m_len m)"
      using r(3) m'(3,4) mbuf_headroom_nat [OF assms] n by simp
    then have len: "m_len r = m_len m" by (simp only: word_unat_eq_iff)
    have "m' = m\<lparr>m_len := m_len m - n, m_data := m_data m + ucast n\<rparr>"
      using m'(1) \<open>n \<le> m_len m\<close> by (simp add: mbuf_pull_or_null_def mbuf_pull_raw_def)
    moreover have "r = m'\<lparr>m_data := m_data r, m_len := m_len r\<rparr>"
      using r(1) by (auto simp: mbuf_reset_def Let_def bindE_eq_Inr)
    ultimately have "r = m" using data len by simp
    then show ?thesis using r(1) m'(1) by simp
  qed
  show ?thesis using push put pull by blast
qed

text \<open>
  \<open>mbuf_copy\<close> at the end of the data, within the tailroom and from a
  disjoint source, appends exactly the source's bytes to the packet's data.
\<close>

lemma mbuf_copy_appends:
  assumes "mbuf_ok m" "unat n \<le> unat (mbuf_tailroom m)"
    and "disjoint_regions (m_data m + ucast (m_len m)) (unat n) src (unat n)"
  shows "case mbuf_copy h m src n (ucast (m_len m)) of (h', m') \<Rightarrow>
    load_bytes h' (m_data m') (unat (m_len m'))
      = load_bytes h (m_data m) (unat (m_len m)) @ load_bytes h src (unat n) \<and> mbuf_ok m'"
proof -
  have total: "mbuf_off m + unat (m_len m) + unat n \<le> unat (m_head_len m)"
    using assms(1,2) by (simp add: mbuf_tailroom_nat mbuf_ok_def)
  have less: "unat (m_len m) + unat n < 2 ^ LENGTH(32)"
    using total u32_fits [of "m_head_len m"] by linarith
  have "unat (ucast n :: u32) = unat n" by (rule unat_ucast_u64_less) (use less in linarith)
  then have len: "unat (m_len m + ucast n) = unat (m_len m) + unat n"
    using less by (simp add: unat_word_ariths)
  have "unat (m_len m) + unat n \<le> 2 ^ 64" using less by simp
  then have "load_bytes (memcpy h (m_data m + of_nat (unat (m_len m))) src (unat n)) (m_data m)
      (unat (m_len m) + unat n)
    = load_bytes h (m_data m) (unat (m_len m)) @ load_bytes h src (unat n)"
    by (rule load_after_append)
  then show ?thesis
    using total len rte_memcpy_any [OF assms(3), of h]
    by (simp add: mbuf_copy_def mbuf_ok_def mbuf_off_def)
qed

lemma example_mbuf: "mbuf_ok \<lparr>m_next = 0, m_head = 4096, m_data = 4224, m_head_len = 2048, m_len = 64\<rparr>"
  by (simp add: mbuf_ok_def mbuf_off_def)

lemma mbuf_inverses_witness:
  "mbuf_pull (snd (mbuf_push \<lparr>m_next = 0, m_head = 4096, m_data = 4224, m_head_len = 2048, m_len = 64\<rparr> 42)) 42
    = Inr (4182, \<lparr>m_next = 0, m_head = 4096, m_data = 4224, m_head_len = 2048, m_len = 64\<rparr>)"
  using mbuf_inverses [OF example_mbuf, of 42] by (simp add: mbuf_headroom_def word_le_nat_alt)

lemma mbuf_copy_appends_witness:
  "case mbuf_copy (\<lambda>a. ucast a) \<lparr>m_next = 0, m_head = 4096, m_data = 4224, m_head_len = 2048, m_len = 64\<rparr>
      8192 4 64 of (h', m') \<Rightarrow> load_bytes h' (m_data m') (unat (m_len m'))
        = load_bytes (\<lambda>a. ucast a) 4224 64 @ load_bytes (\<lambda>a. ucast a) 8192 4 \<and> mbuf_ok m'"
proof -
  let ?m = "\<lparr>m_next = 0, m_head = 4096, m_data = 4224, m_head_len = 2048, m_len = 64\<rparr>"
  have "disjoint_regions (m_data ?m + ucast (m_len ?m)) (unat (4 :: u64)) 8192 (unat (4 :: u64))"
    "unat (4 :: u64) \<le> unat (mbuf_tailroom ?m)"
    by (simp_all add: disjoint_regions_def mbuf_tailroom_def)
  from mbuf_copy_appends [OF example_mbuf this(2,1), of "\<lambda>a. ucast a"]
  show ?thesis by simp
qed

end
