(* ===== verification/Byteorder.thy ===== *)
theory Byteorder
  imports Memory
begin

text \<open>
  The byte swaps of inc/base/byteorder.h as the portable code computes them
  (mask, shift, combine), and the conversions of a little-endian host that are
  defined by them. A swap is the reversal of the value's bytes in memory.
\<close>

definition bswap16 :: "u16 \<Rightarrow> u16" where
  "bswap16 v = push_bit 8 (v AND 0x00ff) OR drop_bit 8 (v AND 0xff00)"

definition bswap32 :: "u32 \<Rightarrow> u32" where
  "bswap32 v = push_bit 24 (v AND 0x000000ff) OR push_bit 8 (v AND 0x0000ff00)
     OR drop_bit 8 (v AND 0x00ff0000) OR drop_bit 24 (v AND 0xff000000)"

definition bswap64 :: "u64 \<Rightarrow> u64" where
  "bswap64 v = push_bit 56 (v AND 0x00000000000000ff) OR push_bit 40 (v AND 0x000000000000ff00)
     OR push_bit 24 (v AND 0x0000000000ff0000) OR push_bit 8 (v AND 0x00000000ff000000)
     OR drop_bit 8 (v AND 0x000000ff00000000) OR drop_bit 24 (v AND 0x0000ff0000000000)
     OR drop_bit 40 (v AND 0x00ff000000000000) OR drop_bit 56 (v AND 0xff00000000000000)"

definition ntoh16 :: "u16 \<Rightarrow> u16" where "ntoh16 x = bswap16 x"
definition ntoh32 :: "u32 \<Rightarrow> u32" where "ntoh32 x = bswap32 x"
definition ntoh64 :: "u64 \<Rightarrow> u64" where "ntoh64 x = bswap64 x"
definition hton16 :: "u16 \<Rightarrow> u16" where "hton16 x = bswap16 x"
definition hton32 :: "u32 \<Rightarrow> u32" where "hton32 x = bswap32 x"
definition hton64 :: "u64 \<Rightarrow> u64" where "hton64 x = bswap64 x"

text \<open>Masks of consecutive bits.\<close>

lemma bit_byte_up:
  fixes v :: "'a::len word"
  shows "bit (push_bit j (v AND push_bit k (mask 8))) n
    \<longleftrightarrow> n < LENGTH('a) \<and> j + k \<le> n \<and> n < j + k + 8 \<and> bit v (n - j)"
  using bit_imp_le_length [of v "n - j"] by (auto simp: bit_push_bit_iff bit_and_iff bit_mask_iff)

lemma bit_byte_down:
  fixes v :: "'a::len word"
  shows "bit (drop_bit j (v AND push_bit k (mask 8))) n
    \<longleftrightarrow> k \<le> n + j \<and> n + j < k + 8 \<and> bit v (n + j)"
  using bit_imp_le_length [of v "n + j"]
  by (auto simp: bit_push_bit_iff bit_and_iff bit_mask_iff bit_drop_bit_eq ac_simps)

lemma byte_masks:
  "(0x00ff :: 'a::len word) = push_bit 0 (mask 8)"
  "(0xff00 :: 'a word) = push_bit 8 (mask 8)"
  "(0xff0000 :: 'a word) = push_bit 16 (mask 8)"
  "(0xff000000 :: 'a word) = push_bit 24 (mask 8)"
  "(0xff00000000 :: 'a word) = push_bit 32 (mask 8)"
  "(0xff0000000000 :: 'a word) = push_bit 40 (mask 8)"
  "(0xff000000000000 :: 'a word) = push_bit 48 (mask 8)"
  "(0xff00000000000000 :: 'a word) = push_bit 56 (mask 8)"
  by (simp_all add: mask_eq_exp_minus_1 push_bit_eq_mult)

lemmas bit_bytes = bit_or_iff bit_byte_up bit_byte_down

lemma bit_bswap16: "bit (bswap16 v) n \<longleftrightarrow> n < 16 \<and> bit v (if n < 8 then n + 8 else n - 8)"
  unfolding bswap16_def byte_masks bit_bytes by auto

lemma bit_bswap32:
  "bit (bswap32 v) n \<longleftrightarrow> n < 32 \<and> bit v (if n < 8 then n + 24 else if n < 16 then n + 8
     else if n < 24 then n - 8 else n - 24)"
  unfolding bswap32_def byte_masks bit_bytes by auto

lemma bit_bswap64:
  "bit (bswap64 v) n \<longleftrightarrow> n < 64 \<and> bit v (if n < 8 then n + 56 else if n < 16 then n + 40
     else if n < 24 then n + 24 else if n < 32 then n + 8 else if n < 40 then n - 8
     else if n < 48 then n - 24 else if n < 56 then n - 40 else n - 56)"
  unfolding bswap64_def byte_masks bit_bytes by auto

lemma bswap_rev:
  "le16 (bswap16 a) = rev (le16 a)"
  "le32 (bswap32 b) = rev (le32 b)"
  "le64 (bswap64 c) = rev (le64 c)"
proof -
  show "le16 (bswap16 a) = rev (le16 a)"
    by (auto simp: le16_def bit_eq_iff bit_unsigned_iff bit_drop_bit_eq bit_bswap16 ac_simps)
  show "le32 (bswap32 b) = rev (le32 b)"
    by (auto simp: le32_def upt_rec bit_eq_iff bit_unsigned_iff bit_drop_bit_eq bit_bswap32 ac_simps)
  show "le64 (bswap64 c) = rev (le64 c)"
    by (auto simp: le64_def upt_rec bit_eq_iff bit_unsigned_iff bit_drop_bit_eq bit_bswap64 ac_simps)
qed

lemma bswap_bswap [simp]:
  shows "bswap16 (bswap16 a) = a" and "bswap32 (bswap32 b) = b" and "bswap64 (bswap64 c) = c"
proof -
  have "of_le16 (le16 (bswap16 (bswap16 a)) @ []) = of_le16 (le16 a @ [])"
    by (simp only: bswap_rev rev_rev_ident)
  then show "bswap16 (bswap16 a) = a" by (simp only: of_le16_le16)
  have "of_le32 (le32 (bswap32 (bswap32 b)) @ []) = of_le32 (le32 b @ [])"
    by (simp only: bswap_rev rev_rev_ident)
  then show "bswap32 (bswap32 b) = b" by (simp only: of_le32_le32)
  have "of_le64 (le64 (bswap64 (bswap64 c)) @ []) = of_le64 (le64 c @ [])"
    by (simp only: bswap_rev rev_rev_ident)
  then show "bswap64 (bswap64 c) = c" by (simp only: of_le64_le64)
qed

lemmas byteorder_defs = ntoh16_def ntoh32_def ntoh64_def hton16_def hton32_def hton64_def

lemma ntoh_hton [simp]:
  "ntoh16 (hton16 a) = a" "ntoh32 (hton32 b) = b" "ntoh64 (hton64 c) = c"
  "hton16 (ntoh16 a) = a" "hton32 (ntoh32 b) = b" "hton64 (ntoh64 c) = c"
  by (simp_all add: byteorder_defs)

text \<open>
  A host value converted for the network lies in memory with its most
  significant byte first, and the conversion back returns the value.
\<close>

lemma byteorder_network:
  "le16 (hton16 a) = rev (le16 a) \<and> le32 (hton32 b) = rev (le32 b) \<and> le64 (hton64 c) = rev (le64 c)
   \<and> ntoh16 (hton16 a) = a \<and> ntoh32 (hton32 b) = b \<and> ntoh64 (hton64 c) = c"
  by (simp add: bswap_rev byteorder_defs)

end
