(* ===== verification/Checksum.thy ===== *)
theory Checksum
  imports Byteorder
begin

text \<open>
  The Internet checksum routines: the word-at-a-time sums of inc/net/chksum.h
  and inc/net/ip.h with their unrolled loops, and the add-with-carry chain of
  inc/asm/chksum.h. All are compared with one reference, the sum of the 16-bit
  words of the buffer reduced to a 16-bit one's complement number.
\<close>

section \<open>The reference\<close>

fun words_sum :: "u8 list \<Rightarrow> nat" where
  "words_sum (a # b # bs) = unat a + 256 * unat b + words_sum bs"
| "words_sum [a] = unat a"
| "words_sum [] = 0"

text \<open>The one's complement representative of a sum: 0 for 0, else a number from 1 to 65535.\<close>

definition ones_rep :: "nat \<Rightarrow> nat" where
  "ones_rep s = (if s = 0 then 0 else (s - 1) mod 65535 + 1)"

section \<open>inc/net/chksum.h and inc/net/ip.h\<close>

text \<open>The loop unrolled four times, then the loop on single words, then the odd byte.\<close>

function raw_cksum_loop4 :: "mem \<Rightarrow> ptr \<times> u64 \<times> u32 \<Rightarrow> ptr \<times> u64 \<times> u32" where
  "raw_cksum_loop4 m (p, len, acc) =
     (if 2 * 4 \<le> len then
        let acc = acc + ucast (ld16 m p);
            acc = acc + ucast (ld16 m (p + 2));
            acc = acc + ucast (ld16 m (p + 4));
            acc = acc + ucast (ld16 m (p + 6))
        in raw_cksum_loop4 m (p + 8, len - 2 * 4, acc)
      else (p, len, acc))"
  by pat_completeness auto
termination
  by (relation "measure (\<lambda>(m, p, len, acc). unat len)") (auto simp: unat_sub word_le_nat_alt)

function raw_cksum_loop1 :: "mem \<Rightarrow> ptr \<times> u64 \<times> u32 \<Rightarrow> ptr \<times> u64 \<times> u32" where
  "raw_cksum_loop1 m (p, len, acc) =
     (if 2 \<le> len then raw_cksum_loop1 m (p + 2, len - 2, acc + ucast (ld16 m p))
      else (p, len, acc))"
  by pat_completeness auto
termination
  by (relation "measure (\<lambda>(m, p, len, acc). unat len)") (auto simp: unat_sub word_le_nat_alt)

declare raw_cksum_loop4.simps [simp del] raw_cksum_loop1.simps [simp del]

definition raw_cksum_sum :: "mem \<Rightarrow> ptr \<Rightarrow> u64 \<Rightarrow> u32 \<Rightarrow> u32" where
  "raw_cksum_sum m buf len acc =
     (case raw_cksum_loop1 m (raw_cksum_loop4 m (buf, len, acc)) of (p, len, acc) \<Rightarrow>
        if len = 1 then acc + ucast (m p) else acc)"

definition raw_cksum_reduce :: "u32 \<Rightarrow> u16" where
  "raw_cksum_reduce acc =
     (let acc = drop_bit 16 (acc AND 0xffff0000) + (acc AND 0xffff);
          acc = drop_bit 16 (acc AND 0xffff0000) + (acc AND 0xffff)
      in ucast acc)"

definition raw_cksum :: "mem \<Rightarrow> ptr \<Rightarrow> u64 \<Rightarrow> u16" where
  "raw_cksum m buf len = (let acc = raw_cksum_sum m buf len 0 in raw_cksum_reduce acc)"

text \<open>The copy in inc/net/ip.h stores the odd byte into a zeroed 16-bit variable first.\<close>

definition rte_raw_cksum_sum :: "mem \<Rightarrow> ptr \<Rightarrow> u64 \<Rightarrow> u32 \<Rightarrow> u32" where
  "rte_raw_cksum_sum m buf len acc =
     (case raw_cksum_loop1 m (raw_cksum_loop4 m (buf, len, acc)) of (p, len, acc) \<Rightarrow>
        if len = 1 then let left = of_le16 [m p, 0] in acc + ucast left else acc)"

definition rte_raw_cksum_reduce :: "u32 \<Rightarrow> u16" where
  "rte_raw_cksum_reduce acc =
     (let acc = drop_bit 16 (acc AND 0xffff0000) + (acc AND 0xffff);
          acc = drop_bit 16 (acc AND 0xffff0000) + (acc AND 0xffff)
      in ucast acc)"

definition rte_raw_cksum :: "mem \<Rightarrow> ptr \<Rightarrow> u64 \<Rightarrow> u16" where
  "rte_raw_cksum m buf len = (let acc = rte_raw_cksum_sum m buf len 0 in rte_raw_cksum_reduce acc)"

text \<open>The macro takes the size of its argument, which its uses pass as a pointer.\<close>

definition get_chksum :: "mem \<Rightarrow> ptr \<Rightarrow> u16" where
  "get_chksum m hdr = hton16 (rte_raw_cksum m hdr 8)"

text \<open>The pseudo header as it lies in memory; \<open>a\<close> is where the compiler puts it.\<close>

record ipv4_psd_header =
  psd_saddr :: u32
  psd_daddr :: u32
  psd_zero :: u8
  psd_proto :: u8
  psd_len :: u16

definition psd_bytes :: "ipv4_psd_header \<Rightarrow> u8 list" where
  "psd_bytes h = le32 (psd_saddr h) @ le32 (psd_daddr h) @ [psd_zero h, psd_proto h] @ le16 (psd_len h)"

definition ipv4_phdr_cksum :: "mem \<Rightarrow> ptr \<Rightarrow> u8 \<Rightarrow> u32 \<Rightarrow> u32 \<Rightarrow> u16 \<Rightarrow> u16" where
  "ipv4_phdr_cksum m a proto saddr daddr l4len =
     (let psd_hdr = \<lparr>psd_saddr = hton32 saddr, psd_daddr = hton32 daddr, psd_zero = 0,
        psd_proto = proto, psd_len = hton16 l4len\<rparr>
      in raw_cksum (store_bytes m a (psd_bytes psd_hdr)) a 12)"

definition ipv4_udptcp_cksum :: "mem \<Rightarrow> ptr \<Rightarrow> u8 \<Rightarrow> u32 \<Rightarrow> u32 \<Rightarrow> u16 \<Rightarrow> ptr \<Rightarrow> u16" where
  "ipv4_udptcp_cksum m a proto saddr daddr l4len l4hdr =
     (let cksum = ucast (raw_cksum m l4hdr (ucast l4len)) :: u32;
          cksum = cksum + ucast (ipv4_phdr_cksum m a proto saddr daddr l4len);
          cksum = drop_bit 16 (cksum AND 0xffff0000) + (cksum AND 0xffff);
          cksum = (NOT cksum) AND 0xffff;
          cksum = (if cksum = 0 then 0xffff else cksum)
      in ucast cksum)"

section \<open>inc/asm/chksum.h\<close>

text \<open>
  \<open>add_carry\<close> is the instruction \<open>adc\<close> at any width (\<open>add\<close> with no carry in): the
  sum and the carry flag. The instructions between two additions of the loop
  (\<open>lea\<close>, \<open>dec\<close>, \<open>jne\<close>) leave the carry flag alone.
\<close>

definition add_carry :: "'a::len word \<Rightarrow> 'a word \<Rightarrow> bool \<Rightarrow> 'a word \<times> bool" where
  "add_carry x y c = (x + y + of_bool c, 2 ^ LENGTH('a) \<le> unat x + unat y + of_bool c)"

primrec adcq_loop :: "mem \<Rightarrow> nat \<Rightarrow> ptr \<Rightarrow> u64 \<times> bool \<Rightarrow> ptr \<times> u64 \<times> bool" where
  "adcq_loop m 0 p sc = (p, sc)"
| "adcq_loop m (Suc k) p sc = adcq_loop m k (p + 8) (add_carry (fst sc) (ld64 m p) (snd sc))"

definition add_end_around :: "'a::len word \<Rightarrow> 'a word \<Rightarrow> 'a word" where
  "add_end_around x y = (case add_carry x y False of (s, c) \<Rightarrow> fst (add_carry s 0 c))"

definition chksum_internet :: "mem \<Rightarrow> ptr \<Rightarrow> u32 \<Rightarrow> u16" where
  "chksum_internet m buf n =
     (let edx = drop_bit 3 n;
          (p, s) = (if edx = 0 then (buf, 0) else
            (case adcq_loop m (unat edx) buf (0, False) of (p, s, c) \<Rightarrow> (p, fst (add_carry s 0 c))));
          (p, s) = (if n AND 4 = 0 then (p, s) else (p + 4, add_end_around s (ucast (ld32 m p))));
          (p, s) = (if n AND 2 = 0 then (p, s) else (p + 2, add_end_around s (ucast (ld16 m p))));
          s = (if n AND 1 = 0 then s else add_end_around s (ucast (m p)));
          k = add_end_around (ucast (drop_bit 32 s)) (ucast s) :: u32;
          w = add_end_around (ucast (drop_bit 16 k)) (ucast k) :: u16
      in NOT w)"

section \<open>Sums of words\<close>

lemma words_sum_append: "even (length xs) \<Longrightarrow> words_sum (xs @ ys) = words_sum xs + words_sum ys"
  by (induction xs rule: words_sum.induct) auto

lemma words_sum_le: "words_sum bs \<le> 65535 * ((length bs + 1) div 2)"
proof (induction bs rule: words_sum.induct)
  case (1 a b bs)
  have "unat a < 2 ^ LENGTH(8)" "unat b < 2 ^ LENGTH(8)" by (rule unsigned_less)+
  with 1 show ?case by simp
next
  case (2 a)
  have "unat a < 2 ^ LENGTH(8)" by (rule unsigned_less)
  then show ?case by simp
qed simp

lemma words_sum_two: "words_sum (load_bytes m p 2) = unat (ld16 m p)"
  by (simp add: ld16_def load_bytes_def upt_rec of_le16_value)

lemma words_sum_load_step:
  assumes "2 \<le> n"
  shows "words_sum (load_bytes m p n) = unat (ld16 m p) + words_sum (load_bytes m (p + 2) (n - 2))"
proof -
  have "load_bytes m p n = load_bytes m p 2 @ load_bytes m (p + 2) (n - 2)"
    using load_bytes_add [of m p 2 "n - 2"] assms by (simp del: add_2_eq_Suc)
  then show ?thesis by (simp add: words_sum_append words_sum_two)
qed

text \<open>Each loop keeps the accumulator plus the sum of the bytes still to come.\<close>

abbreviation rest_sum :: "mem \<Rightarrow> ptr \<times> u64 \<times> u32 \<Rightarrow> u32" where
  "rest_sum m st \<equiv> (case st of (p, n, acc) \<Rightarrow> acc + of_nat (words_sum (load_bytes m p (unat n))))"

lemma raw_cksum_loop1_sum:
  "rest_sum m (raw_cksum_loop1 m (p, n, acc)) = rest_sum m (p, n, acc)
   \<and> fst (snd (raw_cksum_loop1 m (p, n, acc))) < 2"
proof (induction m "(p, n, acc)" arbitrary: p n acc rule: raw_cksum_loop1.induct)
  case (1 m p n acc)
  show ?case
  proof (cases "2 \<le> n")
    case True
    then have "2 \<le> unat n" "unat (n - 2) = unat n - 2" by (simp_all add: word_le_nat_alt unat_sub)
    then have "rest_sum m (p + 2, n - 2, acc + ucast (ld16 m p)) = rest_sum m (p, n, acc)"
      by (simp add: words_sum_load_step)
    then show ?thesis using 1 True by (simp add: raw_cksum_loop1.simps [of m p n acc])
  next
    case False
    then have "raw_cksum_loop1 m (p, n, acc) = (p, n, acc)" by (simp add: raw_cksum_loop1.simps)
    with False show ?thesis by (simp add: not_le)
  qed
qed

lemma raw_cksum_loop4_sum:
  "rest_sum m (raw_cksum_loop4 m (p, n, acc)) = rest_sum m (p, n, acc)"
proof (induction m "(p, n, acc)" arbitrary: p n acc rule: raw_cksum_loop4.induct)
  case (1 m p n acc)
  let ?acc = "acc + ucast (ld16 m p) + ucast (ld16 m (p + 2)) + ucast (ld16 m (p + 4)) + ucast (ld16 m (p + 6))"
  show ?case
  proof (cases "2 * 4 \<le> n")
    case True
    then have "8 \<le> unat n" "unat (n - 8) = unat n - 8" by (simp_all add: word_le_nat_alt unat_sub)
    then have "rest_sum m (p + 8, n - 8, ?acc) = rest_sum m (p, n, acc)"
      by (simp add: words_sum_load_step add.assoc)
    then show ?thesis using 1 True by (simp add: raw_cksum_loop4.simps [of m p n acc] Let_def)
  next
    case False
    then show ?thesis by (simp add: raw_cksum_loop4.simps [of m p n acc])
  qed
qed

lemma raw_cksum_sum_words:
  "raw_cksum_sum m p n acc = acc + of_nat (words_sum (load_bytes m p (unat n)))"
proof -
  obtain p' n' acc' where r: "raw_cksum_loop1 m (raw_cksum_loop4 m (p, n, acc)) = (p', n', acc')"
    by (cases "raw_cksum_loop1 m (raw_cksum_loop4 m (p, n, acc))")
  obtain p4 n4 acc4 where r4: "raw_cksum_loop4 m (p, n, acc) = (p4, n4, acc4)"
    by (cases "raw_cksum_loop4 m (p, n, acc)")
  have rest: "rest_sum m (p', n', acc') = rest_sum m (p, n, acc)" "n' < 2"
    using raw_cksum_loop1_sum [of m p4 n4 acc4] raw_cksum_loop4_sum [of m p n acc] r r4 by simp_all
  have "unat n' < 2" using rest(2) by (simp add: word_less_nat_alt)
  then consider "n' = 0" | "n' = 1" by (force simp: word_unat_eq_iff)
  then have "acc' + (if n' = 1 then ucast (m p') else 0) = rest_sum m (p', n', acc')"
    by cases (simp_all add: load_bytes_def)
  then show ?thesis using r rest(1) by (simp add: raw_cksum_sum_def split: if_splits)
qed

lemma rte_raw_cksum_eq: "rte_raw_cksum m p n = raw_cksum m p n"
proof -
  have "ucast (of_le16 [b, 0]) = (ucast b :: u32)" for b
    by (rule bit_word_eqI) (auto simp: of_le16_def bit_simps dest: bit_imp_le_length)
  then have "rte_raw_cksum_sum m p n 0 = raw_cksum_sum m p n 0"
    by (simp add: rte_raw_cksum_sum_def raw_cksum_sum_def split: prod.split)
  moreover have "rte_raw_cksum_reduce = raw_cksum_reduce"
    by (rule ext) (simp only: rte_raw_cksum_reduce_def raw_cksum_reduce_def)
  ultimately show ?thesis by (simp only: rte_raw_cksum_def raw_cksum_def Let_def)
qed

section \<open>Folding\<close>

lemma ones_repI:
  assumes "r \<le> 65535" "r mod 65535 = s mod 65535" "r = 0 \<longleftrightarrow> s = 0"
  shows "r = ones_rep s"
proof (cases s)
  case (Suc b)
  then have pos: "0 < r" using assms(3) by auto
  have "r = Suc (b mod 65535)"
  proof (cases "Suc (b mod 65535) = 65535")
    case True
    then have "r mod 65535 = 0" using assms(2) Suc by (simp add: mod_Suc)
    then have "r = 65535" using pos assms(1) by (cases "r = 65535") auto
    with True show ?thesis by simp
  next
    case False
    then have "r mod 65535 = Suc (b mod 65535)" using assms(2) Suc by (simp add: mod_Suc)
    then show ?thesis using assms(1) by (cases "r = 65535") auto
  qed
  then show ?thesis using Suc by (simp add: ones_rep_def)
qed (use assms in \<open>simp add: ones_rep_def\<close>)

lemma ones_rep_bounds: "ones_rep s \<le> 65535" "ones_rep s mod 65535 = s mod 65535" "ones_rep s = 0 \<longleftrightarrow> s = 0"
proof -
  have "(s - 1) mod 65535 < 65535" by simp
  then show "ones_rep s \<le> 65535" unfolding ones_rep_def by (simp only: split: if_split) linarith
  show "ones_rep s mod 65535 = s mod 65535"
  proof (cases "s = 0")
    case False
    then have "Suc (s - 1) mod 65535 = s mod 65535" by simp
    then show ?thesis using False by (simp add: ones_rep_def mod_Suc_eq)
  qed (simp add: ones_rep_def)
  show "ones_rep s = 0 \<longleftrightarrow> s = 0" by (simp add: ones_rep_def)
qed

lemma halves_le:
  fixes x :: u32
  shows "unat x div 65536 + unat x mod 65536 \<le> 131070"
proof -
  have "unat x < 2 ^ LENGTH(32)" by (rule unsigned_less)
  then have "unat x < 65536 * 65536" by simp
  then have "unat x div 65536 < 65536" by (rule less_mult_imp_div_less)
  moreover have "unat x mod 65536 < 65536" by simp
  ultimately show ?thesis by linarith
qed

text \<open>One folding step adds the upper half of a 32-bit number to its lower half.\<close>

lemma fold32:
  fixes x :: u32
  shows "unat (drop_bit 16 (x AND 0xffff0000) + (x AND 0xffff)) = unat x div 65536 + unat x mod 65536"
proof -
  have mask: "(0xffff0000 :: u32) = push_bit 16 (mask 16)"
    by (simp add: mask_eq_exp_minus_1 push_bit_eq_mult)
  have "drop_bit 16 (x AND 0xffff0000) = drop_bit 16 x"
    unfolding mask
    by (rule bit_word_eqI) (auto simp: bit_drop_bit_eq bit_and_iff bit_push_bit_iff bit_mask_iff
        dest: bit_imp_le_length)
  then have hi: "unat (drop_bit 16 (x AND 0xffff0000)) = unat x div 65536"
    by (simp only: unat_drop_bit_eq) (simp add: drop_bit_eq_div)
  have lo: "unat (x AND 0xffff) = unat x mod 65536"
    using and_mask_mod [of 16 x] by simp
  have "unat x div 65536 + unat x mod 65536 < 2 ^ LENGTH(32)" using halves_le [of x] by simp
  then show ?thesis using hi lo by (simp add: unat_word_ariths)
qed

lemma unat_raw_cksum_reduce: "unat (raw_cksum_reduce x) = ones_rep (unat x)"
proof -
  define y where "y = drop_bit 16 (x AND 0xffff0000) + (x AND 0xffff)"
  define z where "z = drop_bit 16 (y AND 0xffff0000) + (y AND 0xffff)"
  have y: "unat y = unat x div 65536 + unat x mod 65536" unfolding y_def by (rule fold32)
  have z: "unat z = unat y div 65536 + unat y mod 65536" unfolding z_def by (rule fold32)
  have fold_mod: "(a div 65536 + a mod 65536) mod 65535 = a mod 65535" for a :: nat
  proof -
    have "a = 65535 * (a div 65536) + (a div 65536 + a mod 65536)" by simp
    then show ?thesis by (metis mod_mult_self4)
  qed
  have y_le: "unat y \<le> 131070" unfolding y by (rule halves_le)
  have z_le: "unat z \<le> 65535"
  proof (cases "unat y < 65536")
    case False
    then have "unat y div 65536 = 1" "unat y mod 65536 = unat y - 65536"
      using y_le by (auto intro!: div_nat_eqI simp: mod_if)
    then show ?thesis using z y_le by simp
  qed (use z in simp)
  have "unat (ucast z :: u16) = unat z"
    using z_le by (simp add: unsigned_ucast_eq take_bit_nat_eq_self)
  moreover have "unat z = ones_rep (unat x)"
  proof (rule ones_repI [OF z_le])
    show "unat z mod 65535 = unat x mod 65535" unfolding z y by (simp only: fold_mod)
    have "a div 65536 + a mod 65536 = 0 \<longleftrightarrow> a = 0" for a :: nat
      using div_mult_mod_eq [of a 65536] by auto
    then show "unat z = 0 \<longleftrightarrow> unat x = 0" unfolding z y by simp
  qed
  ultimately show ?thesis by (simp add: raw_cksum_reduce_def Let_def y_def z_def)
qed

lemma unat_raw_cksum:
  assumes "n \<le> 131072"
  shows "unat (raw_cksum m p n) = ones_rep (words_sum (load_bytes m p (unat n)))"
proof -
  have "unat n \<le> 131072" using assms by (simp add: word_le_nat_alt)
  then have "words_sum (load_bytes m p (unat n)) < 2 ^ LENGTH(32)"
    using words_sum_le [of "load_bytes m p (unat n)"] by simp
  then show ?thesis
    by (simp add: raw_cksum_def Let_def raw_cksum_sum_words unat_raw_cksum_reduce unat_of_nat_less)
qed

section \<open>The add-with-carry chain\<close>

text \<open>Two sums that stand for the same one's complement number.\<close>

definition same_ones :: "nat \<Rightarrow> nat \<Rightarrow> bool" where
  "same_ones a b \<longleftrightarrow> a mod 65535 = b mod 65535 \<and> (a = 0 \<longleftrightarrow> b = 0)"

lemma same_ones_refl [simp]: "same_ones a a"
  by (simp add: same_ones_def)

lemma same_ones_trans [trans]: "same_ones a b \<Longrightarrow> same_ones b c \<Longrightarrow> same_ones a c"
  by (simp add: same_ones_def)

lemma same_ones_add: "same_ones a b \<Longrightarrow> same_ones c d \<Longrightarrow> same_ones (a + c) (b + d)"
  by (auto simp: same_ones_def intro: mod_add_cong)

lemma same_ones_mult: "same_ones (65536 * a) a"
proof -
  have "65536 * a = a + 65535 * a" by simp
  then have "(65536 * a) mod 65535 = a mod 65535" by (metis mod_mult_self2)
  then show ?thesis by (simp add: same_ones_def)
qed

lemma same_ones_shift: "same_ones (65536 ^ k * a) a"
proof (induction k)
  case (Suc k)
  then show ?case
    using same_ones_trans [OF same_ones_mult [of "65536 ^ k * a"]] by (simp add: mult.assoc)
qed simp

lemma same_ones_halves: "same_ones (a + 65536 ^ k * b) (a + b)"
  by (intro same_ones_add same_ones_refl same_ones_shift)

lemma add_carry_sum:
  fixes x y :: "'a::len word"
  assumes "add_carry x y c = (r, c')"
  shows "unat x + unat y + of_bool c = unat r + 2 ^ LENGTH('a) * of_bool c'"
proof -
  let ?t = "unat x + unat y + of_bool c" and ?M = "2 ^ LENGTH('a) :: nat"
  have "of_nat ?t = x + y + of_bool c" by simp
  then have "r = of_nat ?t" using assms by (simp only: add_carry_def prod.inject)
  then have r: "unat r = ?t mod ?M" by (simp only: unat_of_nat)
  have c': "c' \<longleftrightarrow> ?M \<le> ?t" using assms by (auto simp: add_carry_def)
  have lt: "unat x < ?M" "unat y < ?M" by (rule unsigned_less)+
  have "?t div ?M = of_bool c'"
  proof (cases c')
    case True
    then have "?M \<le> ?t" using c' by simp
    moreover have "of_bool c \<le> (1 :: nat)" by simp
    then have "?t < 2 * ?M" using lt by linarith
    ultimately have "?t div ?M = 1" by (intro div_nat_eqI) auto
    then show ?thesis using True by simp
  qed (use c' in simp)
  then show ?thesis using r div_mult_mod_eq [of ?t ?M] by (simp add: mult.commute)
qed

text \<open>
  The accumulator with its carry is below the word's range, and stands for the
  sum so far; adding keeps both, at each of the three widths.
\<close>

lemma add_carry_step:
  fixes x y :: "'a::len word"
  assumes "LENGTH('a) = 16 * k" "0 < k" "unat x + of_bool c < 2 ^ LENGTH('a)"
  shows "case add_carry x y c of (r, c') \<Rightarrow> unat r + of_bool c' < 2 ^ LENGTH('a)
    \<and> same_ones (unat r + of_bool c') (unat x + of_bool c + unat y)"
proof -
  obtain r c' where rc: "add_carry x y c = (r, c')" by fastforce
  have eq: "unat x + unat y + of_bool c = unat r + 2 ^ LENGTH('a) * of_bool c'"
    by (rule add_carry_sum [OF rc])
  have y: "unat y < 2 ^ LENGTH('a)" and r: "unat r < 2 ^ LENGTH('a)" by (rule unsigned_less)+
  have "unat r + of_bool c' < 2 ^ LENGTH('a)"
  proof (cases c')
    case True
    then have "unat x + of_bool c + unat y = unat r + 2 ^ LENGTH('a)" using eq by simp
    then have "unat r + 1 < 2 ^ LENGTH('a)" using y assms(3) by linarith
    then show ?thesis using True by simp
  qed (use r in simp)
  moreover have "same_ones (unat r + of_bool c') (unat r + 65536 ^ k * of_bool c')"
    using same_ones_halves [of "unat r" k "of_bool c'"] by (simp add: same_ones_def)
  moreover have "(65536 :: nat) ^ k = 2 ^ LENGTH('a)"
    unfolding assms(1) by (simp add: power_mult)
  moreover have "unat x + of_bool c + unat y = unat r + 2 ^ LENGTH('a) * of_bool c'" using eq by simp
  ultimately show ?thesis using rc by simp
qed

lemma add_carry_zero:
  fixes s :: "'a::len word"
  assumes "unat s + of_bool c < 2 ^ LENGTH('a)"
  shows "unat (fst (add_carry s 0 c)) = unat s + of_bool c"
proof -
  have "of_nat (unat s + of_bool c) = s + of_bool c" by simp
  moreover have "unat (of_nat (unat s + of_bool c) :: 'a word) = unat s + of_bool c"
    using assms by (rule unat_of_nat_less)
  ultimately show ?thesis by (simp only: add_carry_def fst_conv add_0_right)
qed

lemma add_end_around_same:
  fixes x y :: "'a::len word"
  assumes "LENGTH('a) = 16 * k" "0 < k"
  shows "same_ones (unat (add_end_around x y)) (unat x + unat y)"
proof -
  obtain r c' where rc: "add_carry x y False = (r, c')" by fastforce
  have "unat x + of_bool False < 2 ^ LENGTH('a)" using unsigned_less [of x] by simp
  from add_carry_step [OF assms this, of y] show ?thesis
    using rc by (simp add: add_end_around_def add_carry_zero)
qed

lemma ld32_value: "unat (ld32 m p) = unat (ld16 m p) + 65536 * unat (ld16 m (p + 2))"
  by (simp add: ld32_def ld16_def of_le32_value of_le16_value)

lemma ld64_value: "unat (ld64 m p) = unat (ld32 m p) + 2 ^ 32 * unat (ld32 m (p + 4))"
  by (simp add: ld64_def ld32_def of_le64_value of_le32_def)

lemma same_ones_ld32: "same_ones (unat (ld32 m p)) (words_sum (load_bytes m p 4))"
  using same_ones_halves [of "unat (ld16 m p)" 1 "unat (ld16 m (p + 2))"]
  by (simp add: ld32_value words_sum_load_step)

lemma same_ones_ld64: "same_ones (unat (ld64 m p)) (words_sum (load_bytes m p 8))"
proof -
  have "same_ones (unat (ld64 m p)) (unat (ld32 m p) + unat (ld32 m (p + 4)))"
    using same_ones_halves [of "unat (ld32 m p)" 2 "unat (ld32 m (p + 4))"] by (simp add: ld64_value)
  also have "same_ones \<dots> (words_sum (load_bytes m p 4) + words_sum (load_bytes m (p + 4) 4))"
    by (intro same_ones_add same_ones_ld32)
  also have "words_sum (load_bytes m p 4) + words_sum (load_bytes m (p + 4) 4)
      = words_sum (load_bytes m p 8)"
    using load_bytes_add [of m p 4 4] by (simp add: words_sum_append)
  finally show ?thesis .
qed

lemma words_sum_load_add:
  "even k \<Longrightarrow> words_sum (load_bytes m p (k + n)) = words_sum (load_bytes m p k) + words_sum (load_bytes m (p + of_nat k) n)"
  by (simp add: load_bytes_add words_sum_append)

lemma adcq_loop_same:
  assumes "unat s + of_bool c < 2 ^ LENGTH(64)"
  shows "case adcq_loop m k p (s, c) of (p', s', c') \<Rightarrow> p' = p + of_nat (8 * k)
    \<and> unat s' + of_bool c' < 2 ^ LENGTH(64)
    \<and> same_ones (unat s' + of_bool c') (unat s + of_bool c + words_sum (load_bytes m p (8 * k)))"
  using assms
proof (induction k arbitrary: p s c)
  case (Suc k)
  obtain r c' where rc: "add_carry s (ld64 m p) c = (r, c')" by fastforce
  have step: "unat r + of_bool c' < 2 ^ LENGTH(64)"
    "same_ones (unat r + of_bool c') (unat s + of_bool c + unat (ld64 m p))"
    using add_carry_step [of 4 s c "ld64 m p"] Suc.prems rc by simp_all
  obtain p' s' d where l: "adcq_loop m k (p + 8) (r, c') = (p', s', d)"
    by (cases "adcq_loop m k (p + 8) (r, c')")
  from Suc.IH [OF step(1), of "p + 8"] l
  have ih: "p' = p + 8 + of_nat (8 * k)" "unat s' + of_bool d < 2 ^ LENGTH(64)"
    "same_ones (unat s' + of_bool d) (unat r + of_bool c' + words_sum (load_bytes m (p + 8) (8 * k)))"
    by simp_all
  note ih(3)
  also have "same_ones (unat r + of_bool c' + words_sum (load_bytes m (p + 8) (8 * k)))
      (unat s + of_bool c + unat (ld64 m p) + words_sum (load_bytes m (p + 8) (8 * k)))"
    by (intro same_ones_add step(2) same_ones_refl)
  also have "same_ones (unat s + of_bool c + unat (ld64 m p) + words_sum (load_bytes m (p + 8) (8 * k)))
      (unat s + of_bool c + words_sum (load_bytes m p 8) + words_sum (load_bytes m (p + 8) (8 * k)))"
    by (intro same_ones_add same_ones_ld64 same_ones_refl)
  also have "unat s + of_bool c + words_sum (load_bytes m p 8) + words_sum (load_bytes m (p + 8) (8 * k))
      = unat s + of_bool c + words_sum (load_bytes m p (8 * Suc k))"
    using words_sum_load_add [of 8 m p "8 * k"] by (simp only: mult_Suc_right) simp
  finally show ?case using ih(1,2) l rc by (simp add: add.assoc)
qed simp

text \<open>The tail of 4, 2 and 1 bytes, each taken when its bit of the length is set.\<close>

lemma tail_bits:
  fixes n :: u32
  shows "unat n = 8 * (unat n div 8) + (if n AND 4 = 0 then 0 else 4) + (if n AND 2 = 0 then 0 else 2)
    + (if n AND 1 = 0 then 0 else 1)"
proof -
  have b: "n AND 2 ^ k = 0 \<longleftrightarrow> \<not> bit n k" for k
    by (rule and_exp_eq_0_iff_not_bit)
  have "n AND 4 = 0 \<longleftrightarrow> even (unat n div 4)" "n AND 2 = 0 \<longleftrightarrow> even (unat n div 2)" "n AND 1 = 0 \<longleftrightarrow> even (unat n)"
    using b [of 2] b [of 1] b [of 0] bit_iff_odd_unat [of 2 n] bit_iff_odd_unat [of 1 n] bit_iff_odd_unat [of 0 n]
    by simp_all
  moreover have "k = 8 * (k div 8) + (if even (k div 4) then 0 else 4) + (if even (k div 2) then 0 else 2)
    + (if even k then 0 else 1)" for k :: nat by presburger
  ultimately show ?thesis by simp
qed

lemma tail_step:
  fixes s v :: u64
  assumes "same_ones (unat s) (words_sum (load_bytes m p j))" "even j"
    and "same_ones (unat v) (words_sum (load_bytes m (p + of_nat j) k))"
  shows "same_ones (unat (add_end_around s v)) (words_sum (load_bytes m p (j + k)))"
proof -
  have "same_ones (unat (add_end_around s v)) (unat s + unat v)"
    by (rule add_end_around_same [of 4]) simp_all
  also have "same_ones \<dots> (words_sum (load_bytes m p j) + words_sum (load_bytes m (p + of_nat j) k))"
    using assms(1,3) by (rule same_ones_add)
  finally show ?thesis using assms(2) by (simp add: words_sum_load_add)
qed

lemma unat_ucast_up:
  fixes x :: "'a::len word"
  assumes "LENGTH('a) \<le> LENGTH('b::len)"
  shows "unat (ucast x :: 'b word) = unat x"
proof -
  have "unat x < 2 ^ LENGTH('a)" by (rule unsigned_less)
  also have "(2::nat) ^ LENGTH('a) \<le> 2 ^ LENGTH('b)" using assms by simp
  finally show ?thesis by (simp add: unsigned_ucast_eq take_bit_nat_eq_self)
qed

lemma fold_halves:
  fixes s :: "'a::len word" and x :: "'b::len word"
  assumes "LENGTH('a) = 2 * LENGTH('b)" "LENGTH('b) = 16 * k" "0 < k"
    and "x = add_end_around (ucast (drop_bit LENGTH('b) s)) (ucast s)"
  shows "same_ones (unat x) (unat s)"
proof -
  let ?M = "2 ^ LENGTH('b) :: nat"
  have "unat s < 2 ^ LENGTH('a)" by (rule unsigned_less)
  then have "unat s < ?M * ?M" using assms(1) by (simp add: mult_2 power_add)
  then have "unat s div ?M < ?M" by (rule less_mult_imp_div_less)
  then have hi: "unat (ucast (drop_bit LENGTH('b) s) :: 'b word) = unat s div ?M"
    by (simp only: unsigned_ucast_eq unat_drop_bit_eq) (simp add: drop_bit_eq_div take_bit_nat_eq_self)
  have lo: "unat (ucast s :: 'b word) = unat s mod ?M"
    by (simp add: unsigned_ucast_eq take_bit_eq_mod)
  have "same_ones (unat x) (unat s div ?M + unat s mod ?M)"
    using add_end_around_same [OF assms(2,3)] unfolding assms(4) hi [symmetric] lo [symmetric] .
  also have "same_ones (unat s div ?M + unat s mod ?M) (unat s mod ?M + 65536 ^ k * (unat s div ?M))"
    using same_ones_halves [of "unat s mod ?M" k "unat s div ?M"]
    by (simp add: same_ones_def add.commute)
  also have "(65536 :: nat) ^ k = ?M" unfolding assms(2) by (simp add: power_mult)
  finally show ?thesis by simp
qed

lemma chksum_internet_rep:
  "chksum_internet m p n = NOT (of_nat (ones_rep (words_sum (load_bytes m p (unat n)))))"
proof -
  let ?j = "8 * (unat n div 8)"
  define loop where "loop = (if drop_bit 3 n = 0 then (p, 0) else
    (case adcq_loop m (unat (drop_bit 3 n)) p (0, False) of (q, s, c) \<Rightarrow> (q, fst (add_carry s 0 c))))"
  define p4 where "p4 = (if n AND 4 = 0 then fst loop else fst loop + 4)"
  define s4 where "s4 = (if n AND 4 = 0 then snd loop else add_end_around (snd loop) (ucast (ld32 m (fst loop))))"
  define p2 where "p2 = (if n AND 2 = 0 then p4 else p4 + 2)"
  define s2 where "s2 = (if n AND 2 = 0 then s4 else add_end_around s4 (ucast (ld16 m p4)))"
  define s1 where "s1 = (if n AND 1 = 0 then s2 else add_end_around s2 (ucast (m p2)))"
  define k where "k = (add_end_around (ucast (drop_bit 32 s1)) (ucast s1) :: u32)"
  define w where "w = (add_end_around (ucast (drop_bit 16 k)) (ucast k) :: u16)"
  have result: "chksum_internet m p n = NOT w"
    unfolding chksum_internet_def Let_def w_def k_def s1_def s2_def p2_def s4_def p4_def loop_def
    by (simp split: prod.splits)
  have chunks: "unat (drop_bit 3 n) = unat n div 8" by (simp only: unat_drop_bit_eq) (simp add: drop_bit_eq_div)
  have "fst loop = p + of_nat ?j \<and> same_ones (unat (snd loop)) (words_sum (load_bytes m p ?j))"
  proof (cases "drop_bit 3 n = 0")
    case True
    then have "?j = 0" using chunks by simp
    then show ?thesis using True by (simp add: loop_def)
  next
    case False
    then show ?thesis
      using adcq_loop_same [where s = 0 and c = False and m = m and k = "unat (drop_bit 3 n)" and p = p] unfolding loop_def chunks
      by (auto simp: add_carry_zero split: prod.splits)
  qed
  then have l: "fst loop = p + of_nat ?j" "same_ones (unat (snd loop)) (words_sum (load_bytes m p ?j))"
    by blast+
  let ?j4 = "?j + (if n AND 4 = 0 then 0 else 4)"
  have s4: "p4 = p + of_nat ?j4 \<and> same_ones (unat s4) (words_sum (load_bytes m p ?j4))"
    using l tail_step [OF l(2), of "ucast (ld32 m (fst loop))" 4] same_ones_ld32 [of m "fst loop"]
    by (simp add: p4_def s4_def unat_ucast_up add.assoc)
  let ?j2 = "?j4 + (if n AND 2 = 0 then 0 else 2)"
  have s2: "p2 = p + of_nat ?j2 \<and> same_ones (unat s2) (words_sum (load_bytes m p ?j2))"
    using s4 tail_step [where s = s4 and m = m and p = p and j = ?j4 and v = "ucast (ld16 m p4)" and k = 2]
    by (simp add: p2_def s2_def unat_ucast_up words_sum_two add.assoc)
  have "same_ones (unat s1) (words_sum (load_bytes m p (?j2 + (if n AND 1 = 0 then 0 else 1))))"
    using s2 tail_step [where s = s2 and m = m and p = p and j = ?j2 and v = "ucast (m p2)" and k = 1]
    by (simp add: s1_def unat_ucast_up load_bytes_def)
  then have s1: "same_ones (unat s1) (words_sum (load_bytes m p (unat n)))"
    using tail_bits [of n] by simp
  have "same_ones (unat w) (unat k)" using fold_halves [where k = 1 and s = k and x = w] by (simp add: w_def)
  also have "same_ones (unat k) (unat s1)" using fold_halves [where k = 2 and s = s1 and x = k] by (simp add: k_def)
  also note s1
  finally have w: "same_ones (unat w) (words_sum (load_bytes m p (unat n)))" .
  have "unat w < 2 ^ LENGTH(16)" by (rule unsigned_less)
  then have "unat w = ones_rep (words_sum (load_bytes m p (unat n)))"
    using w by (intro ones_repI) (auto simp: same_ones_def)
  then have "of_nat (unat w) = (of_nat (ones_rep (words_sum (load_bytes m p (unat n)))) :: u16)"
    by (simp only:)
  then have "w = of_nat (ones_rep (words_sum (load_bytes m p (unat n))))"
    by (simp only: of_nat_unat ucast_id)
  then show ?thesis using result by simp
qed

section \<open>What the routines compute\<close>

text \<open>
  C18. For buffers of up to 128 KiB the two unrolled routines return the one's
  complement sum of the buffer's 16-bit words, and the add-with-carry routine
  returns its complement; beyond that length only the latter is exact, because
  the 32-bit accumulator of the others can overflow.
\<close>

theorem checksum_routines_agree:
  assumes "n \<le> 131072"
  shows "unat (raw_cksum m p n) = ones_rep (words_sum (load_bytes m p (unat n)))
    \<and> rte_raw_cksum m p n = raw_cksum m p n
    \<and> chksum_internet m p (ucast n) = NOT (raw_cksum m p n)"
proof -
  have "unat n \<le> 131072" using assms by (simp add: word_le_nat_alt)
  then have n: "unat (ucast n :: u32) = unat n"
    by (simp add: unsigned_ucast_eq take_bit_nat_eq_self)
  have "raw_cksum m p n = of_nat (unat (raw_cksum m p n))" by (simp only: of_nat_unat ucast_id)
  also have "\<dots> = of_nat (ones_rep (words_sum (load_bytes m p (unat n))))"
    by (simp only: unat_raw_cksum [OF assms])
  finally have "chksum_internet m p (ucast n) = NOT (raw_cksum m p n)"
    by (simp only: chksum_internet_rep n)
  then show ?thesis using unat_raw_cksum [OF assms, of m p] by (simp only: rte_raw_cksum_eq simp_thms)
qed

lemma checksum_routines_agree_witness:
  "chksum_internet (\<lambda>a. ucast a) 16 11 = NOT (raw_cksum (\<lambda>a. ucast a) 16 11)"
  using checksum_routines_agree [of 11 "\<lambda>a. ucast a" 16] by (simp add: word_le_nat_alt)

lemma complement_and_ffff:
  fixes z :: u32
  assumes "unat z \<le> 65535"
  shows "unat (NOT z AND 0xffff) = 65535 - unat z"
proof -
  have z: "z = take_bit 16 z"
    using assms by (simp add: word_unat_eq_iff unsigned_take_bit_eq take_bit_nat_eq_self)
  have "z + (NOT z AND mask 16) = z OR (NOT z AND mask 16)"
    by (rule disjunctive_add) (simp add: bit_simps)
  also have "\<dots> = mask 16"
  proof (rule bit_word_eqI)
    fix n
    show "bit (z OR (NOT z AND mask 16)) n \<longleftrightarrow> bit (mask 16 :: u32) n" if "n < LENGTH(32)"
      using that by (subst z, subst (2) z) (auto simp: bit_simps)
  qed
  finally have "NOT z AND 0xffff = 0xffff - z" by (simp add: mask_eq_exp_minus_1 algebra_simps)
  then show ?thesis using assms by (simp add: unat_sub_if')
qed

lemma add_fold_sum:
  fixes x y :: u16
  shows "unat (drop_bit 16 ((ucast x + ucast y) AND 0xffff0000) + ((ucast x + ucast y) AND 0xffff) :: u32) \<le> 65535"
    and "same_ones (unat (drop_bit 16 ((ucast x + ucast y) AND 0xffff0000) + ((ucast x + ucast y) AND 0xffff) :: u32))
      (unat x + unat y)"
proof -
  have xy: "unat x < 2 ^ LENGTH(16)" "unat y < 2 ^ LENGTH(16)" by (rule unsigned_less)+
  have t: "unat (ucast x + ucast y :: u32) = unat x + unat y"
    using xy by (simp add: unat_word_ariths unat_ucast_up)
  let ?f = "unat (drop_bit 16 ((ucast x + ucast y) AND 0xffff0000) + ((ucast x + ucast y) AND 0xffff) :: u32)"
  have f: "?f = (unat x + unat y) div 65536 + (unat x + unat y) mod 65536" by (simp only: fold32 t)
  show "?f \<le> 65535"
  proof (cases "unat x + unat y < 65536")
    case False
    then have "(unat x + unat y) div 65536 = 1" using xy by (intro div_nat_eqI) auto
    moreover from this have "(unat x + unat y) mod 65536 = unat x + unat y - 65536"
      by (simp add: modulo_nat_def)
    ultimately show ?thesis using f xy by simp
  qed (use f in simp)
  have "same_ones (unat x + unat y) ((unat x + unat y) mod 65536 + (unat x + unat y) div 65536)"
    using same_ones_halves [of "(unat x + unat y) mod 65536" 1 "(unat x + unat y) div 65536"] by simp
  then show "same_ones ?f (unat x + unat y)" unfolding f by (simp add: same_ones_def add.commute)
qed

lemma length_psd_bytes [simp]: "length (psd_bytes h) = 12"
  by (simp add: psd_bytes_def)

lemma unat_ipv4_phdr_cksum:
  "unat (ipv4_phdr_cksum m a proto saddr daddr l4len) = ones_rep (words_sum (psd_bytes
     \<lparr>psd_saddr = hton32 saddr, psd_daddr = hton32 daddr, psd_zero = 0, psd_proto = proto, psd_len = hton16 l4len\<rparr>))"
  by (simp add: ipv4_phdr_cksum_def unat_raw_cksum word_le_nat_alt load_store_same)

text \<open>
  C19. The transport checksum is never 0, which UDP reserves for \<open>no checksum\<close>,
  and added to the words of the pseudo header and of the segment it was computed
  over it gives zero in one's complement arithmetic, which is what a receiver checks.
\<close>

theorem ipv4_udptcp_cksum_verifies:
  "let c = ipv4_udptcp_cksum m a proto saddr daddr l4len l4hdr;
       psd = \<lparr>psd_saddr = hton32 saddr, psd_daddr = hton32 daddr, psd_zero = 0, psd_proto = proto, psd_len = hton16 l4len\<rparr>
   in c \<noteq> 0 \<and> (words_sum (load_bytes m l4hdr (unat l4len)) + words_sum (psd_bytes psd) + unat c) mod 65535 = 0"
proof -
  let ?psd = "\<lparr>psd_saddr = hton32 saddr, psd_daddr = hton32 daddr, psd_zero = 0, psd_proto = proto, psd_len = hton16 l4len\<rparr>"
  let ?x = "raw_cksum m l4hdr (ucast l4len)" and ?y = "ipv4_phdr_cksum m a proto saddr daddr l4len"
  let ?S = "words_sum (load_bytes m l4hdr (unat l4len)) + words_sum (psd_bytes ?psd)"
  define z where "z = (drop_bit 16 ((ucast ?x + ucast ?y) AND 0xffff0000) + ((ucast ?x + ucast ?y) AND 0xffff) :: u32)"
  have "unat l4len < 2 ^ LENGTH(16)" by (rule unsigned_less)
  then have l4: "(ucast l4len :: u64) \<le> 131072" by (simp add: word_le_nat_alt unat_ucast_up)
  have z: "unat z \<le> 65535" "same_ones (unat z) (unat ?x + unat ?y)"
    unfolding z_def by (rule add_fold_sum)+
  have "unat ?x mod 65535 = words_sum (load_bytes m l4hdr (unat l4len)) mod 65535"
    by (simp add: unat_raw_cksum [OF l4] ones_rep_bounds unat_ucast_up)
  moreover have "unat ?y mod 65535 = words_sum (psd_bytes ?psd) mod 65535"
    by (simp add: unat_ipv4_phdr_cksum ones_rep_bounds)
  ultimately have "(unat ?x + unat ?y) mod 65535 = ?S mod 65535" by (rule mod_add_cong)
  then have zS: "unat z mod 65535 = ?S mod 65535" using z(2) by (simp add: same_ones_def)
  define d where "d = NOT z AND 0xffff"
  have d: "unat d = 65535 - unat z" unfolding d_def by (rule complement_and_ffff [OF z(1)])
  define e where "e = (if d = 0 then 0xffff else d)"
  have e: "unat e \<le> 65535" "unat e \<noteq> 0" "(unat z + unat e) mod 65535 = 0"
    using d z(1) by (auto simp: e_def unat_eq_zero)
  have c: "ipv4_udptcp_cksum m a proto saddr daddr l4len l4hdr = ucast e"
    by (simp add: ipv4_udptcp_cksum_def Let_def e_def d_def z_def)
  have ue: "unat (ucast e :: u16) = unat e"
    using e(1) by (simp add: unsigned_ucast_eq take_bit_nat_eq_self)
  have "(?S + unat e) mod 65535 = 0"
    using e(3) zS by (metis mod_add_left_eq)
  moreover have "(ucast e :: u16) \<noteq> 0" using e(2) ue by (metis unsigned_0)
  ultimately show ?thesis using c ue by (simp add: Let_def)
qed

text \<open>
  The header checksum macro sums the first eight bytes of the header only, the
  size of the pointer it is given, and does not complement the sum.
\<close>

theorem get_chksum_first_eight:
  "get_chksum m hdr = hton16 (of_nat (ones_rep (words_sum (load_bytes m hdr 8))))"
proof -
  have "rte_raw_cksum m hdr 8 = of_nat (unat (raw_cksum m hdr 8))"
    by (simp only: of_nat_unat ucast_id rte_raw_cksum_eq)
  then show ?thesis by (simp add: get_chksum_def unat_raw_cksum word_le_nat_alt)
qed

end
