(* ===== verification/Packet.thy ===== *)
theory Packet
  imports Mbuf Checksum
begin

text \<open>
  The packet headers: the address helpers of inc/net/ethernet.h, the layout of
  the header structures of inc/net and inc/base/request.h, and the functions of
  requests.c and main.c that build, reverse, check and flip them, as reads and
  writes of a byte memory.

  The protocol headers are packed. \<open>struct ip_hdr\<close> is declared with an alignment
  of 4 as well, so that inside \<open>OutgoingHeader\<close> (and hence \<open>RequestHeader\<close>) the
  compiler places it at offset 16, two bytes behind the 14 bytes of the Ethernet
  header, while the functions that walk over a received packet advance by 14.
\<close>

section \<open>Ethernet addresses\<close>

definition ether_addr_copy :: "mem \<Rightarrow> ptr \<Rightarrow> ptr \<Rightarrow> mem" where
  "ether_addr_copy m src dst = memcpy m dst src 6"

text \<open>
  The byte is promoted to a signed \<open>int\<close> of 32 bits before it is shifted, which
  is undefined for a shift by 32 or more.
\<close>

definition eth_addr_to_uint64 :: "mem \<Rightarrow> ptr \<Rightarrow> u64 res" where
  "eth_addr_to_uint64 m a = foldE (\<lambda>i v.
     bindE (guardE BadShift (i * 8 < 32)) (\<lambda>_.
     Inr (v OR scast (push_bit (i * 8) (ucast (m (a + of_nat i)) :: u32)))))
     [0..<6] 0"

definition uint64_to_eth_addr :: "mem \<Rightarrow> u64 \<Rightarrow> ptr \<Rightarrow> mem" where
  "uint64_to_eth_addr m v a =
     fold (\<lambda>i m. st8 m (a + of_nat i) (ucast (drop_bit (i * 8) v AND 0xff))) [0..<6] m"

definition eth_addr_is_multicast :: "mem \<Rightarrow> ptr \<Rightarrow> bool" where
  "eth_addr_is_multicast m a \<longleftrightarrow> m a AND 0x01 \<noteq> 0"

primrec eth_addr_equal_from :: "mem \<Rightarrow> ptr \<Rightarrow> ptr \<Rightarrow> nat list \<Rightarrow> bool" where
  "eth_addr_equal_from m a b [] = True"
| "eth_addr_equal_from m a b (i # is) =
     (if m (a + of_nat i) \<noteq> m (b + of_nat i) then False else eth_addr_equal_from m a b is)"

definition eth_addr_equal :: "mem \<Rightarrow> ptr \<Rightarrow> ptr \<Rightarrow> bool" where
  "eth_addr_equal m a b = eth_addr_equal_from m a b [0..<6]"

primrec eth_addr_is_zero_from :: "mem \<Rightarrow> ptr \<Rightarrow> nat list \<Rightarrow> bool" where
  "eth_addr_is_zero_from m a [] = True"
| "eth_addr_is_zero_from m a (i # is) =
     (if m (a + of_nat i) \<noteq> 0 then False else eth_addr_is_zero_from m a is)"

definition eth_addr_is_zero :: "mem \<Rightarrow> ptr \<Rightarrow> bool" where
  "eth_addr_is_zero m a = eth_addr_is_zero_from m a [0..<6]"

section \<open>Layout\<close>

abbreviation (input) ETHTYPE_IP :: u16 where "ETHTYPE_IP \<equiv> 0x0800"
abbreviation (input) IPPROTO_UDP :: u8 where "IPPROTO_UDP \<equiv> 17"
abbreviation (input) VERSION_IHL :: u8 where "VERSION_IHL \<equiv> 0x45"

text \<open>\<open>struct eth_hdr\<close>: destination, source, type; 14 bytes.\<close>

abbreviation (input) eth_dhost :: "ptr \<Rightarrow> ptr" where "eth_dhost e \<equiv> e"
abbreviation (input) eth_shost :: "ptr \<Rightarrow> ptr" where "eth_shost e \<equiv> e + 6"
abbreviation (input) eth_type :: "ptr \<Rightarrow> ptr" where "eth_type e \<equiv> e + 12"

text \<open>\<open>struct ip_hdr\<close>, 20 bytes.\<close>

abbreviation (input) ip_version_ihl :: "ptr \<Rightarrow> ptr" where "ip_version_ihl p \<equiv> p"
abbreviation (input) ip_tos :: "ptr \<Rightarrow> ptr" where "ip_tos p \<equiv> p + 1"
abbreviation (input) ip_len :: "ptr \<Rightarrow> ptr" where "ip_len p \<equiv> p + 2"
abbreviation (input) ip_id :: "ptr \<Rightarrow> ptr" where "ip_id p \<equiv> p + 4"
abbreviation (input) ip_off :: "ptr \<Rightarrow> ptr" where "ip_off p \<equiv> p + 6"
abbreviation (input) ip_ttl :: "ptr \<Rightarrow> ptr" where "ip_ttl p \<equiv> p + 8"
abbreviation (input) ip_proto :: "ptr \<Rightarrow> ptr" where "ip_proto p \<equiv> p + 9"
abbreviation (input) ip_chksum :: "ptr \<Rightarrow> ptr" where "ip_chksum p \<equiv> p + 10"
abbreviation (input) ip_saddr :: "ptr \<Rightarrow> ptr" where "ip_saddr p \<equiv> p + 12"
abbreviation (input) ip_daddr :: "ptr \<Rightarrow> ptr" where "ip_daddr p \<equiv> p + 16"

text \<open>\<open>struct udp_hdr\<close>, 8 bytes.\<close>

abbreviation (input) udp_src_port :: "ptr \<Rightarrow> ptr" where "udp_src_port u \<equiv> u"
abbreviation (input) udp_dst_port :: "ptr \<Rightarrow> ptr" where "udp_dst_port u \<equiv> u + 2"
abbreviation (input) udp_len :: "ptr \<Rightarrow> ptr" where "udp_len u \<equiv> u + 4"
abbreviation (input) udp_chksum :: "ptr \<Rightarrow> ptr" where "udp_chksum u \<equiv> u + 6"

text \<open>\<open>OutgoingHeader\<close>, 44 bytes, and \<open>RequestHeader\<close>, 64 bytes.\<close>

abbreviation (input) out_eth :: "ptr \<Rightarrow> ptr" where "out_eth h \<equiv> h"
abbreviation (input) out_ipv4 :: "ptr \<Rightarrow> ptr" where "out_ipv4 h \<equiv> h + 16"
abbreviation (input) out_udp :: "ptr \<Rightarrow> ptr" where "out_udp h \<equiv> h + 36"
abbreviation (input) sizeof_OutgoingHeader :: u64 where "sizeof_OutgoingHeader \<equiv> 44"
abbreviation (input) req_packet_id :: "ptr \<Rightarrow> ptr" where "req_packet_id h \<equiv> h + 44"
abbreviation (input) req_id_padding :: "ptr \<Rightarrow> ptr" where "req_id_padding h \<equiv> h + 48"
abbreviation (input) req_checksum :: "ptr \<Rightarrow> ptr" where "req_checksum h \<equiv> h + 56"
abbreviation (input) sizeof_RequestHeader :: u64 where "sizeof_RequestHeader \<equiv> 64"
abbreviation (input) FULL_HEADER_SIZE :: nat where "FULL_HEADER_SIZE \<equiv> 42"

section \<open>Building and reversing headers\<close>

definition initialize_reverse_request_header ::
  "mem \<Rightarrow> ptr \<Rightarrow> ptr \<Rightarrow> ptr \<Rightarrow> ptr \<Rightarrow> u64 \<Rightarrow> u32 \<Rightarrow> mem" where
  "initialize_reverse_request_header m h eth ipv4 udp payload_size packet_id =
     (let oeth = out_eth h; oip = out_ipv4 h; oudp = out_udp h;
          m = ether_addr_copy m (eth_dhost eth) (eth_shost oeth);
          m = ether_addr_copy m (eth_shost eth) (eth_dhost oeth);
          m = st16 m (eth_type oeth) (hton16 ETHTYPE_IP);
          m = st8 m (ip_version_ihl oip) VERSION_IHL;
          m = st8 m (ip_tos oip) 0;
          m = st16 m (ip_len oip) (hton16 (ucast (20 + 8 + payload_size)));
          m = st16 m (ip_id oip) (hton16 1);
          m = st16 m (ip_off oip) 0;
          m = st8 m (ip_ttl oip) 64;
          m = st8 m (ip_proto oip) IPPROTO_UDP;
          m = st16 m (ip_chksum oip) 0;
          m = st32 m (ip_saddr oip) (ld32 m (ip_daddr ipv4));
          m = st32 m (ip_daddr oip) (ld32 m (ip_saddr ipv4));
          m = st16 m (udp_src_port oudp) (ld16 m (udp_dst_port udp));
          m = st16 m (udp_dst_port oudp) (ld16 m (udp_src_port udp));
          m = st16 m (udp_len oudp) (hton16 (ucast (8 + payload_size)));
          m = st32 m (req_packet_id h) packet_id
      in st32 m (req_id_padding h) 0)"

definition initialize_outgoing_header ::
  "mem \<Rightarrow> ptr \<Rightarrow> ptr \<Rightarrow> ptr \<Rightarrow> u32 \<Rightarrow> u32 \<Rightarrow> u16 \<Rightarrow> u16 \<Rightarrow> u64 \<Rightarrow> mem" where
  "initialize_outgoing_header m h src_addr dst_addr src_ip dst_ip src_port dst_port payload_size =
     (let eth = out_eth h; ipv4 = out_ipv4 h; udp = out_udp h;
          m = ether_addr_copy m src_addr (eth_shost eth);
          m = ether_addr_copy m dst_addr (eth_dhost eth);
          m = st16 m (eth_type eth) (hton16 ETHTYPE_IP);
          m = st8 m (ip_version_ihl ipv4) VERSION_IHL;
          m = st8 m (ip_tos ipv4) 0;
          m = st16 m (ip_len ipv4) (hton16 (ucast (20 + 8 + payload_size)));
          m = st16 m (ip_id ipv4) (hton16 1);
          m = st16 m (ip_off ipv4) 0;
          m = st8 m (ip_ttl ipv4) 64;
          m = st8 m (ip_proto ipv4) IPPROTO_UDP;
          m = st16 m (ip_chksum ipv4) 0;
          m = st32 m (ip_saddr ipv4) (hton32 src_ip);
          m = st32 m (ip_daddr ipv4) (hton32 dst_ip);
          m = st16 m (ip_chksum ipv4) (get_chksum m ipv4);
          m = st16 m (udp_src_port udp) (hton16 src_port);
          m = st16 m (udp_dst_port udp) (hton16 dst_port);
          m = st16 m (udp_len udp) (hton16 (ucast (8 + payload_size)))
      in st16 m (udp_chksum udp) (get_chksum m udp))"

definition parse_outgoing_request_header :: "mem \<Rightarrow> ptr \<Rightarrow> 'a mbuf_core_scheme \<Rightarrow> u64 \<Rightarrow> mem" where
  "parse_outgoing_request_header m request_header mb payload_size =
     (let ptr = m_data mb; eth = ptr; ptr = ptr + 14; ipv4 = ptr; ptr = ptr + 20; udp = ptr; ptr = ptr + 8;
          packet_id = ld32 m ptr
      in initialize_reverse_request_header m request_header eth ipv4 udp payload_size packet_id)"

definition parse_outgoing_request_header_into_mbuf ::
  "mem \<Rightarrow> 'a mbuf_core_scheme \<Rightarrow> 'b mbuf_core_scheme \<Rightarrow> u64 \<Rightarrow> mem" where
  "parse_outgoing_request_header_into_mbuf m outgoing_mbuf mb payload_size =
     (let ptr = m_data mb; optr = m_data outgoing_mbuf;
          eth = ptr; oeth = optr; ptr = ptr + 14; optr = optr + 14;
          ipv4 = ptr; oip = optr; ptr = ptr + 20; optr = optr + 20;
          udp = ptr; oudp = optr; ptr = ptr + 8; optr = optr + 8;
          packet_id = ld32 m ptr;
          m = st32 m optr packet_id;
          optr = optr + 4;
          m = st32 m optr 0;
          m = ether_addr_copy m (eth_dhost eth) (eth_shost oeth);
          m = ether_addr_copy m (eth_shost eth) (eth_dhost oeth);
          m = st16 m (eth_type oeth) (hton16 ETHTYPE_IP);
          m = st8 m (ip_version_ihl oip) VERSION_IHL;
          m = st8 m (ip_tos oip) 0;
          m = st16 m (ip_len oip) (hton16 (ucast (20 + 8 + payload_size)));
          m = st16 m (ip_id oip) (hton16 1);
          m = st16 m (ip_off oip) 0;
          m = st8 m (ip_ttl oip) 64;
          m = st8 m (ip_proto oip) IPPROTO_UDP;
          m = st16 m (ip_chksum oip) 0;
          m = st32 m (ip_daddr oip) (ld32 m (ip_saddr ipv4));
          m = st32 m (ip_saddr oip) (ld32 m (ip_daddr ipv4));
          m = st16 m (udp_src_port oudp) (ld16 m (udp_dst_port udp));
          m = st16 m (udp_dst_port oudp) (ld16 m (udp_src_port udp))
      in st16 m (udp_len oudp) (hton16 (ucast (8 + payload_size))))"

text \<open>A packet that passes is returned as its payload and the payload's length.\<close>

definition check_valid_packet :: "mem \<Rightarrow> 'a mbuf_core_scheme \<Rightarrow> ptr \<Rightarrow> (ptr \<times> u32) option" where
  "check_valid_packet m mb our_eth =
     (let ptr = m_data mb; eth = ptr; ptr = ptr + 14; ipv4 = ptr; ptr = ptr + 20; ptr = ptr + 8 in
      if \<not> eth_addr_equal m our_eth (eth_dhost eth) then None
      else if ntoh16 (ld16 m (eth_type eth)) \<noteq> ETHTYPE_IP then None
      else if m (ip_proto ipv4) \<noteq> IPPROTO_UDP then None
      else Some (ptr, mbuf_length mb - of_nat FULL_HEADER_SIZE))"

text \<open>\<open>tmp\<close> is the address of the local \<open>tmp_ether\<close>.\<close>

definition flip_headers ::
  "mem \<Rightarrow> ptr \<Rightarrow> 'a mbuf_core_scheme \<Rightarrow> u64 \<Rightarrow> int \<times> mem \<times> 'a mbuf_core_scheme" where
  "flip_headers m tmp request outgoing_size =
     (let ptr = m_data request; eth = ptr;
          m = ether_addr_copy m (eth_dhost eth) tmp;
          m = ether_addr_copy m (eth_shost eth) (eth_dhost eth);
          m = ether_addr_copy m tmp (eth_shost eth);
          ipv4 = ptr + 14;
          m = st16 m (ip_chksum ipv4) 0;
          m = st16 m (ip_len ipv4) (hton16 (ucast (20 + 8 + outgoing_size)));
          tmp_ip = ld32 m (ip_daddr ipv4);
          m = st32 m (ip_daddr ipv4) (ld32 m (ip_saddr ipv4));
          m = st32 m (ip_saddr ipv4) tmp_ip;
          m = st16 m (ip_chksum ipv4) (get_chksum m ipv4);
          udp = ptr + 20 + 14;
          tmp_udp = ld16 m (udp_dst_port udp);
          m = st16 m (udp_dst_port udp) (ld16 m (udp_src_port udp));
          m = st16 m (udp_src_port udp) tmp_udp;
          m = st16 m (udp_len udp) (hton16 (ucast (8 + outgoing_size)));
          m = st16 m (udp_chksum udp) (get_chksum m udp)
      in if ucast (m_head_len request) < outgoing_size + sizeof_RequestHeader then (- EINVAL, m, request)
         else (0, m, request\<lparr>m_len := ucast (outgoing_size + sizeof_RequestHeader)\<rparr>))"

text \<open>One byte of every cache line of the payload; the loop compares addresses.\<close>

function checksum_from :: "mem \<Rightarrow> nat \<Rightarrow> nat \<Rightarrow> u64 \<Rightarrow> u64" where
  "checksum_from m ptr end ret =
     (if ptr < end then
        checksum_from m (ptr + 64) end (if m (of_nat ptr) = 97 then ret + 1 else ret + 2)
      else ret)"
  by pat_completeness auto
termination by (relation "measure (\<lambda>(m, ptr, end, ret). end - ptr)") auto

declare checksum_from.simps [simp del]

definition calculate_checksum :: "mem \<Rightarrow> ptr \<Rightarrow> u64 \<Rightarrow> u64 \<Rightarrow> u64" where
  "calculate_checksum m payload_ptr amt_to_add payload_len =
     checksum_from m (unat payload_ptr + unat amt_to_add) (unat payload_ptr + unat payload_len) 0"

section \<open>What a header says\<close>

text \<open>
  The fields a protocol stack reads from a header whose parts begin at three
  addresses, multi-byte fields in host order.
\<close>

record net_header =
  nh_dhost :: "u8 list"
  nh_shost :: "u8 list"
  nh_type :: u16
  nh_ver :: u8
  nh_tos :: u8
  nh_len :: u16
  nh_id :: u16
  nh_off :: u16
  nh_ttl :: u8
  nh_proto :: u8
  nh_ipsum :: u16
  nh_saddr :: u32
  nh_daddr :: u32
  nh_sport :: u16
  nh_dport :: u16
  nh_ulen :: u16
  nh_usum :: u16

definition net_header_at :: "mem \<Rightarrow> ptr \<Rightarrow> ptr \<Rightarrow> ptr \<Rightarrow> net_header" where
  "net_header_at m e i u = \<lparr>nh_dhost = load_bytes m (eth_dhost e) 6, nh_shost = load_bytes m (eth_shost e) 6,
     nh_type = ntoh16 (ld16 m (eth_type e)), nh_ver = m (ip_version_ihl i), nh_tos = m (ip_tos i),
     nh_len = ntoh16 (ld16 m (ip_len i)), nh_id = ntoh16 (ld16 m (ip_id i)), nh_off = ntoh16 (ld16 m (ip_off i)),
     nh_ttl = m (ip_ttl i), nh_proto = m (ip_proto i), nh_ipsum = ntoh16 (ld16 m (ip_chksum i)),
     nh_saddr = ntoh32 (ld32 m (ip_saddr i)), nh_daddr = ntoh32 (ld32 m (ip_daddr i)),
     nh_sport = ntoh16 (ld16 m (udp_src_port u)), nh_dport = ntoh16 (ld16 m (udp_dst_port u)),
     nh_ulen = ntoh16 (ld16 m (udp_len u)), nh_usum = ntoh16 (ld16 m (udp_chksum u))\<rparr>"

text \<open>
  The header of the answer to a request, for a payload of \<open>n\<close> bytes; the UDP checksum is not written,
  so that it is \<open>c\<close>, what the memory of the answer held.
\<close>

definition reply_header :: "net_header \<Rightarrow> u64 \<Rightarrow> u16 \<Rightarrow> net_header" where
  "reply_header r n c = \<lparr>nh_dhost = nh_shost r, nh_shost = nh_dhost r, nh_type = ETHTYPE_IP, nh_ver = VERSION_IHL, nh_tos = 0,
     nh_len = ucast (28 + n), nh_id = 1, nh_off = 0, nh_ttl = 64, nh_proto = IPPROTO_UDP, nh_ipsum = 0,
     nh_saddr = nh_daddr r, nh_daddr = nh_saddr r,
     nh_sport = nh_dport r, nh_dport = nh_sport r, nh_ulen = ucast (8 + n), nh_usum = c\<rparr>"

lemma disjoint_numerals:
  "disjoint_regions (h + i) k (h + j) n \<longleftrightarrow> k \<le> unat (j - i) \<and> n \<le> unat (i - j)"
  "disjoint_regions h k (h + j) n \<longleftrightarrow> k \<le> unat j \<and> n \<le> unat (- j)"
  "disjoint_regions (h + i) k h n \<longleftrightarrow> k \<le> unat (- i) \<and> n \<le> unat i"
  by (simp_all add: disjoint_regions_def)

lemma unat_minus_1 [field_access]: "unat (- 1 :: ptr) = 18446744073709551615"
  by (simp add: unsigned_minus_1_eq_mask mask_eq_exp_minus_1)

lemma ntoh16_0 [simp]: "ntoh16 0 = 0"
  by (simp add: ntoh16_def bswap16_def)

lemma reverse_request_header_at:
  fixes eth ipv4 udp h :: ptr
  assumes "disjoint_regions h 64 eth 14" "disjoint_regions h 64 ipv4 20" "disjoint_regions h 64 udp 8"
  shows "net_header_at (initialize_reverse_request_header m h eth ipv4 udp n pid) (out_eth h) (out_ipv4 h) (out_udp h)
      = reply_header (net_header_at m eth ipv4 udp) n (ntoh16 (ld16 m (udp_chksum (out_udp h))))"
    and "load_bytes (initialize_reverse_request_header m h eth ipv4 udp n pid) (req_packet_id h) 8 = le32 pid @ [0, 0, 0, 0]"
proof -
  note d = disjoint_parts [OF assms(1)] disjoint_parts [OF assms(2)] disjoint_parts [OF assms(3)]
  show "net_header_at (initialize_reverse_request_header m h eth ipv4 udp n pid) (out_eth h) (out_ipv4 h) (out_udp h)
      = reply_header (net_header_at m eth ipv4 udp) n (ntoh16 (ld16 m (udp_chksum (out_udp h))))"
    by (simp add: initialize_reverse_request_header_def Let_def net_header_at_def reply_header_def
      ether_addr_copy_def ld16_def ld32_def field_access disjoint_numerals d add.assoc)
  show "load_bytes (initialize_reverse_request_header m h eth ipv4 udp n pid) (req_packet_id h) 8 = le32 pid @ [0, 0, 0, 0]"
  proof -
    let ?m = "initialize_reverse_request_header m h eth ipv4 udp n pid"
    have "load_bytes ?m (req_packet_id h) 8 = load_bytes ?m (h + 44) 4 @ load_bytes ?m (h + 48) 4"
      using load_bytes_add [of ?m "h + 44" 4 4] by (simp add: add.commute)
    also have "load_bytes ?m (h + 44) 4 = le32 pid"
      by (simp add: initialize_reverse_request_header_def Let_def field_access disjoint_numerals)
    also have "load_bytes ?m (h + 48) 4 = le32 0"
      by (simp add: initialize_reverse_request_header_def Let_def field_access)
    also have "le32 0 = [0, 0, 0, 0]" by (simp add: le32_def upt_rec)
    finally show ?thesis .
  qed
qed

lemma get_chksum_cong: "load_bytes m' p 8 = load_bytes m p 8 \<Longrightarrow> get_chksum m' p = get_chksum m p"
  by (simp only: get_chksum_first_eight)

text \<open>The IP checksum that \<open>get_chksum\<close> gives is stored behind the bytes that it covers.\<close>

lemma get_chksum_store:
  "get_chksum (st16 m (p + 10) w) p = get_chksum m p"
  by (rule get_chksum_cong) (simp add: field_access disjoint_numerals)

lemma outgoing_header_at:
  fixes h sa da :: ptr and m :: mem and sip dip :: u32 and sp dp :: u16 and n :: u64
  assumes "disjoint_regions h 44 sa 6" "disjoint_regions h 44 da 6"
  defines "m' \<equiv> initialize_outgoing_header m h sa da sip dip sp dp n"
  shows "net_header_at m' (out_eth h) (out_ipv4 h) (out_udp h)
      = \<lparr>nh_dhost = load_bytes m da 6, nh_shost = load_bytes m sa 6, nh_type = ETHTYPE_IP, nh_ver = VERSION_IHL,
         nh_tos = 0, nh_len = ucast (28 + n), nh_id = 1, nh_off = 0, nh_ttl = 64, nh_proto = IPPROTO_UDP,
         nh_ipsum = ntoh16 (get_chksum m' (out_ipv4 h)), nh_saddr = sip, nh_daddr = dip,
         nh_sport = sp, nh_dport = dp, nh_ulen = ucast (8 + n), nh_usum = nh_usum (net_header_at m' (out_eth h) (out_ipv4 h) (out_udp h))\<rparr>"
    and "m' (h + 23) = 0"
proof -
  note d = disjoint_parts [OF assms(1)] disjoint_parts [OF assms(2)]
  have sum: "get_chksum m' (h + 16) = ld16 m' (h + 26)"
    unfolding m'_def initialize_outgoing_header_def Let_def ld16_def
    by (simp add: field_access disjoint_numerals add.assoc) (rule get_chksum_cong, simp add: field_access disjoint_numerals)
  show "net_header_at m' (out_eth h) (out_ipv4 h) (out_udp h)
      = \<lparr>nh_dhost = load_bytes m da 6, nh_shost = load_bytes m sa 6, nh_type = ETHTYPE_IP, nh_ver = VERSION_IHL,
         nh_tos = 0, nh_len = ucast (28 + n), nh_id = 1, nh_off = 0, nh_ttl = 64, nh_proto = IPPROTO_UDP,
         nh_ipsum = ntoh16 (get_chksum m' (out_ipv4 h)), nh_saddr = sip, nh_daddr = dip,
         nh_sport = sp, nh_dport = dp, nh_ulen = ucast (8 + n), nh_usum = nh_usum (net_header_at m' (out_eth h) (out_ipv4 h) (out_udp h))\<rparr>"
    unfolding sum unfolding m'_def
    by (simp add: initialize_outgoing_header_def Let_def net_header_at_def
      ether_addr_copy_def ld16_def ld32_def field_access disjoint_numerals d add.assoc)
  have "st16 m'' (h + 22) 0 (h + 23) = 0" for m''
    by (simp add: st16_def store_bytes_def le16_def)
  then show "m' (h + 23) = 0"
    by (simp add: m'_def initialize_outgoing_header_def Let_def field_access disjoint_numerals add.assoc)
qed

lemma into_mbuf_header_at:
  assumes "disjoint_regions (m_data om) 50 (m_data mb) 46"
  shows "net_header_at (parse_outgoing_request_header_into_mbuf m om mb n) (m_data om) (m_data om + 14) (m_data om + 34)
      = reply_header (net_header_at m (m_data mb) (m_data mb + 14) (m_data mb + 34)) n (ntoh16 (ld16 m (m_data om + 40)))"
    and "load_bytes (parse_outgoing_request_header_into_mbuf m om mb n) (m_data om + 42) 8
      = load_bytes m (m_data mb + 42) 4 @ [0, 0, 0, 0]"
proof -
  let ?m = "parse_outgoing_request_header_into_mbuf m om mb n"
  note d = disjoint_parts [OF assms]
  show "net_header_at ?m (m_data om) (m_data om + 14) (m_data om + 34)
      = reply_header (net_header_at m (m_data mb) (m_data mb + 14) (m_data mb + 34)) n (ntoh16 (ld16 m (m_data om + 40)))"
    by (simp add: parse_outgoing_request_header_into_mbuf_def Let_def net_header_at_def reply_header_def
      ether_addr_copy_def ld16_def ld32_def field_access disjoint_numerals d add.assoc)
  have "load_bytes ?m (m_data om + 42) 8 = load_bytes ?m (m_data om + 42) 4 @ load_bytes ?m (m_data om + 46) 4"
    using load_bytes_add [of ?m "m_data om + 42" 4 4] by (simp add: add.commute)
  also have "load_bytes ?m (m_data om + 42) 4 = le32 (ld32 m (m_data mb + 42))"
    by (simp add: parse_outgoing_request_header_into_mbuf_def Let_def ether_addr_copy_def field_access disjoint_numerals add.assoc)
  also have "load_bytes ?m (m_data om + 46) 4 = le32 0"
    by (simp add: parse_outgoing_request_header_into_mbuf_def Let_def ether_addr_copy_def field_access disjoint_numerals add.assoc)
  also have "le32 0 = [0, 0, 0, 0]" by (simp add: le32_def upt_rec)
  also have "le32 (ld32 m (m_data mb + 42)) = load_bytes m (m_data mb + 42) 4"
    by (simp add: ld32_def le32_of_le32)
  finally show "load_bytes ?m (m_data om + 42) 8 = load_bytes m (m_data mb + 42) 4 @ [0, 0, 0, 0]" .
qed

section \<open>Checking a received packet\<close>

lemma eth_addr_equal_from_iff:
  "eth_addr_equal_from m a b is \<longleftrightarrow> (\<forall>i \<in> set is. m (a + of_nat i) = m (b + of_nat i))"
  by (induction "is") auto

lemma eth_addr_equal_iff: "eth_addr_equal m a b \<longleftrightarrow> load_bytes m a 6 = load_bytes m b 6"
  by (auto simp: eth_addr_equal_def eth_addr_equal_from_iff load_bytes_def)

lemma eth_addr_is_zero_iff: "eth_addr_is_zero m a \<longleftrightarrow> load_bytes m a 6 = replicate 6 0"
proof -
  have "eth_addr_is_zero_from m a is \<longleftrightarrow> (\<forall>i \<in> set is. m (a + of_nat i) = 0)" for "is"
    by (induction "is") auto
  then show ?thesis
    by (auto simp: eth_addr_is_zero_def load_bytes_def list_eq_iff_nth_eq)
qed

lemma check_valid_packet_header:
  "check_valid_packet m mb our =
     (let h = net_header_at m (m_data mb) (m_data mb + 14) (m_data mb + 34) in
      if load_bytes m our 6 = nh_dhost h \<and> nh_type h = ETHTYPE_IP \<and> nh_proto h = IPPROTO_UDP
      then Some (m_data mb + 42, m_len mb - 42) else None)"
  by (simp add: check_valid_packet_def Let_def net_header_at_def eth_addr_equal_iff mbuf_length_def)

text \<open>
  The bytes of a \<open>RequestHeader\<close> in the order in which they are inlined into a
  transmission: the three headers without the padding between them, the packet
  id with its padding, and the checksum.
\<close>

definition request_wire :: "mem \<Rightarrow> ptr \<Rightarrow> u8 list" where
  "request_wire m h = load_bytes m (out_eth h) 14 @ load_bytes m (out_ipv4 h) 20 @ load_bytes m (out_udp h) 8
     @ load_bytes m (req_packet_id h) 8 @ load_bytes m (req_checksum h) 8"

lemma window_part:
  "load_bytes m a N = w \<Longrightarrow> unat k + n \<le> N \<Longrightarrow> load_bytes m (a + k) n = take n (drop (unat k) w)"
  by auto

lemma window_start: "load_bytes m a N = w \<Longrightarrow> n \<le> N \<Longrightarrow> load_bytes m a n = take n w"
  by auto

lemma wire_header_at:
  assumes "load_bytes mc d 58 = request_wire m h"
  shows "net_header_at mc d (d + 14) (d + 34) = net_header_at m (out_eth h) (out_ipv4 h) (out_udp h)"
    and "load_bytes mc (d + 42) 8 = load_bytes m (req_packet_id h) 8"
  using window_part [OF assms] window_start [OF assms]
  by (simp_all add: net_header_at_def ld16_def ld32_def byte_eq_load request_wire_def add.assoc)

lemma request_fields_at:
  "parse_outgoing_request_header m h mb n =
     initialize_reverse_request_header m h (m_data mb) (m_data mb + 14) (m_data mb + 34) n (ld32 m (m_data mb + 42))"
  by (simp add: parse_outgoing_request_header_def Let_def add.assoc)

lemma ld64_id: "ld64 m p = ucast (of_le32 bs)" if "load_bytes m p 8 = bs @ [0, 0, 0, 0]" "length bs = 4"
proof -
  have "unat (of_le32 (drop 4 (bs @ [0, 0, 0, 0]))) = 0"
    using that(2) by (simp add: of_le32_def)
  moreover have "of_le32 (bs @ [0, 0, 0, 0]) = of_le32 bs" using that(2) by (simp add: of_le32_def nth_append)
  ultimately have "unat (ld64 m p) = unat (of_le32 bs)"
    using that by (simp add: ld64_def of_le64_value)
  moreover have "\<dots> = unat (ucast (of_le32 bs) :: u64)" by (rule unat_ucast_u32 [symmetric])
  ultimately show ?thesis by (simp only: word_unat_eq_iff)
qed

text \<open>
  C13. The server reverses the headers of a request into a \<open>RequestHeader\<close>; when
  these headers arrive at the client in the order in which they are inlined, the
  client accepts the packet as addressed to the request's sender, finds the
  reversed addresses and ports, and reads back the request's packet id as the
  64-bit id it looks up.
\<close>

theorem reply_accepted:
  assumes "disjoint_regions h 64 (m_data req) 46"
    and "load_bytes mc (m_data reply) 58 = request_wire (parse_outgoing_request_header m h req n) h"
    and "load_bytes mc mac 6 = load_bytes m (m_data req + 6) 6"
  shows "check_valid_packet mc reply mac = Some (m_data reply + 42, m_len reply - 42)
    \<and> net_header_at mc (m_data reply) (m_data reply + 14) (m_data reply + 34)
        = reply_header (net_header_at m (m_data req) (m_data req + 14) (m_data req + 34)) n (ntoh16 (ld16 m (udp_chksum (out_udp h))))
    \<and> ld64 mc (m_data reply + 42) = ucast (ld32 m (m_data req + 42))"
proof -
  have d: "disjoint_regions h 64 (m_data req) 14" "disjoint_regions h 64 (m_data req + 14) 20"
    "disjoint_regions h 64 (m_data req + 34) 8"
    by (rule disjoint_parts [OF assms(1)]; simp)+
  note rev = reverse_request_header_at [OF d, of m n "ld32 m (m_data req + 42)", folded request_fields_at]
  have header: "net_header_at mc (m_data reply) (m_data reply + 14) (m_data reply + 34)
      = reply_header (net_header_at m (m_data req) (m_data req + 14) (m_data req + 34)) n (ntoh16 (ld16 m (udp_chksum (out_udp h))))"
    using wire_header_at(1) [OF assms(2)] rev(1) by simp
  have "load_bytes mc (m_data reply + 42) 8 = le32 (ld32 m (m_data req + 42)) @ [0, 0, 0, 0]"
    using wire_header_at(2) [OF assms(2)] rev(2) by simp
  from ld64_id [OF this] have "ld64 mc (m_data reply + 42) = ucast (ld32 m (m_data req + 42))"
    by simp
  moreover have "check_valid_packet mc reply mac = Some (m_data reply + 42, m_len reply - 42)"
    unfolding check_valid_packet_header header
    using assms(3) by (simp add: reply_header_def Let_def net_header_at_def)
  ultimately show ?thesis using header by blast
qed

text \<open>
  The bytes of the answer to a request of the bytes \<open>r\<close> up to the UDP checksum, for a payload of \<open>n\<close> bytes: the
  Ethernet addresses exchanged and the type of IPv4; version 4 with a header of five words, no type of service,
  the length, identification 1, no fragment, a time to live of 64, UDP, no checksum, the addresses exchanged; the ports exchanged and the length.
\<close>

definition answer_bytes :: "u8 list \<Rightarrow> u64 \<Rightarrow> u8 list" where
  "answer_bytes r n = take 6 (drop 6 r) @ take 6 r @ [8, 0]
     @ [0x45, 0] @ rev (le16 (ucast (28 + n))) @ [0, 1, 0, 0, 64, 17, 0, 0] @ take 4 (drop 30 r) @ take 4 (drop 26 r)
     @ take 2 (drop 36 r) @ take 2 (drop 34 r) @ rev (le16 (ucast (8 + n)))"

lemma header_fields:
  "load_bytes m p 14 = load_bytes m p 6 @ load_bytes m (p + 6) 6 @ load_bytes m (p + 12) 2"
  "load_bytes m p 20 = [m p, m (p + 1)] @ load_bytes m (p + 2) 2 @ load_bytes m (p + 4) 2 @ load_bytes m (p + 6) 2
     @ [m (p + 8), m (p + 9)] @ load_bytes m (p + 10) 2 @ load_bytes m (p + 12) 4 @ load_bytes m (p + 16) 4"
  "load_bytes m p 6 = load_bytes m p 2 @ load_bytes m (p + 2) 2 @ load_bytes m (p + 4) 2"
  "load_bytes m p 8 = load_bytes m p 4 @ load_bytes m (p + 4) 4"
  by (simp_all add: load_bytes_def upt_rec add.assoc)

lemma le_load [field_access]: "le16 (of_le16 (load_bytes m p 2)) = load_bytes m p 2" "le32 (of_le32 (load_bytes m p 4)) = load_bytes m p 4"
proof -
  have "bit (le16 (of_le16 bs) ! i) n = bit (bs ! i) n" if len: "length bs = 2" and i: "i < 2" for bs i n
  proof -
    obtain a b where bs: "bs = [a, b]" using len by (auto simp: length_Suc_conv numeral_2_eq_2)
    have "i = 0 \<or> i = 1" using i by auto
    then show ?thesis by (elim disjE) (auto simp: le16_def of_le16_def bs bit_simps dest: bit_imp_le_length)
  qed
  then show "le16 (of_le16 (load_bytes m p 2)) = load_bytes m p 2"
    by (intro nth_equalityI) (auto simp: bit_eq_iff)
qed (simp add: le32_of_le32)

lemma header_constants:
  "le16 0 = [0, 0]" "le16 1 = [1, 0]" "le16 0x0800 = [0, 8]" "le32 0 = [0, 0, 0, 0]"
  "le16 (hton16 w) = rev (le16 w)"
proof -
  show "le16 (hton16 w) = rev (le16 w)" by (simp add: hton16_def bswap_rev)
  show "le16 0 = [0, 0]" "le16 1 = [1, 0]" "le16 0x0800 = [0, 8]" "le32 0 = [0, 0, 0, 0]"
    by (simp_all add: le16_def le32_def upt_rec)
qed


text \<open>
  C16. The client copies its \<open>OutgoingHeader\<close> to the start of a packet as it lies in
  memory. The two bytes of padding in front of the IPv4 header, which the
  declared alignment of 4 asks for, travel with it, so the receiver, which looks for the
  protocol number at byte 23, finds the low byte of the fragment offset there and
  drops the packet, whatever addresses it was built with.
\<close>

theorem client_header_rejected:
  assumes "load_bytes ms (m_data pkt) 44 = load_bytes (initialize_outgoing_header m h sa da sip dip sp dp n) h 44"
    and "disjoint_regions h 44 sa 6" "disjoint_regions h 44 da 6"
  shows "check_valid_packet ms pkt our_eth = None
    \<and> nh_proto (net_header_at (initialize_outgoing_header m h sa da sip dip sp dp n) (out_eth h) (out_ipv4 h) (out_udp h))
        = IPPROTO_UDP"
proof -
  have "load_bytes ms (m_data pkt + 23) (Suc 0) = load_bytes (initialize_outgoing_header m h sa da sip dip sp dp n) (h + 23) (Suc 0)"
    using window_part [OF assms(1), of 23 "Suc 0"] by simp
  then have "ms (m_data pkt + 23) = 0"
    using outgoing_header_at(2) [OF assms(2,3)] by (simp add: load_bytes_def)
  then have "check_valid_packet ms pkt our_eth = None"
    by (simp add: check_valid_packet_def Let_def add.assoc)
  moreover have "nh_proto (net_header_at (initialize_outgoing_header m h sa da sip dip sp dp n) (out_eth h) (out_ipv4 h) (out_udp h))
      = IPPROTO_UDP"
    by (subst outgoing_header_at(1) [OF assms(2,3)]) simp
  ultimately show ?thesis by blast
qed

lemma length_request_wire [simp]: "length (request_wire m h) = 58"
  by (simp add: request_wire_def)

lemma zero_memory: "load_bytes (\<lambda>_. 0) a n = replicate n 0"
  by (simp add: load_bytes_def map_replicate_const)

definition example_buffer :: "ptr \<Rightarrow> u32 \<Rightarrow> mbuf_core" where
  "example_buffer a n = \<lparr>m_next = 0, m_head = a, m_data = a, m_head_len = 2048, m_len = n\<rparr>"

lemma reply_accepted_witness:
  "\<exists>mc. check_valid_packet mc (example_buffer 0x9000 58) 0x8000 = Some (0x902A, 16)"
proof -
  let ?req = "example_buffer 0x1000 50" and ?reply = "example_buffer 0x9000 58"
  let ?w = "request_wire (parse_outgoing_request_header (\<lambda>_. 0) 0x5000 ?req 16) 0x5000"
  let ?mc = "store_bytes (\<lambda>_. 0) 0x9000 ?w"
  have "disjoint_regions 0x5000 64 (m_data ?req) 46" by (simp add: example_buffer_def disjoint_regions_def)
  moreover have "load_bytes ?mc (m_data ?reply) 58 = ?w" by (simp add: example_buffer_def load_store_same)
  moreover have "load_bytes ?mc 0x8000 6 = load_bytes (\<lambda>_. 0) (m_data ?req + 6) 6"
    by (subst load_store_disjoint) (simp_all add: disjoint_regions_def zero_memory example_buffer_def)
  ultimately have "check_valid_packet ?mc ?reply 0x8000 = Some (m_data ?reply + 42, m_len ?reply - 42)"
    using reply_accepted by blast
  then show ?thesis by (auto simp: example_buffer_def)
qed


lemma client_header_rejected_witness:
  "check_valid_packet (initialize_outgoing_header (\<lambda>a. ucast a) 0x5000 0x100 0x200 1 2 3 4 16)
     (example_buffer 0x5000 60) 0x200 = None"
  using client_header_rejected [of _ "example_buffer 0x5000 60" "\<lambda>a. ucast a" "0x5000" "0x100" "0x200" 1 2 3 4 16 "0x200"]
  by (simp add: disjoint_regions_def example_buffer_def)

section \<open>Flipping a packet in place\<close>

lemma flip_headers_at:
  assumes "disjoint_regions tmp 6 (m_data r) 42"
  shows "net_header_at (fst (snd (flip_headers m tmp r n))) (m_data r) (m_data r + 14) (m_data r + 34)
    = (let h = net_header_at m (m_data r) (m_data r + 14) (m_data r + 34) in
       h\<lparr>nh_dhost := nh_shost h, nh_shost := nh_dhost h, nh_len := ucast (28 + n), nh_saddr := nh_daddr h,
         nh_daddr := nh_saddr h, nh_sport := nh_dport h, nh_dport := nh_sport h, nh_ulen := ucast (8 + n),
         nh_ipsum := ntoh16 (get_chksum (fst (snd (flip_headers m tmp r n))) (m_data r + 14)),
         nh_usum := ntoh16 (ld16 (fst (snd (flip_headers m tmp r n))) (m_data r + 40))\<rparr>)"
proof -
  note d = disjoint_parts [OF assms] disjoint_parts [OF disjoint_regions_sym [THEN iffD1, OF assms]]
  let ?d = "m_data r"
  define m1 where "m1 = memcpy (memcpy (memcpy m tmp ?d 6) ?d (?d + 6) 6) (?d + 6) tmp 6"
  define m2 where "m2 = st16 (st16 m1 (?d + 24) 0) (?d + 16) (hton16 (ucast (28 + n)))"
  define sip where "sip = ld32 m2 (?d + 26)"
  define dip where "dip = ld32 m2 (?d + 30)"
  define m3 where "m3 = st32 (st32 m2 (?d + 30) sip) (?d + 26) dip"
  define c1 where "c1 = get_chksum m3 (?d + 14)"
  define m4 where "m4 = st16 m3 (?d + 24) c1"
  define sp where "sp = ld16 m4 (?d + 34)"
  define dp where "dp = ld16 m4 (?d + 36)"
  define m5 where "m5 = st16 (st16 (st16 m4 (?d + 36) sp) (?d + 34) dp) (?d + 38) (hton16 (ucast (8 + n)))"
  define c2 where "c2 = get_chksum m5 (?d + 34)"
  have "ld32 (st32 m2 (?d + 30) v) (?d + 26) = sip" for v
    by (simp add: sip_def ld32_def field_access disjoint_numerals)
  moreover have "ld16 (st16 m4 (?d + 36) v) (?d + 34) = sp" for v
    by (simp add: sp_def ld16_def field_access disjoint_numerals)
  ultimately have final: "fst (snd (flip_headers m tmp r n)) = st16 m5 (?d + 40) c2"
    unfolding c2_def m5_def dp_def sp_def m4_def c1_def m3_def dip_def sip_def m2_def m1_def
    by (simp add: flip_headers_def Let_def ether_addr_copy_def add.assoc)
  have ips: "sip = ld32 m (?d + 26)" "dip = ld32 m (?d + 30)"
    unfolding sip_def dip_def m2_def m1_def
    by (simp_all add: ld32_def field_access disjoint_numerals d)
  have ports: "sp = ld16 m (?d + 34)" "dp = ld16 m (?d + 36)"
    unfolding sp_def dp_def m4_def m3_def m2_def m1_def
    by (simp_all add: ld16_def field_access disjoint_numerals d)
  have "get_chksum (st16 m5 (?d + 40) c2) (?d + 14) = c1"
    unfolding c1_def m5_def m4_def by (rule get_chksum_cong) (simp add: field_access disjoint_numerals)
  then show ?thesis
    unfolding final unfolding m5_def m4_def m3_def m2_def m1_def
    by (simp add: net_header_at_def Let_def ld16_def ld32_def field_access disjoint_numerals d add.assoc
        ips [unfolded ld32_def] ports [unfolded ld16_def])
qed



section \<open>Addresses as integers\<close>

text \<open>
  \<open>uint64_to_eth_addr\<close> stores the six low bytes of its argument, lowest
  first. The opposite conversion shifts the promoted 32-bit value of the bytes
  by 32 and 40 and so never stays within defined behaviour.
\<close>

theorem eth_addr_conversions:
  "load_bytes (uint64_to_eth_addr m v a) a 6 = take 6 (le64 v)
   \<and> eth_addr_to_uint64 m' b = Inl BadShift"
proof -
  have mask: "ucast (x AND 0xff) = (ucast x :: u8)" for x :: u64
  proof (rule bit_word_eqI)
    have m: "(0xff :: u64) = mask 8" by (simp add: mask_eq_exp_minus_1)
    show "bit (ucast (x AND 0xff) :: u8) n \<longleftrightarrow> bit (ucast x :: u8) n" if "n < LENGTH(8)" for n
      using that unfolding m by (simp add: bit_simps)
  qed
  have split: "load_bytes h a 6 = load_bytes h a (Suc 0) @ load_bytes h (a + 1) (Suc 0) @ load_bytes h (a + 2) (Suc 0)
    @ load_bytes h (a + 3) (Suc 0) @ load_bytes h (a + 4) (Suc 0) @ load_bytes h (a + 5) (Suc 0)" for h
    by (simp add: load_bytes_def upt_rec)
  have "load_bytes (uint64_to_eth_addr m v a) a 6 = take 6 (le64 v)"
    unfolding split uint64_to_eth_addr_def mask
    by (simp add: upt_rec field_access disjoint_numerals le64_def)
  moreover have "eth_addr_to_uint64 m' b = Inl BadShift"
    by (simp add: eth_addr_to_uint64_def upt_rec)
  ultimately show ?thesis by blast
qed

end
