(* ===== verification/Mlx5.thy ===== *)
theory Mlx5
  imports Mempool Packet
begin

text \<open>
  The transmit and receive rings of inc/mlx5.h, inc/mlx5_rxtx.h and
  mlx5_rxtx.c: the queue structures, the completion queues shared with the
  device, and every operation on them. The constants and structure layouts of
  the device interface (rdma-core, which is not part of this repository) are the
  parameter \<open>abi\<close>; \<open>documented_abi\<close> says what its headers document.
\<close>

section \<open>The device interface\<close>

record abi =
  CQE_OWNER_MASK :: u8
  CQE_INVALID :: u8
  CQE_REQ :: u8
  CQE_RESP_SEND :: u8
  CQE_L3_OK :: u8
  CQE_L4_OK :: u8
  CQE_L3_HDR_TYPE_IPV4 :: u8
  CTRL_CQ_UPDATE :: u8
  OPCODE_SEND :: u32
  ETH_L3_CSUM :: u8
  ETH_L4_CSUM :: u8
  SND_DBR :: u64
  sizeof_ctrl :: u64
  ctrl_opmod :: u64
  ctrl_qpn_ds :: u64
  ctrl_fm_ce_se :: u64
  ctrl_imm :: u64
  sizeof_eth_seg :: u64
  eth_cs_flags :: u64
  eth_inline_hdr_sz :: u64
  eth_inline_hdr_start :: u64
  eth_inline_hdr :: u64
  sizeof_data_seg :: u64
  data_byte_count :: u64
  data_lkey :: u64
  data_addr :: u64

definition documented_abi :: "abi \<Rightarrow> bool" where
  "documented_abi A \<longleftrightarrow> CQE_OWNER_MASK A = 1 \<and> CQE_INVALID A = 15 \<and> CQE_REQ A = 0 \<and> CQE_RESP_SEND A = 2
     \<and> sizeof_ctrl A = 16 \<and> eth_inline_hdr_start A = 14 \<and> eth_inline_hdr A = 16 \<and> sizeof_eth_seg A = 32
     \<and> sizeof_data_seg A = 16 \<and> eth_inline_hdr_sz A = 12 \<and> eth_cs_flags A = 4
     \<and> data_byte_count A = 0 \<and> data_lkey A = 4 \<and> data_addr A = 8
     \<and> ctrl_opmod A = 0 \<and> ctrl_qpn_ds A = 4 \<and> ctrl_fm_ce_se A = 11 \<and> ctrl_imm A = 12"

definition mlx5_abi :: abi where
  "mlx5_abi = \<lparr>CQE_OWNER_MASK = 1, CQE_INVALID = 15, CQE_REQ = 0, CQE_RESP_SEND = 2, CQE_L3_OK = 2, CQE_L4_OK = 4,
     CQE_L3_HDR_TYPE_IPV4 = 2, CTRL_CQ_UPDATE = 8, OPCODE_SEND = 10, ETH_L3_CSUM = 64, ETH_L4_CSUM = 128, SND_DBR = 1,
     sizeof_ctrl = 16, ctrl_opmod = 0, ctrl_qpn_ds = 4, ctrl_fm_ce_se = 11, ctrl_imm = 12, sizeof_eth_seg = 32,
     eth_cs_flags = 4, eth_inline_hdr_sz = 12, eth_inline_hdr_start = 14, eth_inline_hdr = 16,
     sizeof_data_seg = 16, data_byte_count = 0, data_lkey = 4, data_addr = 8\<rparr>"

lemma mlx5_abi_documented: "documented_abi mlx5_abi"
  by (simp add: documented_abi_def mlx5_abi_def)

text \<open>The fields the program reads of a completion queue entry; multi-byte fields are big endian.\<close>

record cqe =
  cqe_rss_hash :: u32
  cqe_hds_ip_ext :: u8
  cqe_l4_hdr_type_etc :: u8
  cqe_byte_cnt :: u32
  cqe_sop_drop_qpn :: u32
  cqe_wqe_counter :: u16
  cqe_op_own :: u8
  cqe_syndrome :: u8

record txq =
  t_buffers :: "ptr list"
  sq_buf :: ptr
  sq_wqe_cnt :: u32
  sq_stride :: u32
  sq_dbrec :: ptr
  sq_bf_reg :: ptr
  sq_qp_num :: u32
  sq_head :: u32
  tx_sq_log_stride :: u32
  tx_cqes :: "cqe list"
  tx_cqe_cnt :: u32
  tx_cq_dbrec :: ptr
  cq_head :: u32
  true_cq_head :: u32

record rxq =
  r_buffers :: "ptr list"
  rx_wq_buf :: ptr
  rx_wqe_cnt :: u32
  rx_stride :: u32
  rx_wq_dbrec :: ptr
  wq_head :: u32
  rx_wq_log_stride :: u32
  rx_cqes :: "cqe list"
  rx_cqe_cnt :: u32
  rx_cq_dbrec :: ptr
  consumer_idx :: u32

text \<open>
  The state the data path works on. The mbuf structures are kept apart from the
  bytes of the buffers; \<open>n_doorbells\<close> records what was written to the device's
  doorbell register.
\<close>

record net =
  n_mem :: mem
  n_mbufs :: "ptr \<Rightarrow> mbuf"
  rx_buf_mempool :: mempool
  tx_buf_mempool :: mempool
  mbuf_mempool :: mempool
  working_set_refcnts :: "u16 list list"
  num_total_segments :: u64
  using_ref_counting :: int
  total_dropped :: u32
  n_txq :: txq
  n_rxq :: rxq
  n_doorbells :: "(ptr \<times> u64) list"

abbreviation (input) RX_BUF_HEAD :: u64 where "RX_BUF_HEAD \<equiv> 128"
abbreviation (input) SQ_CLEAN_THRESH :: nat where "SQ_CLEAN_THRESH \<equiv> 32"
abbreviation (input) SQ_CLEAN_MAX :: nat where "SQ_CLEAN_MAX \<equiv> 32"

section \<open>inc/mlx5.h\<close>

definition POW2MOD :: "u32 \<Rightarrow> u32 \<Rightarrow> u32" where
  "POW2MOD num n = num AND (n - 1)"

definition get_segment :: "txq \<Rightarrow> u32 \<Rightarrow> ptr" where
  "get_segment v idx = sq_buf v + ucast (push_bit (unat (tx_sq_log_stride v)) idx)"

definition nr_inflight_tx :: "txq \<Rightarrow> u32" where
  "nr_inflight_tx v = sq_head v - true_cq_head v"

definition cqe_status :: "abi \<Rightarrow> cqe \<Rightarrow> u32 \<Rightarrow> u32 \<Rightarrow> u8" where
  "cqe_status A c cqe_cnt head =
     (let parity = ucast (head AND cqe_cnt) :: u16;
          op_own = cqe_op_own c;
          op_owner = op_own AND CQE_OWNER_MASK A;
          op_code = drop_bit 4 (op_own AND 0xf0)
      in (of_bool (op_owner = of_bool (parity = 0)) * CQE_INVALID A) OR op_code)"

definition mlx5_csum_ok :: "abi \<Rightarrow> cqe \<Rightarrow> bool" where
  "mlx5_csum_ok A c \<longleftrightarrow>
     cqe_hds_ip_ext c AND (CQE_L4_OK A OR CQE_L3_OK A) = (CQE_L4_OK A OR CQE_L3_OK A)
     \<and> (drop_bit 2 (cqe_l4_hdr_type_etc c)) AND 3 = CQE_L3_HDR_TYPE_IPV4 A"

definition mlx5_get_cqe_opcode :: "cqe \<Rightarrow> u8" where
  "mlx5_get_cqe_opcode c = drop_bit 4 (cqe_op_own c AND 0xf0)"

definition mlx5_get_cqe_format :: "cqe \<Rightarrow> u8" where
  "mlx5_get_cqe_format c = drop_bit 2 (cqe_op_own c AND 0xc)"

definition get_error_syndrome :: "cqe \<Rightarrow> u8" where
  "get_error_syndrome c = cqe_syndrome c"

definition mlx5_get_rss_result :: "cqe \<Rightarrow> u32" where
  "mlx5_get_rss_result c = ntoh32 (cqe_rss_hash c)"

section \<open>Reference counts and completion callbacks\<close>

text \<open>\<open>change\<close> is the value of the \<open>int16_t\<close> argument.\<close>

definition server_change_refcnt :: "u64 \<Rightarrow> int \<Rightarrow> net \<Rightarrow> (u16 \<times> net) res" where
  "server_change_refcnt index change s =
     bindE (guardE DivByZero (num_total_segments s \<noteq> 0)) (\<lambda>_.
     let physical_segment = index mod num_total_segments s;
         refcnt_array = index div num_total_segments s in
     bindE (nthE (working_set_refcnts s) (unat refcnt_array)) (\<lambda>row.
     bindE (nthE row (unat physical_segment)) (\<lambda>old.
     let store = (\<lambda>v. s\<lparr>working_set_refcnts := (working_set_refcnts s)
           [unat refcnt_array := row[unat physical_segment := v]]\<rparr>) in
     if 0 < change then
       let v = old + of_int change; cur = 0 + v in Inr (cur, store v)
     else
       let v = old - of_int (change * -1); cur = 0 - v in Inr (cur, store v))))"

text \<open>
  The walk along a chain of mbufs, at most \<open>fuel\<close> of them. The number of mbuf
  structures there are bounds the length of every chain without a cycle.
\<close>

primrec zero_copy_tx_completion :: "nat \<Rightarrow> ptr \<Rightarrow> net \<Rightarrow> net res" where
  "zero_copy_tx_completion 0 m s = (if m \<noteq> NULL then Inl NoFuel else Inr s)"
| "zero_copy_tx_completion (Suc fuel) m s =
     (if m \<noteq> NULL then
        let next_mbuf = m_next (n_mbufs s m) in
        bindE (if using_ref_counting s = 1
               then bindE (server_change_refcnt (m_release_data (n_mbufs s m)) (-1) s) (\<lambda>(refcnt, s). Inr s)
               else Inr s) (\<lambda>s.
        bindE (mempool_free (mbuf_mempool s) m) (\<lambda>p.
        zero_copy_tx_completion fuel next_mbuf (s\<lparr>mbuf_mempool := p\<rparr>)))
      else Inr s)"

primrec tx_completion :: "nat \<Rightarrow> ptr \<Rightarrow> net \<Rightarrow> net res" where
  "tx_completion 0 m s = (if m \<noteq> NULL then Inl NoFuel else Inr s)"
| "tx_completion (Suc fuel) m s =
     (if m \<noteq> NULL then
        let next_mbuf = m_next (n_mbufs s m) in
        bindE (mempool_free (tx_buf_mempool s) (m_head (n_mbufs s m))) (\<lambda>p.
        let s = s\<lparr>tx_buf_mempool := p\<rparr> in
        bindE (mempool_free (mbuf_mempool s) m) (\<lambda>p.
        tx_completion fuel next_mbuf (s\<lparr>mbuf_mempool := p\<rparr>)))
      else Inr s)"

definition rx_completion :: "ptr \<Rightarrow> net \<Rightarrow> net res" where
  "rx_completion m s = bindE (mempool_free (rx_buf_mempool s) (m_head (n_mbufs s m))) (\<lambda>p.
     Inr (s\<lparr>rx_buf_mempool := p\<rparr>))"

definition chain_fuel :: "net \<Rightarrow> nat" where
  "chain_fuel s = Suc (unat (capacity (mbuf_mempool s)))"

definition net_release :: "release_fn \<Rightarrow> ptr \<Rightarrow> net \<Rightarrow> net res" where
  "net_release f m s = (case f of NoRelease \<Rightarrow> Inl NullDeref | RxCompletion \<Rightarrow> rx_completion m s
     | TxCompletion \<Rightarrow> tx_completion (chain_fuel s) m s
     | ZeroCopyTxCompletion \<Rightarrow> zero_copy_tx_completion (chain_fuel s) m s)"

definition free_mbuf :: "ptr \<Rightarrow> net \<Rightarrow> net res" where
  "free_mbuf m s = bindE (guardE NullDeref (m \<noteq> NULL)) (\<lambda>_.
     mbuf_free net_release (m_release (n_mbufs s m)) m s)"

section \<open>Completions\<close>

text \<open>
  One round of the loop per unit of budget; the result lists the mbufs of the
  completed transmissions in the order of the completion queue.
\<close>

primrec gather_completions_loop :: "abi \<Rightarrow> nat \<Rightarrow> net \<Rightarrow> (ptr list \<times> net) res" where
  "gather_completions_loop A 0 s = Inr ([], s)"
| "gather_completions_loop A (Suc budget) s =
     (let v = n_txq s in
      bindE (nthE (tx_cqes v) (unat (cq_head v AND (tx_cqe_cnt v - 1)))) (\<lambda>c.
      let opcode = cqe_status A c (tx_cqe_cnt v) (cq_head v) in
      if opcode = CQE_INVALID A then Inr ([], s)
      else
        bindE (guardE Abort (opcode = CQE_REQ A)) (\<lambda>_.
        bindE (guardE Abort (mlx5_get_cqe_format c \<noteq> 3)) (\<lambda>_.
        let wqe_idx = ucast (ucast (ntoh16 (cqe_wqe_counter c)) AND (sq_wqe_cnt v - 1)) :: u16 in
        bindE (nthE (t_buffers v) (unat wqe_idx)) (\<lambda>m.
        bindE (guardE NullDeref (m \<noteq> NULL)) (\<lambda>_.
        let v = v\<lparr>true_cq_head := true_cq_head v + ucast (m_num_wqes (n_mbufs s m))\<rparr> in
        bindE (gather_completions_loop A budget (s\<lparr>n_txq := v\<lparr>cq_head := cq_head v + 1\<rparr>\<rparr>)) (\<lambda>(ms, s).
        Inr (m # ms, s))))))))"

definition mlx5_gather_completions :: "abi \<Rightarrow> nat \<Rightarrow> net \<Rightarrow> (ptr list \<times> net) res" where
  "mlx5_gather_completions A budget s = bindE (gather_completions_loop A budget s) (\<lambda>(ms, s).
     Inr (ms, s\<lparr>n_mem := st32 (n_mem s) (tx_cq_dbrec (n_txq s)) (hton32 (cq_head (n_txq s) AND 0xffffff))\<rparr>))"

definition reap_completions :: "abi \<Rightarrow> net \<Rightarrow> net res" where
  "reap_completions A s = bindE (mlx5_gather_completions A SQ_CLEAN_MAX s) (\<lambda>(mbs, s). foldE free_mbuf mbs s)"

section \<open>Transmission\<close>

definition sq_end :: "txq \<Rightarrow> ptr" where
  "sq_end v = sq_buf v + ucast (sq_wqe_cnt v * sq_stride v)"

definition mlx5_inline_data :: "abi \<Rightarrow> txq \<Rightarrow> u64 \<Rightarrow> ptr \<Rightarrow> u64 \<Rightarrow> mem \<Rightarrow> mem" where
  "mlx5_inline_data A v off data inline_len m =
     (let current_idx = POW2MOD (sq_head v) (sq_wqe_cnt v);
          current_segment_ptr = get_segment v current_idx;
          inline_start = current_segment_ptr + sizeof_ctrl A + eth_inline_hdr_start A;
          end_ptr = sq_end v;
          inline_off_start = inline_start + off;
          inline_off_start = (if end_ptr \<le> inline_off_start then
            let end_chunk = inline_len - (end_ptr - inline_start) in sq_buf v + end_chunk
            else inline_off_start)
      in if end_ptr - inline_off_start < inline_len then
           let first_chunk = end_ptr - inline_off_start;
               second_chunk = inline_len - first_chunk;
               m = memcpy m inline_off_start data (unat first_chunk)
           in memcpy m (sq_buf v) (data + first_chunk) (unat second_chunk)
         else memcpy m inline_off_start data (unat inline_len))"

primrec fill_data_segs :: "abi \<Rightarrow> nat \<Rightarrow> txq \<Rightarrow> (ptr \<Rightarrow> mbuf) \<Rightarrow> ptr \<Rightarrow> ptr \<Rightarrow> mem \<Rightarrow> mem res" where
  "fill_data_segs A 0 v mb cur p m = (if cur \<noteq> NULL then Inl NoFuel else Inr m)"
| "fill_data_segs A (Suc fuel) v mb cur p m =
     (if cur \<noteq> NULL then
        let m = st32 m (p + data_byte_count A) (hton32 (mbuf_length (mb cur)));
            m = st64 m (p + data_addr A) (hton64 (mbuf_data (mb cur)));
            m = st32 m (p + data_lkey A) (hton32 (m_lkey (mb cur)));
            p = p + sizeof_data_seg A;
            p = (if p = sq_end v then sq_buf v else p)
        in fill_data_segs A fuel v mb (m_next (mb cur)) p m
      else Inr m)"

text \<open>The number of 16-byte segments a request takes for its headers, and of 64-byte entries for all.\<close>

definition num_hdr_segs :: "abi \<Rightarrow> u64 \<Rightarrow> u32" where
  "num_hdr_segs A inline_len = (if 0 < inline_len
     then ucast (sizeof_ctrl A div 16 + eth_inline_hdr A div 16 + ((inline_len - 2) + 15) div 16) else 2)"

definition num_dpsegs :: "abi \<Rightarrow> u32 \<Rightarrow> u32" where
  "num_dpsegs A nb_segs = ucast ((sizeof_data_seg A * ucast nb_segs) div 16)"

definition fill_ctrl_seg :: "abi \<Rightarrow> txq \<Rightarrow> u32 \<Rightarrow> ptr \<Rightarrow> mem \<Rightarrow> mem" where
  "fill_ctrl_seg A v ds p m =
     (let m = st32 m (p + 8) 0;
          m = st32 m (p + ctrl_imm A) 0;
          m = st8 m (p + ctrl_fm_ce_se A) (CTRL_CQ_UPDATE A);
          m = st32 m (p + ctrl_qpn_ds A) (hton32 (ds OR push_bit 8 (sq_qp_num v)))
      in st32 m (p + ctrl_opmod A) (hton32 (push_bit 8 (sq_head v AND 0xffff) OR OPCODE_SEND A)))"

definition fill_eth_seg :: "abi \<Rightarrow> u64 \<Rightarrow> ptr \<Rightarrow> mem \<Rightarrow> mem" where
  "fill_eth_seg A inline_len p m =
     (let m = memset m p 0 (unat (sizeof_eth_seg A));
          m = st8 m (p + eth_cs_flags A) (m (p + eth_cs_flags A) OR (ETH_L3_CSUM A OR ETH_L4_CSUM A))
      in st16 m (p + eth_inline_hdr_sz A) (hton16 (ucast inline_len)))"

definition fill_inline :: "abi \<Rightarrow> txq \<Rightarrow> ptr \<Rightarrow> mem \<Rightarrow> mem" where
  "fill_inline A v request_header m =
     (let off = 0;
          m = mlx5_inline_data A v off (out_eth request_header) 14 m;
          off = off + 14;
          m = mlx5_inline_data A v off (out_ipv4 request_header) 20 m;
          off = off + 20;
          m = mlx5_inline_data A v off (out_udp request_header) 8 m;
          off = off + 8;
          m = mlx5_inline_data A v off (req_packet_id request_header) 8 m;
          off = off + 8
      in mlx5_inline_data A v off (req_checksum request_header) 8 m)"

text \<open>Where the first data segment goes: behind the padded inline data, or behind the Ethernet segment.\<close>

definition first_data_seg :: "abi \<Rightarrow> txq \<Rightarrow> u64 \<Rightarrow> ptr \<Rightarrow> ptr" where
  "first_data_seg A v inline_len p =
     (if 0 < inline_len then
        let p = p + eth_inline_hdr_start A in
        if sq_end v - p < inline_len then
          let first_chunk_size = sq_end v - p
          in sq_buf v + ((inline_len - first_chunk_size + 15) AND NOT 0xf)
        else (p + 2) + ((inline_len - 2 + 15) AND NOT 0xf)
      else let p = p + 16 in if p = sq_end v then sq_buf v else p)"

definition mlx5_fill_tx_segment :: "abi \<Rightarrow> ptr \<Rightarrow> ptr \<Rightarrow> u64 \<Rightarrow> net \<Rightarrow> (int \<times> net) res" where
  "mlx5_fill_tx_segment A m request_header inline_len s =
     bindE (guardE NullDeref (m \<noteq> NULL)) (\<lambda>_.
     let hdr = num_hdr_segs A inline_len;
         dp = num_dpsegs A (m_nb_segs (n_mbufs s m)) in
     bindE (guardE ImplDefined (unat hdr \<le> INT_MAX \<and> unat dp \<le> INT_MAX)) (\<lambda>_.
     bindE (guardE SignedOverflow (unat hdr + unat dp + 3 \<le> INT_MAX)) (\<lambda>_.
     let num_wqes = (hdr + dp + 3) div 4 in
     bindE (if sq_wqe_cnt (n_txq s) - nr_inflight_tx (n_txq s) < num_wqes then reap_completions A s else Inr s) (\<lambda>s.
     if sq_wqe_cnt (n_txq s) - nr_inflight_tx (n_txq s) < num_wqes then Inr (ENOMEM, s)
     else
       let v = n_txq s;
           current_idx = POW2MOD (sq_head v) (sq_wqe_cnt v);
           seg = get_segment v current_idx;
           h = fill_ctrl_seg A v (hdr + dp) seg (n_mem s);
           eseg = seg + sizeof_ctrl A;
           h = fill_eth_seg A inline_len eseg h;
           h = (if 0 < inline_len then fill_inline A v request_header h else h);
           mb = (n_mbufs s)(m := (n_mbufs s m)\<lparr>m_num_wqes := ucast num_wqes\<rparr>) in
       bindE (fill_data_segs A (chain_fuel s) v mb m (first_data_seg A v inline_len eseg) h) (\<lambda>h.
       bindE (updE (t_buffers v) (unat current_idx) m) (\<lambda>bufs.
       Inr (0, s\<lparr>n_mem := h, n_mbufs := mb, n_txq := v\<lparr>t_buffers := bufs, sq_head := sq_head v + num_wqes\<rparr>\<rparr>)))))))"

definition mlx5_ring_doorbell :: "abi \<Rightarrow> ptr \<Rightarrow> net \<Rightarrow> net" where
  "mlx5_ring_doorbell A ctrl s =
     (let v = n_txq s;
          s = s\<lparr>n_mem := st32 (n_mem s) (sq_dbrec v + 4 * SND_DBR A) (hton32 (sq_head v AND 0xffff))\<rparr>
      in s\<lparr>n_doorbells := n_doorbells s @ [(sq_bf_reg v, ld64 (n_mem s) ctrl)]\<rparr>)"

text \<open>The null pointer is returned when the queue is full.\<close>

definition mlx5_post_transmission :: "abi \<Rightarrow> ptr \<Rightarrow> ptr \<Rightarrow> u64 \<Rightarrow> net \<Rightarrow> (ptr \<times> net) res" where
  "mlx5_post_transmission A m request_header inline_len s =
     (let idx = sq_head (n_txq s) AND (sq_wqe_cnt (n_txq s) - 1);
          ctrl = get_segment (n_txq s) idx in
      bindE (mlx5_fill_tx_segment A m request_header inline_len s) (\<lambda>(ret, s).
      if ret = ENOMEM then Inr (NULL, s) else Inr (ctrl, s)))"

definition mlx5_transmit_one :: "abi \<Rightarrow> ptr \<Rightarrow> ptr \<Rightarrow> u64 \<Rightarrow> net \<Rightarrow> (int \<times> net) res" where
  "mlx5_transmit_one A m request_header inline_len s =
     bindE (mlx5_post_transmission A m request_header inline_len s) (\<lambda>(ctrl, s).
     if ctrl = NULL then Inr (0, s)
     else
       let s = mlx5_ring_doorbell A ctrl s in
       bindE (if SQ_CLEAN_THRESH \<le> unat (nr_inflight_tx (n_txq s)) then reap_completions A s else Inr s) (\<lambda>s.
       Inr (1, s)))"

text \<open>
  The loop of \<open>mlx5_transmit_batch\<close> from \<open>i\<close> on, over the first mbuf, the request
  header and the inline length of each entry; the result is how many were sent.
\<close>

primrec transmit_loop :: "abi \<Rightarrow> (ptr \<times> ptr \<times> u64) list \<Rightarrow> net \<Rightarrow> (nat \<times> net) res" where
  "transmit_loop A [] s = Inr (0, s)"
| "transmit_loop A (e # es) s = (case e of (m, request_header, inline_len) \<Rightarrow>
     bindE (mlx5_transmit_one A m request_header inline_len s) (\<lambda>(ret, s).
     if ret \<noteq> 1 then Inr (0, s)
     else bindE (transmit_loop A es s) (\<lambda>(n, s). Inr (Suc n, s))))"

definition mlx5_transmit_batch :: "abi \<Rightarrow> (ptr \<times> ptr \<times> u64) list \<Rightarrow> nat \<Rightarrow> nat \<Rightarrow> net \<Rightarrow> (nat \<times> net) res" where
  "mlx5_transmit_batch A batch start_index burst_size s =
     bindE (guardE OutOfBounds (burst_size \<le> length batch)) (\<lambda>_.
     transmit_loop A (drop start_index (take burst_size batch)) s)"

section \<open>Reception\<close>

definition mbuf_fill_cqe :: "ptr \<Rightarrow> cqe \<Rightarrow> mbuf \<Rightarrow> mbuf" where
  "mbuf_fill_cqe m c b =
     (let len = ntoh32 (cqe_byte_cnt c);
          b = mbuf_init b m (m_head_len b) (ucast RX_BUF_HEAD);
          b = b\<lparr>m_len := len\<rparr>;
          b = b\<lparr>m_txflags := mlx5_get_rss_result c\<rparr>
      in b\<lparr>m_release := RxCompletion\<rparr>)"

text \<open>
  The field \<open>head_len\<close> of the buffer is written before the pointer is compared
  with NULL.
\<close>

primrec refill_loop :: "abi \<Rightarrow> nat \<Rightarrow> net \<Rightarrow> (int \<times> net) res" where
  "refill_loop A 0 s = Inr (0, s)"
| "refill_loop A (Suc n) s =
     bindE (mempool_alloc (rx_buf_mempool s)) (\<lambda>(buf, p).
     let s = s\<lparr>rx_buf_mempool := p\<rparr> in
     bindE (guardE NullDeref (buf \<noteq> NULL)) (\<lambda>_.
     let s = s\<lparr>n_mbufs := (n_mbufs s)(buf := (n_mbufs s buf)\<lparr>m_head_len := ucast (item_len p)\<rparr>)\<rparr> in
     if buf = NULL then Inr (- ENOMEM, s)
     else
       let v = n_rxq s;
           index = wq_head v AND (rx_wqe_cnt v - 1);
           v = v\<lparr>wq_head := wq_head v + 1\<rparr>;
           seg = rx_wq_buf v + ucast (push_bit (unat (rx_wq_log_stride v)) index) in
       bindE (updE (r_buffers v) (unat index) buf) (\<lambda>bufs.
       refill_loop A n (s\<lparr>n_mem := st64 (n_mem s) (seg + data_addr A) (hton64 (buf + RX_BUF_HEAD)),
         n_rxq := v\<lparr>r_buffers := bufs\<rparr>\<rparr>))))"

definition mlx5_refill_rxqueue :: "abi \<Rightarrow> nat \<Rightarrow> net \<Rightarrow> (int \<times> net) res" where
  "mlx5_refill_rxqueue A nrdesc s = bindE (refill_loop A nrdesc s) (\<lambda>(ret, s).
     if ret \<noteq> 0 then Inr (ret, s)
     else Inr (0, s\<lparr>n_mem := st32 (n_mem s) (rx_wq_dbrec (n_rxq s)) (hton32 (wq_head (n_rxq s) AND 0xffff))\<rparr>))"

primrec gather_rx_loop :: "abi \<Rightarrow> nat \<Rightarrow> net \<Rightarrow> (ptr list \<times> net) res" where
  "gather_rx_loop A 0 s = Inr ([], s)"
| "gather_rx_loop A (Suc budget) s =
     (let v = n_rxq s in
      bindE (nthE (rx_cqes v) (unat (consumer_idx v AND (rx_cqe_cnt v - 1)))) (\<lambda>c.
      let opcode = cqe_status A c (rx_cqe_cnt v) (consumer_idx v) in
      if opcode = CQE_INVALID A then Inr ([], s)
      else
        bindE (guardE (Exit 1) (opcode = CQE_RESP_SEND A)) (\<lambda>_.
        let s = s\<lparr>total_dropped := total_dropped s + drop_bit 24 (ntoh32 (cqe_sop_drop_qpn c))\<rparr> in
        bindE (guardE Abort (mlx5_get_cqe_format c \<noteq> 3)) (\<lambda>_.
        let wqe_idx = ucast (ucast (ntoh16 (cqe_wqe_counter c)) AND (rx_wqe_cnt v - 1)) :: u16 in
        bindE (nthE (r_buffers v) (unat wqe_idx)) (\<lambda>m.
        bindE (guardE NullDeref (m \<noteq> NULL)) (\<lambda>_.
        let s = s\<lparr>n_mbufs := (n_mbufs s)(m := mbuf_fill_cqe m c (n_mbufs s m)),
              n_rxq := v\<lparr>consumer_idx := consumer_idx v + 1\<rparr>\<rparr> in
        bindE (gather_rx_loop A budget s) (\<lambda>(ms, s). Inr (m # ms, s))))))))"

definition mlx5_gather_rx :: "abi \<Rightarrow> nat \<Rightarrow> net \<Rightarrow> (ptr list \<times> net) res" where
  "mlx5_gather_rx A budget s = bindE (gather_rx_loop A budget s) (\<lambda>(ms, s).
     if ms = [] then Inr ([], s)
     else
       let s = s\<lparr>n_mem := st32 (n_mem s) (rx_cq_dbrec (n_rxq s)) (hton32 (consumer_idx (n_rxq s) AND 0xffffff))\<rparr> in
       bindE (mlx5_refill_rxqueue A (length ms) s) (\<lambda>(ret, s).
       bindE (guardE Abort (ret = 0)) (\<lambda>_. Inr (ms, s))))"

end
