(* ===== verification/TxRing.thy ===== *)
theory TxRing
  imports Mlx5
begin

text \<open>
  The transmit ring as its users see it: the transmissions in flight are a queue
  of mbufs with the number of ring entries each takes. Posting appends to the
  queue and collecting completions removes a prefix of it, provided the device
  completes transmissions in order and reports each with the index of its first
  entry; the ring then never holds more entries than it has, and no entry of a
  transmission in flight is overwritten.
\<close>

section \<open>Completion queue entries\<close>

lemma of_bool_eq_bit0:
  fixes x :: u8
  shows "x AND 1 = of_bool P \<longleftrightarrow> bit x 0 = P"
  by (simp only: and_one_eq mod_2_eq_odd bit_0 of_bool_eq_iff)

lemma parity_bit:
  fixes h :: u32
  assumes "k < 16"
  shows "(ucast (h AND 2 ^ k) :: u16) = 0 \<longleftrightarrow> \<not> bit h k"
proof -
  have "(ucast (h AND 2 ^ k) :: u16) = 0 \<longleftrightarrow> h AND 2 ^ k = 0"
  proof -
    have "h AND 2 ^ k = (if bit h k then 2 ^ k else 0)"
      by (rule bit_word_eqI) (auto simp: bit_simps)
    moreover have "(ucast (2 ^ k :: u32) :: u16) \<noteq> 0"
    proof -
      have "bit (ucast (2 ^ k :: u32) :: u16) k" using assms by (simp add: bit_simps)
      then show ?thesis by (metis bit_0_eq bot_apply bot_bool_def)
    qed
    moreover have "(2 ^ k :: u32) \<noteq> 0" using assms by simp
    ultimately show ?thesis by simp
  qed
  then show ?thesis by (simp add: and_exp_eq_0_iff_not_bit)
qed

lemma cqe_status_eq:
  assumes "documented_abi A" "k < 16"
  shows "cqe_status A c (2 ^ k) head =
    (if bit (cqe_op_own c) 0 = bit head k then mlx5_get_cqe_opcode c else CQE_INVALID A)"
proof -
  have op: "x OR y = x" if "x = 15" "y = drop_bit 4 (z AND 0xf0)" for x y z :: u8
  proof (rule bit_word_eqI)
    have m: "(0xf0 :: u8) = push_bit 4 (mask 4)" "(15 :: u8) = mask 4"
      by (simp_all add: mask_eq_exp_minus_1 push_bit_eq_mult)
    show "bit (x OR y) n \<longleftrightarrow> bit x n" for n
      unfolding that m by (auto simp: bit_simps)
  qed
  show ?thesis
    using assms by (auto simp: cqe_status_def Let_def documented_abi_def of_bool_eq_bit0 parity_bit
        mlx5_get_cqe_opcode_def op)
qed

section \<open>The queue of transmissions in flight\<close>

type_synonym flight = "(ptr \<times> nat) list"

definition entries :: "flight \<Rightarrow> nat" where
  "entries fl = sum_list (map snd fl)"

lemma entries_simps [simp]:
  "entries [] = 0" "entries ((m, n) # fl) = n + entries fl" "entries (fl @ fl') = entries fl + entries fl'"
  by (simp_all add: entries_def)

lemma entries_take_drop: "entries (take j fl) + entries (drop j fl) = entries fl"
  using entries_simps(3) [of "take j fl" "drop j fl"] by simp

definition slot :: "u32 \<Rightarrow> u32 \<Rightarrow> nat" where
  "slot cnt x = unat (x AND (cnt - 1))"

text \<open>The transmissions \<open>fl\<close> occupy the ring from \<open>start\<close> up to the head, in order.\<close>

primrec in_ring :: "txq \<Rightarrow> (ptr \<Rightarrow> mbuf) \<Rightarrow> u32 \<Rightarrow> flight \<Rightarrow> bool" where
  "in_ring v mb start [] \<longleftrightarrow> sq_head v = start"
| "in_ring v mb start (p # fl) \<longleftrightarrow> (case p of (m, n) \<Rightarrow> m \<noteq> NULL \<and> 0 < n
     \<and> t_buffers v ! slot (sq_wqe_cnt v) start = m \<and> ucast (m_num_wqes (mb m)) = (of_nat n :: u32)
     \<and> in_ring v mb (start + of_nat n) fl)"

definition tx_ok :: "txq \<Rightarrow> (ptr \<Rightarrow> mbuf) \<Rightarrow> flight \<Rightarrow> bool" where
  "tx_ok v mb fl \<longleftrightarrow> (\<exists>k<16. sq_wqe_cnt v = 2 ^ k \<and> length (t_buffers v) = 2 ^ k \<and> entries fl \<le> 2 ^ k)
     \<and> in_ring v mb (true_cq_head v) fl"

text \<open>
  What the device promises of the completion queue: valid entries for the
  completed transmissions, in order, each with the index of its first ring entry,
  and then an entry it still owns.
\<close>

primrec completed :: "abi \<Rightarrow> txq \<Rightarrow> u32 \<Rightarrow> u32 \<Rightarrow> flight \<Rightarrow> bool" where
  "completed A v cqh start [] \<longleftrightarrow> slot (tx_cqe_cnt v) cqh < length (tx_cqes v)
     \<and> cqe_status A (tx_cqes v ! slot (tx_cqe_cnt v) cqh) (tx_cqe_cnt v) cqh = CQE_INVALID A"
| "completed A v cqh start (p # fl) \<longleftrightarrow> (let c = tx_cqes v ! slot (tx_cqe_cnt v) cqh in
     slot (tx_cqe_cnt v) cqh < length (tx_cqes v)
     \<and> cqe_status A c (tx_cqe_cnt v) cqh = CQE_REQ A \<and> mlx5_get_cqe_format c \<noteq> 3
     \<and> ntoh16 (cqe_wqe_counter c) = ucast start \<and> completed A v (cqh + 1) (start + of_nat (snd p)) fl)"

lemma slot_mod: "k < 32 \<Longrightarrow> slot (2 ^ k) x = unat x mod 2 ^ k"
  by (simp add: slot_def and_mask_mod)

lemma slot_less: "k < 32 \<Longrightarrow> slot (2 ^ k) x < 2 ^ k"
  by (simp add: slot_mod)

lemma in_ring_cong:
  assumes "in_ring v mb start fl" "sq_head v' = sq_head v" "t_buffers v' = t_buffers v"
    and "sq_wqe_cnt v' = sq_wqe_cnt v" "\<And>m. m \<in> fst ` set fl \<Longrightarrow> m_num_wqes (mb' m) = m_num_wqes (mb m)"
  shows "in_ring v' mb' start fl"
  using assms by (induction fl arbitrary: start) auto

lemma completed_cong:
  assumes "completed A v cqh start fl" "tx_cqes v' = tx_cqes v" "tx_cqe_cnt v' = tx_cqe_cnt v"
  shows "completed A v' cqh start fl"
  using assms by (induction fl arbitrary: cqh start) (auto simp: Let_def)

lemma in_ring_head: "in_ring v mb start fl \<Longrightarrow> sq_head v = start + of_nat (entries fl)"
proof (induction fl arbitrary: start)
  case (Cons p fl)
  obtain m n where "p = (m, n)" by fastforce
  then show ?case using Cons.prems Cons.IH [of "start + of_nat n"] by (simp add: add.assoc)
qed simp

lemma in_ring_append:
  "in_ring v mb start (fl @ fl') \<Longrightarrow> in_ring v mb (start + of_nat (entries fl)) fl'"
proof (induction fl arbitrary: start)
  case (Cons p fl)
  obtain m n where "p = (m, n)" by fastforce
  then show ?case using Cons.prems Cons.IH [of "start + of_nat n"] by (simp add: add.assoc)
qed simp

lemma wqe_index:
  fixes start :: u32
  assumes "k < 16"
  shows "unat (ucast ((ucast (ucast start :: u16) :: u32) AND (2 ^ k - 1)) :: u16) = slot (2 ^ k) start"
proof -
  have m: "(2 ^ k - 1 :: u32) = mask k" by (simp add: mask_eq_exp_minus_1)
  have "(ucast (ucast start :: u16) :: u32) AND (2 ^ k - 1) = start AND (2 ^ k - 1)"
    unfolding m using assms by (intro bit_word_eqI) (auto simp: bit_simps)
  moreover have "unat (start AND (2 ^ k - 1)) < 2 ^ LENGTH(16)"
  proof -
    have "unat (start AND (2 ^ k - 1)) < 2 ^ k"
      using assms slot_less [of k start] by (simp add: slot_def)
    also have "(2::nat) ^ k \<le> 2 ^ LENGTH(16)" using assms by (intro power_increasing) simp_all
    finally show ?thesis .
  qed
  ultimately show ?thesis
    by (simp add: slot_def unsigned_ucast_eq take_bit_nat_eq_self)
qed

definition advance :: "flight \<Rightarrow> txq \<Rightarrow> txq" where
  "advance fl v = v\<lparr>cq_head := cq_head v + of_nat (length fl), true_cq_head := true_cq_head v + of_nat (entries fl)\<rparr>"

lemma gather_loop_eq:
  assumes "documented_abi A" "k < 16" "sq_wqe_cnt (n_txq s) = 2 ^ k" "length (t_buffers (n_txq s)) = 2 ^ k"
    and "in_ring (n_txq s) (n_mbufs s) (true_cq_head (n_txq s)) (fin @ rest)"
    and "completed A (n_txq s) (cq_head (n_txq s)) (true_cq_head (n_txq s)) fin"
  shows "gather_completions_loop A b s =
    Inr (map fst (take b fin), s\<lparr>n_txq := advance (take b fin) (n_txq s)\<rparr>)"
  using assms(3-)
proof (induction b arbitrary: s fin)
  case 0
  then show ?case by (simp add: advance_def)
next
  case (Suc b)
  let ?v = "n_txq s"
  show ?case
  proof (cases fin)
    case Nil
    then show ?thesis
      using Suc.prems(4) by (simp add: Let_def slot_def advance_def)
  next
    case (Cons p fin')
    obtain m n where p: "p = (m, n)" by fastforce
    let ?c = "tx_cqes ?v ! slot (tx_cqe_cnt ?v) (cq_head ?v)"
    let ?v' = "?v\<lparr>true_cq_head := true_cq_head ?v + of_nat n, cq_head := cq_head ?v + 1\<rparr>"
    have c: "slot (tx_cqe_cnt ?v) (cq_head ?v) < length (tx_cqes ?v)"
      "cqe_status A ?c (tx_cqe_cnt ?v) (cq_head ?v) = CQE_REQ A" "mlx5_get_cqe_format ?c \<noteq> 3"
      "ntoh16 (cqe_wqe_counter ?c) = ucast (true_cq_head ?v)"
      "completed A ?v (cq_head ?v + 1) (true_cq_head ?v + of_nat n) fin'"
      using Suc.prems(4) Cons p by (simp_all add: Let_def)
    have r: "m \<noteq> NULL" "t_buffers ?v ! slot (2 ^ k) (true_cq_head ?v) = m"
      "ucast (m_num_wqes (n_mbufs s m)) = (of_nat n :: u32)"
      "in_ring ?v (n_mbufs s) (true_cq_head ?v + of_nat n) (fin' @ rest)"
      using Suc.prems(1,3) Cons p by simp_all
    have "CQE_REQ A \<noteq> CQE_INVALID A" using assms(1) by (simp add: documented_abi_def)
    have idx: "unat (ucast (ucast (ntoh16 (cqe_wqe_counter ?c)) AND (sq_wqe_cnt ?v - 1)) :: u16)
        = slot (2 ^ k) (true_cq_head ?v)"
      unfolding c(4) Suc.prems(1) by (rule wqe_index [OF assms(2)])
    have ih: "gather_completions_loop A b (s\<lparr>n_txq := ?v'\<rparr>)
        = Inr (map fst (take b fin'), s\<lparr>n_txq := advance (take b fin') ?v'\<rparr>)"
    proof -
      have "in_ring ?v' (n_mbufs s) (true_cq_head ?v') (fin' @ rest)"
        using in_ring_cong [OF r(4), of ?v' "n_mbufs s"] by simp
      moreover have "completed A ?v' (cq_head ?v') (true_cq_head ?v') fin'"
        using completed_cong [OF c(5), of ?v'] by simp
      ultimately show ?thesis
        using Suc.IH [of "s\<lparr>n_txq := ?v'\<rparr>" fin'] Suc.prems(1,2) by simp
    qed
    have "slot (2 ^ k) (true_cq_head ?v) < length (t_buffers ?v)"
      using Suc.prems(2) slot_less [of k] assms(2) by simp
    then have "gather_completions_loop A (Suc b) s
        = bindE (gather_completions_loop A b (s\<lparr>n_txq := ?v'\<rparr>)) (\<lambda>(ms, s). Inr (m # ms, s))"
      using c(1-3) r(1-3) idx \<open>CQE_REQ A \<noteq> CQE_INVALID A\<close>
      by (simp add: Let_def slot_def)
    then show ?thesis using ih Cons p by (simp add: advance_def add.assoc)
  qed
qed

section \<open>Frames of the completion callbacks\<close>

text \<open>Freeing mbufs touches pools and reference counts only.\<close>

definition same_rings :: "net \<Rightarrow> net \<Rightarrow> bool" where
  "same_rings s s' \<longleftrightarrow> n_txq s' = n_txq s \<and> n_rxq s' = n_rxq s \<and> n_mbufs s' = n_mbufs s \<and> n_mem s' = n_mem s
     \<and> n_doorbells s' = n_doorbells s"

lemma same_rings_refl [simp]: "same_rings s s"
  by (simp add: same_rings_def)

lemma same_rings_trans: "same_rings s s' \<Longrightarrow> same_rings s' s'' \<Longrightarrow> same_rings s s''"
  by (simp add: same_rings_def)

lemma same_rings_upd [simp]:
  "same_rings s (s\<lparr>mbuf_mempool := p\<rparr>)" "same_rings s (s\<lparr>tx_buf_mempool := p\<rparr>)"
  "same_rings s (s\<lparr>rx_buf_mempool := p\<rparr>)" "same_rings s (s\<lparr>working_set_refcnts := r\<rparr>)"
  "same_rings s (s\<lparr>tx_buf_mempool := p, mbuf_mempool := q\<rparr>)"
  by (simp_all add: same_rings_def)

lemma server_change_refcnt_rings:
  assumes "server_change_refcnt i c s = Inr r"
  shows "same_rings s (snd r)"
proof -
  from assms obtain row old where
    "(if 0 < c then Inr (0 + (old + of_int c), s\<lparr>working_set_refcnts := (working_set_refcnts s)
        [unat (i div num_total_segments s) := row[unat (i mod num_total_segments s) := old + of_int c]]\<rparr>)
      else Inr (0 - (old - of_int (c * -1)), s\<lparr>working_set_refcnts := (working_set_refcnts s)
        [unat (i div num_total_segments s) := row[unat (i mod num_total_segments s) := old - of_int (c * -1)]]\<rparr>))
      = (Inr r :: (u16 \<times> net) res)"
    unfolding server_change_refcnt_def Let_def by (elim bindE_InrE)
  then show ?thesis by (cases "0 < c") auto
qed

lemma zero_copy_tx_completion_rings: "zero_copy_tx_completion fuel m s = Inr s' \<Longrightarrow> same_rings s s'"
proof (induction fuel arbitrary: m s)
  case (Suc fuel)
  show ?case
  proof (cases "m = NULL")
    case False
    from Suc.prems obtain s1 p where
      s1: "(if using_ref_counting s = 1
          then bindE (server_change_refcnt (m_release_data (n_mbufs s m)) (-1) s) (\<lambda>(refcnt, s). Inr s)
          else Inr s) = Inr s1"
      and rest: "zero_copy_tx_completion fuel (m_next (n_mbufs s m)) (s1\<lparr>mbuf_mempool := p\<rparr>) = Inr s'"
      using False by (simp only: zero_copy_tx_completion.simps if_True simp_thms Let_def) (elim bindE_InrE)
    have "same_rings s s1"
    proof (cases "using_ref_counting s = 1")
      case True
      then obtain r where "server_change_refcnt (m_release_data (n_mbufs s m)) (-1) s = Inr r" "s1 = snd r"
        using s1 by (auto elim!: bindE_InrE split: prod.splits)
      then show ?thesis using server_change_refcnt_rings by blast
    qed (use s1 in simp)
    then show ?thesis
      by (rule same_rings_trans [OF same_rings_trans [OF _ same_rings_upd(1)] Suc.IH [OF rest]])
  qed (use Suc.prems in simp)
qed (simp split: if_splits)

lemma tx_completion_rings: "tx_completion fuel m s = Inr s' \<Longrightarrow> same_rings s s'"
proof (induction fuel arbitrary: m s)
  case (Suc fuel)
  show ?case
  proof (cases "m = NULL")
    case False
    from Suc.prems obtain p q where
      rest: "tx_completion fuel (m_next (n_mbufs s m)) (s\<lparr>tx_buf_mempool := p\<rparr>\<lparr>mbuf_mempool := q\<rparr>) = Inr s'"
      using False by (simp only: tx_completion.simps if_True simp_thms Let_def) (elim bindE_InrE)
    show ?thesis
      by (rule same_rings_trans [OF same_rings_trans [OF same_rings_upd(2) same_rings_upd(1)] Suc.IH [OF rest]])
  qed (use Suc.prems in simp)
qed (simp split: if_splits)

lemma rx_completion_rings: "rx_completion m s = Inr s' \<Longrightarrow> same_rings s s'"
  by (auto simp: rx_completion_def elim!: bindE_InrE)

lemma free_mbuf_rings:
  assumes "free_mbuf m s = Inr s'"
  shows "same_rings s s'"
proof -
  from assms have "mbuf_free net_release (m_release (n_mbufs s m)) m s = Inr s'"
    unfolding free_mbuf_def by (elim bindE_InrE)
  then have "net_release (m_release (n_mbufs s m)) m s = Inr s'"
    by (simp add: mbuf_free_def split: if_splits)
  then show ?thesis
    by (cases "m_release (n_mbufs s m)")
      (simp_all add: net_release_def rx_completion_rings tx_completion_rings zero_copy_tx_completion_rings)
qed

lemma free_mbufs_rings: "foldE free_mbuf ms s = Inr s' \<Longrightarrow> same_rings s s'"
  by (erule foldE_invariant [where I = "same_rings s"]) (auto dest: free_mbuf_rings same_rings_trans)

lemma reap_completions_eq:
  assumes "documented_abi A" "tx_ok (n_txq s) (n_mbufs s) (fin @ rest)"
    and "completed A (n_txq s) (cq_head (n_txq s)) (true_cq_head (n_txq s)) fin"
    and "reap_completions A s = Inr s'"
  shows "n_txq s' = advance (take SQ_CLEAN_MAX fin) (n_txq s) \<and> n_mbufs s' = n_mbufs s
    \<and> n_rxq s' = n_rxq s \<and> n_doorbells s' = n_doorbells s"
proof -
  obtain k where k: "k < 16" "sq_wqe_cnt (n_txq s) = 2 ^ k" "length (t_buffers (n_txq s)) = 2 ^ k"
    and r: "in_ring (n_txq s) (n_mbufs s) (true_cq_head (n_txq s)) (fin @ rest)"
    using assms(2) by (auto simp: tx_ok_def)
  let ?s = "s\<lparr>n_txq := advance (take SQ_CLEAN_MAX fin) (n_txq s)\<rparr>"
  let ?h = "st32 (n_mem s) (tx_cq_dbrec (n_txq ?s)) (hton32 (cq_head (n_txq ?s) AND 0xffffff))"
  have "foldE free_mbuf (map fst (take SQ_CLEAN_MAX fin)) (?s\<lparr>n_mem := ?h\<rparr>) = Inr s'"
    using assms(4) by (simp add: reap_completions_def mlx5_gather_completions_def
        gather_loop_eq [OF assms(1) k r assms(3)])
  then have "same_rings (?s\<lparr>n_mem := ?h\<rparr>) s'" by (rule free_mbufs_rings)
  then show ?thesis by (simp add: same_rings_def)
qed

text \<open>Of the memory, only the index that tells the device how far its completions have been read changes.\<close>

lemma reap_completions_mem:
  assumes "documented_abi A" "tx_ok (n_txq s) (n_mbufs s) (fin @ rest)"
    and "completed A (n_txq s) (cq_head (n_txq s)) (true_cq_head (n_txq s)) fin"
    and "reap_completions A s = Inr s'"
  shows "\<exists>w. n_mem s' = st32 (n_mem s) (tx_cq_dbrec (n_txq s)) w"
proof -
  obtain k where k: "k < 16" "sq_wqe_cnt (n_txq s) = 2 ^ k" "length (t_buffers (n_txq s)) = 2 ^ k"
    and r: "in_ring (n_txq s) (n_mbufs s) (true_cq_head (n_txq s)) (fin @ rest)"
    using assms(2) by (auto simp: tx_ok_def)
  let ?s = "s\<lparr>n_txq := advance (take SQ_CLEAN_MAX fin) (n_txq s)\<rparr>"
  let ?h = "st32 (n_mem s) (tx_cq_dbrec (n_txq s)) (hton32 (cq_head (n_txq ?s) AND 0xffffff))"
  have "foldE free_mbuf (map fst (take SQ_CLEAN_MAX fin)) (?s\<lparr>n_mem := ?h\<rparr>) = Inr s'"
    using assms(4) by (simp add: reap_completions_def mlx5_gather_completions_def
        gather_loop_eq [OF assms(1) k r assms(3)] advance_def)
  then have "same_rings (?s\<lparr>n_mem := ?h\<rparr>) s'" by (rule free_mbufs_rings)
  then show ?thesis by (auto simp: same_rings_def)
qed

section \<open>Posting\<close>

lemma slot_add:
  fixes x :: u32
  assumes "k < 32"
  shows "slot (2 ^ k) (x + of_nat d) = (unat x + d) mod 2 ^ k"
proof -
  have "(2::nat) ^ k dvd 2 ^ LENGTH(32)" using assms by (intro le_imp_power_dvd) simp
  moreover have "unat (x + of_nat d) = (unat x + d) mod 2 ^ LENGTH(32)"
  proof -
    have "x + of_nat d = of_nat (unat x + d)" by simp
    then show ?thesis by (simp only: unat_of_nat)
  qed
  ultimately show ?thesis using assms by (simp add: slot_mod mod_mod_cancel)
qed

lemma slot_distinct:
  assumes "k < 32" "0 < d" "d < 2 ^ k"
  shows "slot (2 ^ k) (x + of_nat d) \<noteq> slot (2 ^ k) x"
proof
  assume "slot (2 ^ k) (x + of_nat d) = slot (2 ^ k) x"
  then have "(unat x + d) mod 2 ^ k = unat x mod 2 ^ k"
    using slot_add [OF assms(1), of x d] slot_add [OF assms(1), of x 0] by simp
  then have "2 ^ k dvd d" using mod_eq_dvd_iff_nat [of "unat x" "unat x + d" "2 ^ k"] by simp
  then show False using assms(2,3) by (auto dest: dvd_imp_le)
qed

lemma in_ring_post:
  assumes "in_ring v mb start fl" "k < 32" "sq_wqe_cnt v = 2 ^ k" "length (t_buffers v) = 2 ^ k"
    and "entries fl + n \<le> 2 ^ k" "0 < n" "m \<noteq> NULL" "m \<notin> fst ` set fl" "ucast (m_num_wqes b) = (of_nat n :: u32)"
  shows "in_ring (v\<lparr>t_buffers := (t_buffers v)[slot (2 ^ k) (sq_head v) := m], sq_head := sq_head v + of_nat n\<rparr>)
    (mb(m := b)) start (fl @ [(m, n)])"
  using assms(1,5,8)
proof (induction fl arbitrary: start)
  case Nil
  then show ?case using assms(2-4,6,7,9) slot_less [of k start] by simp
next
  case (Cons p fl)
  obtain m' n' where p: "p = (m', n')" by fastforce
  have "sq_head v = start + of_nat (entries (p # fl))" by (rule in_ring_head [OF Cons.prems(1)])
  moreover have "0 < entries (p # fl)" "entries (p # fl) < 2 ^ k"
    using Cons.prems(1,2) assms(6) p by auto
  ultimately have "slot (2 ^ k) (sq_head v) \<noteq> slot (2 ^ k) start"
    using slot_distinct [OF assms(2)] by metis
  then show ?case using Cons.IH [of "start + of_nat n'"] Cons.prems assms(3) p by auto
qed

lemma tx_ok_advance:
  assumes "tx_ok v mb (fin @ rest)"
  shows "tx_ok (advance (take j fin) v) mb (drop j fin @ rest)"
proof -
  have r: "in_ring v mb (true_cq_head v) (take j fin @ (drop j fin @ rest))"
    using assms by (simp add: tx_ok_def append_assoc [symmetric] del: append_assoc)
  have "in_ring (advance (take j fin) v) mb (true_cq_head v + of_nat (entries (take j fin))) (drop j fin @ rest)"
    by (rule in_ring_cong [OF in_ring_append [OF r]]) (simp_all add: advance_def)
  moreover have "entries (drop j fin @ rest) \<le> entries (fin @ rest)"
    using entries_take_drop [of j fin] by simp
  ultimately show ?thesis
    using assms by (auto simp: tx_ok_def advance_def intro: order_trans)
qed

lemma completed_advance:
  assumes "completed A v (cq_head v) (true_cq_head v) fin"
  shows "completed A (advance (take j fin) v) (cq_head (advance (take j fin) v))
    (true_cq_head (advance (take j fin) v)) (drop j fin)"
proof -
  have "completed A v (c + of_nat (length (take j fl))) (t + of_nat (entries (take j fl))) (drop j fl)"
    if "completed A v c t fl" for c t fl
    using that
  proof (induction j arbitrary: c t fl)
    case (Suc j)
    show ?case
    proof (cases fl)
      case (Cons p fl')
      then have "completed A v (c + 1) (t + of_nat (snd p)) fl'" using Suc.prems by (simp add: Let_def)
      from Suc.IH [OF this] show ?thesis using Cons by (cases p) (simp add: add.assoc)
    qed (use Suc.prems in simp)
  qed simp
  from completed_cong [OF this [OF assms]] show ?thesis by (simp add: advance_def)
qed

lemma tx_ok_inflight:
  assumes "tx_ok v mb fl"
  obtains k where "k < 16" "sq_wqe_cnt v = 2 ^ k" "length (t_buffers v) = 2 ^ k" "entries fl \<le> 2 ^ k"
    and "unat (nr_inflight_tx v) = entries fl" "unat (sq_wqe_cnt v - nr_inflight_tx v) = 2 ^ k - entries fl"
proof -
  obtain k where k: "k < 16" "sq_wqe_cnt v = 2 ^ k" "length (t_buffers v) = 2 ^ k" "entries fl \<le> 2 ^ k"
    using assms by (auto simp: tx_ok_def)
  have "(2::nat) ^ k < 2 ^ LENGTH(32)" using k(1) by (intro power_strict_increasing) simp_all
  then have le: "entries fl < 2 ^ LENGTH(32)" using k(4) by linarith
  have "nr_inflight_tx v = of_nat (entries fl)"
    using in_ring_head [of v mb "true_cq_head v" fl] assms by (simp add: tx_ok_def nr_inflight_tx_def)
  then have i: "unat (nr_inflight_tx v) = entries fl" using le by (simp only: unat_of_nat_less)
  have "unat (2 ^ k :: u32) = 2 ^ k" using k(1) by (simp add: unat_exp)
  then have "unat (sq_wqe_cnt v - nr_inflight_tx v) = 2 ^ k - entries fl"
    using i k(2,4) by (simp add: unat_sub_if')
  then show thesis using that k i by blast
qed

text \<open>The ring entries a transmission takes, as \<open>mlx5_fill_tx_segment\<close> computes them.\<close>

definition wqes_needed :: "abi \<Rightarrow> u32 \<Rightarrow> u64 \<Rightarrow> nat" where
  "wqes_needed A nb_segs inline_len = (unat (num_hdr_segs A inline_len) + unat (num_dpsegs A nb_segs) + 3) div 4"

lemma num_wqes_nat:
  fixes hdr dp :: u32
  assumes "unat hdr + unat dp + 3 \<le> INT_MAX"
  shows "unat ((hdr + dp + 3) div 4) = (unat hdr + unat dp + 3) div 4"
proof -
  have "hdr + dp + 3 = of_nat (unat hdr + unat dp + 3)" by simp
  moreover have "unat (of_nat (unat hdr + unat dp + 3) :: u32) = unat hdr + unat dp + 3"
    using assms by (intro unat_of_nat_less) simp
  ultimately show ?thesis by (simp add: unat_div_distrib)
qed

lemma num_hdr_segs_pos:
  assumes "documented_abi A" "inline_len \<le> 1024"
  shows "2 \<le> unat (num_hdr_segs A inline_len)"
proof (cases "0 < inline_len")
  case True
  let ?q = "((inline_len - 2) + 15) div 16"
  have "unat (inline_len - 2 + 15) \<le> 1037"
  proof -
    have "inline_len - 2 + 15 = of_nat (unat inline_len + 13)" by simp
    moreover have "unat inline_len + 13 \<le> 1037" using assms(2) by (simp add: word_le_nat_alt)
    moreover from this have "unat (of_nat (unat inline_len + 13) :: u64) = unat inline_len + 13"
      by (intro unat_of_nat_less) simp
    ultimately have "unat (inline_len - 2 + 15) = unat inline_len + 13" by (simp only:)
    then show ?thesis using \<open>unat inline_len + 13 \<le> 1037\<close> by linarith
  qed
  then have "unat ?q \<le> 64" by (simp add: unat_div_distrib)
  then have "unat (2 + ?q) = 2 + unat ?q" by (simp add: unat_word_ariths)
  moreover from this have "unat (ucast (2 + ?q) :: u32) = unat (2 + ?q)"
    using \<open>unat ?q \<le> 64\<close> by (intro unat_ucast_u64_less) simp
  ultimately show ?thesis
    using True assms(1) by (simp add: num_hdr_segs_def documented_abi_def)
qed (simp add: num_hdr_segs_def)

text \<open>The memory with the control segment, the Ethernet segment and the inlined headers written.\<close>

definition post_headers :: "abi \<Rightarrow> txq \<Rightarrow> u32 \<Rightarrow> ptr \<Rightarrow> u64 \<Rightarrow> mem \<Rightarrow> mem" where
  "post_headers A v ds rh il h =
     (let seg = get_segment v (POW2MOD (sq_head v) (sq_wqe_cnt v));
          h = fill_eth_seg A il (seg + sizeof_ctrl A) (fill_ctrl_seg A v ds seg h)
      in if 0 < il then fill_inline A v rh h else h)"

lemma fill_tx_cases:
  assumes "mlx5_fill_tx_segment A m rh il s = Inr (ret, s')"
  obtains s1 where "m \<noteq> NULL"
      "unat (num_hdr_segs A il) + unat (num_dpsegs A (m_nb_segs (n_mbufs s m))) + 3 \<le> INT_MAX"
      "reap_completions A s = Inr s1"
      "ret = ENOMEM" "s' = s1"
      "unat (sq_wqe_cnt (n_txq s1) - nr_inflight_tx (n_txq s1)) < wqes_needed A (m_nb_segs (n_mbufs s m)) il"
    | s1 h where "m \<noteq> NULL"
      "unat (num_hdr_segs A il) + unat (num_dpsegs A (m_nb_segs (n_mbufs s m))) + 3 \<le> INT_MAX"
      "reap_completions A s = Inr s1 \<or> s1 = s"
      "ret = 0" "wqes_needed A (m_nb_segs (n_mbufs s m)) il \<le> unat (sq_wqe_cnt (n_txq s1) - nr_inflight_tx (n_txq s1))"
      "slot (sq_wqe_cnt (n_txq s1)) (sq_head (n_txq s1)) < length (t_buffers (n_txq s1))"
      "s' = s1\<lparr>n_mem := h,
         n_mbufs := (n_mbufs s1)(m := (n_mbufs s1 m)\<lparr>m_num_wqes := of_nat (wqes_needed A (m_nb_segs (n_mbufs s m)) il)\<rparr>),
         n_txq := (n_txq s1)\<lparr>t_buffers := (t_buffers (n_txq s1))[slot (sq_wqe_cnt (n_txq s1)) (sq_head (n_txq s1)) := m],
           sq_head := sq_head (n_txq s1) + of_nat (wqes_needed A (m_nb_segs (n_mbufs s m)) il)\<rparr>\<rparr>"
      "fill_data_segs A (chain_fuel s1) (n_txq s1) (n_mbufs s') m
         (first_data_seg A (n_txq s1) il (get_segment (n_txq s1) (POW2MOD (sq_head (n_txq s1)) (sq_wqe_cnt (n_txq s1))) + sizeof_ctrl A))
         (post_headers A (n_txq s1) (num_hdr_segs A il + num_dpsegs A (m_nb_segs (n_mbufs s m))) rh il (n_mem s1)) = Inr h"
proof -
  let ?hdr = "num_hdr_segs A il" and ?dp = "num_dpsegs A (m_nb_segs (n_mbufs s m))"
  let ?n = "(?hdr + ?dp + 3) div 4"
  let ?body = "\<lambda>s. if sq_wqe_cnt (n_txq s) - nr_inflight_tx (n_txq s) < ?n then Inr (ENOMEM, s)
     else
       let v = n_txq s;
           current_idx = POW2MOD (sq_head v) (sq_wqe_cnt v);
           seg = get_segment v current_idx;
           h = fill_ctrl_seg A v (?hdr + ?dp) seg (n_mem s);
           eseg = seg + sizeof_ctrl A;
           h = fill_eth_seg A il eseg h;
           h = (if 0 < il then fill_inline A v rh h else h);
           mb = (n_mbufs s)(m := (n_mbufs s m)\<lparr>m_num_wqes := ucast ?n\<rparr>) in
       bindE (fill_data_segs A (chain_fuel s) v mb m (first_data_seg A v il eseg) h) (\<lambda>h.
       bindE (updE (t_buffers v) (unat current_idx) m) (\<lambda>bufs.
       Inr (0, s\<lparr>n_mem := h, n_mbufs := mb, n_txq := v\<lparr>t_buffers := bufs, sq_head := sq_head v + ?n\<rparr>\<rparr>)))"
  from assms obtain u u1 u2 s1 where
    u: "guardE NullDeref (m \<noteq> NULL) = Inr u" "guardE ImplDefined (unat ?hdr \<le> INT_MAX \<and> unat ?dp \<le> INT_MAX) = Inr u1"
      "guardE SignedOverflow (unat ?hdr + unat ?dp + 3 \<le> INT_MAX) = Inr u2"
    and r: "(if sq_wqe_cnt (n_txq s) - nr_inflight_tx (n_txq s) < ?n then reap_completions A s else Inr s) = Inr s1"
    and body: "?body s1 = Inr (ret, s')"
    unfolding mlx5_fill_tx_segment_def Let_def by (elim bindE_InrE)
  have m: "m \<noteq> NULL" and ov: "unat ?hdr + unat ?dp + 3 \<le> INT_MAX" using u unfolding guardE_eq_Inr by blast+
  have n: "unat ?n = wqes_needed A (m_nb_segs (n_mbufs s m)) il"
    unfolding wqes_needed_def by (rule num_wqes_nat [OF ov])
  have reap: "reap_completions A s = Inr s1 \<or> s1 = s" using r by (auto split: if_splits)
  show thesis
  proof (cases "sq_wqe_cnt (n_txq s1) - nr_inflight_tx (n_txq s1) < ?n")
    case True
    then have "ret = ENOMEM" "s' = s1" using body by simp_all
    moreover have "reap_completions A s = Inr s1" using r True by (auto split: if_splits)
    ultimately show thesis using that(1) m ov True n by (simp add: word_less_nat_alt)
  next
    case False
    let ?v = "n_txq s1"
    from body False obtain h bufs where
      data: "fill_data_segs A (chain_fuel s1) ?v ((n_mbufs s1)(m := (n_mbufs s1 m)\<lparr>m_num_wqes := ucast ?n\<rparr>)) m
         (first_data_seg A ?v il (get_segment ?v (POW2MOD (sq_head ?v) (sq_wqe_cnt ?v)) + sizeof_ctrl A))
         (post_headers A ?v (?hdr + ?dp) rh il (n_mem s1)) = Inr h"
      and bufs: "updE (t_buffers ?v) (unat (POW2MOD (sq_head ?v) (sq_wqe_cnt ?v))) m = Inr bufs"
      and res: "Inr (0, s1\<lparr>n_mem := h, n_mbufs := (n_mbufs s1)(m := (n_mbufs s1 m)\<lparr>m_num_wqes := ucast ?n\<rparr>),
          n_txq := ?v\<lparr>t_buffers := bufs, sq_head := sq_head ?v + ?n\<rparr>\<rparr>) = (Inr (ret, s') :: (int \<times> net) res)"
      by (simp only: if_False Let_def post_headers_def) (elim bindE_InrE)
    have nn: "?n = of_nat (wqes_needed A (m_nb_segs (n_mbufs s m)) il)"
      "(ucast ?n :: u64) = of_nat (wqes_needed A (m_nb_segs (n_mbufs s m)) il)"
      unfolding n [symmetric] by simp_all
    have b: "slot (sq_wqe_cnt ?v) (sq_head ?v) < length (t_buffers ?v)"
      "bufs = (t_buffers ?v)[slot (sq_wqe_cnt ?v) (sq_head ?v) := m]"
      using bufs by (simp_all add: updE_eq_Inr POW2MOD_def slot_def)
    have "ret = 0" using res by simp
    moreover have "s' = s1\<lparr>n_mem := h,
         n_mbufs := (n_mbufs s1)(m := (n_mbufs s1 m)\<lparr>m_num_wqes := of_nat (wqes_needed A (m_nb_segs (n_mbufs s m)) il)\<rparr>),
         n_txq := ?v\<lparr>t_buffers := (t_buffers ?v)[slot (sq_wqe_cnt ?v) (sq_head ?v) := m],
           sq_head := sq_head ?v + of_nat (wqes_needed A (m_nb_segs (n_mbufs s m)) il)\<rparr>\<rparr>"
      using res unfolding nn(2) b(2) unfolding nn(1) by simp
    moreover have "wqes_needed A (m_nb_segs (n_mbufs s m)) il \<le> unat (sq_wqe_cnt ?v - nr_inflight_tx ?v)"
      using False n by (simp add: word_less_nat_alt)
    moreover have "n_mbufs s' = (n_mbufs s1)(m := (n_mbufs s1 m)\<lparr>m_num_wqes := ucast ?n\<rparr>)" using res by auto
    ultimately show thesis using that(2) m ov reap b(1) data by metis
  qed
qed

text \<open>Posting on a ring with the transmissions \<open>fl\<close> in flight, without regard to completions.\<close>

lemma tx_ok_post:
  assumes "tx_ok v mb fl" "n \<le> unat (sq_wqe_cnt v - nr_inflight_tx v)" "0 < n" "m \<noteq> NULL" "m \<notin> fst ` set fl"
  shows "tx_ok (v\<lparr>t_buffers := (t_buffers v)[slot (sq_wqe_cnt v) (sq_head v) := m], sq_head := sq_head v + of_nat n\<rparr>)
    (mb(m := (mb m)\<lparr>m_num_wqes := of_nat n\<rparr>)) (fl @ [(m, n)])"
proof -
  from assms(1) obtain k where k: "k < 16" "sq_wqe_cnt v = 2 ^ k" "length (t_buffers v) = 2 ^ k" "entries fl \<le> 2 ^ k"
    "unat (sq_wqe_cnt v - nr_inflight_tx v) = 2 ^ k - entries fl" by (rule tx_ok_inflight)
  have le: "entries fl + n \<le> 2 ^ k" using k(4,5) assms(2) by linarith
  have "n < 2 ^ LENGTH(64)"
  proof -
    have "(2::nat) ^ k < 2 ^ LENGTH(64)" using k(1) by (intro power_strict_increasing) simp_all
    then show ?thesis using le by linarith
  qed
  then have "(ucast (of_nat n :: u64) :: u32) = of_nat n"
    by (simp add: unsigned_of_nat take_bit_nat_eq_self)
  then have num: "ucast (m_num_wqes ((mb m)\<lparr>m_num_wqes := of_nat n\<rparr>)) = (of_nat n :: u32)" by simp
  have r: "in_ring v mb (true_cq_head v) fl" using assms(1) by (simp add: tx_ok_def)
  show ?thesis
    using in_ring_post [OF r _ k(2,3) le assms(3,4,5) num] k le by (auto simp: tx_ok_def)
qed

lemma maybe_reaped:
  assumes "documented_abi A" "tx_ok (n_txq s) (n_mbufs s) (fin @ rest)"
    and "completed A (n_txq s) (cq_head (n_txq s)) (true_cq_head (n_txq s)) fin"
    and "reap_completions A s = Inr s1 \<or> s1 = s"
  shows "\<exists>j\<le>length fin. n_txq s1 = advance (take j fin) (n_txq s) \<and> n_mbufs s1 = n_mbufs s"
  using assms(4)
proof
  assume "reap_completions A s = Inr s1"
  then have "n_txq s1 = advance (take (min SQ_CLEAN_MAX (length fin)) fin) (n_txq s) \<and> n_mbufs s1 = n_mbufs s"
    using reap_completions_eq [OF assms(1-3)] by (simp add: min_def)
  then show ?thesis by (intro exI [of _ "min SQ_CLEAN_MAX (length fin)"]) simp
next
  assume "s1 = s"
  then have "n_txq s1 = advance (take 0 fin) (n_txq s) \<and> n_mbufs s1 = n_mbufs s"
    by (simp add: advance_def)
  then show ?thesis by blast
qed

lemma fill_tx_ring:
  assumes "documented_abi A" "il \<le> 1024" "tx_ok (n_txq s) (n_mbufs s) (fin @ rest)"
    and "completed A (n_txq s) (cq_head (n_txq s)) (true_cq_head (n_txq s)) fin"
    and "m \<notin> fst ` set (fin @ rest)" "mlx5_fill_tx_segment A m rh il s = Inr (ret, s')"
  shows "\<exists>j\<le>length fin. let fl = drop j fin @ rest; n = wqes_needed A (m_nb_segs (n_mbufs s m)) il in
    cq_head (n_txq s') = cq_head (n_txq s) + of_nat j
    \<and> completed A (n_txq s') (cq_head (n_txq s')) (true_cq_head (n_txq s')) (drop j fin)
    \<and> m \<noteq> NULL \<and> 0 < n
    \<and> (if ret = 0 then tx_ok (n_txq s') (n_mbufs s') (fl @ [(m, n)])
       else ret = ENOMEM \<and> n_mbufs s' = n_mbufs s \<and> tx_ok (n_txq s') (n_mbufs s') fl
         \<and> unat (sq_wqe_cnt (n_txq s')) < entries fl + n \<and> j = min SQ_CLEAN_MAX (length fin))"
proof -
  let ?n = "wqes_needed A (m_nb_segs (n_mbufs s m)) il"
  have pos: "0 < ?n" using num_hdr_segs_pos [OF assms(1,2)] by (simp add: wqes_needed_def)
  note reaped = maybe_reaped [OF assms(1,3,4)]
  from assms(6) show ?thesis
  proof (cases rule: fill_tx_cases)
    case (1 s1)
    define j where "j = min SQ_CLEAN_MAX (length fin)"
    have j: "j \<le> length fin" "n_txq s1 = advance (take j fin) (n_txq s)" "n_mbufs s1 = n_mbufs s"
      using reap_completions_eq [OF assms(1,3,4) 1(3)] by (simp_all add: j_def min_def)
    have ok: "tx_ok (n_txq s1) (n_mbufs s1) (drop j fin @ rest)"
      using tx_ok_advance [OF assms(3), of j] j by simp
    then obtain k where k: "k < 16" "sq_wqe_cnt (n_txq s1) = 2 ^ k" "entries (drop j fin @ rest) \<le> 2 ^ k"
      "unat (sq_wqe_cnt (n_txq s1) - nr_inflight_tx (n_txq s1)) = 2 ^ k - entries (drop j fin @ rest)"
      by (rule tx_ok_inflight)
    have "unat (sq_wqe_cnt (n_txq s1)) < entries (drop j fin @ rest) + ?n"
      using k 1(6) by (simp add: unat_exp)
    then show ?thesis
      using 1 j ok pos completed_advance [OF assms(4), of j]
      by (intro exI [of _ j]) (simp add: Let_def advance_def flip: j_def)
  next
    case (2 s1 h)
    obtain j where j: "j \<le> length fin" "n_txq s1 = advance (take j fin) (n_txq s)" "n_mbufs s1 = n_mbufs s"
      using reaped [OF 2(3)] by blast
    have ok: "tx_ok (n_txq s1) (n_mbufs s1) (drop j fin @ rest)"
      using tx_ok_advance [OF assms(3), of j] j by simp
    have "m \<notin> fst ` set (drop j fin @ rest)" using assms(5) by (auto dest: in_set_dropD)
    note post = tx_ok_post [OF ok 2(5) pos 2(1) this]
    have "completed A (n_txq s') (cq_head (n_txq s1)) (true_cq_head (n_txq s1)) (drop j fin)"
      using completed_cong [OF completed_advance [OF assms(4), of j], of "n_txq s'"] 2(7) j by simp
    then show ?thesis
      using 2 j post pos by (intro exI [of _ j]) (simp add: Let_def advance_def)
  qed
qed

lemma transmit_one_cases:
  assumes "mlx5_transmit_one A m rh il s = Inr (ret, s')"
    and "get_segment (n_txq s) (sq_head (n_txq s) AND (sq_wqe_cnt (n_txq s) - 1)) \<noteq> NULL"
  obtains "ret = 0" "mlx5_fill_tx_segment A m rh il s = Inr (ENOMEM, s')"
    | r s1 s2 where "ret = 1" "mlx5_fill_tx_segment A m rh il s = Inr (r, s1)" "r \<noteq> ENOMEM"
      "n_txq s2 = n_txq s1" "n_mbufs s2 = n_mbufs s1" "reap_completions A s2 = Inr s' \<or> s' = s2"
      "\<exists>w. n_mem s2 = st32 (n_mem s1) (sq_dbrec (n_txq s1) + 4 * SND_DBR A) w"
proof -
  let ?ctrl = "get_segment (n_txq s) (sq_head (n_txq s) AND (sq_wqe_cnt (n_txq s) - 1))"
  from assms(1) obtain post where
    post: "mlx5_post_transmission A m rh il s = Inr post"
    and rest: "(case post of (ctrl, s) \<Rightarrow> if ctrl = NULL then Inr (0, s)
      else bindE (if SQ_CLEAN_THRESH \<le> unat (nr_inflight_tx (n_txq (mlx5_ring_doorbell A ctrl s)))
        then reap_completions A (mlx5_ring_doorbell A ctrl s) else Inr (mlx5_ring_doorbell A ctrl s)) (\<lambda>s. Inr (1, s)))
      = (Inr (ret, s') :: (int \<times> net) res)"
    unfolding mlx5_transmit_one_def Let_def by (elim bindE_InrE)
  from post obtain r s1 where fill: "mlx5_fill_tx_segment A m rh il s = Inr (r, s1)"
    and p: "post = (if r = ENOMEM then (NULL, s1) else (?ctrl, s1))"
    unfolding mlx5_post_transmission_def Let_def by (elim bindE_InrE) (auto split: if_splits)
  show thesis
  proof (cases "r = ENOMEM")
    case True
    then show thesis using that(1) fill p rest by simp
  next
    case False
    let ?s2 = "mlx5_ring_doorbell A ?ctrl s1"
    have "bindE (if SQ_CLEAN_THRESH \<le> unat (nr_inflight_tx (n_txq ?s2))
        then reap_completions A ?s2 else Inr ?s2) (\<lambda>s. Inr (1, s)) = (Inr (ret, s') :: (int \<times> net) res)"
      using rest p False assms(2) by simp
    then obtain s3 where s3: "(if SQ_CLEAN_THRESH \<le> unat (nr_inflight_tx (n_txq ?s2))
        then reap_completions A ?s2 else Inr ?s2) = Inr s3" "(1, s3) = (ret, s')"
      by (elim bindE_InrE) simp
    have "n_txq ?s2 = n_txq s1" "n_mbufs ?s2 = n_mbufs s1"
      "\<exists>w. n_mem ?s2 = st32 (n_mem s1) (sq_dbrec (n_txq s1) + 4 * SND_DBR A) w"
      by (simp_all add: mlx5_ring_doorbell_def Let_def) blast
    moreover have "reap_completions A ?s2 = Inr s' \<or> s' = ?s2" using s3 by (auto split: if_splits)
    ultimately show thesis using that(2) fill False s3(2) by auto
  qed
qed

lemma transmit_one_ring:
  assumes "documented_abi A" "il \<le> 1024" "tx_ok (n_txq s) (n_mbufs s) (fin @ rest)"
    and "completed A (n_txq s) (cq_head (n_txq s)) (true_cq_head (n_txq s)) fin"
    and "m \<notin> fst ` set (fin @ rest)"
    and "get_segment (n_txq s) (sq_head (n_txq s) AND (sq_wqe_cnt (n_txq s) - 1)) \<noteq> NULL"
    and "mlx5_transmit_one A m rh il s = Inr (ret, s')"
  shows "\<exists>j\<le>length fin. let fl = drop j fin @ rest; n = wqes_needed A (m_nb_segs (n_mbufs s m)) il in
    cq_head (n_txq s') = cq_head (n_txq s) + of_nat j
    \<and> completed A (n_txq s') (cq_head (n_txq s')) (true_cq_head (n_txq s')) (drop j fin)
    \<and> (if ret = 1 then tx_ok (n_txq s') (n_mbufs s') (fl @ [(m, n)])
       else ret = 0 \<and> n_mbufs s' = n_mbufs s \<and> tx_ok (n_txq s') (n_mbufs s') fl
         \<and> unat (sq_wqe_cnt (n_txq s')) < entries fl + n \<and> j = min SQ_CLEAN_MAX (length fin))"
  using assms(7,6)
proof (cases rule: transmit_one_cases)
  case 1
  then show ?thesis using fill_tx_ring [OF assms(1-5) 1(2)] by (auto simp: Let_def)
next
  case (2 r s1 s2)
  let ?n = "wqes_needed A (m_nb_segs (n_mbufs s m)) il"
  obtain j where j: "j \<le> length fin" "cq_head (n_txq s1) = cq_head (n_txq s) + of_nat j"
    "completed A (n_txq s1) (cq_head (n_txq s1)) (true_cq_head (n_txq s1)) (drop j fin)"
    "tx_ok (n_txq s1) (n_mbufs s1) (drop j fin @ (rest @ [(m, ?n)]))"
    using fill_tx_ring [OF assms(1-5) 2(2)] 2(3) by (auto simp: Let_def split: if_splits)
  obtain i where i: "i \<le> length (drop j fin)" "n_txq s' = advance (take i (drop j fin)) (n_txq s2)"
    "n_mbufs s' = n_mbufs s2"
    using maybe_reaped [OF assms(1) _ _ 2(6), of "drop j fin" "rest @ [(m, ?n)]"] j 2(4,5) by auto
  have "tx_ok (n_txq s') (n_mbufs s') (drop i (drop j fin) @ (rest @ [(m, ?n)]))"
    using tx_ok_advance [OF j(4), of i] i 2(4,5) by simp
  moreover have "completed A (n_txq s') (cq_head (n_txq s')) (true_cq_head (n_txq s')) (drop i (drop j fin))"
    using completed_advance [OF j(3), of i] i(2) 2(4) by simp
  moreover have "cq_head (n_txq s') = cq_head (n_txq s) + of_nat (j + i)"
    using i j 2(4) by (simp add: advance_def)
  moreover have "j + i \<le> length fin" using i(1) j(1) by simp
  ultimately show ?thesis
    using 2(1) by (intro exI [of _ "j + i"]) (simp add: Let_def add.commute)
qed

end
