(* ===== verification/TxSystem.thy ===== *)
theory TxSystem
  imports TxRing
begin

text \<open>
  The transmit queue and the device as one system: the device completes the
  oldest transmission it has not completed yet, the program posts further ones and
  collects completions on the way. The step relation is over the network state and
  the transmissions in flight, and its invariant says that the ring behaves as a
  bounded queue whatever the interleaving.
\<close>

section \<open>The system\<close>

record tx_sys =
  sys_net :: net
  sys_done :: flight
  sys_pending :: flight

abbreviation in_flight :: "tx_sys \<Rightarrow> flight" where
  "in_flight c \<equiv> sys_done c @ sys_pending c"

text \<open>
  The device writes completion queue entries and nothing else of what is
  modelled here, and keeps its promise about their order. The packets that the program
  posts, given by the first mbuf and the inline length, are those \<open>P\<close> allows.
\<close>

inductive tx_step :: "abi \<Rightarrow> (net \<Rightarrow> ptr \<Rightarrow> u64 \<Rightarrow> bool) \<Rightarrow> tx_sys \<Rightarrow> tx_sys \<Rightarrow> bool"
  for A :: abi and P :: "net \<Rightarrow> ptr \<Rightarrow> u64 \<Rightarrow> bool" where
  device: "sys_pending c = p # rest
    \<Longrightarrow> s' = (sys_net c)\<lparr>n_txq := (n_txq (sys_net c))\<lparr>tx_cqes := cqes\<rparr>\<rparr>
    \<Longrightarrow> completed A (n_txq s') (cq_head (n_txq s')) (true_cq_head (n_txq s')) (sys_done c @ [p])
    \<Longrightarrow> tx_step A P c \<lparr>sys_net = s', sys_done = sys_done c @ [p], sys_pending = rest\<rparr>"
| transmit: "mlx5_transmit_one A m rh il (sys_net c) = Inr (ret, s')
    \<Longrightarrow> P (sys_net c) m il \<Longrightarrow> m \<notin> fst ` set (in_flight c)
    \<Longrightarrow> get_segment (n_txq (sys_net c)) (sq_head (n_txq (sys_net c)) AND (sq_wqe_cnt (n_txq (sys_net c)) - 1)) \<noteq> NULL
    \<Longrightarrow> j = unat (cq_head (n_txq s') - cq_head (n_txq (sys_net c)))
    \<Longrightarrow> tx_step A P c \<lparr>sys_net = s', sys_done = drop j (sys_done c),
          sys_pending = sys_pending c @ (if ret = 1 then [(m, wqes_needed A (m_nb_segs (n_mbufs (sys_net c) m)) il)] else [])\<rparr>"

definition tx_init :: "abi \<Rightarrow> tx_sys \<Rightarrow> bool" where
  "tx_init A c \<longleftrightarrow> in_flight c = [] \<and> tx_ok (n_txq (sys_net c)) (n_mbufs (sys_net c)) []
     \<and> completed A (n_txq (sys_net c)) (cq_head (n_txq (sys_net c))) (true_cq_head (n_txq (sys_net c))) []"

inductive tx_reach :: "abi \<Rightarrow> (net \<Rightarrow> ptr \<Rightarrow> u64 \<Rightarrow> bool) \<Rightarrow> tx_sys \<Rightarrow> bool"
  for A :: abi and P :: "net \<Rightarrow> ptr \<Rightarrow> u64 \<Rightarrow> bool" where
  init: "tx_init A c \<Longrightarrow> tx_reach A P c"
| step: "tx_reach A P c \<Longrightarrow> tx_step A P c c' \<Longrightarrow> tx_reach A P c'"

text \<open>Without a further condition on the packets: any chain, with at most 1024 bytes inlined.\<close>

abbreviation tx_reachable :: "abi \<Rightarrow> tx_sys \<Rightarrow> bool" where
  "tx_reachable A \<equiv> tx_reach A (\<lambda>_ _ il. il \<le> 1024)"

definition tx_inv :: "abi \<Rightarrow> tx_sys \<Rightarrow> bool" where
  "tx_inv A c \<longleftrightarrow> tx_ok (n_txq (sys_net c)) (n_mbufs (sys_net c)) (in_flight c)
     \<and> completed A (n_txq (sys_net c)) (cq_head (n_txq (sys_net c))) (true_cq_head (n_txq (sys_net c))) (sys_done c)"

lemma length_le_entries:
  assumes "in_ring v mb start fl"
  shows "length fl \<le> entries fl"
  using assms
proof (induction fl arbitrary: start)
  case (Cons p fl)
  obtain m n where "p = (m, n)" by fastforce
  then have "length fl \<le> entries fl" "0 < n" using Cons by auto
  then show ?case using \<open>p = (m, n)\<close> by simp
qed simp

lemma in_flight_small:
  assumes "tx_ok v mb fl"
  shows "length fl < 2 ^ LENGTH(32)"
proof -
  obtain k where k: "k < 16" "entries fl \<le> 2 ^ k" "in_ring v mb (true_cq_head v) fl"
    using assms by (auto simp: tx_ok_def)
  have "(2::nat) ^ k < 2 ^ LENGTH(32)" using k(1) by (intro power_strict_increasing) simp_all
  then show ?thesis using length_le_entries [OF k(3)] k(2) by linarith
qed

lemma tx_ok_cong:
  assumes "tx_ok v mb fl" "sq_head v' = sq_head v" "t_buffers v' = t_buffers v"
    and "sq_wqe_cnt v' = sq_wqe_cnt v" "true_cq_head v' = true_cq_head v"
  shows "tx_ok v' mb fl"
  using assms in_ring_cong [of v mb "true_cq_head v" fl v' mb] by (auto simp: tx_ok_def)

lemma tx_step_inv:
  assumes "documented_abi A" "tx_step A P c c'" "tx_inv A c" "\<And>s m il. P s m il \<Longrightarrow> il \<le> 1024"
  shows "tx_inv A c'"
  using assms(2)
proof (cases rule: tx_step.cases)
  case (device p rest s' cqes)
  then show ?thesis
    using assms(3) tx_ok_cong [of "n_txq (sys_net c)" _ "in_flight c" "n_txq s'"] by (simp add: tx_inv_def)
next
  case (transmit m rh il ret s' j)
  let ?n = "wqes_needed A (m_nb_segs (n_mbufs (sys_net c) m)) il"
  have inv: "tx_ok (n_txq (sys_net c)) (n_mbufs (sys_net c)) (in_flight c)"
    "completed A (n_txq (sys_net c)) (cq_head (n_txq (sys_net c))) (true_cq_head (n_txq (sys_net c))) (sys_done c)"
    using assms(3) by (simp_all add: tx_inv_def)
  obtain i where i: "i \<le> length (sys_done c)" and post: "cq_head (n_txq s') = cq_head (n_txq (sys_net c)) + of_nat i"
    "completed A (n_txq s') (cq_head (n_txq s')) (true_cq_head (n_txq s')) (drop i (sys_done c))"
    "if ret = 1 then tx_ok (n_txq s') (n_mbufs s') ((drop i (sys_done c) @ sys_pending c) @ [(m, ?n)])
     else ret = 0 \<and> n_mbufs s' = n_mbufs (sys_net c) \<and> tx_ok (n_txq s') (n_mbufs s') (drop i (sys_done c) @ sys_pending c)
       \<and> unat (sq_wqe_cnt (n_txq s')) < entries (drop i (sys_done c) @ sys_pending c) + ?n
       \<and> i = min SQ_CLEAN_MAX (length (sys_done c))"
    using transmit_one_ring [OF assms(1) assms(4) [OF transmit(3)] inv transmit(4,5,2)] unfolding Let_def by blast
  have "i < 2 ^ LENGTH(32)" using in_flight_small [OF inv(1)] i by simp
  then have "unat (of_nat i :: u32) = i" by (rule unat_of_nat_less)
  then have ji: "j = i" using transmit(6) post(1) by simp
  have "tx_ok (n_txq s') (n_mbufs s') (drop i (sys_done c) @ sys_pending c @ (if ret = 1 then [(m, ?n)] else []))"
  proof (cases "ret = 1")
    case False
    then have "tx_ok (n_txq s') (n_mbufs s') (drop i (sys_done c) @ sys_pending c)"
      using post(3) unfolding if_not_P [OF False] by blast
    then show ?thesis using False by simp
  qed (use post(3) in simp)
  then show ?thesis using post(2) unfolding tx_inv_def transmit(1) ji by simp
qed

lemma tx_reach_inv:
  assumes "documented_abi A" "tx_reach A P c" "\<And>s m il. P s m il \<Longrightarrow> il \<le> 1024"
  shows "tx_inv A c"
  using assms(2)
proof (induction rule: tx_reach.induct)
  case (init c)
  then show ?case by (auto simp: tx_init_def tx_inv_def)
qed (rule tx_step_inv [OF assms(1) _ _ assms(3)])

lemma tx_reachable_inv: "documented_abi A \<Longrightarrow> tx_reachable A c \<Longrightarrow> tx_inv A c"
  by (rule tx_reach_inv)

lemma in_ring_nth:
  assumes "in_ring v mb start fl" "i < length fl"
  shows "t_buffers v ! slot (sq_wqe_cnt v) (start + of_nat (entries (take i fl))) = fst (fl ! i)"
  using assms
proof (induction fl arbitrary: start i)
  case (Cons p fl)
  obtain m n where p: "p = (m, n)" by fastforce
  show ?case
  proof (cases i)
    case (Suc i')
    then show ?thesis using Cons.IH [of "start + of_nat n" i'] Cons.prems p by (simp add: add.assoc)
  qed (use Cons.prems p in simp)
qed simp

lemma slots_inj:
  assumes "k < 32" "e \<le> 2 ^ k"
  shows "inj_on (\<lambda>d. slot (2 ^ k) (x + of_nat d)) {..<e}"
proof (rule linorder_inj_onI')
  fix i j :: nat
  assume "i \<in> {..<e}" "j \<in> {..<e}" "i < j"
  then have "x + of_nat j = (x + of_nat i) + of_nat (j - i)" "0 < j - i" "j - i < 2 ^ k"
    using assms(2) by (simp_all add: add.assoc flip: of_nat_add)
  then show "slot (2 ^ k) (x + of_nat i) \<noteq> slot (2 ^ k) (x + of_nat j)"
    using slot_distinct [OF assms(1), of "j - i" "x + of_nat i"] by metis
qed

section \<open>An example\<close>

text \<open>A ring of four entries at address 4096, with every completion entry owned by the device.\<close>

definition example_txq :: "cqe list \<Rightarrow> txq" where
  "example_txq cqes = \<lparr>t_buffers = [0, 0, 0, 0], sq_buf = 4096, sq_wqe_cnt = 4, sq_stride = 64, sq_dbrec = 512,
     sq_bf_reg = 768, sq_qp_num = 7, sq_head = 0, tx_sq_log_stride = 6, tx_cqes = cqes, tx_cqe_cnt = 4,
     tx_cq_dbrec = 640, cq_head = 0, true_cq_head = 0\<rparr>"

definition example_rxq :: rxq where
  "example_rxq = \<lparr>r_buffers = [0, 0], rx_wq_buf = 8192, rx_wqe_cnt = 2, rx_stride = 16, rx_wq_dbrec = 1024, wq_head = 0,
     rx_wq_log_stride = 4, rx_cqes = [], rx_cqe_cnt = 0, rx_cq_dbrec = 1152, consumer_idx = 0\<rparr>"

definition example_cqe :: "u16 \<Rightarrow> u8 \<Rightarrow> cqe" where
  "example_cqe counter own = \<lparr>cqe_rss_hash = 0, cqe_hds_ip_ext = 0, cqe_l4_hdr_type_etc = 0, cqe_byte_cnt = 0,
     cqe_sop_drop_qpn = 0, cqe_wqe_counter = hton16 counter, cqe_op_own = own, cqe_syndrome = 0\<rparr>"

definition example_packet :: mbuf where
  "example_packet = \<lparr>m_next = 0, m_head = 12288, m_data = 12288, m_head_len = 2048, m_len = 64, m_nb_segs = 1,
     m_pkt_len = 64, m_txflags = 0, m_release_data = 0, m_release = TxCompletion, m_num_wqes = 0, m_lkey = 5\<rparr>"

definition example_net :: "cqe list \<Rightarrow> net" where
  "example_net cqes = \<lparr>n_mem = \<lambda>_. 0, n_mbufs = \<lambda>_. example_packet, rx_buf_mempool = zero_mempool,
     tx_buf_mempool = zero_mempool, mbuf_mempool = zero_mempool\<lparr>capacity := 4\<rparr>, working_set_refcnts = [[3, 5]],
     num_total_segments = 2, using_ref_counting = 0, total_dropped = 0, n_txq = example_txq cqes, n_rxq = example_rxq,
     n_doorbells = []\<rparr>"

lemma example_tx_init:
  "tx_init mlx5_abi \<lparr>sys_net = (example_net (replicate 4 (example_cqe 0 0xF1)))\<lparr>n_mbufs := mb\<rparr>, sys_done = [], sys_pending = []\<rparr>"
proof -
  have "tx_ok (example_txq cqes) mb []" for cqes mb
    unfolding tx_ok_def by (rule conjI, rule exI [of _ 2]) (simp_all add: example_txq_def)
  then show ?thesis
    using cqe_status_eq [OF mlx5_abi_documented, of 2 "example_cqe 0 0xF1" 0]
    by (simp add: tx_init_def example_net_def example_txq_def slot_def example_cqe_def mlx5_get_cqe_opcode_def mlx5_abi_def)
qed

lemmas gather_completions_numeral =
  gather_completions_loop.simps(2) [of _ "pred_numeral n" for n, folded numeral_eq_Suc]

lemmas fill_data_segs_numeral = fill_data_segs.simps(2) [of _ "pred_numeral n" for n, folded numeral_eq_Suc]

lemma example_transmit:
  "\<exists>s'. mlx5_transmit_one mlx5_abi 256 0 0 (example_net cqes) = Inr (1, s')
    \<and> n_txq s' = (n_txq (example_net cqes))\<lparr>t_buffers := [256, 0, 0, 0], sq_head := 1\<rparr>"
  by (simp add: mlx5_transmit_one_def mlx5_post_transmission_def mlx5_fill_tx_segment_def Let_def example_net_def
      example_txq_def mlx5_abi_def num_hdr_segs_def num_dpsegs_def example_packet_def nr_inflight_tx_def POW2MOD_def
      get_segment_def chain_fuel_def mlx5_ring_doorbell_def zero_mempool_def fill_data_segs_numeral)

lemma example_reachable:
  assumes "P (example_net (replicate 4 (example_cqe 0 0xF1))) 256 0"
  defines "c \<equiv> \<lparr>sys_net = example_net (replicate 4 (example_cqe 0 0xF1)), sys_done = [], sys_pending = []\<rparr>"
  shows "tx_reach mlx5_abi P c" "\<exists>s'. tx_step mlx5_abi P c \<lparr>sys_net = s', sys_done = [], sys_pending = [(256, 1)]\<rparr>
    \<and> n_txq s' = (example_txq (replicate 4 (example_cqe 0 0xF1)))\<lparr>t_buffers := [256, 0, 0, 0], sq_head := 1\<rparr>"
proof -
  let ?c = "\<lparr>sys_net = example_net (replicate 4 (example_cqe 0 0xF1)), sys_done = [], sys_pending = []\<rparr>"
  obtain s' where s': "mlx5_transmit_one mlx5_abi 256 0 0 (sys_net ?c) = Inr (1, s')" "n_txq s' = (n_txq (sys_net ?c))\<lparr>t_buffers := [256, 0, 0, 0], sq_head := 1\<rparr>"
    using example_transmit by auto
  have "wqes_needed mlx5_abi (m_nb_segs (n_mbufs (sys_net ?c) 256)) 0 = 1"
    by (simp add: wqes_needed_def num_hdr_segs_def num_dpsegs_def mlx5_abi_def example_net_def example_packet_def)
  moreover have "get_segment (n_txq (sys_net ?c)) (sq_head (n_txq (sys_net ?c)) AND (sq_wqe_cnt (n_txq (sys_net ?c)) - 1)) \<noteq> NULL"
    by (simp add: example_net_def example_txq_def get_segment_def)
  ultimately have "tx_step mlx5_abi P ?c \<lparr>sys_net = s', sys_done = [], sys_pending = [(256, 1)]\<rparr>"
    using tx_step.transmit [OF s'(1), of P] s'(2) assms(1) by (simp add: example_net_def example_txq_def)
  then show "\<exists>s'. tx_step mlx5_abi P c \<lparr>sys_net = s', sys_done = [], sys_pending = [(256, 1)]\<rparr>
      \<and> n_txq s' = (example_txq (replicate 4 (example_cqe 0 0xF1)))\<lparr>t_buffers := [256, 0, 0, 0], sq_head := 1\<rparr>"
    using s'(2) unfolding c_def by (auto simp: example_net_def)
  show "tx_reach mlx5_abi P c"
    using tx_reach.init [of mlx5_abi c P] example_tx_init [of "\<lambda>_. example_packet"] by (simp add: c_def example_net_def)
qed

section \<open>What the ring guarantees\<close>

text \<open>
  The entries in flight are those of the transmissions posted and not yet
  collected; there are never more of them than the ring has, no two of them share a
  slot, and the slot of each transmission still holds its mbuf.
\<close>

lemma tx_bookkeeping:
  assumes "tx_inv A c"
  shows "let v = n_txq (sys_net c); fl = in_flight c in
    unat (nr_inflight_tx v) = entries fl \<and> entries fl \<le> unat (sq_wqe_cnt v)
    \<and> inj_on (\<lambda>d. slot (sq_wqe_cnt v) (true_cq_head v + of_nat d)) {..<entries fl}
    \<and> (\<forall>i<length fl. t_buffers v ! slot (sq_wqe_cnt v) (true_cq_head v + of_nat (entries (take i fl))) = fst (fl ! i))"
proof -
  have ok: "tx_ok (n_txq (sys_net c)) (n_mbufs (sys_net c)) (in_flight c)"
    using assms by (simp add: tx_inv_def)
  then obtain k where k: "k < 16" "sq_wqe_cnt (n_txq (sys_net c)) = 2 ^ k" "entries (in_flight c) \<le> 2 ^ k"
    "unat (nr_inflight_tx (n_txq (sys_net c))) = entries (in_flight c)" by (rule tx_ok_inflight)
  have "in_ring (n_txq (sys_net c)) (n_mbufs (sys_net c)) (true_cq_head (n_txq (sys_net c))) (in_flight c)"
    using ok by (simp add: tx_ok_def)
  from in_ring_nth [OF this] slots_inj [of k "entries (in_flight c)"] k show ?thesis
    by (simp add: Let_def unat_exp)
qed

text \<open>
  C3. \<open>mlx5_transmit_one\<close> sends a packet unless the ring is full: when it returns
  0 it has already collected every completed transmission, up to 32 of them, nothing
  has been posted, and the entries still in flight leave fewer free than the packet needs.
\<close>

theorem transmit_refused_when_full:
  assumes "documented_abi A" "tx_reachable A c" "il \<le> 1024" "m \<notin> fst ` set (in_flight c)"
    and "get_segment (n_txq (sys_net c)) (sq_head (n_txq (sys_net c)) AND (sq_wqe_cnt (n_txq (sys_net c)) - 1)) \<noteq> NULL"
    and "mlx5_transmit_one A m rh il (sys_net c) = Inr (ret, s')" "ret \<noteq> 1"
  shows "ret = 0 \<and> (let fl = drop SQ_CLEAN_MAX (sys_done c) @ sys_pending c in
    tx_ok (n_txq s') (n_mbufs s') fl
    \<and> unat (sq_wqe_cnt (n_txq s')) < entries fl + wqes_needed A (m_nb_segs (n_mbufs (sys_net c) m)) il)"
proof -
  let ?fl = "\<lambda>j. drop j (sys_done c) @ sys_pending c"
  have inv: "tx_ok (n_txq (sys_net c)) (n_mbufs (sys_net c)) (in_flight c)"
    "completed A (n_txq (sys_net c)) (cq_head (n_txq (sys_net c))) (true_cq_head (n_txq (sys_net c))) (sys_done c)"
    using tx_reachable_inv [OF assms(1,2)] by (simp_all add: tx_inv_def)
  obtain j where "ret = 0" and j: "tx_ok (n_txq s') (n_mbufs s') (?fl j)"
    "unat (sq_wqe_cnt (n_txq s')) < entries (?fl j) + wqes_needed A (m_nb_segs (n_mbufs (sys_net c) m)) il"
    "j = min SQ_CLEAN_MAX (length (sys_done c))"
    using transmit_one_ring [OF assms(1,3) inv assms(4,5,6)] unfolding Let_def if_not_P [OF assms(7)] by blast
  moreover have "?fl j = ?fl SQ_CLEAN_MAX" using j(3) by (simp add: min_def)
  ultimately show ?thesis by (simp only: Let_def simp_thms)
qed

lemma transmit_refused_when_full_witness:
  "\<exists>s'. mlx5_transmit_one mlx5_abi 256 0 0 ((example_net (replicate 4 (example_cqe 0 0xF1)))
      \<lparr>n_mbufs := \<lambda>_. example_packet\<lparr>m_nb_segs := 20\<rparr>\<rparr>) = Inr (0, s')
    \<and> unat (sq_wqe_cnt (n_txq s')) < wqes_needed mlx5_abi 20 0"
proof -
  let ?mb = "\<lambda>_. example_packet\<lparr>m_nb_segs := 20\<rparr>"
  let ?s = "(example_net (replicate 4 (example_cqe 0 0xF1)))\<lparr>n_mbufs := ?mb\<rparr>"
  let ?c = "\<lparr>sys_net = ?s, sys_done = [], sys_pending = []\<rparr>"
  have "cqe_status mlx5_abi (example_cqe 0 0xF1) 4 0 = CQE_INVALID mlx5_abi"
    using cqe_status_eq [OF mlx5_abi_documented, of 2 "example_cqe 0 0xF1" 0]
    by (simp add: example_cqe_def)
  then have "\<exists>s'. mlx5_transmit_one mlx5_abi 256 0 0 ?s = Inr (0, s')"
    by (simp add: mlx5_transmit_one_def mlx5_post_transmission_def mlx5_fill_tx_segment_def Let_def example_net_def
        example_txq_def mlx5_abi_def num_hdr_segs_def num_dpsegs_def nr_inflight_tx_def POW2MOD_def
        reap_completions_def mlx5_gather_completions_def gather_completions_numeral)
  then obtain s' where s': "mlx5_transmit_one mlx5_abi 256 0 0 (sys_net ?c) = Inr (0, s')" by auto
  have "get_segment (n_txq (sys_net ?c)) (sq_head (n_txq (sys_net ?c)) AND (sq_wqe_cnt (n_txq (sys_net ?c)) - 1)) \<noteq> NULL"
    by (simp add: example_net_def example_txq_def get_segment_def)
  from transmit_refused_when_full [OF mlx5_abi_documented tx_reach.init [OF example_tx_init] _ _ this s']
  show ?thesis using s' by auto
qed

text \<open>
  C2. \<open>mlx5_gather_completions\<close> returns the mbufs of the completed transmissions in the order they were
  posted, at most \<open>budget\<close> of them, releases exactly their ring entries, and tells the device
  how far it has read.
\<close>

theorem completions_in_order:
  assumes "documented_abi A" "tx_reachable A c"
  shows "\<exists>s'. mlx5_gather_completions A budget (sys_net c) = Inr (map fst (take budget (sys_done c)), s')
    \<and> tx_ok (n_txq s') (n_mbufs s') (drop budget (sys_done c) @ sys_pending c)
    \<and> sq_head (n_txq s') = sq_head (n_txq (sys_net c))
    \<and> cq_head (n_txq s') = cq_head (n_txq (sys_net c)) + of_nat (min budget (length (sys_done c)))
    \<and> ld32 (n_mem s') (tx_cq_dbrec (n_txq s')) = hton32 (cq_head (n_txq s') AND 0xffffff)"
proof -
  have inv: "tx_ok (n_txq (sys_net c)) (n_mbufs (sys_net c)) (in_flight c)"
    "completed A (n_txq (sys_net c)) (cq_head (n_txq (sys_net c))) (true_cq_head (n_txq (sys_net c))) (sys_done c)"
    using tx_reachable_inv [OF assms] by (simp_all add: tx_inv_def)
  then obtain k where k: "k < 16" "sq_wqe_cnt (n_txq (sys_net c)) = 2 ^ k" "length (t_buffers (n_txq (sys_net c))) = 2 ^ k"
    and r: "in_ring (n_txq (sys_net c)) (n_mbufs (sys_net c)) (true_cq_head (n_txq (sys_net c))) (in_flight c)"
    by (auto simp: tx_ok_def)
  from gather_loop_eq [OF assms(1) k r inv(2)] show ?thesis
    using tx_ok_advance [OF inv(1), of budget]
    by (simp add: mlx5_gather_completions_def advance_def min.commute ld32_def field_access le32_of_le32)
qed

lemma completions_in_order_witness:
  "\<exists>s'. mlx5_gather_completions mlx5_abi 32 (example_net (replicate 4 (example_cqe 0 0xF1))) = Inr ([], s')"
  using completions_in_order [OF mlx5_abi_documented tx_reach.init [OF example_tx_init], where budget = 32]
  by (auto simp: example_net_def)

text \<open>
  A completion queue entry belongs to the device until its owner bit equals the
  parity of the round the reader is in; from then on its opcode is read.
\<close>

theorem cqe_status_owner:
  assumes "documented_abi A" "k < 16"
  shows "cqe_status A c (2 ^ k) head =
    (if odd (unat (cqe_op_own c)) = odd (unat head div 2 ^ k) then mlx5_get_cqe_opcode c else CQE_INVALID A)"
proof -
  have "bit (cqe_op_own c) 0 = odd (unat (cqe_op_own c))" "bit head k = odd (unat head div 2 ^ k)"
    using assms(2) by (simp_all add: bit_iff_odd_unat)
  then show ?thesis by (simp only: cqe_status_eq [OF assms])
qed

lemma cqe_status_owner_witness:
  "cqe_status mlx5_abi (example_cqe 0 0xF1) (2 ^ 2) 0 = 15 \<and> cqe_status mlx5_abi (example_cqe 0 0x21) (2 ^ 2) 4 = 2"
  using cqe_status_owner [OF mlx5_abi_documented, of 2 "example_cqe 0 0xF1" 0]
    cqe_status_owner [OF mlx5_abi_documented, of 2 "example_cqe 0 0x21" 4]
  by (simp add: example_cqe_def mlx5_abi_def mlx5_get_cqe_opcode_def)

end
