(* ===== verification/Inline.thy ===== *)
theory Inline
  imports TxSystem
begin

text \<open>
  The headers inlined into a transmission: where the five pieces of a
  \<open>RequestHeader\<close> are written when they fit before the end of the ring, and where
  when they do not.
\<close>

definition inline_start :: "abi \<Rightarrow> txq \<Rightarrow> ptr" where
  "inline_start A v = get_segment v (POW2MOD (sq_head v) (sq_wqe_cnt v)) + sizeof_ctrl A + eth_inline_hdr_start A"

definition ring_bytes :: "txq \<Rightarrow> nat" where
  "ring_bytes v = unat (sq_wqe_cnt v * sq_stride v)"

lemma unat_add_le:
  fixes a b :: u64
  assumes "unat a + unat b \<le> unat (c :: u64)"
  shows "unat (a + b) = unat a + unat b"
  using assms unat_bound [of c] by (simp add: unat_word_ariths)

text \<open>A piece that lies before the end of the ring is copied in one go.\<close>

lemma inline_data_fits:
  assumes "0 < n" "unat (inline_start A v) + unat off + unat n \<le> unat (sq_end v)"
  shows "mlx5_inline_data A v off d n m = memcpy m (inline_start A v + off) d (unat n)"
proof -
  have "0 < unat n" using assms(1) by (simp add: word_less_nat_alt)
  have at: "unat (inline_start A v + off) = unat (inline_start A v) + unat off"
    by (rule unat_add_le [where c = "sq_end v"]) (use assms(2) in linarith)
  then have "\<not> sq_end v \<le> inline_start A v + off"
    using assms(2) \<open>0 < unat n\<close> by (simp add: word_le_nat_alt)
  moreover have "\<not> sq_end v - (inline_start A v + off) < n"
  proof -
    have "unat (sq_end v - (inline_start A v + off)) = unat (sq_end v) - unat (inline_start A v + off)"
      using at assms(2) by (simp add: unat_sub_if')
    then show ?thesis using at assms(2) by (simp add: word_less_nat_alt)
  qed
  ultimately show ?thesis
    by (simp add: mlx5_inline_data_def Let_def flip: inline_start_def)
qed

text \<open>The pieces are appended one behind the other.\<close>

lemma memcpy_outside: "n \<le> unat (x - d) \<Longrightarrow> memcpy m d s n x = m x"
  by (simp add: memcpy_def store_bytes_outside)

lemma load_memcpy_disjoint: "disjoint_regions d n a k \<Longrightarrow> load_bytes (memcpy m d s n) a k = load_bytes m a k"
  by (simp add: memcpy_def load_store_disjoint)

lemma outside_part:
  fixes x d :: ptr
  assumes "N \<le> unat (x - d)" "unat k + n \<le> N"
  shows "n \<le> unat (x - (d + k))"
proof -
  have "x - (d + k) = (x - d) - k" by simp
  also have "unat \<dots> = unat (x - d) - unat k" using assms by (simp add: unat_sub_if')
  finally show ?thesis using assms by linarith
qed

lemma inline_outside:
  assumes "unat (inline_start A v) + 58 \<le> unat (sq_end v)" "58 \<le> unat (x - inline_start A v)"
  shows "fill_inline A v h m x = m x"
  using assms(1) outside_part [OF assms(2), of 0 14] outside_part [OF assms(2), of 14 20] outside_part [OF assms(2), of 34 8]
    outside_part [OF assms(2), of 42 8] outside_part [OF assms(2), of 50 8]
  unfolding fill_inline_def Let_def by (simp add: inline_data_fits memcpy_outside)

text \<open>
  When the request header fits between the inline start and the end of the ring, the device
  finds the packet's headers there as they go on the wire: Ethernet, IPv4 and UDP without
  the padding of the structure, then the id and the checksum, 58 bytes; nothing else of the memory changes.
\<close>

lemma inline_contiguous:
  assumes "unat (inline_start A v) + 58 \<le> unat (sq_end v)" "disjoint_regions (inline_start A v) 58 h 64"
  shows "load_bytes (fill_inline A v h m) (inline_start A v) 58 = request_wire m h
    \<and> (58 \<le> unat (x - inline_start A v) \<longrightarrow> fill_inline A v h m x = m x)"
proof -
  let ?I = "inline_start A v"
  define m1 where "m1 = memcpy m ?I (out_eth h) 14"
  define m2 where "m2 = memcpy m1 (?I + 14) (out_ipv4 h) 20"
  define m3 where "m3 = memcpy m2 (?I + 34) (out_udp h) 8"
  define m4 where "m4 = memcpy m3 (?I + 42) (req_packet_id h) 8"
  define m5 where "m5 = memcpy m4 (?I + 50) (req_checksum h) 8"
  note fits = inline_data_fits [of _ A v]
  have f: "fill_inline A v h m = m5"
    using assms(1) unfolding fill_inline_def Let_def m5_def m4_def m3_def m2_def m1_def
    by (simp add: inline_data_fits)
  note d = disjoint_parts [OF assms(2)]
  have src: "load_bytes m1 (h + 16) 20 = load_bytes m (h + 16) 20" "load_bytes m2 (h + 36) 8 = load_bytes m (h + 36) 8"
    "load_bytes m3 (h + 44) 8 = load_bytes m (h + 44) 8" "load_bytes m4 (h + 56) 8 = load_bytes m (h + 56) 8"
    unfolding m4_def m3_def m2_def m1_def by (simp_all add: load_memcpy_disjoint d)
  have "load_bytes m1 ?I 14 = load_bytes m h 14"
    using load_after_append [of 0 14 m ?I h] by (simp add: m1_def)
  moreover have "load_bytes m2 ?I 34 = load_bytes m1 ?I 14 @ load_bytes m1 (h + 16) 20"
    using load_after_append [of 14 20 m1 ?I "h + 16"] by (simp add: m2_def)
  moreover have "load_bytes m3 ?I 42 = load_bytes m2 ?I 34 @ load_bytes m2 (h + 36) 8"
    using load_after_append [of 34 8 m2 ?I "h + 36"] by (simp add: m3_def)
  moreover have "load_bytes m4 ?I 50 = load_bytes m3 ?I 42 @ load_bytes m3 (h + 44) 8"
    using load_after_append [of 42 8 m3 ?I "h + 44"] by (simp add: m4_def)
  moreover have "load_bytes m5 ?I 58 = load_bytes m4 ?I 50 @ load_bytes m4 (h + 56) 8"
    using load_after_append [of 50 8 m4 ?I "h + 56"] by (simp add: m5_def)
  ultimately have "load_bytes m5 ?I 58 = request_wire m h"
    by (simp add: src request_wire_def)
  then show ?thesis using inline_outside [OF assms(1), of x h m] by (simp add: f)
qed

lemma inline_contiguous_witness:
  "load_bytes (fill_inline mlx5_abi (example_txq []) 0x9000 (\<lambda>a. ucast a)) 4126 58 = request_wire (\<lambda>a. ucast a) 0x9000"
  using inline_contiguous [of mlx5_abi "example_txq []" "0x9000" "\<lambda>a. ucast a" 0]
  by (simp add: inline_start_def mlx5_abi_def example_txq_def get_segment_def POW2MOD_def sq_end_def disjoint_regions_def)

lemma disjoint_at:
  fixes s :: ptr
  assumes "n \<le> d" "d + k \<le> 2 ^ 64" "0 < d" "0 < k"
  shows "disjoint_regions s n (s + of_nat d) k"
proof -
  have d: "unat (of_nat d :: u64) = d" by (rule unat_of_nat_less) (use assms in simp)
  then have "s + of_nat d \<noteq> s" using assms(3) by auto
  then show ?thesis using unat_diff_swap [of "s + of_nat d" s] d assms by (simp add: disjoint_regions_def)
qed

text \<open>A piece that would start at or behind the end of the ring.\<close>

lemma inline_data_behind:
  assumes "sq_end v \<le> inline_start A v + off" "sq_buf v + (n - (sq_end v - inline_start A v)) = u" "n \<le> sq_end v - u"
  shows "mlx5_inline_data A v off d n m = memcpy m u d (unat n)"
  unfolding mlx5_inline_data_def Let_def inline_start_def [symmetric] if_P [OF assms(1)] assms(2) if_not_P [OF leD [OF assms(3)]]
  by (rule refl)

lemma ucast_of_nat:
  fixes x :: u32
  shows "unat x = n \<Longrightarrow> (ucast x :: u64) = of_nat n"
  using of_nat_unat by metis

lemma last_entry_distance:
  assumes "documented_abi A" "k < 16" "sq_wqe_cnt v = 2 ^ k" "sq_stride v = 64" "tx_sq_log_stride v = 6"
    and "POW2MOD (sq_head v) (sq_wqe_cnt v) = 2 ^ k - 1"
  shows "sq_end v - inline_start A v = 34" "sq_end v = sq_buf v + of_nat (64 * 2 ^ k)"
proof -
  have "(2 ^ k :: u32) * 64 = of_nat (64 * 2 ^ k)" by (simp add: mult.commute)
  moreover have kn: "(2::nat) ^ k \<le> 2 ^ 15" using assms(2) by (intro power_increasing) simp_all
  then have "64 * 2 ^ k < (2::nat) ^ LENGTH(32)" by simp
  ultimately have u: "unat ((2 ^ k :: u32) * 64) = 64 * 2 ^ k" by (simp only: unat_of_nat_less)
  have c: "(ucast ((2 ^ k :: u32) * 64) :: u64) = of_nat (64 * 2 ^ k)"
    by (rule ucast_of_nat [OF u])
  show e: "sq_end v = sq_buf v + of_nat (64 * 2 ^ k)" by (simp add: sq_end_def assms(3,4) c)
  have "push_bit 6 ((2 ^ k - 1) :: u32) = of_nat (64 * 2 ^ k - 64)"
    by (simp add: push_bit_eq_mult of_nat_diff algebra_simps)
  moreover have "64 * 2 ^ k - 64 < (2::nat) ^ LENGTH(32)" using kn by simp
  ultimately have u: "unat (push_bit 6 ((2 ^ k - 1) :: u32)) = 64 * 2 ^ k - 64" by (simp only: unat_of_nat_less)
  have "(ucast (push_bit 6 ((2 ^ k - 1) :: u32)) :: u64) = of_nat (64 * 2 ^ k - 64)"
    by (rule ucast_of_nat [OF u])
  then have "inline_start A v = sq_buf v + of_nat (64 * 2 ^ k - 64) + 30"
    using assms(1,5,6) by (simp add: inline_start_def get_segment_def documented_abi_def)
  then show "sq_end v - inline_start A v = 34" by (simp add: e of_nat_diff)
qed

text \<open>On the last entry, the pieces behind the first 34 bytes all get the same address in front of the ring.\<close>

lemma inline_data_last:
  assumes "documented_abi A" "k < 16" "sq_wqe_cnt v = 2 ^ k" "sq_stride v = 64" "tx_sq_log_stride v = 6"
    and "POW2MOD (sq_head v) (sq_wqe_cnt v) = 2 ^ k - 1" "unat (sq_buf v) + 64 * 2 ^ k + 16 < 2 ^ 64" "34 \<le> off" "off \<le> 50"
  shows "mlx5_inline_data A v off d 8 m = memcpy m (sq_buf v - 26) d 8"
    and "unat (inline_start A v) = unat (sq_buf v) + (64 * 2 ^ k - 34)" "unat (sq_end v) = unat (sq_buf v) + 64 * 2 ^ k"
proof -
  let ?S = "sq_buf v" and ?I = "inline_start A v" and ?L = "64 * 2 ^ k :: nat"
  have E: "sq_end v - ?I = 34" "sq_end v = ?S + of_nat ?L" using last_entry_distance [OF assms(1-6)] by simp_all
  have "(1::nat) \<le> 2 ^ k" "(2::nat) ^ k \<le> 2 ^ 15" using assms(2) by (simp, intro power_increasing) simp_all
  then have L: "64 \<le> ?L" "?L \<le> 2097152" by simp_all
  have uL: "unat (of_nat ?L :: u64) = ?L" by (rule unat_of_nat_less) (use L in simp)
  show uE: "unat (sq_end v) = unat ?S + ?L" using E uL assms(7) by (simp add: unat_word_ariths)
  have "34 \<le> ?L" using L(1) by linarith
  then have "(of_nat (?L - 34) :: u64) = of_nat ?L - of_nat 34" by (rule of_nat_diff)
  then have d: "(of_nat (?L - 34) :: u64) = of_nat ?L - 34" by (simp only: of_nat_numeral)
  have "?I = sq_end v - 34" using E(1) by (simp add: algebra_simps)
  then have I: "?I = ?S + of_nat (?L - 34)" by (simp only: E(2) d add_diff_eq)
  have uI: "unat (of_nat (?L - 34) :: u64) = ?L - 34" by (rule unat_of_nat_less) (use L in simp)
  show at: "unat ?I = unat ?S + (?L - 34)" using I uI assms(7) L by (simp add: unat_word_ariths)
  have at': "unat (?I + off) = unat ?I + unat off"
    using at assms(7-) L by (simp add: unat_word_ariths word_le_nat_alt)
  have buf: "?S + (8 - (sq_end v - ?I)) = ?S - 26" by (simp only: E(1)) simp
  have "sq_end v - (?S - 26) = of_nat (?L + 26)" by (simp add: E(2))
  moreover have "unat (of_nat (?L + 26) :: u64) = ?L + 26" by (rule unat_of_nat_less) (use L in simp)
  ultimately have "unat (sq_end v - (?S - 26)) = ?L + 26" by (simp only:)
  then show "mlx5_inline_data A v off d 8 m = memcpy m (?S - 26) d 8"
    using buf at' inline_data_behind [of v A off 8 "?S - 26" d m] assms(8,9) at uE L by (simp add: word_le_nat_alt)
qed

text \<open>
  C12. When the transmission starts on the last entry of the ring, the Ethernet and IPv4 headers
  fill it to its end. The UDP header, the packet id and the checksum should follow at
  the start of the ring, but the address computed for each of them lies 26 bytes in front of it: the three
  pieces are written on top of each other outside the ring, whose start keeps the bytes it had.
\<close>

theorem inline_last_entry_underruns:
  fixes v :: txq and A :: abi and k :: nat
  defines "L \<equiv> 64 * 2 ^ k :: nat"
  assumes "documented_abi A" "k < 16" "sq_wqe_cnt v = 2 ^ k" "sq_stride v = 64" "tx_sq_log_stride v = 6"
    and "POW2MOD (sq_head v) (sq_wqe_cnt v) = 2 ^ k - 1"
    and "unat (sq_buf v) + L + 16 < 2 ^ 64" "disjoint_regions (sq_buf v - 26) (26 + L) h 64"
  shows "load_bytes (fill_inline A v h m) (sq_buf v - 26) 8 = load_bytes m (req_checksum h) 8
    \<and> load_bytes (fill_inline A v h m) (sq_buf v) (L - 34) = load_bytes m (sq_buf v) (L - 34)
    \<and> load_bytes (fill_inline A v h m) (inline_start A v) 34 = load_bytes m (out_eth h) 14 @ load_bytes m (out_ipv4 h) 20"
proof -
  let ?S = "sq_buf v" and ?I = "inline_start A v"
  have E: "sq_end v - ?I = 34" "sq_end v = ?S + of_nat L"
    using last_entry_distance [OF assms(2-7)] by (simp_all add: L_def)
  have "(1::nat) \<le> 2 ^ k" "(2::nat) ^ k \<le> 2 ^ 15" using assms(3) by (simp, intro power_increasing) simp_all
  then have L: "64 \<le> L" "L \<le> 2097152" by (simp_all add: L_def)
  have I: "?I = ?S + of_nat (L - 34)" using E L by (simp add: of_nat_diff algebra_simps)
  note last = inline_data_last [OF assms(2-7) assms(8) [unfolded L_def]]
  have at: "unat ?I = unat ?S + (L - 34)" and uE: "unat (sq_end v) = unat ?S + L"
    using last(2,3) [of 34] by (simp_all add: L_def)
  define m1 where "m1 = memcpy m ?I (out_eth h) 14"
  define m2 where "m2 = memcpy m1 (?I + 14) (out_ipv4 h) 20"
  define m3 where "m3 = memcpy m2 (?S - 26) (out_udp h) 8"
  define m4 where "m4 = memcpy m3 (?S - 26) (req_packet_id h) 8"
  define m5 where "m5 = memcpy m4 (?S - 26) (req_checksum h) 8"
  have f: "fill_inline A v h m = m5"
    using at uE L unfolding fill_inline_def Let_def m5_def m4_def m3_def m2_def m1_def
    by (simp add: inline_data_fits last(1))
  have eq: "?S - 26 + 26 = ?S" "?S - 26 + of_nat (L - 8) = ?I" "?S - 26 + of_nat (L + 6) = ?I + 14"
    using I L by (simp_all add: of_nat_diff)
  have I14: "?I + 14 = ?S + of_nat (L - 20)" using I L by (simp add: of_nat_diff)
  have u: "unat (of_nat (L - 8) :: u64) = L - 8" "unat (of_nat (L + 6) :: u64) = L + 6"
    by (rule unat_of_nat_less; use L in simp)+
  note d = disjoint_parts [OF assms(9)]
  have src: "disjoint_regions (?S - 26) 8 (h + 44) 8" "disjoint_regions (?S - 26) 8 (h + 36) 8" "disjoint_regions (?S - 26) 8 (h + 56) 8"
    "disjoint_regions ?I 14 (h + 16) 20" "disjoint_regions ?I 14 (h + 56) 8" "disjoint_regions (?I + 14) 20 (h + 56) 8"
    using d(2) [of 8 44 8] d(2) [of 8 36 8] d(2) [of 8 56 8] d(1) [of "of_nat (L - 8)" 14 16 20, unfolded eq u]
      d(1) [of "of_nat (L - 8)" 14 56 8, unfolded eq u] d(1) [of "of_nat (L + 6)" 20 56 8, unfolded eq u] L by simp_all
  have S: "disjoint_regions (?S - 26) 8 ?S (L - 34)" "disjoint_regions ?I 14 ?S (L - 34)" "disjoint_regions (?I + 14) 20 ?S (L - 34)"
    "disjoint_regions (?S - 26) 8 ?I 34"
    using disjoint_at [of "L - 34" "L - 34" 14 ?S, folded I] disjoint_at [of "L - 34" "L - 20" 20 ?S, folded I14]
      disjoint_at [of 8 "L - 8" 34 "?S - 26", unfolded eq] disjoint_at [of 8 26 "L - 34" "?S - 26"] L
    by (simp_all add: disjoint_regions_sym [of _ _ ?S])
  have "load_bytes m5 (?S - 26) 8 = load_bytes m (h + 56) 8"
    unfolding m5_def m4_def m3_def m2_def m1_def
    by (simp add: memcpy_def [of _ _ "h + 56"] load_store_same load_memcpy_disjoint src)
  moreover have "load_bytes m5 ?S (L - 34) = load_bytes m ?S (L - 34)"
    unfolding m5_def m4_def m3_def m2_def m1_def by (simp add: load_memcpy_disjoint S)
  moreover have "load_bytes m5 ?I 34 = load_bytes m2 ?I 34"
    unfolding m5_def m4_def m3_def by (simp add: load_memcpy_disjoint S)
  moreover have "load_bytes m2 ?I 34 = load_bytes m h 14 @ load_bytes m (h + 16) 20"
    using load_after_append [of 14 20 m1 ?I "h + 16"] load_after_append [of 0 14 m ?I h]
    by (simp add: m2_def m1_def load_memcpy_disjoint src)
  ultimately show ?thesis by (simp add: f)
qed

lemma inline_last_entry_underruns_witness:
  "load_bytes (fill_inline mlx5_abi (example_txq [] \<lparr>sq_head := 3\<rparr>) 0x9000 (\<lambda>a. ucast a)) 4070 8
    = load_bytes (\<lambda>a. ucast a) 0x9038 8"
  using inline_last_entry_underruns [OF mlx5_abi_documented, of 2 "example_txq [] \<lparr>sq_head := 3\<rparr>" "0x9000" "\<lambda>a. ucast a"]
  by (simp add: example_txq_def POW2MOD_def disjoint_regions_def)

end
