(* ===== verification/RxRing.thy ===== *)
theory RxRing
  imports TxSystem
begin

text \<open>
  The receive ring as its users see it: a queue of posted buffers. Receiving takes
  the oldest buffers out and posts as many fresh ones from the pool, so that the
  device always has the same number of buffers to fill.
\<close>

section \<open>Posted buffers\<close>

definition posted :: "rxq \<Rightarrow> ptr list \<Rightarrow> bool" where
  "posted v fl \<longleftrightarrow> (\<exists>k<16. rx_wqe_cnt v = 2 ^ k \<and> length (r_buffers v) = 2 ^ k \<and> length fl \<le> 2 ^ k)
     \<and> wq_head v = consumer_idx v + of_nat (length fl) \<and> NULL \<notin> set fl
     \<and> (\<forall>i<length fl. r_buffers v ! slot (rx_wqe_cnt v) (consumer_idx v + of_nat i) = fl ! i)"

text \<open>
  The completions the device has written and the program has not read: the entry
  of each carries the index of the buffer it filled, in order, and behind the last the
  device still owns the entry.
\<close>

primrec received :: "abi \<Rightarrow> rxq \<Rightarrow> u32 \<Rightarrow> cqe list \<Rightarrow> bool" where
  "received A v ci [] \<longleftrightarrow> slot (rx_cqe_cnt v) ci < length (rx_cqes v)
     \<and> cqe_status A (rx_cqes v ! slot (rx_cqe_cnt v) ci) (rx_cqe_cnt v) ci = CQE_INVALID A"
| "received A v ci (c # cs) \<longleftrightarrow> slot (rx_cqe_cnt v) ci < length (rx_cqes v)
     \<and> rx_cqes v ! slot (rx_cqe_cnt v) ci = c \<and> cqe_status A c (rx_cqe_cnt v) ci = CQE_RESP_SEND A
     \<and> mlx5_get_cqe_format c \<noteq> 3 \<and> ntoh16 (cqe_wqe_counter c) = ucast ci \<and> received A v (ci + 1) cs"

lemma received_cong:
  assumes "received A v ci cs" "rx_cqes v' = rx_cqes v" "rx_cqe_cnt v' = rx_cqe_cnt v"
  shows "received A v' ci cs"
  using assms by (induction cs arbitrary: ci) auto

lemma received_drop: "received A v ci cs \<Longrightarrow> j \<le> length cs \<Longrightarrow> received A v (ci + of_nat j) (drop j cs)"
proof (induction j arbitrary: ci cs)
  case (Suc j)
  then obtain c cs' where cs: "cs = c # cs'" by (cases cs) auto
  then have "received A v (ci + 1) cs'" using Suc.prems(1) by simp
  from Suc.IH [OF this] show ?case using Suc.prems cs by (simp add: add.assoc)
qed simp

lemma posted_pop:
  assumes "posted v (m # fl)"
  shows "posted (v\<lparr>consumer_idx := consumer_idx v + 1\<rparr>) fl"
proof -
  have "r_buffers v ! slot (rx_wqe_cnt v) (consumer_idx v + of_nat (Suc i)) = fl ! i" if "i < length fl" for i
    using assms that unfolding posted_def by (metis Suc_less_eq length_Cons nth_Cons_Suc)
  then show ?thesis using assms by (auto simp: posted_def add.assoc)
qed

lemma posted_hd:
  assumes "posted v (m # fl)" "ntoh16 (cqe_wqe_counter c) = ucast (consumer_idx v)"
  shows "nthE (r_buffers v) (unat (ucast (ucast (ntoh16 (cqe_wqe_counter c)) AND (rx_wqe_cnt v - 1)) :: u16)) = Inr m"
    and "m \<noteq> NULL"
proof -
  obtain k where k: "k < 16" "rx_wqe_cnt v = 2 ^ k" "length (r_buffers v) = 2 ^ k"
    using assms(1) by (auto simp: posted_def)
  have "r_buffers v ! slot (rx_wqe_cnt v) (consumer_idx v) = m"
    using assms(1) by (auto simp: posted_def dest: spec [of _ 0])
  then show "nthE (r_buffers v) (unat (ucast (ucast (ntoh16 (cqe_wqe_counter c)) AND (rx_wqe_cnt v - 1)) :: u16)) = Inr m"
    using k slot_less [of k] unfolding assms(2) k(2) wqe_index [OF k(1)] by simp
  show "m \<noteq> NULL" using assms(1) by (auto simp: posted_def)
qed

section \<open>Reading completions\<close>

text \<open>What reading the completions \<open>cs\<close> does to the mbufs \<open>ms\<close>.\<close>

definition filled :: "ptr list \<Rightarrow> cqe list \<Rightarrow> (ptr \<Rightarrow> mbuf) \<Rightarrow> ptr \<Rightarrow> mbuf" where
  "filled ms cs = fold (\<lambda>(m, c) mb. mb(m := mbuf_fill_cqe m c (mb m))) (zip ms cs)"

definition dropped :: "cqe list \<Rightarrow> u32" where
  "dropped cs = sum_list (map (\<lambda>c. drop_bit 24 (ntoh32 (cqe_sop_drop_qpn c))) cs)"

lemma filled_Cons [simp]:
  "filled (m # ms) (c # cs) mb = filled ms cs (mb(m := mbuf_fill_cqe m c (mb m)))"
  by (simp add: filled_def)

lemma filled_Nil [simp]: "filled [] cs mb = mb" "filled ms [] mb = mb"
  by (simp_all add: filled_def)

lemma filled_other: "m \<notin> set ms \<Longrightarrow> filled ms cs mb m = mb m"
  by (induction ms arbitrary: cs mb) (simp, case_tac cs, simp_all)

lemma filled_at:
  "distinct ms \<Longrightarrow> i < length ms \<Longrightarrow> i < length cs \<Longrightarrow> filled ms cs mb (ms ! i) = mbuf_fill_cqe (ms ! i) (cs ! i) (mb (ms ! i))"
proof (induction ms arbitrary: cs mb i)
  case (Cons m ms)
  obtain c cs' where cs: "cs = c # cs'" using Cons.prems(3) by (cases cs) auto
  show ?case
  proof (cases i)
    case 0
    then show ?thesis using Cons.prems(1) cs by (simp add: filled_other)
  next
    case (Suc i')
    then have "m \<noteq> ms ! i'" using Cons.prems(1,2) by auto
    then show ?thesis using Cons.IH [of i' cs'] Cons.prems cs Suc by simp
  qed
qed simp

lemma gather_rx_loop_eq:
  assumes "documented_abi A" "posted (n_rxq s) fl" "received A (n_rxq s) (consumer_idx (n_rxq s)) cs" "length cs \<le> length fl"
  shows "gather_rx_loop A b s = (let j = min b (length cs) in
    Inr (take j fl, s\<lparr>n_mbufs := filled (take j fl) (take j cs) (n_mbufs s),
      n_rxq := (n_rxq s)\<lparr>consumer_idx := consumer_idx (n_rxq s) + of_nat j\<rparr>,
      total_dropped := total_dropped s + dropped (take j cs)\<rparr>))"
  using assms(2-)
proof (induction b arbitrary: s fl cs)
  case 0
  then show ?case by (simp add: dropped_def Let_def)
next
  case (Suc b)
  let ?v = "n_rxq s"
  show ?case
  proof (cases cs)
    case Nil
    then show ?thesis using Suc.prems(2) by (simp add: Let_def slot_def dropped_def)
  next
    case (Cons c cs')
    obtain m fl' where fl: "fl = m # fl'" using Suc.prems(3) Cons by (cases fl) auto
    let ?v' = "?v\<lparr>consumer_idx := consumer_idx ?v + 1\<rparr>"
    let ?s' = "s\<lparr>total_dropped := total_dropped s + drop_bit 24 (ntoh32 (cqe_sop_drop_qpn c)),
        n_mbufs := (n_mbufs s)(m := mbuf_fill_cqe m c (n_mbufs s m)), n_rxq := ?v'\<rparr>"
    have c: "slot (rx_cqe_cnt ?v) (consumer_idx ?v) < length (rx_cqes ?v)"
      "rx_cqes ?v ! slot (rx_cqe_cnt ?v) (consumer_idx ?v) = c" "cqe_status A c (rx_cqe_cnt ?v) (consumer_idx ?v) = CQE_RESP_SEND A"
      "mlx5_get_cqe_format c \<noteq> 3" "ntoh16 (cqe_wqe_counter c) = ucast (consumer_idx ?v)"
      "received A ?v (consumer_idx ?v + 1) cs'"
      using Suc.prems(2) Cons by simp_all
    have "CQE_RESP_SEND A \<noteq> CQE_INVALID A" using assms(1) by (simp add: documented_abi_def)
    then have "gather_rx_loop A (Suc b) s = bindE (gather_rx_loop A b ?s') (\<lambda>(ms, s). Inr (m # ms, s))"
      using c(1-4) posted_hd [OF Suc.prems(1) [unfolded fl] c(5)] by (simp add: Let_def slot_def)
    moreover have "gather_rx_loop A b ?s' = (let j = min b (length cs') in
        Inr (take j fl', ?s'\<lparr>n_mbufs := filled (take j fl') (take j cs') (n_mbufs ?s'),
          n_rxq := (n_rxq ?s')\<lparr>consumer_idx := consumer_idx (n_rxq ?s') + of_nat j\<rparr>,
          total_dropped := total_dropped ?s' + dropped (take j cs')\<rparr>))"
    proof (rule Suc.IH)
      show "posted (n_rxq ?s') fl'" using posted_pop [OF Suc.prems(1) [unfolded fl]] by simp
      show "received A (n_rxq ?s') (consumer_idx (n_rxq ?s')) cs'" using received_cong [OF c(6), of ?v'] by simp
      show "length cs' \<le> length fl'" using Suc.prems(3) fl Cons by simp
    qed
    ultimately show ?thesis by (simp add: Let_def fl Cons dropped_def add.assoc)
  qed
qed

section \<open>Posting fresh buffers\<close>

lemma posted_push:
  assumes "posted v fl" "length fl < unat (rx_wqe_cnt v)" "m \<noteq> NULL"
  shows "unat (wq_head v AND (rx_wqe_cnt v - 1)) < length (r_buffers v)"
    and "posted (v\<lparr>wq_head := wq_head v + 1, r_buffers := (r_buffers v)[unat (wq_head v AND (rx_wqe_cnt v - 1)) := m]\<rparr>) (fl @ [m])"
proof -
  obtain k where k: "k < 16" "rx_wqe_cnt v = 2 ^ k" "length (r_buffers v) = 2 ^ k" and h: "wq_head v = consumer_idx v + of_nat (length fl)"
    using assms(1) by (auto simp: posted_def)
  then have room: "length fl < 2 ^ k" using assms(2) by (simp add: unat_exp)
  have less: "slot (2 ^ k) (wq_head v) < length (r_buffers v)" using slot_less [of k] k by simp
  then show "unat (wq_head v AND (rx_wqe_cnt v - 1)) < length (r_buffers v)" using k(2) by (simp add: slot_def)
  have sl: "unat (wq_head v AND (2 ^ k - 1)) = slot (2 ^ k) (wq_head v)" by (simp add: slot_def)
  have ne: "slot (2 ^ k) (consumer_idx v + of_nat (length fl)) \<noteq> slot (2 ^ k) (consumer_idx v + of_nat i)" if "i < length fl" for i
  proof -
    have "inj_on (\<lambda>d. slot (2 ^ k) (consumer_idx v + of_nat d)) {..<Suc (length fl)}"
      by (rule slots_inj) (use k(1) room in simp_all)
    from inj_onD [OF this, of "length fl" i] that show ?thesis by auto
  qed
  have "(r_buffers v)[slot (2 ^ k) (wq_head v) := m] ! slot (2 ^ k) (consumer_idx v + of_nat i) = (fl @ [m]) ! i"
    if "i < length (fl @ [m])" for i
  proof (cases "i = length fl")
    case False
    then have "i < length fl" using that by simp
    then show ?thesis using ne assms(1) k(2) h by (simp add: nth_append posted_def)
  qed (use less h in simp)
  then show "posted (v\<lparr>wq_head := wq_head v + 1, r_buffers := (r_buffers v)[unat (wq_head v AND (rx_wqe_cnt v - 1)) := m]\<rparr>) (fl @ [m])"
    using assms k room h sl by (auto simp: posted_def)
qed

text \<open>The parts of the state that posting receive buffers leaves alone.\<close>

definition rx_frame :: "ptr set \<Rightarrow> net \<Rightarrow> net \<Rightarrow> bool" where
  "rx_frame B s s' \<longleftrightarrow> n_txq s' = n_txq s \<and> total_dropped s' = total_dropped s \<and> n_doorbells s' = n_doorbells s
     \<and> mbuf_mempool s' = mbuf_mempool s \<and> tx_buf_mempool s' = tx_buf_mempool s
     \<and> consumer_idx (n_rxq s') = consumer_idx (n_rxq s) \<and> rx_wqe_cnt (n_rxq s') = rx_wqe_cnt (n_rxq s)
     \<and> rx_cqes (n_rxq s') = rx_cqes (n_rxq s) \<and> rx_cqe_cnt (n_rxq s') = rx_cqe_cnt (n_rxq s)
     \<and> rx_wq_dbrec (n_rxq s') = rx_wq_dbrec (n_rxq s) \<and> (\<forall>m. m \<notin> B \<longrightarrow> n_mbufs s' m = n_mbufs s m)"

lemma rx_frame_trans: "rx_frame B s s' \<Longrightarrow> rx_frame C s' s'' \<Longrightarrow> rx_frame (B \<union> C) s s''"
  by (auto simp: rx_frame_def)

lemma refill_step:
  assumes "posted (n_rxq s) fl" "pool_inv (rx_buf_mempool s)" "NULL \<notin> set (pool_free_stack (rx_buf_mempool s))"
    and "pool_free_stack (rx_buf_mempool s) = m # ms" "length fl < unat (rx_wqe_cnt (n_rxq s))"
  obtains s1 where "refill_loop A (Suc n) s = refill_loop A n s1" "posted (n_rxq s1) (fl @ [m])" "rx_frame {m} s s1"
    "pool_inv (rx_buf_mempool s1)" "pool_free_stack (rx_buf_mempool s1) = ms"
proof -
  let ?v = "n_rxq s"
  have m: "m \<noteq> NULL" using assms(3,4) by auto
  obtain p where p: "mempool_alloc (rx_buf_mempool s) = Inr (m, p)" "pool_free_stack p = ms" "pool_inv p"
    using pool.alloc_top [OF assms(2,4)] by blast
  let ?i = "unat (wq_head ?v AND (rx_wqe_cnt ?v - 1))"
  define s1 where "s1 = s\<lparr>rx_buf_mempool := p, n_mbufs := (n_mbufs s)(m := (n_mbufs s m)\<lparr>m_head_len := ucast (item_len p)\<rparr>),
    n_mem := st64 (n_mem s) (rx_wq_buf ?v + ucast (push_bit (unat (rx_wq_log_stride ?v)) (wq_head ?v AND (rx_wqe_cnt ?v - 1))) + data_addr A)
      (hton64 (m + RX_BUF_HEAD)), n_rxq := ?v\<lparr>wq_head := wq_head ?v + 1, r_buffers := (r_buffers ?v)[?i := m]\<rparr>\<rparr>"
  show thesis
  proof (rule that)
    show "refill_loop A (Suc n) s = refill_loop A n s1"
      using p(1) m posted_push(1) [OF assms(1,5) m] by (simp add: Let_def s1_def)
    show "posted (n_rxq s1) (fl @ [m])" using posted_push(2) [OF assms(1,5) m] by (simp add: s1_def)
  qed (use p in \<open>simp_all add: rx_frame_def s1_def\<close>)
qed

lemma refill_loop_eq:
  assumes "posted (n_rxq s) fl" "pool_inv (rx_buf_mempool s)" "NULL \<notin> set (pool_free_stack (rx_buf_mempool s))"
    and "n \<le> length (pool_free_stack (rx_buf_mempool s))" "length fl + n \<le> unat (rx_wqe_cnt (n_rxq s))"
  shows "\<exists>s'. refill_loop A n s = Inr (0, s') \<and> posted (n_rxq s') (fl @ take n (pool_free_stack (rx_buf_mempool s)))
    \<and> pool_free_stack (rx_buf_mempool s') = drop n (pool_free_stack (rx_buf_mempool s)) \<and> pool_inv (rx_buf_mempool s')
    \<and> rx_frame (set (take n (pool_free_stack (rx_buf_mempool s)))) s s'"
  using assms
proof (induction n arbitrary: s fl)
  case 0
  then show ?case by (simp add: rx_frame_def)
next
  case (Suc n)
  obtain m ms where st: "pool_free_stack (rx_buf_mempool s) = m # ms"
    using Suc.prems(4) by (cases "pool_free_stack (rx_buf_mempool s)") auto
  obtain s1 where s1: "refill_loop A (Suc n) s = refill_loop A n s1" "posted (n_rxq s1) (fl @ [m])" "rx_frame {m} s s1"
    "pool_inv (rx_buf_mempool s1)" "pool_free_stack (rx_buf_mempool s1) = ms"
    using refill_step [OF Suc.prems(1-3) st, of A n] Suc.prems(5) by auto
  have "rx_wqe_cnt (n_rxq s1) = rx_wqe_cnt (n_rxq s)" using s1(3) by (simp add: rx_frame_def)
  then obtain s' where s': "refill_loop A n s1 = Inr (0, s')" "posted (n_rxq s') ((fl @ [m]) @ take n ms)"
    "pool_free_stack (rx_buf_mempool s') = drop n ms" "pool_inv (rx_buf_mempool s')" "rx_frame (set (take n ms)) s1 s'"
    using Suc.IH [OF s1(2,4)] s1(5) Suc.prems(3-5) st by auto
  have "rx_frame (set (take (Suc n) (m # ms))) s s'" using rx_frame_trans [OF s1(3) s'(5)] by simp
  then show ?case using s1(1) s'(1-4) st by simp
qed

text \<open>An exhausted pool.\<close>

lemma refill_loop_exhausted:
  assumes "posted (n_rxq s) fl" "pool_inv (rx_buf_mempool s)" "NULL \<notin> set (pool_free_stack (rx_buf_mempool s))"
    and "length (pool_free_stack (rx_buf_mempool s)) < n" "length fl + n \<le> unat (rx_wqe_cnt (n_rxq s))"
  shows "refill_loop A n s = Inl NullDeref"
  using assms
proof (induction n arbitrary: s fl)
  case (Suc n)
  show ?case
  proof (cases "pool_free_stack (rx_buf_mempool s)")
    case Nil
    then show ?thesis using pool.alloc_empty [OF Suc.prems(2)] by (simp add: Let_def)
  next
    case (Cons m ms)
    obtain s1 where s1: "refill_loop A (Suc n) s = refill_loop A n s1" "posted (n_rxq s1) (fl @ [m])" "rx_frame {m} s s1"
      "pool_inv (rx_buf_mempool s1)" "pool_free_stack (rx_buf_mempool s1) = ms"
      using refill_step [OF Suc.prems(1-3) Cons, of A n] Suc.prems(5) by auto
    have "rx_wqe_cnt (n_rxq s1) = rx_wqe_cnt (n_rxq s)" using s1(3) by (simp add: rx_frame_def)
    then show ?thesis using Suc.IH [OF s1(2,4)] s1(1,5) Suc.prems(3-5) Cons by simp
  qed
qed simp

section \<open>Receiving\<close>

lemma posted_pops:
  assumes "posted v fl" "j \<le> length fl"
  shows "posted (v\<lparr>consumer_idx := consumer_idx v + of_nat j\<rparr>) (drop j fl)"
  using assms
proof (induction j arbitrary: v fl)
  case (Suc j)
  then obtain m fl' where fl: "fl = m # fl'" by (cases fl) auto
  show ?case using Suc.IH [OF posted_pop [OF Suc.prems(1) [unfolded fl]]] Suc.prems(2) fl by (simp add: add.assoc)
qed simp

lemma posted_length: "posted v fl \<Longrightarrow> length fl \<le> unat (rx_wqe_cnt v)"
  by (auto simp: posted_def unat_exp)

text \<open>The state between reading the completions and posting fresh buffers.\<close>

definition rx_read :: "nat \<Rightarrow> ptr list \<Rightarrow> cqe list \<Rightarrow> net \<Rightarrow> net" where
  "rx_read j fl cs s = (let s = s\<lparr>n_mbufs := filled (take j fl) (take j cs) (n_mbufs s),
      n_rxq := (n_rxq s)\<lparr>consumer_idx := consumer_idx (n_rxq s) + of_nat j\<rparr>,
      total_dropped := total_dropped s + dropped (take j cs)\<rparr>
    in s\<lparr>n_mem := st32 (n_mem s) (rx_cq_dbrec (n_rxq s)) (hton32 (consumer_idx (n_rxq s) AND 0xffffff))\<rparr>)"

lemma gather_rx_eq:
  assumes "documented_abi A" "posted (n_rxq s) fl" "received A (n_rxq s) (consumer_idx (n_rxq s)) cs" "length cs \<le> length fl"
    and "j = min b (length cs)" "0 < j"
  shows "mlx5_gather_rx A b s = bindE (mlx5_refill_rxqueue A j (rx_read j fl cs s)) (\<lambda>(ret, s).
     bindE (guardE Abort (ret = 0)) (\<lambda>_. Inr (take j fl, s)))"
proof -
  have "take j fl \<noteq> []" "length (take j fl) = j" using assms(4-6) by auto
  then show ?thesis
    using gather_rx_loop_eq [OF assms(1-4), of b, folded assms(5)] by (simp add: mlx5_gather_rx_def rx_read_def Let_def)
qed

lemma filled_mbuf:
  "m_data (mbuf_fill_cqe m c b) = m + RX_BUF_HEAD" "m_len (mbuf_fill_cqe m c b) = ntoh32 (cqe_byte_cnt c)"
  "m_release (mbuf_fill_cqe m c b) = RxCompletion" "m_head (mbuf_fill_cqe m c b) = m"
  by (simp_all add: mbuf_fill_cqe_def mbuf_init_def Let_def)

lemma gather_rx_full:
  fixes b :: nat and cs :: "cqe list"
  defines "j \<equiv> min b (length cs)"
  assumes "documented_abi A" "posted (n_rxq s) fl" "received A (n_rxq s) (consumer_idx (n_rxq s)) cs" "length cs \<le> length fl"
    and "pool_inv (rx_buf_mempool s)" "j \<le> length (pool_free_stack (rx_buf_mempool s))"
    and "distinct (NULL # fl @ pool_free_stack (rx_buf_mempool s))"
  shows "\<exists>s'. mlx5_gather_rx A b s = Inr (take j fl, s')
    \<and> posted (n_rxq s') (drop j fl @ take j (pool_free_stack (rx_buf_mempool s)))
    \<and> received A (n_rxq s') (consumer_idx (n_rxq s')) (drop j cs)
    \<and> pool_inv (rx_buf_mempool s') \<and> pool_free_stack (rx_buf_mempool s') = drop j (pool_free_stack (rx_buf_mempool s))
    \<and> total_dropped s' = total_dropped s + dropped (take j cs)
    \<and> (\<forall>i<j. n_mbufs s' (fl ! i) = mbuf_fill_cqe (fl ! i) (cs ! i) (n_mbufs s (fl ! i)))"
proof (cases "j = 0")
  case True
  then show ?thesis
    using gather_rx_loop_eq [OF assms(2-5), of b] assms(3-6)
    by (simp add: mlx5_gather_rx_def Let_def dropped_def flip: j_def)
next
  case False
  let ?r = "rx_read j fl cs s" and ?st = "pool_free_stack (rx_buf_mempool s)"
  have r: "n_rxq ?r = (n_rxq s)\<lparr>consumer_idx := consumer_idx (n_rxq s) + of_nat j\<rparr>" "rx_buf_mempool ?r = rx_buf_mempool s"
    "n_mbufs ?r = filled (take j fl) (take j cs) (n_mbufs s)" "total_dropped ?r = total_dropped s + dropped (take j cs)"
    by (simp_all add: rx_read_def Let_def)
  have jl: "j \<le> length cs" "j \<le> length fl" using assms(5) by (simp_all add: j_def)
  have post: "posted (n_rxq ?r) (drop j fl)" using posted_pops [OF assms(3) jl(2)] by (simp add: r)
  have "length (drop j fl) + j \<le> unat (rx_wqe_cnt (n_rxq ?r))" using posted_length [OF assms(3)] jl by (simp add: r)
  then obtain s' where s': "refill_loop A j ?r = Inr (0, s')" "posted (n_rxq s') (drop j fl @ take j ?st)"
    "pool_free_stack (rx_buf_mempool s') = drop j ?st" "pool_inv (rx_buf_mempool s')" "rx_frame (set (take j ?st)) ?r s'"
    using refill_loop_eq [OF post, of j A] assms(6-8) unfolding r by auto
  have rec: "received A (n_rxq s') (consumer_idx (n_rxq s')) (drop j cs)"
    using received_cong [OF received_drop [OF assms(4) jl(1)], of "n_rxq s'"] s'(5) by (simp add: rx_frame_def r)
  have mb: "n_mbufs s' (fl ! i) = mbuf_fill_cqe (fl ! i) (cs ! i) (n_mbufs s (fl ! i))" if "i < j" for i
  proof -
    have "fl ! i \<in> set fl" using that jl(2) by auto
    then have "fl ! i \<notin> set (take j ?st)" using assms(8) by (auto dest: in_set_takeD)
    moreover have "filled (take j fl) (take j cs) (n_mbufs s) (take j fl ! i) = mbuf_fill_cqe (take j fl ! i) (take j cs ! i) (n_mbufs s (take j fl ! i))"
      by (rule filled_at) (use assms(8) that jl in simp_all)
    ultimately show ?thesis using s'(5) that by (simp add: rx_frame_def r)
  qed
  have "total_dropped s' = total_dropped s + dropped (take j cs)" using s'(5) by (simp add: rx_frame_def r)
  with rec mb s'(2-4) show ?thesis
    using gather_rx_eq [OF assms(2-5) j_def [THEN meta_eq_to_obj_eq]] False s'(1)
    by (simp add: mlx5_refill_rxqueue_def)
qed

text \<open>The size of the pool does not change.\<close>

lemma mempool_alloc_capacity: "mempool_alloc p = Inr (x, p') \<Longrightarrow> capacity p' = capacity p"
  by (auto simp: mempool_alloc_def split: if_splits elim!: bindE_InrE)

lemma refill_loop_capacity: "refill_loop A n s = Inr (r, s') \<Longrightarrow> capacity (rx_buf_mempool s') = capacity (rx_buf_mempool s)"
proof (induction n arbitrary: s)
  case (Suc n)
  then obtain b p where "mempool_alloc (rx_buf_mempool s) = Inr (b, p)" by (auto elim!: bindE_InrE)
  then show ?case using Suc mempool_alloc_capacity by (fastforce simp: Let_def elim!: bindE_InrE)
qed simp

lemma gather_rx_loop_pool: "gather_rx_loop A n s = Inr (ms, s') \<Longrightarrow> rx_buf_mempool s' = rx_buf_mempool s"
  by (induction n arbitrary: s ms) (fastforce simp: Let_def split: if_splits elim!: bindE_InrE)+

lemma gather_rx_capacity: "mlx5_gather_rx A b s = Inr (ms, s') \<Longrightarrow> capacity (rx_buf_mempool s') = capacity (rx_buf_mempool s)"
  by (fastforce simp: mlx5_gather_rx_def mlx5_refill_rxqueue_def Let_def split: if_splits
      elim!: bindE_InrE dest: gather_rx_loop_pool refill_loop_capacity)

text \<open>
  C9. Receiving hands out the buffers the device has filled, oldest first and at most
  \<open>budget\<close> of them; each mbuf's window starts behind the head room with the length the device
  reported, and is freed back to the receive pool. As many buffers leave the pool and are posted behind
  the others, so the number of posted buffers stays the same.
\<close>

theorem gather_rx_keeps_ring_full:
  fixes b :: nat and cs :: "cqe list"
  defines "j \<equiv> min b (length cs)"
  assumes "documented_abi A" "posted (n_rxq s) fl" "received A (n_rxq s) (consumer_idx (n_rxq s)) cs" "length cs \<le> length fl"
    and "pool_inv (rx_buf_mempool s)" "j \<le> length (pool_free_stack (rx_buf_mempool s))"
    and "distinct (NULL # fl @ pool_free_stack (rx_buf_mempool s))"
  shows "\<exists>s'. mlx5_gather_rx A b s = Inr (take j fl, s')
    \<and> posted (n_rxq s') (drop j fl @ take j (pool_free_stack (rx_buf_mempool s)))
    \<and> received A (n_rxq s') (consumer_idx (n_rxq s')) (drop j cs)
    \<and> pool_inv (rx_buf_mempool s') \<and> pool_free_stack (rx_buf_mempool s') = drop j (pool_free_stack (rx_buf_mempool s))
    \<and> total_dropped s' = total_dropped s + dropped (take j cs)
    \<and> (\<forall>i<j. let m = n_mbufs s' (fl ! i) in
        m_data m = fl ! i + RX_BUF_HEAD \<and> m_len m = ntoh32 (cqe_byte_cnt (cs ! i)) \<and> m_release m = RxCompletion)"
proof -
  let ?st = "pool_free_stack (rx_buf_mempool s)"
  obtain s' where "mlx5_gather_rx A b s = Inr (take j fl, s')" "posted (n_rxq s') (drop j fl @ take j ?st)"
    "received A (n_rxq s') (consumer_idx (n_rxq s')) (drop j cs)" "pool_inv (rx_buf_mempool s')"
    "pool_free_stack (rx_buf_mempool s') = drop j ?st" "total_dropped s' = total_dropped s + dropped (take j cs)"
    and mb: "\<And>i. i < j \<Longrightarrow> n_mbufs s' (fl ! i) = mbuf_fill_cqe (fl ! i) (cs ! i) (n_mbufs s (fl ! i))"
    using gather_rx_full [OF assms(2-6) assms(7,8) [unfolded j_def]] unfolding j_def [symmetric] by blast
  then show ?thesis by (simp add: Let_def filled_mbuf)
qed

definition example_rx :: "ptr list \<Rightarrow> net" where
  "example_rx stack = (example_net [])\<lparr>rx_buf_mempool := zero_mempool\<lparr>mp_free_items := stack, capacity := of_nat (length stack), item_len := 16384\<rparr>,
     n_rxq := example_rxq\<lparr>r_buffers := [0x10000, 0x20000], wq_head := 2, rx_cqe_cnt := 4,
       rx_cqes := example_cqe 0 0x20 # replicate 3 (example_cqe 0 0xF0)\<rparr>\<rparr>"

lemma example_rx_ok:
  "posted (n_rxq (example_rx st)) [0x10000, 0x20000]"
  "received mlx5_abi (n_rxq (example_rx st)) (consumer_idx (n_rxq (example_rx st))) [example_cqe 0 0x20]"
proof -
  have "rx_wqe_cnt (n_rxq (example_rx st)) = 2 ^ 1" by (simp add: example_rx_def example_rxq_def)
  then show "posted (n_rxq (example_rx st)) [0x10000, 0x20000]"
    unfolding posted_def
    by (intro conjI exI [of _ 1]) (simp_all add: example_rx_def example_rxq_def less_Suc_eq slot_def)
  have "cqe_status mlx5_abi (example_cqe 0 0x20) (2 ^ 2) 0 = 2" "cqe_status mlx5_abi (example_cqe 0 0xF0) (2 ^ 2) 1 = 15"
    by (simp_all add: cqe_status_def Let_def example_cqe_def mlx5_abi_def)
  then show "received mlx5_abi (n_rxq (example_rx st)) (consumer_idx (n_rxq (example_rx st))) [example_cqe 0 0x20]"
    by (simp add: example_rx_def example_rxq_def slot_def mlx5_abi_def example_cqe_def mlx5_get_cqe_format_def ntoh16_def hton16_def)
qed

lemma example_rx_pool: "length st < 2 ^ 64 \<Longrightarrow> pool_inv (rx_buf_mempool (example_rx st))"
  "pool_free_stack (rx_buf_mempool (example_rx st)) = st"
  by (simp_all add: example_rx_def pool_inv_def pool_free_stack_def zero_mempool_def unat_of_nat_less)

lemma gather_rx_keeps_ring_full_witness:
  "\<exists>s'. mlx5_gather_rx mlx5_abi 32 (example_rx [0x30000]) = Inr ([0x10000], s')
    \<and> posted (n_rxq s') [0x20000, 0x30000]"
proof -
  have "pool_inv (rx_buf_mempool (example_rx [0x30000]))" by (rule example_rx_pool) simp
  from gather_rx_keeps_ring_full [OF mlx5_abi_documented example_rx_ok _ this, where b = 32]
  show ?thesis by (auto simp: example_rx_pool)
qed

text \<open>
  When the pool runs out while the ring is refilled, the refill writes the item length through
  the null pointer the pool returned before it tests that pointer, so the error path for \<open>-ENOMEM\<close> is never reached.
\<close>

lemma gather_rx_starved:
  fixes b :: nat and cs :: "cqe list"
  defines "j \<equiv> min b (length cs)"
  assumes "documented_abi A" "posted (n_rxq s) fl" "received A (n_rxq s) (consumer_idx (n_rxq s)) cs" "length cs \<le> length fl"
    and "pool_inv (rx_buf_mempool s)" "length (pool_free_stack (rx_buf_mempool s)) < j"
    and "NULL \<notin> set (pool_free_stack (rx_buf_mempool s))"
  shows "mlx5_gather_rx A b s = Inl NullDeref"
proof -
  let ?r = "rx_read j fl cs s"
  have r: "n_rxq ?r = (n_rxq s)\<lparr>consumer_idx := consumer_idx (n_rxq s) + of_nat j\<rparr>" "rx_buf_mempool ?r = rx_buf_mempool s"
    by (simp_all add: rx_read_def Let_def)
  have jl: "j \<le> length fl" using assms(5) by (simp add: j_def)
  have post: "posted (n_rxq ?r) (drop j fl)" using posted_pops [OF assms(3) jl] by (simp add: r)
  have "length (drop j fl) + j \<le> unat (rx_wqe_cnt (n_rxq ?r))" using posted_length [OF assms(3)] jl by (simp add: r)
  then have "refill_loop A j ?r = Inl NullDeref"
    using refill_loop_exhausted [OF post, of j A] assms(6-8) unfolding r by simp
  then show ?thesis
    using gather_rx_eq [OF assms(2-5) j_def [THEN meta_eq_to_obj_eq]] assms(7) by (simp add: mlx5_refill_rxqueue_def)
qed

lemma gather_rx_starved_example:
  "mlx5_gather_rx mlx5_abi 32 (example_rx []) = Inl NullDeref"
proof -
  have "pool_inv (rx_buf_mempool (example_rx []))" by (rule example_rx_pool) simp
  from gather_rx_starved [OF mlx5_abi_documented example_rx_ok _ this, where b = 32]
  show ?thesis by (simp add: example_rx_pool)
qed

end
