(* ===== verification/Server.thy ===== *)
theory Server
  imports Inline RxRing
begin

text \<open>
  The server side of main.c: how a received packet is turned into a reply, by
  flipping it in place (echo mode), by a chain of mbufs over the segments of the
  working set (zero copy), or by copying the segments into one buffer; how a batch of replies
  is posted, and how a burst of received packets is cut into batches.

  \<open>dev\<close> stands for the device, which may complete transmissions and receive
  packets between two steps of the program; \<open>fuel\<close> bounds the tries of
  \<open>post_mbufs\<close>, which loops until the device has made room. The timers of a
  debugging build and the busy work, which computes a number nothing reads, are left out.
\<close>

section \<open>Configuration\<close>

text \<open>
  The static variables of main.c the data path reads, as \<open>parse_args\<close> and the
  initialisation leave them. \<open>request_headers\<close> is the address of the array of that name,
  \<open>tmp_ether\<close> that of the local variable of \<open>flip_headers\<close>.
\<close>

record server_cfg =
  echo_mode :: int
  zero_copy :: int
  read_incoming_packet :: int
  num_segments :: u64
  segment_size :: u64
  server_working_set :: ptr
  tx_lkey :: u32
  rx_lkey :: u32
  request_headers :: ptr
  server_mac :: ptr
  tmp_ether :: ptr

abbreviation (input) BATCH_SIZE :: nat where "BATCH_SIZE \<equiv> 32"
abbreviation (input) BURST_SIZE :: nat where "BURST_SIZE \<equiv> 32"
abbreviation (input) MAX_SCATTERS :: nat where "MAX_SCATTERS \<equiv> 32"
abbreviation (input) DATA_MBUFS_SIZE :: u32 where "DATA_MBUFS_SIZE \<equiv> 16384"

definition request_header_at :: "server_cfg \<Rightarrow> nat \<Rightarrow> ptr" where
  "request_header_at cfg i = request_headers cfg + of_nat i * sizeof_RequestHeader"

text \<open>The arrays \<open>request_header_ptrs\<close> and \<open>inline_lengths\<close> as \<open>init_workload\<close> fills them.\<close>

definition inline_args :: "server_cfg \<Rightarrow> nat \<Rightarrow> ptr \<times> u64" where
  "inline_args cfg i =
     (if echo_mode cfg = 1 then (NULL, 0)
      else if zero_copy cfg = 0 then (NULL, 0)
      else (request_header_at cfg i, 14 + 20 + 8 + 8 + 8))"

definition get_server_region :: "ptr \<Rightarrow> u64 \<Rightarrow> u64 \<Rightarrow> ptr" where
  "get_server_region memory idx sz = memory + idx * sz"

definition read_u64 :: "mem \<Rightarrow> ptr \<Rightarrow> u64 \<Rightarrow> u64" where
  "read_u64 m p offset = ld64 m (p + offset * 8)"

text \<open>One field update of an mbuf in the state.\<close>

definition upd_mbuf :: "ptr \<Rightarrow> (mbuf \<Rightarrow> mbuf) \<Rightarrow> net \<Rightarrow> net" where
  "upd_mbuf m f s = s\<lparr>n_mbufs := (n_mbufs s)(m := f (n_mbufs s m))\<rparr>"

section \<open>Posting a batch\<close>

primrec post_loop ::
  "abi \<Rightarrow> (nat \<Rightarrow> net \<Rightarrow> net) \<Rightarrow> nat \<Rightarrow> (ptr \<times> ptr \<times> u64) list \<Rightarrow> nat \<Rightarrow> net \<Rightarrow> net res" where
  "post_loop A dev 0 batch total_sent s = (if total_sent < length batch then Inl NoFuel else Inr s)"
| "post_loop A dev (Suc fuel) batch total_sent s =
     (if total_sent < length batch then
        bindE (mlx5_transmit_batch A batch total_sent (length batch) (dev fuel s)) (\<lambda>(sent, s).
        post_loop A dev fuel batch (total_sent + sent) s)
      else Inr s)"

definition post_mbufs ::
  "abi \<Rightarrow> (nat \<Rightarrow> net \<Rightarrow> net) \<Rightarrow> nat \<Rightarrow> server_cfg \<Rightarrow> ptr list \<Rightarrow> net \<Rightarrow> (int \<times> net) res" where
  "post_mbufs A dev fuel cfg send_mbufs s =
     bindE (post_loop A dev fuel (map (\<lambda>(i, m). (m, inline_args cfg i)) (enumerate 0 send_mbufs)) 0 s) (\<lambda>s.
     Inr (0, s))"

section \<open>Echo\<close>

text \<open>Each request becomes its own reply; the first one that cannot be flipped ends the batch.\<close>

primrec echo_loop :: "server_cfg \<Rightarrow> ptr list \<Rightarrow> ptr list \<Rightarrow> net \<Rightarrow> (int \<times> ptr list \<times> net) res" where
  "echo_loop cfg [] send s = Inr (0, send, s)"
| "echo_loop cfg (request # requests) send s =
     bindE (guardE NullDeref (request \<noteq> NULL)) (\<lambda>_.
     let s = upd_mbuf request (\<lambda>m. m\<lparr>m_nb_segs := 1, m_next := NULL, m_lkey := rx_lkey cfg\<rparr>) s;
         (ret, h, r) = flip_headers (n_mem s) (tmp_ether cfg) (n_mbufs s request) (num_segments cfg * segment_size cfg);
         s = upd_mbuf request (\<lambda>_. r) (s\<lparr>n_mem := h\<rparr>)
     in if ret \<noteq> 0 then Inr (ret, send, s) else echo_loop cfg requests (send @ [request]) s)"

definition process_echo_requests ::
  "abi \<Rightarrow> (nat \<Rightarrow> net \<Rightarrow> net) \<Rightarrow> nat \<Rightarrow> server_cfg \<Rightarrow> ptr list \<Rightarrow> net \<Rightarrow> (int \<times> net) res" where
  "process_echo_requests A dev fuel cfg requests s =
     bindE (guardE OutOfBounds (length requests \<le> BATCH_SIZE)) (\<lambda>_.
     bindE (echo_loop cfg requests [] s) (\<lambda>(ret, send, s).
     if ret \<noteq> 0 then Inr (ret, s)
     else bindE (post_mbufs A dev fuel cfg send s) (\<lambda>(ret, s). Inr (0, s))))"

section \<open>Replies\<close>

text \<open>The segment numbers a request asks for, read into an array of \<open>MAX_SCATTERS\<close> entries.\<close>

definition read_segments :: "server_cfg \<Rightarrow> mem \<Rightarrow> ptr \<Rightarrow> u64 list res" where
  "read_segments cfg m payload =
     bindE (guardE OutOfBounds (unat (num_segments cfg) \<le> MAX_SCATTERS)) (\<lambda>_.
     Inr (map (\<lambda>seg. read_u64 m payload (of_nat seg + 1)) [0..<unat (num_segments cfg)]))"

text \<open>
  The clean-up when no mbuf is left frees the replies \<open>0 .. pkt_idx - 2\<close>; for \<open>pkt_idx = 0\<close> the bound
  wraps around, and an entry that was never set is read.
\<close>

primrec free_replies :: "nat \<Rightarrow> ptr list \<Rightarrow> net \<Rightarrow> net res" where
  "free_replies n [] s = (if n = 0 then Inr s else Inl OutOfBounds)"
| "free_replies n (m # ms) s = (if n = 0 then Inr s else bindE (free_mbuf m s) (free_replies (n - 1) ms))"

definition drop_replies :: "nat \<Rightarrow> ptr list \<Rightarrow> net \<Rightarrow> net res" where
  "drop_replies pkt_idx heads s = free_replies (unat (of_nat pkt_idx - 1 :: u64)) heads s"

definition link_prev :: "ptr \<Rightarrow> ptr list \<Rightarrow> net \<Rightarrow> net" where
  "link_prev m ms s = (if ms \<noteq> [] then upd_mbuf (last ms) (\<lambda>b. b\<lparr>m_next := m\<rparr>) s else s)"

definition take_ref :: "ptr \<Rightarrow> ptr \<Rightarrow> u64 \<Rightarrow> net \<Rightarrow> net res" where
  "take_ref rh m seg s =
     (if using_ref_counting s \<noteq> 0 then
        bindE (server_change_refcnt seg 1 s) (\<lambda>(currefcnt, s).
        let s = s\<lparr>n_mem := st64 (n_mem s) (req_checksum rh) (ld64 (n_mem s) (req_checksum rh) + ucast currefcnt)\<rparr> in
        Inr (upd_mbuf m (\<lambda>b. b\<lparr>m_release_data := seg\<rparr>) s))
      else Inr s)"

text \<open>The mbufs allocated for the segments so far are \<open>ms\<close>; the last of them is \<open>prev\<close>.\<close>

primrec zero_copy_segments ::
  "server_cfg \<Rightarrow> ptr \<Rightarrow> u64 list \<Rightarrow> ptr list \<Rightarrow> net \<Rightarrow> (int \<times> ptr list \<times> net) res" where
  "zero_copy_segments cfg rh [] ms s = Inr (0, ms, s)"
| "zero_copy_segments cfg rh (seg # segs) ms s =
     bindE (guardE DivByZero (num_total_segments s \<noteq> 0)) (\<lambda>_.
     let physical_seg = seg mod num_total_segments s;
         server_memory = get_server_region (server_working_set cfg) physical_seg (segment_size cfg) in
     bindE (mempool_alloc (mbuf_mempool s)) (\<lambda>(m, p).
     let s = s\<lparr>mbuf_mempool := p\<rparr> in
     if m = NULL then Inr (ENOMEM, ms @ [NULL], s)
     else
       let s = link_prev m ms s;
           s = upd_mbuf m (\<lambda>b. b\<lparr>m_lkey := tx_lkey cfg, m_release := ZeroCopyTxCompletion\<rparr>) s in
       bindE (take_ref rh m seg s) (\<lambda>s.
       let s = upd_mbuf m (\<lambda>b. mbuf_init b server_memory (ucast (segment_size cfg)) 0) s;
           s = upd_mbuf m (\<lambda>b. b\<lparr>m_len := ucast (segment_size cfg)\<rparr>) s
       in zero_copy_segments cfg rh segs (ms @ [m]) s)))"

definition zero_copy_reply ::
  "server_cfg \<Rightarrow> nat \<Rightarrow> ptr list \<Rightarrow> ptr \<Rightarrow> u64 list \<Rightarrow> net \<Rightarrow> (int \<times> ptr list \<times> net) res" where
  "zero_copy_reply cfg pkt_idx heads request segments s =
     (let rh = request_header_at cfg pkt_idx;
          s = s\<lparr>n_mem := parse_outgoing_request_header (n_mem s) rh (n_mbufs s request)
                (num_segments cfg * segment_size cfg + 16)\<rparr> in
      bindE (zero_copy_segments cfg rh segments [] s) (\<lambda>(ret, ms, s).
      if ret \<noteq> 0 then bindE (drop_replies pkt_idx (heads @ [hd ms]) s) (\<lambda>s. Inr (ret, heads, s))
      else
        bindE (nthE ms 0) (\<lambda>first.
        bindE (nthE ms (unat (num_segments cfg - 1))) (\<lambda>final.
        let s = upd_mbuf first (\<lambda>b. b\<lparr>m_nb_segs := ucast (num_segments cfg)\<rparr>) s;
            s = upd_mbuf final (\<lambda>b. b\<lparr>m_next := NULL\<rparr>) s;
            s = upd_mbuf first (\<lambda>b. b\<lparr>m_pkt_len := ucast (segment_size cfg * num_segments cfg)\<rparr>) s
        in Inr (0, heads @ [first], s)))))"

text \<open>The copying loop, from segment \<open>i\<close> on.\<close>

primrec copy_segments :: "server_cfg \<Rightarrow> ptr \<Rightarrow> u64 \<Rightarrow> nat \<Rightarrow> u64 list \<Rightarrow> net \<Rightarrow> net res" where
  "copy_segments cfg m header_len i [] s = Inr s"
| "copy_segments cfg m header_len i (seg # segs) s =
     bindE (guardE DivByZero (num_total_segments s \<noteq> 0)) (\<lambda>_.
     let physical_seg = seg mod num_total_segments s;
         server_memory = get_server_region (server_working_set cfg) physical_seg (segment_size cfg);
         (h, b) = mbuf_copy (n_mem s) (n_mbufs s m) server_memory (segment_size cfg)
                    (header_len + of_nat i * segment_size cfg)
     in copy_segments cfg m header_len (Suc i) segs (upd_mbuf m (\<lambda>_. b) (s\<lparr>n_mem := h\<rparr>)))"

text \<open>When no buffer is left the mbuf is freed through the release function its previous use left in it.\<close>

definition copy_reply ::
  "server_cfg \<Rightarrow> nat \<Rightarrow> ptr list \<Rightarrow> ptr \<Rightarrow> u64 list \<Rightarrow> net \<Rightarrow> (int \<times> ptr list \<times> net) res" where
  "copy_reply cfg pkt_idx heads request segments s =
     bindE (mempool_alloc (mbuf_mempool s)) (\<lambda>(m, p).
     let s = s\<lparr>mbuf_mempool := p\<rparr> in
     if m = NULL then bindE (drop_replies pkt_idx (heads @ [NULL]) s) (\<lambda>s. Inr (ENOMEM, heads, s))
     else
       let s = upd_mbuf m (\<lambda>b. b\<lparr>m_lkey := tx_lkey cfg\<rparr>) s in
       bindE (mempool_alloc (tx_buf_mempool s)) (\<lambda>(buffer, p).
       let s = s\<lparr>tx_buf_mempool := p\<rparr> in
       if buffer = NULL then bindE (free_mbuf m s) (\<lambda>s. Inr (ENOMEM, heads, s))
       else
         let s = upd_mbuf m (\<lambda>b. mbuf_init b buffer DATA_MBUFS_SIZE 0) s;
             s = upd_mbuf m (\<lambda>b. b\<lparr>m_release := TxCompletion, m_next := NULL\<rparr>) s;
             payload_size = num_segments cfg * segment_size cfg + 16;
             header_len = of_nat FULL_HEADER_SIZE + 16;
             s = s\<lparr>n_mem := parse_outgoing_request_header_into_mbuf (n_mem s) (n_mbufs s m) (n_mbufs s request) payload_size\<rparr> in
         bindE (copy_segments cfg m header_len 0 segments s) (\<lambda>s.
         let total = ucast (header_len + segment_size cfg * num_segments cfg);
             s = upd_mbuf m (\<lambda>b. b\<lparr>m_nb_segs := 1, m_pkt_len := total, m_len := total\<rparr>) s
         in Inr (0, heads @ [m], s))))"

definition process_request ::
  "server_cfg \<Rightarrow> nat \<Rightarrow> ptr list \<Rightarrow> ptr \<Rightarrow> net \<Rightarrow> (int \<times> ptr list \<times> net) res" where
  "process_request cfg pkt_idx heads request s =
     bindE (guardE NullDeref (request \<noteq> NULL)) (\<lambda>_.
     let payload = mbuf_data (n_mbufs s request) + of_nat FULL_HEADER_SIZE;
         payload_len = ucast (mbuf_length (n_mbufs s request) - of_nat FULL_HEADER_SIZE) :: u64 in
     bindE (read_segments cfg (n_mem s) payload) (\<lambda>segments.
     let s = (if read_incoming_packet cfg = 1 then
           let amt_to_add = 64 - sizeof_OutgoingHeader;
               checksum = calculate_checksum (n_mem s) payload amt_to_add payload_len
           in s\<lparr>n_mem := st64 (n_mem s) (req_checksum (request_header_at cfg pkt_idx)) checksum\<rparr>
         else s) in
     if zero_copy cfg \<noteq> 0 then zero_copy_reply cfg pkt_idx heads request segments s
     else copy_reply cfg pkt_idx heads request segments s))"

primrec process_loop ::
  "server_cfg \<Rightarrow> ptr list \<Rightarrow> ptr list \<Rightarrow> net \<Rightarrow> (int \<times> ptr list \<times> net) res" where
  "process_loop cfg [] heads s = Inr (0, heads, s)"
| "process_loop cfg (request # requests) heads s =
     bindE (process_request cfg (length heads) heads request s) (\<lambda>(ret, heads, s).
     if ret \<noteq> 0 then Inr (ret, heads, s) else process_loop cfg requests heads s)"

definition process_server_requests ::
  "abi \<Rightarrow> (nat \<Rightarrow> net \<Rightarrow> net) \<Rightarrow> nat \<Rightarrow> server_cfg \<Rightarrow> ptr list \<Rightarrow> net \<Rightarrow> (int \<times> net) res" where
  "process_server_requests A dev fuel cfg requests s =
     (if echo_mode cfg = 1 then process_echo_requests A dev fuel cfg requests s
      else
        bindE (guardE OutOfBounds (length requests \<le> BATCH_SIZE)) (\<lambda>_.
        bindE (process_loop cfg requests [] s) (\<lambda>(ret, heads, s).
        if ret \<noteq> 0 then Inr (ret, s)
        else bindE (post_mbufs A dev fuel cfg heads s) (\<lambda>(ret, s). Inr (0, s)))))"

section \<open>The receive loop\<close>

definition free_batch :: "ptr list \<Rightarrow> net \<Rightarrow> (ptr list \<times> net) res" where
  "free_batch batch s = bindE (foldE free_mbuf batch s) (\<lambda>s. Inr (map (\<lambda>_. NULL) batch, s))"

definition finish_batch ::
  "abi \<Rightarrow> (nat \<Rightarrow> net \<Rightarrow> net) \<Rightarrow> nat \<Rightarrow> server_cfg \<Rightarrow> ptr list \<Rightarrow> net \<Rightarrow> net res" where
  "finish_batch A dev fuel cfg batch s =
     bindE (process_server_requests A dev fuel cfg batch s) (\<lambda>(ret, s).
     bindE (if ret \<noteq> 0 then free_batch batch s else Inr (batch, s)) (\<lambda>(batch, s).
     bindE (if echo_mode cfg = 0 then free_batch batch s else Inr (batch, s)) (\<lambda>(batch, s).
     Inr s)))"

primrec server_burst ::
  "abi \<Rightarrow> (nat \<Rightarrow> net \<Rightarrow> net) \<Rightarrow> nat \<Rightarrow> server_cfg \<Rightarrow> ptr list \<Rightarrow> ptr list \<Rightarrow> net \<Rightarrow> net res" where
  "server_burst A dev fuel cfg [] batch s = Inr s"
| "server_burst A dev fuel cfg (pkt # pkts) batch s =
     (if check_valid_packet (n_mem s) (n_mbufs s pkt) (server_mac cfg) = None then
        bindE (free_mbuf pkt s) (server_burst A dev fuel cfg pkts batch)
      else if Suc (length batch) = BATCH_SIZE \<or> pkts = [] then
        bindE (finish_batch A dev fuel cfg (batch @ [pkt]) s) (server_burst A dev fuel cfg pkts [])
      else server_burst A dev fuel cfg pkts (batch @ [pkt]) s)"

text \<open>The first \<open>n\<close> rounds of the server's endless loop.\<close>

primrec do_server ::
  "abi \<Rightarrow> (nat \<Rightarrow> net \<Rightarrow> net) \<Rightarrow> nat \<Rightarrow> server_cfg \<Rightarrow> nat \<Rightarrow> net \<Rightarrow> net res" where
  "do_server A dev fuel cfg 0 s = Inr s"
| "do_server A dev fuel cfg (Suc n) s =
     bindE (mlx5_gather_rx A BURST_SIZE (dev n s)) (\<lambda>(pkts, s).
     bindE (server_burst A dev fuel cfg pkts [] s) (do_server A dev fuel cfg n))"

end
