(* ===== verification/Time.thy ===== *)
theory Time
  imports Prelude
begin

text \<open>
  time.c, inc/base/time.h, inc/asm/ops.h and busy_work.c: conversions between cycles and
  time, the spinning delay and the calibration of the busy work. The time stamp counter is a
  sequence of readings; a program that reads it carries the number of readings taken so far.
  Arithmetic on \<open>float\<close> is a parameter where it occurs.
\<close>

section \<open>The time stamp counter\<close>

type_synonym tsc = "nat \<Rightarrow> u64"

text \<open>The two halves \<open>rdtsc\<close> and \<open>rdtscp\<close> return, in registers \<open>a\<close> and \<open>d\<close>.\<close>

definition rdtsc_value :: "u32 \<Rightarrow> u32 \<Rightarrow> u64" where
  "rdtsc_value a d = ucast a OR push_bit 32 (ucast d)"

definition rdtsc :: "tsc \<Rightarrow> nat \<Rightarrow> u64 \<times> nat" where
  "rdtsc clk t = (clk t, Suc t)"

lemma rdtsc_value_nat: "unat (rdtsc_value a d) = unat a + 2 ^ 32 * unat d"
proof -
  have "unat a < 2 ^ 32" "unat d < 2 ^ 32" using unat_bound [of a] unat_bound [of d] by simp_all
  then have b: "unat a + unat d * 2 ^ 32 < 2 ^ 64" by simp
  have "ucast a AND push_bit 32 (ucast d :: u64) = 0"
    by (rule bit_eqI) (auto simp: bit_simps dest: bit_imp_le_length)
  then have "rdtsc_value a d = ucast a + push_bit 32 (ucast d)"
    by (simp add: rdtsc_value_def disjunctive_add_eq_or)
  also have "\<dots> = of_nat (unat a + unat d * 2 ^ 32)"
    by (simp add: push_bit_eq_mult)
  finally show ?thesis
    using unat_of_nat_less [where 'a = 64, of "unat a + unat d * 2 ^ 32"] b by (simp only: mult.commute) simp
qed

section \<open>Conversions\<close>

text \<open>\<open>cycles_per_us\<close> is an \<open>int\<close>, converted to 64 bits where it meets a \<open>uint64_t\<close>.\<close>

abbreviation (input) ONE_SECOND :: u64 where "ONE_SECOND \<equiv> 1000000"
abbreviation (input) ONE_MS :: u64 where "ONE_MS \<equiv> 1000"

definition cycles_to_us :: "u32 \<Rightarrow> u64 \<Rightarrow> u64 res" where
  "cycles_to_us cycles_per_us a = bindE (guardE DivByZero (cycles_per_us \<noteq> 0)) (\<lambda>_. Inr (a div scast cycles_per_us))"

definition us_to_cycles :: "u32 \<Rightarrow> u64 \<Rightarrow> u64" where
  "us_to_cycles cycles_per_us a = a * scast cycles_per_us"

definition cycles_intersend :: "u32 \<Rightarrow> u64 \<Rightarrow> u64 res" where
  "cycles_intersend cycles_per_us rate_pps =
     bindE (guardE DivByZero (rate_pps \<noteq> 0)) (\<lambda>_. Inr (ONE_SECOND div rate_pps * scast cycles_per_us))"

definition time_intersend :: "u64 \<Rightarrow> u64 res" where
  "time_intersend rate_pps = bindE (guardE DivByZero (rate_pps \<noteq> 0)) (\<lambda>_. Inr (ONE_SECOND * 1000 div rate_pps))"

definition seconds_to_cycles :: "u32 \<Rightarrow> u64 \<Rightarrow> u64" where
  "seconds_to_cycles cycles_per_us sec = sec * scast cycles_per_us * ONE_SECOND"

definition cycles_offset :: "u64 \<Rightarrow> tsc \<Rightarrow> u64 \<Rightarrow> nat \<Rightarrow> u64 \<times> nat" where
  "cycles_offset start_tsc clk base t = (let (c, t) = rdtsc clk t in ((c - start_tsc) - base, t))"

definition cycletime :: "u64 \<Rightarrow> tsc \<Rightarrow> nat \<Rightarrow> u64 \<times> nat" where
  "cycletime start_tsc clk t = (let (c, t) = rdtsc clk t in (c - start_tsc, t))"

definition microcycles :: "u64 \<Rightarrow> tsc \<Rightarrow> nat \<Rightarrow> u64 \<times> nat" where
  "microcycles start_tsc clk t = (let (c, t) = rdtsc clk t in (c - start_tsc, t))"

text \<open>\<open>to_ns\<close> stands for the \<open>float\<close> division by \<open>cycles_per_ns\<close>.\<close>

definition cycles_to_ns :: "(u64 \<Rightarrow> u64) \<Rightarrow> u64 \<Rightarrow> u64" where
  "cycles_to_ns to_ns cycles = to_ns cycles"

definition nanotime :: "(u64 \<Rightarrow> u64) \<Rightarrow> u64 \<Rightarrow> tsc \<Rightarrow> nat \<Rightarrow> u64 \<times> nat" where
  "nanotime to_ns start_tsc clk t = (let (c, t) = rdtsc clk t in (to_ns (c - start_tsc), t))"

definition microtime :: "u32 \<Rightarrow> u64 \<Rightarrow> tsc \<Rightarrow> nat \<Rightarrow> (u64 \<times> nat) res" where
  "microtime cycles_per_us start_tsc clk t = (let (c, t) = rdtsc clk t in
     bindE (cycles_to_us cycles_per_us (c - start_tsc)) (\<lambda>us. Inr (us, t)))"

section \<open>Spinning\<close>

text \<open>The loop of \<open>__time_delay_us\<close>, at most \<open>fuel\<close> rounds of it.\<close>

primrec spin :: "nat \<Rightarrow> tsc \<Rightarrow> u64 \<Rightarrow> u64 \<Rightarrow> nat \<Rightarrow> nat res" where
  "spin 0 clk start cycles t = Inl NoFuel"
| "spin (Suc fuel) clk start cycles t =
     (let (c, t) = rdtsc clk t in if c - start < cycles then spin fuel clk start cycles t else Inr t)"

definition time_delay_us :: "nat \<Rightarrow> tsc \<Rightarrow> u32 \<Rightarrow> u64 \<Rightarrow> nat \<Rightarrow> nat res" where
  "time_delay_us fuel clk cycles_per_us us t =
     (let cycles = us * scast cycles_per_us;
          (start, t) = rdtsc clk t
      in spin fuel clk start cycles t)"

definition delay_us :: "nat \<Rightarrow> tsc \<Rightarrow> u32 \<Rightarrow> u64 \<Rightarrow> nat \<Rightarrow> nat res" where
  "delay_us fuel clk cycles_per_us us t = time_delay_us fuel clk cycles_per_us us t"

definition delay_ms :: "nat \<Rightarrow> tsc \<Rightarrow> u32 \<Rightarrow> u64 \<Rightarrow> nat \<Rightarrow> nat res" where
  "delay_ms fuel clk cycles_per_us ms t = time_delay_us fuel clk cycles_per_us (ms * ONE_MS) t"

text \<open>A counter that advances with every reading, by less than a full turn in all over \<open>n\<close> readings.\<close>

definition advancing :: "tsc \<Rightarrow> nat \<Rightarrow> nat \<Rightarrow> bool" where
  "advancing clk t n \<longleftrightarrow> (\<forall>i<n. unat (clk (t + i) - clk t) < unat (clk (t + Suc i) - clk t))"

lemma advancing_ge:
  assumes "advancing clk t n" "i \<le> n"
  shows "i \<le> unat (clk (t + i) - clk t)"
  using assms(2)
proof (induction i)
  case (Suc i)
  then have "unat (clk (t + i) - clk t) < unat (clk (t + Suc i) - clk t)" using assms(1) by (simp add: advancing_def)
  then show ?case using Suc by simp
qed simp

lemma spin_eq:
  assumes "\<forall>i<k. clk (t + i) - start < cycles" "cycles \<le> clk (t + k) - start" "k < fuel"
  shows "spin fuel clk start cycles t = Inr (t + Suc k)"
  using assms
proof (induction fuel arbitrary: t k)
  case (Suc fuel)
  show ?case
  proof (cases k)
    case 0
    then show ?thesis using Suc.prems by (auto simp: rdtsc_def dest: leD)
  next
    case (Suc k')
    have "\<forall>i<k'. clk (Suc t + i) - start < cycles"
    proof (intro allI impI)
      fix i
      assume "i < k'"
      then have "Suc i < k" using Suc by simp
      then show "clk (Suc t + i) - start < cycles" using Suc.prems(1) by fastforce
    qed
    then have "spin fuel clk start cycles (Suc t) = Inr (Suc t + Suc k')"
      using Suc.prems(2,3) Suc by (intro Suc.IH) simp_all
    moreover have "clk t - start < cycles" using Suc.prems(1) Suc by force
    ultimately show ?thesis using Suc by (simp add: rdtsc_def)
  qed
qed simp

text \<open>
  C23. A delay ends at the first reading of the counter that lies the requested
  number of cycles behind the first one: as soon as the counter has advanced that often the loop has
  returned, and it has not returned before.
\<close>

theorem delay_returns:
  assumes "cycles = us * scast cycles_per_us" "advancing clk t (unat cycles)" "unat cycles < fuel"
  shows "\<exists>k\<le>unat cycles. time_delay_us fuel clk cycles_per_us us t = Inr (t + Suc (Suc k))
    \<and> cycles \<le> clk (t + Suc k) - clk t \<and> (\<forall>i<k. clk (t + Suc i) - clk t < cycles)"
proof -
  let ?P = "\<lambda>k. cycles \<le> clk (t + Suc k) - clk t"
  have ex: "\<exists>k. k \<le> unat cycles \<and> ?P k"
  proof (cases "unat cycles")
    case 0
    then have "cycles = 0" by (simp add: unat_eq_0)
    then show ?thesis by (intro exI [of _ 0]) simp
  next
    case (Suc n)
    then have "unat cycles \<le> unat (clk (t + Suc n) - clk t)" using advancing_ge [OF assms(2), of "Suc n"] by simp
    then show ?thesis using Suc by (intro exI [of _ n]) (simp add: word_le_nat_alt)
  qed
  define k where "k = (LEAST k. k \<le> unat cycles \<and> ?P k)"
  have k: "k \<le> unat cycles" "?P k" using LeastI_ex [OF ex] by (simp_all add: k_def)
  have least: "clk (t + Suc i) - clk t < cycles" if "i < k" for i
    using not_less_Least [of i "\<lambda>k. k \<le> unat cycles \<and> ?P k"] that k(1) by (auto simp: k_def not_le)
  have "spin fuel clk (clk t) cycles (Suc t) = Inr (Suc t + Suc k)"
    using least k assms(3) by (intro spin_eq) simp_all
  then show ?thesis using k least assms(1) by (intro exI [of _ k]) (simp add: time_delay_us_def rdtsc_def)
qed

lemma delay_returns_witness:
  "time_delay_us 100 of_nat 3 2 0 = Inr 7"
proof -
  have "advancing of_nat 0 (unat (6 :: u64))" by (auto simp: advancing_def unat_of_nat_less simp del: of_nat_Suc)
  then obtain k where k: "k \<le> 6" "time_delay_us 100 of_nat 3 2 0 = Inr (Suc (Suc k))"
    "(6 :: u64) \<le> of_nat (Suc k)" "\<forall>i<k. (of_nat (Suc i) :: u64) < 6"
    using delay_returns [of 6 2 3 of_nat 0 100] by auto
  have "6 \<le> Suc k" using k(1,3) by (simp add: word_le_nat_alt unat_of_nat_less del: of_nat_Suc)
  moreover have "\<not> 5 < k" using spec [OF k(4), of 5] by auto
  ultimately show ?thesis using k(2) by (simp add: le_Suc_eq)
qed

section \<open>Busy work\<close>

text \<open>
  \<open>do_busy_work\<close> computes a number nothing reads; how long it takes shows in the
  counter only. \<open>mean\<close> stands for the \<open>float\<close> quotient of the cycles and the number of
  trials, converted to nanoseconds.
\<close>

primrec trial_loop :: "nat \<Rightarrow> u64 \<Rightarrow> tsc \<Rightarrow> u64 \<Rightarrow> u64 \<Rightarrow> u64 \<Rightarrow> nat \<Rightarrow> (u64 \<times> nat) res" where
  "trial_loop 0 start_tsc clk trials i tot t = Inl NoFuel"
| "trial_loop (Suc fuel) start_tsc clk trials i tot t =
     (if i < trials then
        let (start, t) = cycletime start_tsc clk t;
            (stop, t) = cycletime start_tsc clk t;
            tot = tot + (stop - start);
            i = i + 1
        in trial_loop fuel start_tsc clk trials (i + 1) tot t
      else Inr (tot, t))"

definition time_iterations :: "(u64 \<Rightarrow> u64 \<Rightarrow> u64) \<Rightarrow> u64 \<Rightarrow> tsc \<Rightarrow> u64 \<Rightarrow> nat \<Rightarrow> (u64 \<times> nat) res" where
  "time_iterations mean start_tsc clk iterations t =
     (let trials = 100 in
      bindE (trial_loop 101 start_tsc clk trials 0 0 t) (\<lambda>(tot, t). Inr (mean tot trials, t)))"

text \<open>
  The two searches of \<open>calibrate_busy_work\<close>, for a measurement \<open>tm\<close> of a number of iterations. Whether
  they end depends on the measurements, so the number of rounds is bounded by fuel. The warning
  printed at the end measures the result once more.
\<close>

primrec grow :: "nat \<Rightarrow> (u64 \<Rightarrow> nat \<Rightarrow> (u64 \<times> nat) res) \<Rightarrow> u64 \<Rightarrow> u64 \<Rightarrow> nat \<Rightarrow> (u64 \<times> nat) res" where
  "grow 0 tm target_ns iterations t = Inl NoFuel"
| "grow (Suc fuel) tm target_ns iterations t = bindE (tm iterations t) (\<lambda>(ns, t).
     if ns < target_ns then grow fuel tm target_ns (iterations * 2) t else Inr (iterations, t))"

primrec shrink :: "nat \<Rightarrow> (u64 \<Rightarrow> nat \<Rightarrow> (u64 \<times> nat) res) \<Rightarrow> u64 \<Rightarrow> u64 \<Rightarrow> nat \<Rightarrow> (u64 \<times> nat) res" where
  "shrink 0 tm target_ns iterations t = Inl NoFuel"
| "shrink (Suc fuel) tm target_ns iterations t = bindE (tm iterations t) (\<lambda>(ns, t).
     if target_ns < ns then shrink fuel tm target_ns (iterations - 1) t else Inr (iterations, t))"

definition calibrate_busy_work ::
  "nat \<Rightarrow> nat \<Rightarrow> (u64 \<Rightarrow> nat \<Rightarrow> (u64 \<times> nat) res) \<Rightarrow> u64 \<Rightarrow> nat \<Rightarrow> (u64 \<times> nat) res" where
  "calibrate_busy_work fuel1 fuel2 tm target_us t =
     (let target_ns = target_us * 1000 in
      bindE (if 0 < target_us then
          bindE (grow fuel1 tm target_ns 1 t) (\<lambda>(iterations, t). shrink fuel2 tm target_ns iterations t)
        else Inr (0, t)) (\<lambda>(iterations, t).
      bindE (tm iterations t) (\<lambda>(ns, t). Inr (iterations, t))))"

text \<open>The trials counter is incremented twice a round: half of the hundred trials are made.\<close>

lemma trial_loop_eq:
  assumes "unat (trials - i) = 2 * n" "i \<le> trials" "n < fuel"
  shows "trial_loop fuel start_tsc clk trials i tot t =
    Inr (tot + (\<Sum>k<n. clk (t + 2 * k + 1) - clk (t + 2 * k)), t + 2 * n)"
  using assms
proof (induction fuel arbitrary: i tot t n)
  case (Suc fuel)
  show ?case
  proof (cases n)
    case 0
    then have "i = trials" using Suc.prems(1) by (simp add: unat_eq_0)
    then show ?thesis using 0 by simp
  next
    case (Suc m)
    have lt: "unat (trials - i) = unat trials - unat i" "unat i \<le> unat trials" using Suc.prems(2)
      by (simp_all add: unat_sub word_le_nat_alt)
    have "unat i + 2 < 2 ^ 64" using lt Suc.prems(1) Suc unat_bound [of trials] by simp
    then have i2: "unat (i + 2) = unat i + 2" by (simp add: unat_word_ariths)
    then have "i + 2 \<le> trials" using lt Suc.prems(1) Suc by (simp add: word_le_nat_alt)
    moreover from this have "unat (trials - (i + 2)) = 2 * m"
      using lt Suc.prems(1) Suc i2 by (simp add: unat_sub)
    ultimately have "trial_loop fuel start_tsc clk trials (i + 2) (tot + (clk (t + 1) - clk t)) (t + 2) =
        Inr (tot + (clk (t + 1) - clk t) + (\<Sum>k<m. clk (t + 2 + 2 * k + 1) - clk (t + 2 + 2 * k)), t + 2 + 2 * m)"
      using Suc.prems(3) Suc by (intro Suc.IH) simp_all
    moreover have "(\<Sum>k<Suc m. clk (t + 2 * k + 1) - clk (t + 2 * k))
      = (clk (t + 1) - clk t) + (\<Sum>k<m. clk (t + 2 + 2 * k + 1) - clk (t + 2 + 2 * k))"
      by (subst sum.lessThan_Suc_shift) (simp add: add_ac)
    moreover have "i < trials" using lt Suc.prems(1) Suc by (simp add: word_less_nat_alt)
    ultimately show ?thesis using Suc
      by (simp add: cycletime_def rdtsc_def Let_def add.commute [of 2] add.assoc)
  qed
qed simp

lemma time_iterations_fifty:
  "time_iterations mean start_tsc clk n t = Inr (mean (\<Sum>k<50. clk (t + 2 * k + 1) - clk (t + 2 * k)) 100, t + 100)"
  using trial_loop_eq [of 100 0 50 101] by (simp add: time_iterations_def)

end
