(* ===== verification/Args.thy ===== *)
theory Args
  imports Scan Server Time
begin

text \<open>
  The static configuration of main.c and \<open>parse_args\<close>. What \<open>getopt_long\<close> returns is the argument: the list of option letters
  with the argument of each, if it has one; a letter that is not an option stands for what it reports as unknown.
\<close>

abbreviation (input) UDP_CLIENT :: u8 where "UDP_CLIENT \<equiv> 0"
abbreviation (input) UDP_SERVER :: u8 where "UDP_SERVER \<equiv> 1"

record settings =
  s_mode :: u8
  s_pci :: pci_addr
  s_client_mac :: "u8 list"
  s_server_mac :: "u8 list"
  s_client_ip :: u32
  s_server_ip :: u32
  s_client_port :: u32
  s_server_port :: u32
  s_num_segments :: u64
  s_segment_size :: u64
  s_working_set_size :: u64
  s_busy_work_us :: u64
  s_busy_iters :: u64
  s_zero_copy :: int
  s_using_ref_counting :: int
  s_rate_pps :: u64
  s_total_time :: u64
  s_latency_log :: "string option"
  s_ready_file :: "string option"
  s_read_incoming_packet :: int
  s_echo_mode :: int
  s_num_refcnt_arrays :: u64
  s_num_total_segments :: u64

text \<open>The initial values of the static variables.\<close>

definition default_settings :: settings where
  "default_settings = \<lparr>s_mode = 0, s_pci = \<lparr>domain = 0, bus = 0, slot_no = 0, func_no = 0\<rparr>,
     s_client_mac = replicate 6 0, s_server_mac = replicate 6 0, s_client_ip = 0, s_server_ip = 0,
     s_client_port = 54321, s_server_port = 54321, s_num_segments = 1, s_segment_size = 1024, s_working_set_size = 16384,
     s_busy_work_us = 0, s_busy_iters = 0, s_zero_copy = 1, s_using_ref_counting = 0, s_rate_pps = 5000, s_total_time = 2,
     s_latency_log = None, s_ready_file = None, s_read_incoming_packet = 0, s_echo_mode = 0, s_num_refcnt_arrays = 1,
     s_num_total_segments = 16384\<rparr>"

text \<open>A missing argument is the null pointer; every function it is passed to reads through it.\<close>

definition arg_of :: "string option \<Rightarrow> string res" where
  "arg_of a = (case a of None \<Rightarrow> Inl NullDeref | Some s \<Rightarrow> Inr s)"

text \<open>The result of \<open>str_to_long\<close> is not looked at; the number is taken as it is left. The error number of the process is threaded through.\<close>

definition long_arg :: "string option \<Rightarrow> int \<Rightarrow> (u64 \<times> int) res" where
  "long_arg a err = bindE (arg_of a) (\<lambda>s. case str_to_long s err of (_, tmp, err) \<Rightarrow> Inr (of_int tmp, err))"

text \<open>The three kinds of cases: an argument that is parsed and can be refused, a number, and a flag.\<close>

definition on_str :: "(string \<Rightarrow> settings \<Rightarrow> int \<times> settings) \<Rightarrow> string option \<Rightarrow> settings \<times> int \<Rightarrow> (int \<times> settings \<times> int) res" where
  "on_str f a st = (case st of (s, err) \<Rightarrow> bindE (arg_of a) (\<lambda>v. case f v s of (ret, s) \<Rightarrow>
     if ret \<noteq> 0 then Inr (- EINVAL, s, err) else Inr (0, s, err)))"

definition on_long :: "(u64 \<Rightarrow> settings \<Rightarrow> settings) \<Rightarrow> string option \<Rightarrow> settings \<times> int \<Rightarrow> (int \<times> settings \<times> int) res" where
  "on_long f a st = (case st of (s, err) \<Rightarrow> bindE (long_arg a err) (\<lambda>(tmp, err). Inr (0, f tmp s, err)))"

definition on_flag :: "(settings \<Rightarrow> settings) \<Rightarrow> settings \<times> int \<Rightarrow> (int \<times> settings \<times> int) res" where
  "on_flag f st = (case st of (s, err) \<Rightarrow> Inr (0, f s, err))"

definition set_mode :: "string \<Rightarrow> settings \<Rightarrow> int \<times> settings" where
  "set_mode v s = (if v = ''CLIENT'' then (0, s\<lparr>s_mode := UDP_CLIENT\<rparr>)
     else if v = ''SERVER'' then (0, s\<lparr>s_mode := UDP_SERVER\<rparr>) else (- EINVAL, s))"

definition set_pci :: "string \<Rightarrow> settings \<Rightarrow> int \<times> settings" where
  "set_pci v s = (case pci_str_to_addr v (s_pci s) of (ret, p) \<Rightarrow> (ret, s\<lparr>s_pci := p\<rparr>))"

definition set_client_mac :: "string \<Rightarrow> settings \<Rightarrow> int \<times> settings" where
  "set_client_mac v s = (case str_to_mac v (s_client_mac s) of (ret, m) \<Rightarrow> (ret, s\<lparr>s_client_mac := m\<rparr>))"

definition set_server_mac :: "string \<Rightarrow> settings \<Rightarrow> int \<times> settings" where
  "set_server_mac v s = (case str_to_mac v (s_server_mac s) of (ret, m) \<Rightarrow> (ret, s\<lparr>s_server_mac := m\<rparr>))"

definition set_client_ip :: "string \<Rightarrow> settings \<Rightarrow> int \<times> settings" where
  "set_client_ip v s = (case str_to_ip v (s_client_ip s) of (ret, ip) \<Rightarrow> (ret, s\<lparr>s_client_ip := ip\<rparr>))"

definition set_server_ip :: "string \<Rightarrow> settings \<Rightarrow> int \<times> settings" where
  "set_server_ip v s = (case str_to_ip v (s_server_ip s) of (ret, ip) \<Rightarrow> (ret, s\<lparr>s_server_ip := ip\<rparr>))"

text \<open>One round of the switch: a return value, and the new settings and error number. \<open>calibrate\<close> stands for \<open>calibrate_busy_work\<close>.\<close>

definition parse_opt :: "(u64 \<Rightarrow> u64 res) \<Rightarrow> char \<Rightarrow> string option \<Rightarrow> settings \<times> int \<Rightarrow> (int \<times> settings \<times> int) res" where
  "parse_opt calibrate c a st =
     (if c = CHR ''m'' then on_str set_mode a st
      else if c = CHR ''w'' then on_str set_pci a st
      else if c = CHR ''c'' then on_str set_client_mac a st
      else if c = CHR ''e'' then on_str set_server_mac a st
      else if c = CHR ''i'' then on_str set_client_ip a st
      else if c = CHR ''s'' then on_str set_server_ip a st
      else if c = CHR ''k'' then on_long (\<lambda>tmp. s_num_segments_update (\<lambda>_. tmp)) a st
      else if c = CHR ''q'' then on_long (\<lambda>tmp. s_segment_size_update (\<lambda>_. tmp)) a st
      else if c = CHR ''a'' then on_long (\<lambda>tmp. s_working_set_size_update (\<lambda>_. tmp)) a st
      else if c = CHR ''y'' then
        bindE (on_long (\<lambda>tmp. s_busy_work_us_update (\<lambda>_. tmp)) a st) (\<lambda>(ret, s, err).
        bindE (calibrate (s_busy_work_us s)) (\<lambda>iters. Inr (ret, s\<lparr>s_busy_iters := iters\<rparr>, err)))
      else if c = CHR ''z'' then on_flag (s_zero_copy_update (\<lambda>_. 0)) st
      else if c = CHR ''g'' then on_flag (s_using_ref_counting_update (\<lambda>_. 1)) st
      else if c = CHR ''r'' then on_long (\<lambda>tmp. s_rate_pps_update (\<lambda>_. tmp)) a st
      else if c = CHR ''t'' then on_long (\<lambda>tmp. s_total_time_update (\<lambda>_. tmp)) a st
      else if c = CHR ''l'' then on_str (\<lambda>v s. (0, s\<lparr>s_latency_log := Some v\<rparr>)) a st
      else if c = CHR ''d'' then on_flag (s_read_incoming_packet_update (\<lambda>_. 1)) st
      else if c = CHR ''b'' then on_flag (s_echo_mode_update (\<lambda>_. 1)) st
      else if c = CHR ''f'' then on_str (\<lambda>v s. (0, s\<lparr>s_ready_file := Some v\<rparr>)) a st
      else if c = CHR ''h'' then on_long (\<lambda>tmp. s_num_refcnt_arrays_update (\<lambda>_. tmp)) a st
      else Inl (Exit 1))"

text \<open>The number of segments is recomputed after every option.\<close>

primrec parse_args :: "(u64 \<Rightarrow> u64 res) \<Rightarrow> (char \<times> string option) list \<Rightarrow> settings \<times> int \<Rightarrow> (int \<times> settings \<times> int) res" where
  "parse_args calibrate [] st = Inr (0, st)"
| "parse_args calibrate (opt # opts) st =
     bindE (parse_opt calibrate (fst opt) (snd opt) st) (\<lambda>(ret, s, err).
     if ret \<noteq> 0 then Inr (ret, s, err)
     else bindE (guardE DivByZero (s_segment_size s \<noteq> 0)) (\<lambda>_.
       parse_args calibrate opts (s\<lparr>s_num_total_segments := s_working_set_size s div s_segment_size s\<rparr>, err)))"

section \<open>What parsing leaves\<close>

definition settings_typed :: "settings \<Rightarrow> bool" where
  "settings_typed s \<longleftrightarrow> (s_mode s = UDP_CLIENT \<or> s_mode s = UDP_SERVER) \<and> length (s_client_mac s) = 6 \<and> length (s_server_mac s) = 6
     \<and> (s_zero_copy s = 0 \<or> s_zero_copy s = 1) \<and> (s_echo_mode s = 0 \<or> s_echo_mode s = 1)
     \<and> (s_read_incoming_packet s = 0 \<or> s_read_incoming_packet s = 1) \<and> (s_using_ref_counting s = 0 \<or> s_using_ref_counting s = 1)"

definition segments_consistent :: "settings \<Rightarrow> bool" where
  "segments_consistent s \<longleftrightarrow> s_segment_size s \<noteq> 0 \<and> s_num_total_segments s = s_working_set_size s div s_segment_size s"

lemma on_str_typed:
  assumes "on_str f a (s, err) = Inr (ret, s', err')" "settings_typed s" "\<And>v. settings_typed (snd (f v s))"
  shows "settings_typed s'"
  using assms(1,2) assms(3) by (auto simp: on_str_def elim!: bindE_InrE split: if_splits prod.splits) (metis snd_conv)+

lemma on_long_typed:
  assumes "on_long f a (s, err) = Inr (ret, s', err')" "\<And>v. settings_typed (f v s)"
  shows "settings_typed s'"
  using assms by (auto simp: on_long_def elim!: bindE_InrE)

lemma set_typed:
  assumes "settings_typed s"
  shows "settings_typed (snd (set_mode v s))" "settings_typed (snd (set_pci v s))" "settings_typed (snd (set_client_mac v s))"
    "settings_typed (snd (set_server_mac v s))" "settings_typed (snd (set_client_ip v s))" "settings_typed (snd (set_server_ip v s))"
  using assms by (auto simp: settings_typed_def set_mode_def set_pci_def set_client_mac_def set_server_mac_def set_client_ip_def
      set_server_ip_def str_to_mac_def Let_def split: prod.split if_split)

lemma typed_updates:
  assumes "settings_typed s"
  shows "settings_typed (s_num_segments_update f s)" "settings_typed (s_segment_size_update f s)"
    "settings_typed (s_working_set_size_update f s)" "settings_typed (s_busy_work_us_update f s)" "settings_typed (s_busy_iters_update f s)"
    "settings_typed (s_rate_pps_update f s)" "settings_typed (s_total_time_update f s)" "settings_typed (s_latency_log_update g s)"
    "settings_typed (s_ready_file_update g s)" "settings_typed (s_num_refcnt_arrays_update f s)"
    "settings_typed (s_num_total_segments_update f s)" "settings_typed (s_zero_copy_update (\<lambda>_. 0) s)"
    "settings_typed (s_using_ref_counting_update (\<lambda>_. 1) s)" "settings_typed (s_read_incoming_packet_update (\<lambda>_. 1) s)"
    "settings_typed (s_echo_mode_update (\<lambda>_. 1) s)"
  using assms by (simp_all add: settings_typed_def)

lemma on_flag_typed: "on_flag f (s, err) = Inr (ret, s', err') \<Longrightarrow> settings_typed (f s) \<Longrightarrow> settings_typed s'"
  by (simp add: on_flag_def)

lemma busy_typed:
  assumes "bindE (on_long (\<lambda>tmp. s_busy_work_us_update (\<lambda>_. tmp)) a (s, err)) (\<lambda>(ret, s, err).
      bindE (calibrate (s_busy_work_us s)) (\<lambda>iters. Inr (ret, s\<lparr>s_busy_iters := iters\<rparr>, err))) = Inr (ret, s', err')"
    and "settings_typed s"
  shows "settings_typed s'"
proof -
  from assms(1) obtain r s1 e1 iters where "on_long (\<lambda>tmp. s_busy_work_us_update (\<lambda>_. tmp)) a (s, err) = Inr (r, s1, e1)"
    "s' = s1\<lparr>s_busy_iters := iters\<rparr>"
    by (auto elim!: bindE_InrE)
  then show ?thesis using on_long_typed typed_updates [OF assms(2)] typed_updates(5) by metis
qed

lemma parse_opt_typed:
  assumes "parse_opt calibrate c a (s, err) = Inr (ret, s', err')" "settings_typed s"
  shows "settings_typed s'"
  using assms(1) unfolding parse_opt_def
  by (simp only: split: if_split_asm)
    ((erule on_str_typed [OF _ assms(2)] on_long_typed on_flag_typed busy_typed; simp add: set_typed typed_updates assms(2))+, simp)

lemma parse_args_keeps:
  assumes "parse_args calibrate opts (s, err) = Inr (ret, s', err')" "settings_typed s"
  shows "settings_typed s' \<and> (ret = 0 \<and> (opts \<noteq> [] \<or> segments_consistent s) \<longrightarrow> segments_consistent s')"
  using assms
proof (induction opts arbitrary: s err)
  case (Cons opt opts)
  then obtain r s1 e1 where o: "parse_opt calibrate (fst opt) (snd opt) (s, err) = Inr (r, s1, e1)"
    "(if r \<noteq> 0 then Inr (r, s1, e1) else bindE (guardE DivByZero (s_segment_size s1 \<noteq> 0)) (\<lambda>_.
       parse_args calibrate opts (s1\<lparr>s_num_total_segments := s_working_set_size s1 div s_segment_size s1\<rparr>, e1))) = Inr (ret, s', err')"
    by (auto elim!: bindE_InrE)
  note t = parse_opt_typed [OF o(1) Cons.prems(2)]
  show ?case
  proof (cases "r = 0")
    case True
    let ?s = "s1\<lparr>s_num_total_segments := s_working_set_size s1 div s_segment_size s1\<rparr>"
    from True o(2) have nz: "s_segment_size s1 \<noteq> 0" and rest: "parse_args calibrate opts (?s, e1) = Inr (ret, s', err')"
      by (auto elim!: bindE_InrE)
    from nz have "segments_consistent ?s" by (simp add: segments_consistent_def)
    then show ?thesis using Cons.IH [OF rest typed_updates(11) [OF t]] by simp
  qed (use o(2) t in auto)
qed simp

text \<open>A segment size that is not a number, or zero, ends the process in the division behind the switch.\<close>

lemma zero_segment_size_crashes:
  assumes "strto 10 v = None"
  shows "parse_args calibrate ((CHR ''q'', Some v) # opts) (s, err) = Inl DivByZero"
  using assms by (simp add: parse_opt_def on_long_def long_arg_def arg_of_def str_to_long_def strtol_def)

text \<open>
  C35. After at least one option \<open>parse_args\<close> returns 0 only with a mode that is client or server, addresses of
  six bytes, flags that are 0 or 1, a segment size that is not zero and a number of segments that is the quotient of working set and segment size; and
  a segment size in which no number is found never gets there: it divides by zero.
\<close>

theorem parse_args_settings:
  assumes "parse_args calibrate opts (default_settings, err) = Inr (0, s', err')" "opts \<noteq> []"
  shows "settings_typed s' \<and> segments_consistent s'
    \<and> (\<forall>v. strto 10 v = None \<longrightarrow> parse_args calibrate ((CHR ''q'', Some v) # opts) (default_settings, err) = Inl DivByZero)"
proof -
  have "settings_typed default_settings" by (simp add: settings_typed_def default_settings_def)
  then show ?thesis using parse_args_keeps [OF assms(1)] assms(2) zero_segment_size_crashes by blast
qed

lemma parse_args_settings_witness:
  "\<exists>s' e'. parse_args Inr [(CHR ''m'', Some ''CLIENT''), (CHR ''q'', Some ''512''), (CHR ''z'', None)] (default_settings, 0) = Inr (0, s', e')
    \<and> settings_typed s' \<and> segments_consistent s' \<and> s_num_total_segments s' = 32"
proof -
  have "strto 10 ''512'' = Some (False, 512, [])" by code_simp
  then have "parse_args Inr [(CHR ''m'', Some ''CLIENT''), (CHR ''q'', Some ''512''), (CHR ''z'', None)] (default_settings, 0)
      = Inr (0, default_settings\<lparr>s_segment_size := 512, s_zero_copy := 0, s_num_total_segments := 32\<rparr>, 0)"
    by (simp add: parse_opt_def on_str_def on_long_def on_flag_def long_arg_def arg_of_def str_to_long_def strtol_def set_mode_def
        default_settings_def)
  from this parse_args_settings [OF this] show ?thesis by auto
qed

end
