(* ===== verification/Requests.thy ===== *)
theory Requests
  imports Server Time
begin

text \<open>
  requests.c: filling the working set of the server, the permutation through which a client
  chases pointers, and the table of requests a client sends. \<open>malloc\<close> may fail, which is an argument of
  the definitions; \<open>rnd\<close> is the sequence of values of \<open>rand\<close>; what \<open>float\<close> arithmetic
  yields is an argument too.
\<close>

section \<open>Allocation\<close>

text \<open>
  An array of \<open>n\<close> elements of \<open>sz\<close> bytes from \<open>malloc (sz * n)\<close>: the product wraps around.
  The elements start with a value that no program here reads before writing it.
\<close>

definition malloc_array :: "bool \<Rightarrow> u64 \<Rightarrow> u64 \<Rightarrow> 'a \<Rightarrow> 'a list option" where
  "malloc_array ok sz n x = (if ok then Some (replicate (unat (sz * n) div unat sz) x) else None)"

lemma malloc_array_fits:
  assumes "unat sz * unat n < 2 ^ 64" "sz \<noteq> 0"
  shows "malloc_array True sz n x = Some (replicate (unat n) x)"
proof -
  have "unat (sz * n) = unat sz * unat n" using assms(1) by (simp add: unat_word_ariths)
  moreover have "0 < unat sz" using assms(2) by (simp add: unat_gt_0)
  ultimately show ?thesis by (simp add: malloc_array_def)
qed

section \<open>The working set\<close>

definition alphabet :: "u8 list" where
  "alphabet = map (\<lambda>i. 97 + of_nat i) [0..<26]"

primrec fill_segments :: "ptr \<Rightarrow> u64 \<Rightarrow> u64 \<Rightarrow> nat \<Rightarrow> nat \<Rightarrow> mem \<Rightarrow> mem res" where
  "fill_segments memory sz i 0 cur m = Inr m"
| "fill_segments memory sz i (Suc n) cur m =
     bindE (nthE alphabet cur) (\<lambda>c.
     fill_segments memory sz (i + 1) n ((cur + 1) mod 26)
       (memset m (get_server_region memory i sz) c (unat sz)))"

definition initialize_server_memory :: "ptr \<Rightarrow> u64 \<Rightarrow> u64 \<Rightarrow> mem \<Rightarrow> (int \<times> mem) res" where
  "initialize_server_memory memory seg_size array_size m =
     bindE (guardE DivByZero (seg_size \<noteq> 0)) (\<lambda>_.
     if array_size mod seg_size \<noteq> 0 then Inr (- EINVAL, m)
     else bindE (fill_segments memory seg_size 0 (unat (array_size div seg_size)) 0 m) (\<lambda>m. Inr (0, m)))"

section \<open>Pointer chasing\<close>

definition shuffle_step :: "(nat \<Rightarrow> u64) \<Rightarrow> u64 \<Rightarrow> nat \<Rightarrow> u64 list \<Rightarrow> u64 list res" where
  "shuffle_step rnd tot i indices =
     bindE (guardE DivByZero (tot - of_nat i \<noteq> 0)) (\<lambda>_.
     let j = of_nat i + rnd i mod (tot - of_nat i) in
     if of_nat i \<noteq> j then
       bindE (nthE indices i) (\<lambda>tmp.
       bindE (nthE indices (unat j)) (\<lambda>v.
       bindE (updE indices i v) (\<lambda>indices.
       updE indices (unat j) tmp)))
     else Inr indices)"

definition initialize_pointer_chasing_at_client ::
  "(nat \<Rightarrow> bool) \<Rightarrow> (nat \<Rightarrow> u64) \<Rightarrow> u64 \<Rightarrow> u64 \<Rightarrow> (int \<times> u64 list) res" where
  "initialize_pointer_chasing_at_client malloc_ok rnd array_size seg_size =
     bindE (guardE DivByZero (seg_size \<noteq> 0)) (\<lambda>_.
     if array_size mod seg_size \<noteq> 0 then Inr (- EINVAL, [])
     else
       let tot = array_size div seg_size in
       case malloc_array (malloc_ok 0) 8 tot 0 of None \<Rightarrow> Inr (- ENOMEM, [])
       | Some indices \<Rightarrow>
         bindE (foldE (\<lambda>i ind. updE ind i (of_nat i)) [0..<unat tot] indices) (\<lambda>indices.
         bindE (foldE (shuffle_step rnd tot) [0..<unat (tot - 1)] indices) (\<lambda>indices.
         case malloc_array (malloc_ok 1) 8 tot 0 of None \<Rightarrow> Inr (- ENOMEM, [])
         | Some pointers \<Rightarrow>
           bindE (foldE (\<lambda>i ps. bindE (nthE indices i) (\<lambda>v. updE ps (i - 1) v)) [1..<unat tot] pointers) (\<lambda>pointers.
           bindE (nthE indices 0) (\<lambda>v.
           bindE (updE pointers (unat (tot - 1)) v) (\<lambda>pointers.
           Inr (0, pointers)))))))"

section \<open>The requests of a client\<close>

record RateDistribution =
  rate_pps :: u64
  total_time :: u64

record ClientRequest =
  timestamp_offset :: u64
  cr_packet_id :: u32
  cr_id_padding :: u32
  segment_offsets :: "u64 list"

text \<open>\<open>cycles\<close> stands for the \<open>float\<close> product with the cycles per nanosecond.\<close>

definition get_next_cycles_offset :: "(u64 \<Rightarrow> u64) \<Rightarrow> RateDistribution \<Rightarrow> u64 res" where
  "get_next_cycles_offset cycles rate = bindE (time_intersend (rate_pps rate)) (\<lambda>intersend. Inr (cycles intersend))"

text \<open>The next \<open>n\<close> segments of the chase, from entry \<open>i\<close> of the request on.\<close>

primrec chase_segments :: "u64 list \<Rightarrow> nat \<Rightarrow> nat \<Rightarrow> u64 list \<Rightarrow> u64 \<Rightarrow> (u64 list \<times> u64) res" where
  "chase_segments indices i 0 offs cur = Inr (offs, cur)"
| "chase_segments indices i (Suc n) offs cur =
     bindE (updE offs i cur) (\<lambda>offs.
     bindE (nthE indices (unat cur)) (\<lambda>cur.
     chase_segments indices (Suc i) n offs cur))"

definition fill_request ::
  "(u64 \<Rightarrow> u64) \<Rightarrow> RateDistribution \<Rightarrow> nat \<Rightarrow> u64 list \<Rightarrow> nat \<Rightarrow> ClientRequest list \<times> u64 \<Rightarrow> (ClientRequest list \<times> u64) res" where
  "fill_request cycles rate nseg indices iter st = (case st of (reqs, cur) \<Rightarrow>
     bindE (get_next_cycles_offset cycles rate) (\<lambda>ts.
     bindE (nthE reqs iter) (\<lambda>r.
     let r = r\<lparr>timestamp_offset := ts, cr_packet_id := of_nat iter, cr_id_padding := 0\<rparr> in
     bindE (chase_segments indices 0 nseg (segment_offsets r) cur) (\<lambda>(offs, cur).
     bindE (updE reqs iter (r\<lparr>segment_offsets := offs\<rparr>)) (\<lambda>reqs. Inr (reqs, cur))))))"

text \<open>
  \<open>padded\<close> stands for the \<open>float\<close> product of the time, the rate and the padding of
  a fifth, cut down to an integer; \<open>raw\<close> is what \<open>malloc\<close> leaves in a request.
\<close>

definition initialize_client_requests ::
  "(nat \<Rightarrow> bool) \<Rightarrow> (nat \<Rightarrow> u64) \<Rightarrow> (u64 \<Rightarrow> u64) \<Rightarrow> (u64 \<Rightarrow> u64 \<Rightarrow> u64) \<Rightarrow> ClientRequest \<Rightarrow> RateDistribution
    \<Rightarrow> u64 \<Rightarrow> u64 \<Rightarrow> u64 \<Rightarrow> (int \<times> ClientRequest list) res" where
  "initialize_client_requests malloc_ok rnd cycles padded raw rate seg_size nseg array_size =
     bindE (initialize_pointer_chasing_at_client malloc_ok rnd array_size seg_size) (\<lambda>(ret, indices).
     if ret \<noteq> 0 then Inr (ret, [])
     else
       let num_requests = padded (total_time rate) (rate_pps rate) + 1 in
       case malloc_array (malloc_ok 2) 272 num_requests raw of None \<Rightarrow> Inr (- ENOMEM, [])
       | Some reqs \<Rightarrow>
         bindE (foldE (fill_request cycles rate (unat nseg) indices) [0..<unat num_requests] (reqs, 0)) (\<lambda>(reqs, cur).
         Inr (ret, reqs)))"

section \<open>What the working set holds\<close>

definition letter :: "nat \<Rightarrow> u8" where
  "letter i = 97 + of_nat (i mod 26)"

definition segment_letters :: "nat \<Rightarrow> nat \<Rightarrow> u8 list" where
  "segment_letters sz n = concat (map (\<lambda>i. replicate sz (letter i)) [0..<n])"

lemma length_segment_letters [simp]: "length (segment_letters sz n) = n * sz"
  by (induction n) (simp_all add: segment_letters_def)

lemma segment_letters_Suc: "segment_letters sz (Suc n) = segment_letters sz n @ replicate sz (letter n)"
  by (simp add: segment_letters_def)

lemma nthE_alphabet: "nthE alphabet (i mod 26) = Inr (letter i)"
  by (simp add: alphabet_def letter_def)

lemma fill_segments_eq:
  assumes "(i + n) * unat sz \<le> 2 ^ 64"
  shows "fill_segments memory sz (of_nat i) n (i mod 26) (store_bytes m memory (segment_letters (unat sz) i))
    = Inr (store_bytes m memory (segment_letters (unat sz) (i + n)))"
  using assms
proof (induction n arbitrary: i)
  case (Suc n)
  let ?k = "unat sz"
  have "(Suc i) * ?k \<le> (i + Suc n) * ?k" by (intro mult_right_mono) simp_all
  then have "length (segment_letters ?k i) + length (replicate ?k (letter i)) \<le> 2 ^ 64"
    using order_trans [OF _ Suc.prems] by (simp add: add.commute)
  from store_bytes_append [OF this, of m memory]
  have "memset (store_bytes m memory (segment_letters ?k i)) (get_server_region memory (of_nat i) sz) (letter i) ?k
      = store_bytes m memory (segment_letters ?k (Suc i))"
    by (simp add: memset_def get_server_region_def segment_letters_Suc)
  moreover have "(i mod 26 + 1) mod 26 = Suc i mod 26" by (simp add: mod_Suc_eq)
  moreover have "(of_nat i + 1 :: u64) = of_nat (Suc i)" by simp
  ultimately show ?case using Suc.IH [of "Suc i"] Suc.prems
    by (simp only: fill_segments.simps nthE_alphabet bindE_simps) (simp add: add.commute)
qed simp

text \<open>
  The working set is filled segment by segment: every byte of segment \<open>i\<close> is the letter of
  number \<open>i mod 26\<close>, and nothing else is written; a size that is not a multiple of the segment size is refused.
\<close>

theorem server_memory_letters:
  assumes "seg_size \<noteq> 0"
  shows "initialize_server_memory memory seg_size array_size m =
    (if array_size mod seg_size = 0
     then Inr (0, store_bytes m memory (segment_letters (unat seg_size) (unat (array_size div seg_size))))
     else Inr (- EINVAL, m))"
proof -
  have "unat (array_size div seg_size) * unat seg_size \<le> unat array_size"
    by (simp add: unat_div_distrib)
  then have "(0 + unat (array_size div seg_size)) * unat seg_size \<le> 2 ^ 64" using unat_bound [of array_size] by simp
  from fill_segments_eq [OF this, of memory m] show ?thesis
    using assms by (simp add: initialize_server_memory_def segment_letters_def)
qed

lemma server_memory_letters_witness:
  "\<exists>m. initialize_server_memory 4096 2 6 (\<lambda>_. 0) = Inr (0, m) \<and> load_bytes m 4096 6 = [97, 97, 98, 98, 99, 99]"
proof -
  have "segment_letters (unat (2 :: u64)) (unat (6 div 2 :: u64)) = [97, 97, 98, 98, 99, 99]"
    by code_simp
  moreover have "(6 :: u64) mod 2 = 0" by simp
  ultimately show ?thesis using server_memory_letters [of 2 4096 6 "\<lambda>_. 0"]
    by (simp add: load_store_same)
qed

section \<open>The chase\<close>

lemma foldE_fill:
  assumes "n \<le> length xs" "\<And>i ys. i < n \<Longrightarrow> length ys = length xs \<Longrightarrow> f i ys = updE ys i (g i)"
  shows "foldE f [0..<n] xs = Inr (map g [0..<n] @ drop n xs)"
  using assms
proof (induction n)
  case (Suc n)
  have "foldE f [0..<n] xs = Inr (map g [0..<n] @ drop n xs)" using Suc.prems by (intro Suc.IH) simp_all
  moreover have "f n (map g [0..<n] @ drop n xs) = updE (map g [0..<n] @ drop n xs) n (g n)"
    using Suc.prems(1) by (intro Suc.prems(2)) simp_all
  ultimately show ?case using Suc.prems(1) by (simp add: list_update_append Cons_nth_drop_Suc [symmetric])
qed simp

lemma shuffle_step_perm:
  assumes "i < unat tot" "length ind = unat tot"
  shows "\<exists>ind'. shuffle_step rnd tot i ind = Inr ind' \<and> mset ind' = mset ind"
proof -
  have i: "unat (of_nat i :: u64) = i" using assms(1) unat_bound [of tot] by (intro unat_of_nat_less) simp
  then have d: "unat (tot - of_nat i) = unat tot - i" using assms(1) by (simp add: unat_sub word_le_nat_alt)
  let ?j = "of_nat i + rnd i mod (tot - of_nat i)"
  have "unat (rnd i mod (tot - of_nat i)) < unat tot - i"
    using assms(1) d by (simp add: unat_mod_distrib)
  then have "unat ?j = i + unat (rnd i mod (tot - of_nat i))" "unat ?j < unat tot"
    using i assms(1) unat_bound [of tot] by (simp_all add: unat_word_ariths)
  then have j: "unat ?j < length ind" using assms(2) by simp
  have "tot - of_nat i \<noteq> 0" using d assms(1) by (auto simp: unat_eq_0)
  then show ?thesis using j assms mset_swap [of "unat ?j" ind i]
    by (simp add: shuffle_step_def Let_def)
qed

lemma shuffle_perm:
  assumes "length ind = unat tot" "n \<le> unat tot"
  shows "\<exists>ind'. foldE (shuffle_step rnd tot) [0..<n] ind = Inr ind' \<and> mset ind' = mset ind"
  using assms(2)
proof (induction n)
  case (Suc n)
  then obtain ind' where "foldE (shuffle_step rnd tot) [0..<n] ind = Inr ind'" "mset ind' = mset ind" by auto
  moreover from this have "length ind' = unat tot" using assms(1) mset_eq_length by metis
  ultimately show ?case using shuffle_step_perm [of n tot ind' rnd] Suc.prems by auto
qed simp

lemma rotate1_conv: "xs \<noteq> [] \<Longrightarrow> map (\<lambda>i. xs ! Suc i) [0..<length xs - 1] @ [xs ! 0] = rotate1 xs"
  by (cases xs) (auto intro!: nth_equalityI)

lemma pointer_chase_rotate:
  assumes "seg_size \<noteq> 0" "array_size mod seg_size = 0" "array_size \<noteq> 0" "unat array_size < 2 ^ 61" "malloc_ok 0" "malloc_ok 1"
  shows "\<exists>ind. mset ind = mset (map of_nat [0..<unat (array_size div seg_size)])
    \<and> initialize_pointer_chasing_at_client malloc_ok rnd array_size seg_size = Inr (0, rotate1 ind)"
proof -
  let ?t = "array_size div seg_size" and ?n = "unat (array_size div seg_size)"
  have le: "?n \<le> unat array_size" by (simp add: unat_div_distrib)
  have pos: "0 < ?n"
  proof -
    have "unat seg_size dvd unat array_size" using assms(2) by (simp add: dvd_eq_mod_eq_0 flip: unat_mod_distrib)
    then have "unat seg_size \<le> unat array_size" using assms(3) by (simp add: dvd_imp_le unat_gt_0)
    then show ?thesis using assms(1) by (simp add: unat_div_distrib div_greater_zero_iff unat_gt_0)
  qed
  have alloc: "malloc_array True 8 ?t 0 = Some (replicate ?n (0 :: u64))"
    using le assms(4) by (intro malloc_array_fits) simp_all
  let ?ids = "map of_nat [0..<?n] :: u64 list"
  have fill: "foldE (\<lambda>i ind. updE ind i (of_nat i)) [0..<?n] (replicate ?n 0) = Inr ?ids"
    by (subst foldE_fill [where g = of_nat]) simp_all
  have n1: "unat (?t - 1) = ?n - 1" using pos by (simp add: unat_sub word_le_nat_alt)
  obtain ind where ind: "foldE (shuffle_step rnd ?t) [0..<?n - 1] ?ids = Inr ind" "mset ind = mset ?ids"
    using shuffle_perm [of ?ids ?t "?n - 1" rnd] by auto
  then have l: "length ind = ?n" by (metis length_map length_upt mset_eq_length minus_nat.diff_0)
  have shift: "foldE (\<lambda>i ps. bindE (nthE ind i) (\<lambda>v. updE ps (i - 1) v)) [1..<?n] (replicate ?n 0)
      = Inr (map (\<lambda>i. ind ! Suc i) [0..<?n - 1] @ drop (?n - 1) (replicate ?n 0))"
  proof -
    have "[1..<?n] = map Suc [0..<?n - 1]" using pos by (simp add: map_Suc_upt)
    then show ?thesis using l by (simp only: foldE_map) (rule foldE_fill, simp_all)
  qed
  have ne: "ind \<noteq> []" using l pos by auto
  have "drop (?n - 1) (replicate ?n (0 :: u64)) = [0]" using pos by (simp add: drop_replicate)
  then have last: "updE (map (\<lambda>i. ind ! Suc i) [0..<?n - 1] @ drop (?n - 1) (replicate ?n 0)) (?n - 1) (ind ! 0)
      = Inr (rotate1 ind)"
    using rotate1_conv [OF ne] l pos by (simp add: updE_def list_update_append)
  have "initialize_pointer_chasing_at_client malloc_ok rnd array_size seg_size = Inr (0, rotate1 ind)"
    using assms(1,2,5,6) alloc fill ind(1) shift last l pos
    by (simp add: initialize_pointer_chasing_at_client_def Let_def n1)
  then show ?thesis using ind(2) by blast
qed

text \<open>Where the chase is after \<open>k\<close> steps from region 0.\<close>

definition chase :: "u64 list \<Rightarrow> nat \<Rightarrow> u64" where
  "chase ps k = ((\<lambda>i :: u64. ps ! unat i) ^^ k) (0 :: u64)"

lemma chase_0 [simp]: "chase ps 0 = 0"
  by (simp add: chase_def)

lemma chase_Suc: "chase ps (Suc k) = ps ! unat (chase ps k)"
  by (simp add: chase_def)

lemma chase_inside:
  assumes "\<forall>p\<in>set ps. unat p < length ps" "ps \<noteq> []"
  shows "unat (chase ps k) < length ps"
proof (induction k)
  case (Suc k)
  then show ?case using assms(1) by (simp add: chase_Suc)
qed (use assms(2) in simp)

lemma chase_segments_eq:
  assumes "\<forall>p\<in>set ps. unat p < length ps" "ps \<noteq> []" "i + n \<le> length offs"
  shows "chase_segments ps i n offs (chase ps k)
    = Inr (take i offs @ map (\<lambda>j. chase ps (k + j)) [0..<n] @ drop (i + n) offs, chase ps (k + n))"
  using assms(3)
proof (induction n arbitrary: i offs k)
  case (Suc n)
  have "unat (chase ps k) < length ps" by (rule chase_inside [OF assms(1,2)])
  then have "chase_segments ps i (Suc n) offs (chase ps k)
      = chase_segments ps (Suc i) n (offs[i := chase ps k]) (chase ps (Suc k))"
    using Suc.prems by (simp add: chase_Suc)
  also have "\<dots> = Inr (take (Suc i) (offs[i := chase ps k]) @ map (\<lambda>j. chase ps (Suc k + j)) [0..<n]
      @ drop (Suc i + n) (offs[i := chase ps k]), chase ps (Suc k + n))"
    using Suc.prems by (intro Suc.IH) simp
  also have "take (Suc i) (offs[i := chase ps k]) = take i offs @ [chase ps k]"
    using Suc.prems by (simp add: take_Suc_conv_app_nth)
  also have "map (\<lambda>j. chase ps (Suc k + j)) [0..<n] = map (\<lambda>j. chase ps (k + j)) [1..<Suc n]"
    by (simp add: map_Suc_upt [symmetric] del: upt_Suc)
  finally show ?case by (simp add: upt_conv_Cons del: upt_Suc)
qed simp

text \<open>Request number \<open>r\<close> of the table.\<close>

definition request_of :: "u64 \<Rightarrow> nat \<Rightarrow> u64 list \<Rightarrow> ClientRequest \<Rightarrow> nat \<Rightarrow> ClientRequest" where
  "request_of ts nseg ps raw r = raw\<lparr>timestamp_offset := ts, cr_packet_id := of_nat r, cr_id_padding := 0,
     segment_offsets := map (\<lambda>k. chase ps (r * nseg + k)) [0..<nseg] @ drop nseg (segment_offsets raw)\<rparr>"

lemma fill_requests_eq:
  assumes "\<forall>p\<in>set ps. unat p < length ps" "ps \<noteq> []" "nseg \<le> length (segment_offsets raw)"
    and "get_next_cycles_offset cycles rate = Inr ts" "n \<le> tot"
  shows "foldE (fill_request cycles rate nseg ps) [0..<n] (replicate tot raw, 0)
    = Inr (map (request_of ts nseg ps raw) [0..<n] @ replicate (tot - n) raw, chase ps (n * nseg))"
  using assms(5)
proof (induction n)
  case (Suc n)
  let ?rs = "map (request_of ts nseg ps raw) [0..<n] @ replicate (tot - n) raw"
  have "replicate (tot - n) raw = raw # replicate (tot - Suc n) raw"
    using Suc.prems by (simp flip: replicate_Suc add: Suc_diff_Suc)
  then have "?rs ! n = raw" "n < length ?rs"
    "?rs[n := request_of ts nseg ps raw n] = map (request_of ts nseg ps raw) [0..<Suc n] @ replicate (tot - Suc n) raw"
    using Suc.prems by (simp_all add: nth_append list_update_append)
  moreover have "chase_segments ps 0 nseg (segment_offsets raw) (chase ps (n * nseg))
      = Inr (map (\<lambda>j. chase ps (n * nseg + j)) [0..<nseg] @ drop nseg (segment_offsets raw), chase ps (n * nseg + nseg))"
    using chase_segments_eq [OF assms(1,2), of 0 nseg "segment_offsets raw"] assms(3) by simp
  ultimately have "fill_request cycles rate nseg ps n (?rs, chase ps (n * nseg))
      = Inr (map (request_of ts nseg ps raw) [0..<Suc n] @ replicate (tot - Suc n) raw, chase ps (n * nseg + nseg))"
    by (simp add: fill_request_def assms(4) Let_def request_of_def)
  then show ?case using Suc by (simp add: add.commute)
qed simp

text \<open>
  C24. The table of requests a client prepares has consecutive ids, and its segment numbers, read from request to
  request, are the steps of one walk through the pointer table from region 0; the table is a permutation of
  the regions of the working set, whatever \<open>rand\<close> returns, so that every request asks for regions that exist.
\<close>

theorem requests_follow_chase:
  assumes "seg_size \<noteq> 0" "array_size mod seg_size = 0" "array_size \<noteq> 0" "unat array_size < 2 ^ 61"
    and "malloc_ok 0" "malloc_ok 1" "malloc_ok 2" "rate_pps rate \<noteq> 0"
    and "unat nseg \<le> length (segment_offsets raw)" "272 * (unat (padded (total_time rate) (rate_pps rate)) + 1) < 2 ^ 64"
  shows "\<exists>ps reqs. mset ps = mset (map of_nat [0..<unat (array_size div seg_size)])
    \<and> initialize_pointer_chasing_at_client malloc_ok rnd array_size seg_size = Inr (0, ps)
    \<and> initialize_client_requests malloc_ok rnd cycles padded raw rate seg_size nseg array_size = Inr (0, reqs)
    \<and> length reqs = unat (padded (total_time rate) (rate_pps rate)) + 1
    \<and> (\<forall>r<length reqs. cr_packet_id (reqs ! r) = of_nat r
        \<and> (\<forall>k<unat nseg. segment_offsets (reqs ! r) ! k = chase ps (r * unat nseg + k)
            \<and> unat (segment_offsets (reqs ! r) ! k) < unat (array_size div seg_size)))"
proof -
  let ?n = "unat (array_size div seg_size)" and ?p = "padded (total_time rate) (rate_pps rate)"
  obtain ind where ind: "mset ind = mset (map of_nat [0..<?n])"
    "initialize_pointer_chasing_at_client malloc_ok rnd array_size seg_size = Inr (0, rotate1 ind)"
    using pointer_chase_rotate [OF assms(1-6), of rnd] by blast
  let ?ps = "rotate1 ind"
  have ps: "mset ?ps = mset (map of_nat [0..<?n])" using ind(1) by (cases ind) simp_all
  have len: "length ?ps = ?n" using mset_eq_length [OF ps] by simp
  have "set ?ps = of_nat ` {0..<?n}" using mset_eq_setD [OF ps] by simp
  moreover have "unat (of_nat i :: u64) < ?n" if "i < ?n" for i
    using that unat_bound [of "array_size div seg_size"] by (simp add: unat_of_nat_less)
  ultimately have inside: "\<forall>p\<in>set ?ps. unat p < length ?ps" using len by auto
  have "seg_size dvd seg_size * 1" by simp
  have ne: "?ps \<noteq> []"
  proof
    assume "?ps = []"
    then have "unat (array_size div seg_size) = 0" using len by simp
    then have "array_size < seg_size" using assms(1) by (simp add: unat_div_distrib div_eq_0_iff word_less_nat_alt unat_eq_0)
    then have "array_size mod seg_size = array_size" by (simp add: mod_word_less)
    then show False using assms(2,3) by simp
  qed
  obtain ts where ts: "get_next_cycles_offset cycles rate = Inr ts"
    using assms(8) by (simp add: get_next_cycles_offset_def time_intersend_def)
  have p1: "unat (?p + 1) = unat ?p + 1" using assms(10) by (simp add: unat_word_ariths)
  have alloc: "malloc_array True 272 (?p + 1) raw = Some (replicate (unat ?p + 1) raw)"
    using assms(10) p1 malloc_array_fits [of 272 "?p + 1" raw] by simp
  let ?reqs = "map (request_of ts (unat nseg) ?ps raw) [0..<unat ?p + 1]"
  have "initialize_client_requests malloc_ok rnd cycles padded raw rate seg_size nseg array_size = Inr (0, ?reqs)"
    using fill_requests_eq [OF inside ne assms(9) ts order_refl, of "unat ?p + 1"] assms(7) ind(2) alloc p1
    by (simp add: initialize_client_requests_def Let_def del: upt_Suc)
  moreover have "segment_offsets (?reqs ! r) ! k = chase ?ps (r * unat nseg + k) \<and> unat (chase ?ps (r * unat nseg + k)) < ?n
      \<and> cr_packet_id (?reqs ! r) = of_nat r" if "r < unat ?p + 1" "k < unat nseg" for r k
    using that chase_inside [OF inside ne] len by (simp add: request_of_def nth_append del: upt_Suc)
  moreover have "cr_packet_id (?reqs ! r) = of_nat r" if "r < unat ?p + 1" for r
    using that by (simp add: request_of_def del: upt_Suc)
  ultimately show ?thesis using ps ind(2) by (intro exI [of _ ?ps] exI [of _ ?reqs]) (simp del: upt_Suc)
qed

definition example_request :: ClientRequest where
  "example_request = \<lparr>timestamp_offset = 0, cr_packet_id = 0, cr_id_padding = 0, segment_offsets = replicate 32 0\<rparr>"

lemma requests_follow_chase_witness:
  "\<exists>reqs. initialize_client_requests (\<lambda>_. True) (\<lambda>_. 0) (\<lambda>c. c) (\<lambda>t r. t * r) example_request
      \<lparr>rate_pps = 2, total_time = 3\<rparr> 64 2 256 = Inr (0, reqs) \<and> length reqs = 7"
  using requests_follow_chase [of 64 256 "\<lambda>_. True" "\<lparr>rate_pps = 2, total_time = 3\<rparr>" 2 example_request "\<lambda>t r. t * r" "\<lambda>_. 0" "\<lambda>c. c"]
  by (auto simp: example_request_def)

text \<open>
  The permutation need not be one cycle: the table holds the successor of each region in the
  shuffled order under the number of its position, not of the region. With two regions and an odd first random
  number the chase stays at region 0.
\<close>

lemma chase_can_stall:
  "initialize_pointer_chasing_at_client (\<lambda>_. True) (\<lambda>_. 1) 128 64 = Inr (0, [0, 1])" "chase [0, 1] k = 0"
proof -
  show "initialize_pointer_chasing_at_client (\<lambda>_. True) (\<lambda>_. 1) 128 64 = Inr (0, [0, 1])"
    by code_simp
  show "chase [0, 1] k = 0" by (induction k) (simp_all add: chase_Suc)
qed

end
