(* ===== verification/Mem.thy ===== *)
theory Mem
  imports Stddef
begin

text \<open>
  mem.c and inc/base/mem.h: mapping anonymous, file and shared memory, and the physical addresses of a
  mapping. The system calls are the parameter \<open>kernel\<close>, transformers of a state that the program does not see; whether the C library
  defines the flags of huge pages is the parameter \<open>huge\<close>.
\<close>

section \<open>Page sizes\<close>

abbreviation (input) PGSIZE_4KB :: u64 where "PGSIZE_4KB \<equiv> 4096"
abbreviation (input) PGSIZE_2MB :: u64 where "PGSIZE_2MB \<equiv> 2097152"
abbreviation (input) PGSIZE_1GB :: u64 where "PGSIZE_1GB \<equiv> 1073741824"

definition PGN_4KB :: "ptr \<Rightarrow> u64" where "PGN_4KB la = drop_bit 12 la"
definition PGN_2MB :: "ptr \<Rightarrow> u64" where "PGN_2MB la = drop_bit 21 la"
definition PGN_1GB :: "ptr \<Rightarrow> u64" where "PGN_1GB la = drop_bit 30 la"
definition PGOFF_4KB :: "ptr \<Rightarrow> u64" where "PGOFF_4KB la = la AND (PGSIZE_4KB - 1)"
definition PGOFF_2MB :: "ptr \<Rightarrow> u64" where "PGOFF_2MB la = la AND (PGSIZE_2MB - 1)"
definition PGOFF_1GB :: "ptr \<Rightarrow> u64" where "PGOFF_1GB la = la AND (PGSIZE_1GB - 1)"
definition PGADDR_4KB :: "ptr \<Rightarrow> ptr" where "PGADDR_4KB la = la AND NOT (PGSIZE_4KB - 1)"
definition PGADDR_2MB :: "ptr \<Rightarrow> ptr" where "PGADDR_2MB la = la AND NOT (PGSIZE_2MB - 1)"
definition PGADDR_1GB :: "ptr \<Rightarrow> ptr" where "PGADDR_1GB la = la AND NOT (PGSIZE_1GB - 1)"

section \<open>The system\<close>

abbreviation (input) MAP_FAILED :: ptr where "MAP_FAILED \<equiv> - 1"

datatype map_flag = MAP_PRIVATE | MAP_ANONYMOUS | MAP_POPULATE | MAP_FIXED | MAP_HUGETLB | MAP_HUGE_2MB | MAP_HUGE_1GB
datatype shm_flag = IPC_CREAT | IPC_EXCL | SHM_HUGETLB | SHM_HUGE_2MB | SHM_HUGE_1GB
datatype numa_policy = MPOL_BIND

record huge =
  has_2MB :: bool
  has_1GB :: bool

record 'k kernel =
  sys_mmap :: "ptr \<Rightarrow> u64 \<Rightarrow> map_flag set \<Rightarrow> int \<Rightarrow> u64 \<Rightarrow> 'k \<Rightarrow> ptr \<times> 'k"
  sys_munmap :: "ptr \<Rightarrow> u64 \<Rightarrow> 'k \<Rightarrow> int \<times> 'k"
  sys_mbind :: "ptr \<Rightarrow> u64 \<Rightarrow> numa_policy \<Rightarrow> u64 option \<Rightarrow> 'k \<Rightarrow> int \<times> 'k"
  sys_shmget :: "u32 \<Rightarrow> u64 \<Rightarrow> shm_flag set \<Rightarrow> 'k \<Rightarrow> int \<times> 'k"
  sys_shmat :: "int \<Rightarrow> ptr \<Rightarrow> 'k \<Rightarrow> ptr \<times> 'k"
  sys_shmdt :: "ptr \<Rightarrow> 'k \<Rightarrow> int \<times> 'k"
  sys_errno :: "'k \<Rightarrow> int"
  backed :: "'k \<Rightarrow> ptr \<Rightarrow> bool"

section \<open>Mappings\<close>

text \<open>A page that the kernel cannot back raises SIGBUS, whose handler ends the process.\<close>

primrec touch_mapping :: "nat \<Rightarrow> (ptr \<Rightarrow> bool) \<Rightarrow> ptr \<Rightarrow> ptr \<Rightarrow> u64 \<Rightarrow> unit res" where
  "touch_mapping 0 ok pos end_pos page = Inl NoFuel"
| "touch_mapping (Suc k) ok pos end_pos page =
     (if pos < end_pos
      then bindE (guardE (Exit 1) (ok pos)) (\<lambda>_. touch_mapping k ok (pos + page) end_pos page)
      else Inr ())"

definition touch_fuel :: "u64 \<Rightarrow> u64 \<Rightarrow> nat" where
  "touch_fuel n page = Suc (Suc (unat n div unat page))"

definition anon_flags :: "huge \<Rightarrow> ptr \<Rightarrow> u64 \<Rightarrow> map_flag set option" where
  "anon_flags h base page =
     (let flags = {MAP_PRIVATE, MAP_ANONYMOUS, MAP_POPULATE};
          flags = if base \<noteq> NULL then insert MAP_FIXED flags else flags in
      if page = PGSIZE_4KB then Some flags
      else if page = PGSIZE_2MB then
        Some (if has_2MB h then {MAP_HUGETLB, MAP_HUGE_2MB} \<union> flags else insert MAP_HUGETLB flags)
      else if page = PGSIZE_1GB then
        (if has_1GB h then Some ({MAP_HUGETLB, MAP_HUGE_1GB} \<union> flags) else None)
      else None)"

definition mem_map_anom_raw ::
  "'k kernel \<Rightarrow> huge \<Rightarrow> ptr \<Rightarrow> u64 \<Rightarrow> u64 \<Rightarrow> u64 option \<Rightarrow> numa_policy \<Rightarrow> 'k \<Rightarrow> (ptr \<times> 'k) res" where
  "mem_map_anom_raw K h base n page nodes policy s =
     (let n = align_up n page in
      case anon_flags h base page of
        None \<Rightarrow> Inr (MAP_FAILED, s)
      | Some flags \<Rightarrow>
        (case sys_mmap K base n flags (- 1) 0 s of (addr, s) \<Rightarrow>
         if addr = MAP_FAILED then Inr (MAP_FAILED, s)
         else
          (case sys_mbind K addr n policy nodes s of (ret, s) \<Rightarrow>
           if ret \<noteq> 0 then (case sys_munmap K addr n s of (_, s) \<Rightarrow> Inr (MAP_FAILED, s))
           else bindE (touch_mapping (touch_fuel n page) (backed K s) addr (addr + n) page) (\<lambda>_. Inr (addr, s)))))"

text \<open>The node is shifted into an \<open>int\<close>, so that it has to be below 31.\<close>

definition mem_map_anom :: "'k kernel \<Rightarrow> huge \<Rightarrow> ptr \<Rightarrow> u64 \<Rightarrow> u64 \<Rightarrow> int \<Rightarrow> 'k \<Rightarrow> (ptr \<times> 'k) res" where
  "mem_map_anom K h base n page node s =
     bindE (guardE BadShift (0 \<le> node \<and> node < 31)) (\<lambda>_.
     mem_map_anom_raw K h base n page (Some (push_bit (nat node) 1)) MPOL_BIND s)"

definition mem_map_file :: "'k kernel \<Rightarrow> ptr \<Rightarrow> u64 \<Rightarrow> int \<Rightarrow> u64 \<Rightarrow> 'k \<Rightarrow> ptr \<times> 'k" where
  "mem_map_file K base n fd off s = sys_mmap K base n {MAP_PRIVATE} fd off s"

definition shm_flags :: "huge \<Rightarrow> u64 \<Rightarrow> bool \<Rightarrow> shm_flag set option" where
  "shm_flags h page exclusive =
     (let flags = (if exclusive then {IPC_EXCL, IPC_CREAT} else {IPC_CREAT}) in
      if page = PGSIZE_4KB then Some flags
      else if page = PGSIZE_2MB then
        Some (if has_2MB h then {SHM_HUGETLB, SHM_HUGE_2MB} \<union> flags else insert SHM_HUGETLB flags)
      else if page = PGSIZE_1GB then
        (if has_1GB h then Some ({SHM_HUGETLB, SHM_HUGE_1GB} \<union> flags) else None)
      else None)"

definition mem_map_shm ::
  "'k kernel \<Rightarrow> huge \<Rightarrow> u32 \<Rightarrow> ptr \<Rightarrow> u64 \<Rightarrow> u64 \<Rightarrow> bool \<Rightarrow> 'k \<Rightarrow> (ptr \<times> 'k) res" where
  "mem_map_shm K h key base n page exclusive s =
     (case shm_flags h page exclusive of
        None \<Rightarrow> Inr (MAP_FAILED, s)
      | Some flags \<Rightarrow>
        (case sys_shmget K key n flags s of (shmid, s) \<Rightarrow>
         if shmid = - 1 then Inr (MAP_FAILED, s)
         else
          (case sys_shmat K shmid base s of (addr, s) \<Rightarrow>
           if addr = MAP_FAILED then Inr (MAP_FAILED, s)
           else bindE (touch_mapping (touch_fuel n page) (backed K s) addr (addr + n) page) (\<lambda>_. Inr (addr, s)))))"

definition mem_unmap_shm :: "'k kernel \<Rightarrow> ptr \<Rightarrow> 'k \<Rightarrow> int \<times> 'k" where
  "mem_unmap_shm K addr s =
     (case sys_shmdt K addr s of (ret, s) \<Rightarrow> if ret = - 1 then (- sys_errno K s, s) else (0, s))"

section \<open>Physical addresses\<close>

abbreviation (input) PAGEMAP_PGN_MASK :: u64 where "PAGEMAP_PGN_MASK \<equiv> 0x7fffffffffffff"
abbreviation (input) PAGEMAP_FLAG_PRESENT :: u64 where "PAGEMAP_FLAG_PRESENT \<equiv> push_bit 63 1"

text \<open>
  \<open>/proc/self/pagemap\<close> is the parameter \<open>pagemap\<close>: the entry at an offset, or nothing when seeking or reading fails there.
\<close>

primrec phys_loop ::
  "nat \<Rightarrow> (u64 \<Rightarrow> u64 option) \<Rightarrow> u64 \<Rightarrow> u64 \<Rightarrow> u64 \<Rightarrow> nat \<Rightarrow> u64 list \<Rightarrow> (int \<times> u64 list) res" where
  "phys_loop 0 pagemap pos end_pos page i paddrs = Inl NoFuel"
| "phys_loop (Suc k) pagemap pos end_pos page i paddrs =
     (if pos < end_pos
      then (case pagemap (pos div PGSIZE_4KB * 8) of
              None \<Rightarrow> Inr (- EIO, paddrs)
            | Some tmp \<Rightarrow>
              if tmp AND PAGEMAP_FLAG_PRESENT = 0 then Inr (- ENODEV, paddrs)
              else bindE (updE paddrs i ((tmp AND PAGEMAP_PGN_MASK) * PGSIZE_4KB)) (\<lambda>paddrs.
                bindE (guardE SignedOverflow (i < INT_MAX)) (\<lambda>_.
                phys_loop k pagemap (pos + page) end_pos page (Suc i) paddrs)))
      else Inr (0, paddrs))"

definition mem_lookup_page_phys_addrs ::
  "bool \<Rightarrow> (u64 \<Rightarrow> u64 option) \<Rightarrow> ptr \<Rightarrow> u64 \<Rightarrow> u64 \<Rightarrow> u64 list \<Rightarrow> (int \<times> u64 list) res" where
  "mem_lookup_page_phys_addrs opened pagemap addr n page paddrs =
     (if page = PGSIZE_4KB then Inr (- EINVAL, paddrs)
      else if \<not> opened then Inr (- EIO, paddrs)
      else phys_loop (touch_fuel n page) pagemap addr (addr + n) page 0 paddrs)"

definition mem_lookup_page_phys_addr ::
  "bool \<Rightarrow> (u64 \<Rightarrow> u64 option) \<Rightarrow> ptr \<Rightarrow> u64 \<Rightarrow> u64 list \<Rightarrow> (int \<times> u64 list) res" where
  "mem_lookup_page_phys_addr opened pagemap addr page paddr =
     mem_lookup_page_phys_addrs opened pagemap addr page page paddr"

section \<open>What the mappings promise\<close>

lemma next_page:
  fixes pos page e :: u64
  assumes "unat pos + Suc c * unat page = unat e"
  shows "pos < e \<or> page = 0" "unat (pos + page) + c * unat page = unat e"
proof -
  have "page = 0 \<or> 0 < unat page" by (simp add: unat_gt_0)
  then show "pos < e \<or> page = 0" using assms by (auto simp: word_less_nat_alt)
  have "unat pos + unat page \<le> unat e" using assms by simp
  then have "unat pos + unat page < 2 ^ LENGTH(64)" by (rule le_less_trans) (rule unat_bound)
  then have "unat (pos + page) = unat pos + unat page" by (simp add: unat_word_ariths)
  then show "unat (pos + page) + c * unat page = unat e" using assms by simp
qed

lemma touch_mapping_all:
  assumes "unat pos + c * unat page = unat e" "page \<noteq> 0" "c < fuel" "\<And>i. i < c \<Longrightarrow> ok (pos + of_nat i * page)"
  shows "touch_mapping fuel ok pos e page = Inr ()"
  using assms
proof (induction c arbitrary: pos fuel)
  case 0
  then have "pos = e" by (simp add: word_unat_eq_iff)
  then show ?case using 0(3) by (cases fuel) simp_all
next
  case (Suc c)
  obtain k where k: "fuel = Suc k" using Suc.prems(3) by (cases fuel) simp_all
  have "ok pos" using Suc.prems(4) [of 0] by simp
  moreover have "touch_mapping k ok (pos + page) e page = Inr ()"
  proof (rule Suc.IH)
    show "ok (pos + page + of_nat i * page)" if "i < c" for i
      using Suc.prems(4) [of "Suc i"] that by (simp add: algebra_simps)
  qed (use next_page(2) [OF Suc.prems(1)] Suc.prems k in simp_all)
  ultimately show ?case using next_page(1) [OF Suc.prems(1)] Suc.prems(2) k by simp
qed

text \<open>
  Every path on which \<open>mem_map_anom\<close> fails leaves the mappings as they were, given that \<open>mmap\<close> adds a mapping
  only when it succeeds, that \<open>munmap\<close> takes it away again and that \<open>mbind\<close> touches none.
\<close>

definition maps_pages :: "'k kernel \<Rightarrow> ('k \<Rightarrow> (ptr \<times> u64) set) \<Rightarrow> bool" where
  "maps_pages K maps \<longleftrightarrow>
     (\<forall>base n fl fd off s. case sys_mmap K base n fl fd off s of (a, s') \<Rightarrow>
        if a = MAP_FAILED then maps s' = maps s else (a, n) \<notin> maps s \<and> maps s' = insert (a, n) (maps s)) \<and>
     (\<forall>a n s. maps (snd (sys_munmap K a n s)) = maps s - {(a, n)}) \<and>
     (\<forall>a n pol nodes s. maps (snd (sys_mbind K a n pol nodes s)) = maps s)"

lemma maps_pagesD:
  assumes "maps_pages K maps"
  shows "sys_mmap K base n fl fd off s = (a, s') \<Longrightarrow>
      if a = MAP_FAILED then maps s' = maps s else (a, n) \<notin> maps s \<and> maps s' = insert (a, n) (maps s)"
    "sys_munmap K a n s = (r, s') \<Longrightarrow> maps s' = maps s - {(a, n)}"
    "sys_mbind K a n pol nodes s = (r, s') \<Longrightarrow> maps s' = maps s"
proof -
  note m = assms [unfolded maps_pages_def]
  show "sys_mmap K base n fl fd off s = (a, s') \<Longrightarrow>
      if a = MAP_FAILED then maps s' = maps s else (a, n) \<notin> maps s \<and> maps s' = insert (a, n) (maps s)"
    using m [THEN conjunct1, rule_format, where base = base and n = n and fl = fl and fd = fd and off = off and s = s] by simp
  show "sys_munmap K a n s = (r, s') \<Longrightarrow> maps s' = maps s - {(a, n)}"
    using m [THEN conjunct2, THEN conjunct1, rule_format, where a = a and n = n and s = s] by simp
  show "sys_mbind K a n pol nodes s = (r, s') \<Longrightarrow> maps s' = maps s"
    using m [THEN conjunct2, THEN conjunct2, rule_format, where a = a and n = n and pol = pol and nodes = nodes and s = s] by simp
qed

lemma mem_map_anom_maps:
  assumes "maps_pages K maps" "mem_map_anom_raw K h base n page nodes pol s = Inr (a, s')"
  shows "if a = MAP_FAILED then maps s' = maps s
    else maps s' = insert (a, align_up n page) (maps s) \<and> (page = PGSIZE_4KB \<or> page = PGSIZE_2MB \<or> page = PGSIZE_1GB)"
proof (cases "anon_flags h base page")
  case None
  then show ?thesis using assms(2) by (simp add: mem_map_anom_raw_def Let_def)
next
  case (Some fl)
  then have pg: "page = PGSIZE_4KB \<or> page = PGSIZE_2MB \<or> page = PGSIZE_1GB"
    by (auto simp: anon_flags_def Let_def split: if_splits)
  let ?n = "align_up n page"
  obtain b s1 where m: "sys_mmap K base ?n fl (- 1) 0 s = (b, s1)" by (cases "sys_mmap K base ?n fl (- 1) 0 s")
  obtain r s2 where mb: "sys_mbind K b ?n pol nodes s1 = (r, s2)" by (cases "sys_mbind K b ?n pol nodes s1")
  obtain q s3 where u: "sys_munmap K b ?n s2 = (q, s3)" by (cases "sys_munmap K b ?n s2")
  have d: "if b = MAP_FAILED then maps s1 = maps s else (b, ?n) \<notin> maps s \<and> maps s1 = insert (b, ?n) (maps s)"
    "maps s2 = maps s1" "maps s3 = maps s2 - {(b, ?n)}"
    by (rule maps_pagesD(1) [OF assms(1) m], rule maps_pagesD(3) [OF assms(1) mb], rule maps_pagesD(2) [OF assms(1) u])
  have run: "(if b = MAP_FAILED then Inr (MAP_FAILED, s1)
      else if r \<noteq> 0 then Inr (MAP_FAILED, s3)
      else bindE (touch_mapping (touch_fuel ?n page) (backed K s2) b (b + ?n) page) (\<lambda>_. Inr (b, s2))) = Inr (a, s')"
    using assms(2) unfolding mem_map_anom_raw_def Let_def Some option.case m prod.case mb u by simp
  consider "b = MAP_FAILED" | "b \<noteq> MAP_FAILED" "r \<noteq> 0" | "b \<noteq> MAP_FAILED" "r = 0" by blast
  then show ?thesis
  proof cases
    case 1
    then have "a = MAP_FAILED" "s' = s1" using run by simp_all
    then show ?thesis using d(1) 1 by simp
  next
    case 2
    then have "a = MAP_FAILED" "s' = s3" using run by simp_all
    then show ?thesis using d 2 by simp
  next
    case 3
    then have "a = b" "s' = s2" using run by (simp_all add: bindE_eq_Inr)
    then show ?thesis using d(1,2) 3 pg by simp
  qed
qed

section \<open>What the physical addresses are\<close>

lemma phys_loop_all:
  assumes "unat pos + c * unat page = unat e" "page \<noteq> 0" "c < fuel" "i + c \<le> length paddrs" "i + c \<le> INT_MAX"
    and "\<And>j. j < c \<Longrightarrow> pagemap ((pos + of_nat j * page) div PGSIZE_4KB * 8) = Some (entry j)"
    and "\<And>j. j < c \<Longrightarrow> entry j AND PAGEMAP_FLAG_PRESENT \<noteq> 0"
  shows "phys_loop fuel pagemap pos e page i paddrs =
    Inr (0, take i paddrs @ map (\<lambda>j. (entry j AND PAGEMAP_PGN_MASK) * PGSIZE_4KB) [0..<c] @ drop (i + c) paddrs)"
  using assms
proof (induction c arbitrary: pos fuel i paddrs entry)
  case 0
  then have "pos = e" by (simp add: word_unat_eq_iff)
  then show ?case using 0(3) by (cases fuel) simp_all
next
  case (Suc c)
  obtain k where k: "fuel = Suc k" using Suc.prems(3) by (cases fuel) simp_all
  let ?v = "\<lambda>j. (entry j AND PAGEMAP_PGN_MASK) * PGSIZE_4KB"
  have i: "i < length paddrs" "i < INT_MAX" using Suc.prems(4,5) by simp_all
  have now: "pagemap (pos div PGSIZE_4KB * 8) = Some (entry 0)" using Suc.prems(6) [of 0] by simp
  have "phys_loop k pagemap (pos + page) e page (Suc i) (paddrs[i := ?v 0]) =
    Inr (0, take (Suc i) (paddrs[i := ?v 0]) @ map (\<lambda>j. ?v (Suc j)) [0..<c] @ drop (Suc i + c) (paddrs[i := ?v 0]))"
  proof (rule Suc.IH)
    show "pagemap ((pos + page + of_nat j * page) div PGSIZE_4KB * 8) = Some (entry (Suc j))" if "j < c" for j
      using Suc.prems(6) [of "Suc j"] that by (simp add: algebra_simps)
    show "entry (Suc j) AND PAGEMAP_FLAG_PRESENT \<noteq> 0" if "j < c" for j using Suc.prems(7) [of "Suc j"] that by simp
  qed (use next_page(2) [OF Suc.prems(1)] Suc.prems k in simp_all)
  moreover have "take (Suc i) (paddrs[i := ?v 0]) = take i paddrs @ [?v 0]"
    using i(1) by (simp add: take_Suc_conv_app_nth)
  moreover have "map ?v [0..<Suc c] = ?v 0 # map (\<lambda>j. ?v (Suc j)) [0..<c]"
    by (simp only: map_upt_Suc)
  moreover have "phys_loop fuel pagemap pos e page i paddrs = phys_loop k pagemap (pos + page) e page (Suc i) (paddrs[i := ?v 0])"
    using next_page(1) [OF Suc.prems(1)] Suc.prems(2) Suc.prems(7) [of 0] now i k by simp
  ultimately show ?case by simp
qed

text \<open>
  The addresses of a mapping of \<open>c\<close> large pages that does not reach the end of the address space:
  the frame the page map names for the first small page of each, in order.
\<close>

lemma phys_addrs_of_pages:
  assumes "unat page * c = unat n" "unat addr + unat n < 2 ^ 64" "page \<noteq> 0" "page \<noteq> PGSIZE_4KB"
    and "length paddrs = c" "c \<le> INT_MAX"
    and "\<And>j. j < c \<Longrightarrow> pagemap ((addr + of_nat j * page) div PGSIZE_4KB * 8) = Some (entry j)"
    and "\<And>j. j < c \<Longrightarrow> entry j AND PAGEMAP_FLAG_PRESENT \<noteq> 0"
  shows "mem_lookup_page_phys_addrs True pagemap addr n page paddrs =
    Inr (0, map (\<lambda>j. (entry j AND PAGEMAP_PGN_MASK) * PGSIZE_4KB) [0..<c])"
proof -
  have "0 < unat page" using assms(3) by (simp add: unat_gt_0)
  then have c: "unat n div unat page = c" using assms(1) by (metis nonzero_mult_div_cancel_left less_irrefl)
  have "unat (addr + n) = unat addr + unat n" using assms(2) by (simp add: unat_word_ariths)
  then have "unat addr + c * unat page = unat (addr + n)" using assms(1) by (simp add: mult.commute)
  from phys_loop_all [OF this assms(3), of "touch_fuel n page" 0 paddrs pagemap entry]
  show ?thesis using assms(4-8) c by (simp add: mem_lookup_page_phys_addrs_def touch_fuel_def)
qed

end
