(* ===== verification/Init.thy ===== *)
theory Init
  imports RxRing Requests Mem
begin

text \<open>
  The part of mlx5_init.c that sets up memory and queues: the pools on fresh mappings, the server's working set and its
  reference counts, and the receive and transmit queues. What the verbs library returns is the parameter \<open>verbs\<close>:
  whether each object could be created, the error numbers, and the ring geometry it reports.
\<close>

section \<open>Memory\<close>

abbreviation (input) DEFAULT_CHAR :: u8 where "DEFAULT_CHAR \<equiv> 99"

text \<open>
  The mapping is compared with NULL, but a failed mapping is \<open>MAP_FAILED\<close>: the region that is then filled is not mapped.
\<close>

definition fill_region :: "ptr \<Rightarrow> u64 \<Rightarrow> mem \<Rightarrow> mem res" where
  "fill_region b n m =
     bindE (guardE OutOfBounds (b \<noteq> MAP_FAILED \<or> n = 0)) (\<lambda>_. Inr (memset m b DEFAULT_CHAR (unat n)))"

definition server_memory_init ::
  "'k kernel \<Rightarrow> huge \<Rightarrow> u64 \<Rightarrow> mem \<times> 'k \<Rightarrow> (int \<times> ptr option \<times> mem \<times> 'k) res" where
  "server_memory_init K h region_len ms =
     (case ms of (m, s) \<Rightarrow>
      bindE (mem_map_anom K h NULL region_len PGSIZE_2MB 0 s) (\<lambda>(b, s).
      if b = NULL then Inr (ENOMEM, None, m, s)
      else bindE (fill_region b region_len m) (\<lambda>m. Inr (0, Some b, m, s))))"

definition mempool_memory_init ::
  "'k kernel \<Rightarrow> huge \<Rightarrow> bool \<Rightarrow> mempool \<Rightarrow> u64 \<Rightarrow> u64 \<Rightarrow> u64 \<Rightarrow> mem \<times> 'k \<Rightarrow> (int \<times> mempool \<times> mem \<times> 'k) res" where
  "mempool_memory_init K h calloc_ok mp mbuf_size mbufs_per_page num_pages ms =
     (case ms of (m, s) \<Rightarrow>
      let region_len = mbuf_size * mbufs_per_page * num_pages in
      bindE (mem_map_anom K h NULL region_len PGSIZE_2MB 0 s) (\<lambda>(b, s).
      if b = NULL then Inr (1, mp, m, s)
      else bindE (fill_region b region_len m) (\<lambda>m.
        bindE (mempool_create calloc_ok mp b region_len PGSIZE_2MB mbuf_size) (\<lambda>(ret, mp).
        Inr (ret, mp, m, s)))))"

primrec alloc_refcnts :: "(nat \<Rightarrow> bool) \<Rightarrow> u64 \<Rightarrow> nat list \<Rightarrow> u16 list list \<Rightarrow> (int \<times> u16 list list) res" where
  "alloc_refcnts ok num_items [] refs = Inr (0, refs)"
| "alloc_refcnts ok num_items (j # js) refs =
     (case malloc_array (ok (Suc j)) 2 num_items 0 of
        None \<Rightarrow> Inr (ENOMEM, refs)
      | Some refcnts \<Rightarrow> bindE (updE refs j refcnts) (alloc_refcnts ok num_items js))"

definition server_init_refcnt_array :: "(nat \<Rightarrow> bool) \<Rightarrow> u64 \<Rightarrow> u64 \<Rightarrow> (int \<times> u16 list list) res" where
  "server_init_refcnt_array ok num_arrays num_items =
     (case malloc_array (ok 0) 8 num_arrays [] of
        None \<Rightarrow> Inr (ENOMEM, [])
      | Some refs \<Rightarrow>
        bindE (alloc_refcnts ok num_items [0..<unat num_arrays] refs) (\<lambda>(ret, refs).
        if ret \<noteq> 0 then Inr (ret, refs)
        else bindE (foldE (\<lambda>j refs. foldE (\<lambda>i refs.
               bindE (nthE refs j) (\<lambda>r. bindE (updE r i 1) (updE refs j))) [0..<unat num_items] refs)
             [0..<unat num_arrays] refs) (\<lambda>refs. Inr (0, refs))))"

definition memory_registration :: "u32 option \<Rightarrow> int \<Rightarrow> int \<times> u32 option" where
  "memory_registration mr err = (if mr = None then (- err, mr) else (0, mr))"

section \<open>Queues\<close>

abbreviation (input) RQ_NUM_DESC :: u32 where "RQ_NUM_DESC \<equiv> 1024"
abbreviation (input) SQ_NUM_DESC :: u32 where "SQ_NUM_DESC \<equiv> 128"
abbreviation (input) NET_MTU :: u32 where "NET_MTU \<equiv> 9216"
abbreviation (input) RX_BUF_TAIL :: u32 where "RX_BUF_TAIL \<equiv> 64"

definition ctz :: "u32 \<Rightarrow> u32" where
  "ctz v = of_nat (length (takeWhile (\<lambda>i. \<not> bit v i) [0..<32]))"

record rx_verbs =
  rv_cq :: bool
  rv_wq :: bool
  rv_errno :: "nat \<Rightarrow> int"
  rv_modify :: int
  rv_obj :: int
  rv_alloc :: bool
  rv_stride :: u32
  rv_wqe_cnt :: u32
  rv_wq_buf :: ptr
  rv_wq_dbrec :: ptr
  rv_cqes :: "cqe list"
  rv_cqe_cnt :: u32
  rv_cqe_size :: u32
  rv_cq_dbrec :: ptr

definition set_cqe_owner :: "abi \<Rightarrow> cqe \<Rightarrow> u8 \<Rightarrow> cqe" where
  "set_cqe_owner A c val =
     c\<lparr>cqe_op_own := (val AND CQE_OWNER_MASK A) OR (cqe_op_own c AND NOT (CQE_OWNER_MASK A))\<rparr>"

text \<open>Every descriptor gets its byte count, its key and a buffer of the pool.\<close>

primrec fill_descriptors :: "abi \<Rightarrow> u32 \<Rightarrow> nat \<Rightarrow> nat \<Rightarrow> net \<Rightarrow> (int \<times> net) res" where
  "fill_descriptors A lkey 0 i s = Inr (0, s)"
| "fill_descriptors A lkey (Suc n) i s =
     (let v = n_rxq s;
          seg = rx_wq_buf v + ucast (of_nat i * rx_stride v);
          s = s\<lparr>n_mem := st32 (n_mem s) (seg + data_byte_count A) (hton32 (NET_MTU + RX_BUF_TAIL))\<rparr>;
          s = s\<lparr>n_mem := st32 (n_mem s) (seg + data_lkey A) (hton32 lkey)\<rparr> in
      bindE (mempool_alloc (rx_buf_mempool s)) (\<lambda>(buf, p).
      let s = s\<lparr>rx_buf_mempool := p\<rparr> in
      if buf = NULL then Inr (- ENOMEM, s)
      else
        let s = s\<lparr>n_mbufs := (n_mbufs s)(buf := (n_mbufs s buf)\<lparr>m_head_len := ucast (item_len p)\<rparr>)\<rparr>;
            s = s\<lparr>n_mem := st64 (n_mem s) (seg + data_addr A) (hton64 (buf + RX_BUF_HEAD))\<rparr> in
        bindE (updE (r_buffers v) i buf) (\<lambda>bufs.
        fill_descriptors A lkey n (Suc i) (s\<lparr>n_rxq := v\<lparr>wq_head := wq_head v + 1, r_buffers := bufs\<rparr>\<rparr>))))"

text \<open>The handle for a runtime that polls the ring itself.\<close>

record hardware_q =
  descriptor_log_size :: u32
  nr_descriptors :: u32
  parity_byte_offset :: u32
  parity_bit_mask :: u32

definition rx_hardware_q :: "abi \<Rightarrow> u32 \<Rightarrow> hardware_q" where
  "rx_hardware_q A cqe_cnt = \<lparr>descriptor_log_size = ctz 64, nr_descriptors = cqe_cnt,
     parity_byte_offset = 63, parity_bit_mask = ucast (CQE_OWNER_MASK A)\<rparr>"

definition rx_geometry :: "rx_verbs \<Rightarrow> rxq \<Rightarrow> rxq" where
  "rx_geometry V v = v\<lparr>rx_wq_buf := rv_wq_buf V, rx_wqe_cnt := rv_wqe_cnt V, rx_stride := rv_stride V,
     rx_wq_dbrec := rv_wq_dbrec V, rx_wq_log_stride := ctz (rv_stride V), rx_cqes := rv_cqes V,
     rx_cqe_cnt := rv_cqe_cnt V, rx_cq_dbrec := rv_cq_dbrec V\<rparr>"

definition mlx5_init_rxq :: "abi \<Rightarrow> rx_verbs \<Rightarrow> u32 \<Rightarrow> net \<Rightarrow> (int \<times> net) res" where
  "mlx5_init_rxq A V lkey s =
     (if \<not> rv_cq V then Inr (- rv_errno V 0, s)
      else if \<not> rv_wq V then Inr (- rv_errno V 1, s)
      else if rv_modify V \<noteq> 0 then Inr (- rv_modify V, s)
      else if rv_obj V \<noteq> 0 then Inr (- rv_obj V, s)
      else
        bindE (guardE Abort (is_power_of_two (rv_stride V))) (\<lambda>_.
        bindE (guardE Abort (is_power_of_two (rv_cqe_size V))) (\<lambda>_.
        let v = rx_geometry V (n_rxq s) in
        case malloc_array (rv_alloc V) 8 (ucast (rv_wqe_cnt V)) NULL of
          None \<Rightarrow> Inr (- ENOMEM, s\<lparr>n_rxq := v\<lparr>r_buffers := []\<rparr>\<rparr>)
        | Some bufs \<Rightarrow>
          bindE (fill_descriptors A lkey (unat (rv_wqe_cnt V)) 0 (s\<lparr>n_rxq := v\<lparr>r_buffers := bufs\<rparr>\<rparr>)) (\<lambda>(ret, s).
          if ret \<noteq> 0 then Inr (ret, s)
          else
            bindE (foldE (\<lambda>i cqes. bindE (nthE cqes i) (\<lambda>c. updE cqes i (set_cqe_owner A c 1)))
                [0..<unat (rv_cqe_cnt V)] (rx_cqes (n_rxq s))) (\<lambda>cqes.
            let v = (n_rxq s)\<lparr>rx_cqes := cqes\<rparr> in
            Inr (0, s\<lparr>n_rxq := v, n_mem := st32 (n_mem s) (rx_wq_dbrec v) (hton32 (wq_head v AND 0xffff))\<rparr>))))))"

text \<open>The receive steering: a rule that sends the packets for our address to the queue.\<close>

record flow_spec =
  flow_dst_mac :: "u8 list"
  flow_dst_mask :: "u8 list"
  flow_src_mask :: "u8 list"

definition mlx5_qs_init_flows :: "bool \<Rightarrow> bool \<Rightarrow> (flow_spec \<Rightarrow> bool) \<Rightarrow> (nat \<Rightarrow> int) \<Rightarrow> mem \<Rightarrow> ptr \<Rightarrow> int" where
  "mlx5_qs_init_flows ind_table qp create_flow err m our_eth =
     (if \<not> ind_table then - err 0
      else if \<not> qp then - err 1
      else if \<not> create_flow \<lparr>flow_dst_mac = load_bytes m our_eth 6, flow_dst_mask = replicate 6 0xff, flow_src_mask = replicate 6 0\<rparr>
      then - err 2 else 0)"

record tx_verbs =
  tv_cq :: bool
  tv_qp :: "u64 \<Rightarrow> bool"
  tv_errno :: "nat \<Rightarrow> int"
  tv_modify :: "nat \<Rightarrow> int"
  tv_obj :: int
  tv_alloc :: bool
  tv_stride :: u32
  tv_wqe_cnt :: u32
  tv_sq_buf :: ptr
  tv_sq_dbrec :: ptr
  tv_bf_reg :: ptr
  tv_qp_num :: u32
  tv_cqes :: "cqe list"
  tv_cqe_cnt :: u32
  tv_cqe_size :: u32
  tv_cq_dbrec :: ptr

text \<open>The scatter-gather entries asked for; the queue pair is created with that number.\<close>

definition tx_max_sge :: "u64 \<Rightarrow> u64 \<Rightarrow> u64" where
  "tx_max_sge nsegs expected_inline_length =
     (if 0 < expected_inline_length
      then (let num_hdr_segs = 2 + ((expected_inline_length - 2) + 15) div 16 in (num_hdr_segs + nsegs + 3) div 4)
      else (2 + nsegs + 3) div 4)"

definition tx_geometry :: "tx_verbs \<Rightarrow> txq \<Rightarrow> txq" where
  "tx_geometry V v = v\<lparr>sq_buf := tv_sq_buf V, sq_wqe_cnt := tv_wqe_cnt V, sq_stride := tv_stride V, sq_dbrec := tv_sq_dbrec V,
     sq_bf_reg := tv_bf_reg V, sq_qp_num := tv_qp_num V, tx_sq_log_stride := ctz (tv_stride V), tx_cqes := tv_cqes V,
     tx_cqe_cnt := tv_cqe_cnt V, tx_cq_dbrec := tv_cq_dbrec V\<rparr>"

definition mlx5_init_txq :: "tx_verbs \<Rightarrow> u64 \<Rightarrow> u64 \<Rightarrow> net \<Rightarrow> (int \<times> net) res" where
  "mlx5_init_txq V nsegs expected_inline_length s =
     (if \<not> tv_cq V then Inr (- tv_errno V 0, s)
      else if \<not> tv_qp V (tx_max_sge nsegs expected_inline_length) then Inr (- tv_errno V 1, s)
      else if tv_modify V 0 \<noteq> 0 then Inr (- tv_modify V 0, s)
      else if tv_modify V 1 \<noteq> 0 then Inr (- tv_modify V 1, s)
      else if tv_modify V 2 \<noteq> 0 then Inr (- tv_modify V 2, s)
      else if tv_obj V \<noteq> 0 then Inr (- tv_obj V, s)
      else
        bindE (guardE Abort (is_power_of_two (tv_cqe_size V))) (\<lambda>_.
        bindE (guardE Abort (is_power_of_two (tv_stride V))) (\<lambda>_.
        let v = tx_geometry V (n_txq s) in
        case malloc_array (tv_alloc V) 8 (ucast (tv_wqe_cnt V)) NULL of
          None \<Rightarrow> Inr (- ENOMEM, s\<lparr>n_txq := v\<lparr>t_buffers := []\<rparr>\<rparr>)
        | Some bufs \<Rightarrow> Inr (0, s\<lparr>n_txq := v\<lparr>t_buffers := bufs\<rparr>\<rparr>))))"

section \<open>The descriptors are posted\<close>

lemma owner_bits:
  fixes x :: u8
  shows "(1 OR (x AND NOT 1)) AND 1 = 1" "15 OR drop_bit 4 ((1 OR (x AND NOT 1)) AND 0xf0) = (15 :: u8)"
proof -
  show "(1 OR (x AND NOT 1)) AND 1 = 1" by (rule bit_word_eqI) (auto simp: bit_simps bit_1_iff)
  have "bit (15 :: u8) n \<longleftrightarrow> n < 4" if "n < 8" for n
  proof -
    have "\<forall>n \<in> set [0..<8]. bit (15 :: u8) n = (n < 4)" by code_simp
    then show ?thesis using that by simp
  qed
  then show "15 OR drop_bit 4 ((1 OR (x AND NOT 1)) AND 0xf0) = (15 :: u8)"
    by (intro bit_word_eqI) (auto simp: bit_or_iff bit_drop_bit_eq dest: bit_imp_possible_bit)
qed

lemma set_cqe_owner_invalid:
  assumes "documented_abi A" "unat i < unat n" "n = 2 ^ k"
  shows "cqe_status A (set_cqe_owner A c 1) n i = CQE_INVALID A"
proof -
  have "i AND n = 0"
  proof (rule bit_word_eqI)
    fix j
    show "bit (i AND n) j = bit (0 :: u32) j"
    proof (cases "j = k \<and> k < 32")
      case True
      then have "unat i div 2 ^ j = 0" using assms(2,3) by (simp add: unat_exp)
      then show ?thesis using True by (simp add: bit_and_iff bit_iff_odd_unat)
    next
      case False
      then show ?thesis using assms(3) by (auto simp: bit_and_iff bit_exp_iff)
    qed
  qed
  then show ?thesis using assms(1) owner_bits [of "cqe_op_own c"]
    by (simp add: cqe_status_def set_cqe_owner_def documented_abi_def Let_def)
qed

lemma posted_slot:
  assumes "posted v fl" "consumer_idx v = 0" "length fl < unat (rx_wqe_cnt v)"
  shows "unat (wq_head v AND (rx_wqe_cnt v - 1)) = length fl"
proof -
  obtain k where k: "k < 16" "rx_wqe_cnt v = 2 ^ k" and h: "wq_head v = of_nat (length fl)"
    using assms(1,2) by (auto simp: posted_def)
  have l: "length fl < 2 ^ k" using assms(3) k by (simp add: unat_exp)
  also have "(2 :: nat) ^ k \<le> 2 ^ 16" using k(1) by (intro power_increasing) simp_all
  finally have "unat (of_nat (length fl) :: u32) = length fl" by (intro unat_of_nat_less) simp
  then show ?thesis using k l by (simp add: h and_mask_mod)
qed

lemma fill_descriptors_posts:
  assumes "posted (n_rxq s) fl" "consumer_idx (n_rxq s) = 0" "length fl = i" "i + n \<le> unat (rx_wqe_cnt (n_rxq s))"
    and "pool_inv (rx_buf_mempool s)" "NULL \<notin> set (pool_free_stack (rx_buf_mempool s))"
    and "n \<le> length (pool_free_stack (rx_buf_mempool s))"
  shows "\<exists>s'. fill_descriptors A lkey n i s = Inr (0, s') \<and> posted (n_rxq s') (fl @ take n (pool_free_stack (rx_buf_mempool s)))
    \<and> pool_free_stack (rx_buf_mempool s') = drop n (pool_free_stack (rx_buf_mempool s)) \<and> pool_inv (rx_buf_mempool s')
    \<and> rx_frame (set (take n (pool_free_stack (rx_buf_mempool s)))) s s'"
  using assms
proof (induction n arbitrary: s fl i)
  case 0
  then show ?case by (simp add: rx_frame_def)
next
  case (Suc n)
  let ?v = "n_rxq s"
  obtain b bs where st: "pool_free_stack (rx_buf_mempool s) = b # bs"
    using Suc.prems(7) by (cases "pool_free_stack (rx_buf_mempool s)") auto
  then have b: "b \<noteq> NULL" using Suc.prems(6) by auto
  obtain p where p: "mempool_alloc (rx_buf_mempool s) = Inr (b, p)" "pool_free_stack p = bs" "pool_inv p"
    using pool.alloc_top [OF Suc.prems(5) st] by blast
  have room: "length fl < unat (rx_wqe_cnt ?v)" using Suc.prems(3,4) by simp
  have i: "unat (wq_head ?v AND (rx_wqe_cnt ?v - 1)) = i" using posted_slot [OF Suc.prems(1,2) room] Suc.prems(3) by simp
  note push = posted_push [OF Suc.prems(1) room b, unfolded i]
  let ?seg = "rx_wq_buf ?v + ucast (of_nat i * rx_stride ?v)"
  define s1 where "s1 = s\<lparr>rx_buf_mempool := p, n_mbufs := (n_mbufs s)(b := (n_mbufs s b)\<lparr>m_head_len := ucast (item_len p)\<rparr>),
    n_mem := st64 (st32 (st32 (n_mem s) (?seg + data_byte_count A) (hton32 (NET_MTU + RX_BUF_TAIL))) (?seg + data_lkey A) (hton32 lkey))
      (?seg + data_addr A) (hton64 (b + RX_BUF_HEAD)),
    n_rxq := ?v\<lparr>wq_head := wq_head ?v + 1, r_buffers := (r_buffers ?v)[i := b]\<rparr>\<rparr>"
  have start: "fill_descriptors A lkey (Suc n) i s = fill_descriptors A lkey n (Suc i) s1"
    using p(1) b push(1) by (simp add: Let_def s1_def)
  have s1: "posted (n_rxq s1) (fl @ [b])" "rx_frame {b} s s1" "rx_buf_mempool s1 = p" "rx_wqe_cnt (n_rxq s1) = rx_wqe_cnt ?v"
    "consumer_idx (n_rxq s1) = 0"
    using push(2) Suc.prems(2) by (simp_all add: s1_def rx_frame_def)
  obtain s' where s': "fill_descriptors A lkey n (Suc i) s1 = Inr (0, s')" "posted (n_rxq s') ((fl @ [b]) @ take n bs)"
    "pool_free_stack (rx_buf_mempool s') = drop n bs" "pool_inv (rx_buf_mempool s')" "rx_frame (set (take n bs)) s1 s'"
    using Suc.IH [OF s1(1,5), of "Suc i"] s1(3,4) p(2,3) Suc.prems(3,4,6,7) st by auto
  have "rx_frame (set (take (Suc n) (b # bs))) s s'" using rx_frame_trans [OF s1(2) s'(5)] by simp
  then show ?case using start s'(1-4) st by simp
qed

text \<open>A pool with too few items: here the pointer is tested before it is used, and the error is returned.\<close>

lemma fill_descriptors_exhausted:
  assumes "posted (n_rxq s) fl" "consumer_idx (n_rxq s) = 0" "length fl = i" "i + n \<le> unat (rx_wqe_cnt (n_rxq s))"
    and "pool_inv (rx_buf_mempool s)" "NULL \<notin> set (pool_free_stack (rx_buf_mempool s))"
    and "length (pool_free_stack (rx_buf_mempool s)) < n"
  shows "\<exists>s'. fill_descriptors A lkey n i s = Inr (- ENOMEM, s')"
  using assms
proof (induction n arbitrary: s fl i)
  case (Suc n)
  show ?case
  proof (cases "pool_free_stack (rx_buf_mempool s)")
    case Nil
    then show ?thesis using pool.alloc_empty [OF Suc.prems(5)] by (simp add: Let_def)
  next
    case (Cons b bs)
    then have b: "b \<noteq> NULL" using Suc.prems(6) by auto
    obtain p where p: "mempool_alloc (rx_buf_mempool s) = Inr (b, p)" "pool_free_stack p = bs" "pool_inv p"
      using pool.alloc_top [OF Suc.prems(5) Cons] by blast
    have room: "length fl < unat (rx_wqe_cnt (n_rxq s))" using Suc.prems(3,4) by simp
    have i: "unat (wq_head (n_rxq s) AND (rx_wqe_cnt (n_rxq s) - 1)) = i"
      using posted_slot [OF Suc.prems(1,2) room] Suc.prems(3) by simp
    note push = posted_push [OF Suc.prems(1) room b, unfolded i]
    obtain h mb where start: "fill_descriptors A lkey (Suc n) i s = fill_descriptors A lkey n (Suc i)
        (s\<lparr>rx_buf_mempool := p, n_mbufs := mb, n_mem := h,
          n_rxq := (n_rxq s)\<lparr>wq_head := wq_head (n_rxq s) + 1, r_buffers := (r_buffers (n_rxq s))[i := b]\<rparr>\<rparr>)"
      using p(1) b push(1) by (simp add: Let_def)
    show ?thesis
      unfolding start by (rule Suc.IH [of _ "fl @ [b]"]) (use push(2) p(2,3) Suc.prems Cons in simp_all)
  qed
qed simp

section \<open>The receive path is ready\<close>

definition rx_verbs_ok :: "rx_verbs \<Rightarrow> nat \<Rightarrow> bool" where
  "rx_verbs_ok V k \<longleftrightarrow> rv_cq V \<and> rv_wq V \<and> rv_modify V = 0 \<and> rv_obj V = 0 \<and> rv_alloc V
     \<and> is_power_of_two (rv_stride V) \<and> is_power_of_two (rv_cqe_size V) \<and> k < 16 \<and> rv_wqe_cnt V = 2 ^ k
     \<and> (\<exists>j<32. rv_cqe_cnt V = 2 ^ j) \<and> length (rv_cqes V) = unat (rv_cqe_cnt V)"

lemma own_cqes:
  assumes "n \<le> length cqes"
  shows "foldE (\<lambda>i cqes. bindE (nthE cqes i) (\<lambda>c. updE cqes i (f c))) [0..<n] cqes = Inr (map f (take n cqes) @ drop n cqes)"
  using assms
proof (induction n)
  case (Suc n)
  then have n: "n < length cqes" by simp
  let ?l = "map f (take n cqes) @ drop n cqes"
  have at: "?l ! n = cqes ! n" "length ?l = length cqes" using n by (simp_all add: nth_append)
  have "?l[n := f (cqes ! n)] = map f (take (Suc n) cqes) @ drop (Suc n) cqes"
    using n by (simp add: list_update_append take_Suc_conv_app_nth Cons_nth_drop_Suc [symmetric])
  then show ?case using Suc n at by simp
qed simp

lemma rx_buffers:
  assumes "rx_verbs_ok V k"
  shows "malloc_array (rv_alloc V) 8 (ucast (rv_wqe_cnt V)) NULL = Some (replicate (2 ^ k) NULL)"
proof -
  have k: "k < 16" and cnt: "rv_wqe_cnt V = 2 ^ k" and ok: "rv_alloc V" using assms by (simp_all add: rx_verbs_ok_def)
  have c: "unat (ucast (rv_wqe_cnt V) :: u64) = 2 ^ k" using k cnt by (simp add: unat_exp)
  have "(2 :: nat) ^ k \<le> 2 ^ 16" using k by (intro power_increasing) simp_all
  then have "malloc_array True 8 (ucast (rv_wqe_cnt V) :: u64) NULL = Some (replicate (2 ^ k) NULL)"
    using malloc_array_fits [of 8 "ucast (rv_wqe_cnt V)" NULL] by (simp only: c) simp
  then show ?thesis using ok by simp
qed

lemma init_rxq_posts:
  assumes "documented_abi A" "rx_verbs_ok V k" "wq_head (n_rxq s) = 0" "consumer_idx (n_rxq s) = 0"
    and "pool_inv (rx_buf_mempool s)" "NULL \<notin> set (pool_free_stack (rx_buf_mempool s))"
    and "2 ^ k \<le> length (pool_free_stack (rx_buf_mempool s))"
  shows "\<exists>s'. mlx5_init_rxq A V lkey s = Inr (0, s') \<and> posted (n_rxq s') (take (2 ^ k) (pool_free_stack (rx_buf_mempool s)))
    \<and> received A (n_rxq s') (consumer_idx (n_rxq s')) []
    \<and> pool_free_stack (rx_buf_mempool s') = drop (2 ^ k) (pool_free_stack (rx_buf_mempool s)) \<and> pool_inv (rx_buf_mempool s')
    \<and> n_txq s' = n_txq s \<and> mbuf_mempool s' = mbuf_mempool s \<and> tx_buf_mempool s' = tx_buf_mempool s"
proof -
  let ?s0 = "s\<lparr>n_rxq := (rx_geometry V (n_rxq s))\<lparr>r_buffers := replicate (2 ^ k) NULL\<rparr>\<rparr>"
  let ?st = "pool_free_stack (rx_buf_mempool s)"
  have V: "rv_cq V" "rv_wq V" "rv_modify V = 0" "rv_obj V = 0" "is_power_of_two (rv_stride V)" "is_power_of_two (rv_cqe_size V)"
    "k < 16" "rv_wqe_cnt V = 2 ^ k" "length (rv_cqes V) = unat (rv_cqe_cnt V)"
    using assms(2) by (simp_all add: rx_verbs_ok_def)
  obtain j where j: "rv_cqe_cnt V = 2 ^ j" "j < 32" using assms(2) by (auto simp: rx_verbs_ok_def)
  have cnt: "unat (2 ^ k :: u32) = 2 ^ k" using V(7) by (simp add: unat_exp)
  have "posted (n_rxq ?s0) []" using V(7,8) assms(3,4) by (auto simp: posted_def rx_geometry_def)
  then obtain s1 where s1: "fill_descriptors A lkey (2 ^ k) 0 ?s0 = Inr (0, s1)" "posted (n_rxq s1) (take (2 ^ k) ?st)"
    "pool_free_stack (rx_buf_mempool s1) = drop (2 ^ k) ?st" "pool_inv (rx_buf_mempool s1)" "rx_frame (set (take (2 ^ k) ?st)) ?s0 s1"
    using fill_descriptors_posts [of ?s0 "[]" 0 "2 ^ k" A lkey] assms(4-7) V(8) cnt by (auto simp: rx_geometry_def)
  have fr: "rx_cqes (n_rxq s1) = rv_cqes V" "rx_cqe_cnt (n_rxq s1) = rv_cqe_cnt V" "consumer_idx (n_rxq s1) = 0"
    using s1(5) assms(4) by (simp_all add: rx_frame_def rx_geometry_def)
  let ?cqes = "map (\<lambda>c. set_cqe_owner A c 1) (rv_cqes V)"
  let ?v = "(n_rxq s1)\<lparr>rx_cqes := ?cqes\<rparr>"
  define s2 where "s2 = s1\<lparr>n_rxq := ?v, n_mem := st32 (n_mem s1) (rx_wq_dbrec ?v) (hton32 (wq_head ?v AND 0xffff))\<rparr>"
  have s2: "n_rxq s2 = ?v" "rx_buf_mempool s2 = rx_buf_mempool s1" "consumer_idx ?v = 0" by (simp_all add: s2_def fr)
  have "n_txq s2 = n_txq s" "mbuf_mempool s2 = mbuf_mempool s" "tx_buf_mempool s2 = tx_buf_mempool s"
    using s1(5) by (simp_all add: s2_def rx_frame_def)
  moreover have "mlx5_init_rxq A V lkey s = Inr (0, s2)" unfolding s2_def
    using own_cqes [of "unat (rv_cqe_cnt V)" "rv_cqes V" "\<lambda>c. set_cqe_owner A c 1"] V s1(1) fr cnt
    by (simp add: mlx5_init_rxq_def rx_buffers [OF assms(2), unfolded V(8)] Let_def)
  moreover have "received A ?v 0 []"
  proof -
    have "0 < length (rv_cqes V)" using V(9) j by (simp add: unat_exp)
    moreover have "cqe_status A (set_cqe_owner A (rv_cqes V ! 0) 1) (rv_cqe_cnt V) 0 = CQE_INVALID A"
      using assms(1) j by (intro set_cqe_owner_invalid) (simp_all add: unat_exp)
    ultimately show ?thesis by (simp add: slot_def fr)
  qed
  moreover have "posted ?v (take (2 ^ k) ?st)" using s1(2) by (simp add: posted_def)
  ultimately show ?thesis using s1(3,4) by (intro exI [of _ s2] conjI) (simp_all only: s2)
qed

text \<open>A pool on a fresh mapping of whole pages.\<close>

lemma memory_init_creates:
  assumes "mem_map_anom K h NULL (sz * per * np) PGSIZE_2MB 0 s = Inr (b, s')" "b \<noteq> NULL" "b \<noteq> MAP_FAILED"
    and "sz \<noteq> 0" "(sz * per * np) mod PGSIZE_2MB = 0" "capacity mp = 0" "unat b + unat (sz * per * np) \<le> 2 ^ 64"
    and "unat (sz * per * np) \<le> 2 ^ 40"
  shows "\<exists>mp'. mempool_memory_init K h True mp sz per np (m, s) = Inr (0, mp', memset m b DEFAULT_CHAR (unat (sz * per * np)), s')
    \<and> well_laid_out mp' \<and> pool_inv mp' \<and> allocated mp' = 0 \<and> buf mp' = b \<and> len mp' = sz * per * np
    \<and> pgsize mp' = PGSIZE_2MB \<and> item_len mp' = sz"
proof -
  let ?n = "sz * per * np"
  have "is_power_of_two (2 ^ 21 :: u64)" by (rule is_power_of_two_exp) simp
  then have pow: "is_power_of_two PGSIZE_2MB" by simp
  have "unat (?n div PGSIZE_2MB) = unat ?n div 2097152" by (simp add: unat_div_distrib)
  also have "\<dots> \<le> 2 ^ 40 div 2097152" using assms(8) by (rule div_le_mono)
  finally have pages: "unat (?n div PGSIZE_2MB) \<le> INT_MAX" by simp
  have "unat (PGSIZE_2MB div sz) \<le> 2097152" by (simp add: unat_div_distrib)
  then have items: "unat (PGSIZE_2MB div sz) \<le> INT_MAX" by simp
  obtain mp' where "mempool_create True mp b ?n PGSIZE_2MB sz = Inr (0, mp')" "well_laid_out mp'" "pool_inv mp'"
    "allocated mp' = 0" "buf mp' = b" "len mp' = ?n" "pgsize mp' = PGSIZE_2MB" "item_len mp' = sz"
    using pool_created [OF assms(4) pow assms(5-7) pages items] by blast
  then show ?thesis using assms(1-3) by (simp add: mempool_memory_init_def fill_region_def Let_def)
qed

text \<open>
  From the empty pool and queue of a starting process: when the mapping succeeds and the pool has
  at least as many items as the ring, setting up the pool and then the receive queue returns 0, every ring entry
  holds a buffer of its own inside the mapping, no two overlap, no completion is pending,
  and the items that are not posted stay in the pool. This is the state from which receiving keeps the ring full.
\<close>

lemma receive_path_ready:
  assumes "documented_abi A" "rx_verbs_ok V k" "wq_head (n_rxq s) = 0" "consumer_idx (n_rxq s) = 0" "capacity (rx_buf_mempool s) = 0"
    and "mem_map_anom K h NULL (sz * per * np) PGSIZE_2MB 0 \<sigma> = Inr (b, \<sigma>')" "b \<noteq> NULL" "b \<noteq> MAP_FAILED"
    and "sz \<noteq> 0" "(sz * per * np) mod PGSIZE_2MB = 0" "unat b + unat (sz * per * np) \<le> 2 ^ 64" "unat (sz * per * np) \<le> 2 ^ 40"
    and "2 ^ k \<le> unat (sz * per * np div PGSIZE_2MB) * unat (PGSIZE_2MB div sz)"
  shows "\<exists>mp m s'. mempool_memory_init K h True (rx_buf_mempool s) sz per np (n_mem s, \<sigma>) = Inr (0, mp, m, \<sigma>')
    \<and> mlx5_init_rxq A V lkey (s\<lparr>rx_buf_mempool := mp, n_mem := m\<rparr>) = Inr (0, s')
    \<and> well_laid_out mp \<and> buf mp = b \<and> item_len mp = sz
    \<and> posted (n_rxq s') (take (2 ^ k) (mp_free_items mp)) \<and> received A (n_rxq s') (consumer_idx (n_rxq s')) []
    \<and> pool_inv (rx_buf_mempool s') \<and> pool_free_stack (rx_buf_mempool s') = drop (2 ^ k) (mp_free_items mp)"
proof -
  obtain mp m where mp: "mempool_memory_init K h True (rx_buf_mempool s) sz per np (n_mem s, \<sigma>) = Inr (0, mp, m, \<sigma>')"
    "well_laid_out mp" "pool_inv mp" "allocated mp = 0" "buf mp = b" "len mp = sz * per * np" "pgsize mp = PGSIZE_2MB" "item_len mp = sz"
    using memory_init_creates [OF assms(6-10) assms(5) assms(11,12)] by blast
  have st: "pool_free_stack mp = mp_free_items mp" using mp(4) by (simp add: pool_free_stack_def)
  have "0 < unat b" using assms(7) by (simp add: unat_gt_0)
  then have nn: "NULL \<notin> set (mp_free_items mp)" using mp(2,5) by (fastforce simp: well_laid_out_def Let_def)
  have room: "2 ^ k \<le> length (mp_free_items mp)" using mp(2,6-8) assms(13) by (simp add: well_laid_out_def Let_def)
  let ?s = "s\<lparr>rx_buf_mempool := mp, n_mem := m\<rparr>"
  obtain s' where "mlx5_init_rxq A V lkey ?s = Inr (0, s')" "posted (n_rxq s') (take (2 ^ k) (mp_free_items mp))"
    "received A (n_rxq s') (consumer_idx (n_rxq s')) []" "pool_free_stack (rx_buf_mempool s') = drop (2 ^ k) (mp_free_items mp)"
    "pool_inv (rx_buf_mempool s')"
    using init_rxq_posts [OF assms(1,2), of ?s lkey] assms(3,4) mp(3) nn room st by auto
  with mp(1,2,5,8) show ?thesis by blast
qed

definition calm_kernel :: "unit kernel" where
  "calm_kernel = \<lparr>sys_mmap = \<lambda>_ _ _ _ _ k. (0x40000000, k), sys_munmap = \<lambda>_ _ k. (0, k), sys_mbind = \<lambda>_ _ _ _ k. (0, k),
     sys_shmget = \<lambda>_ _ _ k. (0, k), sys_shmat = \<lambda>_ _ k. (0x80000000, k), sys_shmdt = \<lambda>_ k. (0, k), sys_errno = \<lambda>_. 0,
     backed = \<lambda>_ _. True\<rparr>"

definition example_rx_verbs :: rx_verbs where
  "example_rx_verbs = \<lparr>rv_cq = True, rv_wq = True, rv_errno = \<lambda>_. 0, rv_modify = 0, rv_obj = 0, rv_alloc = True, rv_stride = 16,
     rv_wqe_cnt = 1024, rv_wq_buf = 0x1000, rv_wq_dbrec = 0x8000, rv_cqes = replicate 1024 (example_cqe 0 0xF0), rv_cqe_cnt = 1024,
     rv_cqe_size = 64, rv_cq_dbrec = 0x8008\<rparr>"

lemma example_rx_verbs_ok: "rx_verbs_ok example_rx_verbs 10"
proof -
  have "is_power_of_two (2 ^ 4 :: u32)" "is_power_of_two (2 ^ 6 :: u32)" by (rule is_power_of_two_exp; simp)+
  moreover have "(1024 :: u32) = 2 ^ 10" by simp
  ultimately show ?thesis by (auto simp: rx_verbs_ok_def example_rx_verbs_def intro!: exI [of _ 10])
qed

lemma calm_mapping: "mem_map_anom calm_kernel \<lparr>has_2MB = True, has_1GB = True\<rparr> NULL 0xA000000 PGSIZE_2MB 0 () = Inr (0x40000000, ())"
proof -
  have "align_up (0xA000000 :: u64) PGSIZE_2MB = 0xA000000" by (simp add: align_up_def)
  moreover have "touch_mapping (touch_fuel 0xA000000 PGSIZE_2MB) (\<lambda>_. True) 0x40000000 0x4A000000 PGSIZE_2MB = Inr ()"
    by (rule touch_mapping_all [of _ 80]) (simp_all add: touch_fuel_def)
  ultimately show ?thesis
    by (simp add: mem_map_anom_def mem_map_anom_raw_def anon_flags_def calm_kernel_def Let_def)
qed

lemma receive_path_ready_witness:
  "\<exists>mp m s'. mempool_memory_init calm_kernel \<lparr>has_2MB = True, has_1GB = True\<rparr> True zero_mempool 16384 256 40 (\<lambda>_. 0, ()) = Inr (0, mp, m, ())
    \<and> mlx5_init_rxq mlx5_abi example_rx_verbs 5 ((example_net [])\<lparr>rx_buf_mempool := mp, n_mem := m\<rparr>) = Inr (0, s')
    \<and> posted (n_rxq s') (take 1024 (mp_free_items mp))"
proof -
  have "mem_map_anom calm_kernel \<lparr>has_2MB = True, has_1GB = True\<rparr> NULL (16384 * 256 * 40) PGSIZE_2MB 0 () = Inr (0x40000000, ())"
    using calm_mapping by simp
  from receive_path_ready [OF mlx5_abi_documented example_rx_verbs_ok _ _ _ this, of "example_net []" 5]
  show ?thesis by (fastforce simp: example_net_def example_rxq_def zero_mempool_def)
qed

text \<open>
  A failed mapping is not noticed: the sentinel is not NULL, and the region of length \<open>n\<close> at
  it is filled.
\<close>

lemma memory_init_map_failed:
  assumes "mem_map_anom K h NULL (sz * per * np) PGSIZE_2MB 0 s = Inr (MAP_FAILED, s')" "sz * per * np \<noteq> 0"
  shows "mempool_memory_init K h c mp sz per np (m, s) = Inl OutOfBounds"
    "server_memory_init K h (sz * per * np) (m, s) = Inl OutOfBounds"
  using assms by (simp_all add: mempool_memory_init_def server_memory_init_def fill_region_def Let_def)

text \<open>Too small a pool is an error code here, unlike in the refill of the running queue.\<close>

lemma init_rxq_exhausted:
  assumes "rx_verbs_ok V k" "wq_head (n_rxq s) = 0" "consumer_idx (n_rxq s) = 0"
    and "pool_inv (rx_buf_mempool s)" "NULL \<notin> set (pool_free_stack (rx_buf_mempool s))"
    and "length (pool_free_stack (rx_buf_mempool s)) < 2 ^ k"
  shows "\<exists>s'. mlx5_init_rxq A V lkey s = Inr (- ENOMEM, s')"
proof -
  let ?s0 = "s\<lparr>n_rxq := (rx_geometry V (n_rxq s))\<lparr>r_buffers := replicate (2 ^ k) NULL\<rparr>\<rparr>"
  have V: "rv_cq V" "rv_wq V" "rv_modify V = 0" "rv_obj V = 0" "is_power_of_two (rv_stride V)" "is_power_of_two (rv_cqe_size V)"
    "k < 16" "rv_wqe_cnt V = 2 ^ k"
    using assms(1) by (simp_all add: rx_verbs_ok_def)
  have cnt: "unat (2 ^ k :: u32) = 2 ^ k" using V(7) by (simp add: unat_exp)
  have "posted (n_rxq ?s0) []" using V(7,8) assms(2,3) by (auto simp: posted_def rx_geometry_def)
  then obtain s1 where "fill_descriptors A lkey (2 ^ k) 0 ?s0 = Inr (- ENOMEM, s1)"
    using fill_descriptors_exhausted [of ?s0 "[]" 0 "2 ^ k" A lkey] assms(3-6) V(8) cnt by (auto simp: rx_geometry_def)
  then show ?thesis using V cnt
    by (simp add: mlx5_init_rxq_def rx_buffers [OF assms(1), unfolded V(8)] Let_def)
qed

text \<open>The reference counts all start at one.\<close>

lemma upd_all: "n \<le> length xs \<Longrightarrow> fold (\<lambda>j xs. xs[j := v]) [0..<n] xs = replicate n v @ drop n xs"
proof (induction n)
  case (Suc n)
  then show ?case
    by (simp add: list_update_append Cons_nth_drop_Suc [symmetric] replicate_app_Cons_same)
qed simp

lemma updE_all: "n \<le> length xs \<Longrightarrow> foldE (\<lambda>j xs. updE xs j v) [0..<n] xs = Inr (replicate n v @ drop n xs)"
proof (induction n)
  case (Suc n)
  then show ?case
    by (simp add: list_update_append Cons_nth_drop_Suc [symmetric] replicate_app_Cons_same)
qed simp

lemma alloc_refcnts_all:
  assumes "\<forall>j \<in> set js. ok (Suc j) \<and> j < length refs" "malloc_array True 2 n (0 :: u16) = Some r"
  shows "alloc_refcnts ok n js refs = Inr (0, fold (\<lambda>j refs. refs[j := r]) js refs)"
  using assms(1) by (induction js arbitrary: refs) (simp_all add: assms(2))

lemma set_ones:
  assumes "n \<le> length (refs ! j)" "j < length refs"
  shows "foldE (\<lambda>i refs. bindE (nthE refs j) (\<lambda>r. bindE (updE r i 1) (updE refs j))) [0..<n] refs =
    Inr (refs[j := replicate n (1 :: u16) @ drop n (refs ! j)])"
  using assms
proof (induction n)
  case (Suc n)
  have "(replicate n 1 @ drop n (refs ! j))[n := 1] = replicate (Suc n) 1 @ drop (Suc n) (refs ! j)"
    using Suc.prems(1) by (simp add: list_update_append replicate_app_Cons_same Cons_nth_drop_Suc [symmetric])
  then show ?case using Suc by simp
qed simp

lemma set_all_ones:
  assumes "c \<le> length refs" "\<forall>r \<in> set refs. length r = n"
  shows "foldE (\<lambda>j. foldE (\<lambda>i refs. bindE (nthE refs j) (\<lambda>r. bindE (updE r i 1) (updE refs j))) [0..<n]) [0..<c] refs =
    Inr (replicate c (replicate n (1 :: u16)) @ drop c refs)"
  using assms
proof (induction c)
  case (Suc c)
  let ?refs = "replicate c (replicate n (1 :: u16)) @ drop c refs"
  have at: "?refs ! c = refs ! c" "length (refs ! c) = n" "c < length ?refs" using Suc.prems by (simp_all add: nth_append)
  have "?refs[c := replicate n 1] = replicate (Suc c) (replicate n 1) @ drop (Suc c) refs"
    using Suc.prems(1) by (simp add: list_update_append replicate_app_Cons_same Cons_nth_drop_Suc [symmetric])
  then show ?case using Suc set_ones [of n ?refs c] at by simp
qed simp

lemma server_refcnts_all_one:
  assumes "\<And>i. ok i" "8 * unat c < 2 ^ 64" "2 * unat n < 2 ^ 64"
  shows "server_init_refcnt_array ok c n = Inr (0, replicate (unat c) (replicate (unat n) 1))"
proof -
  have 1: "malloc_array True 8 c ([] :: u16 list) = Some (replicate (unat c) [])"
    using assms(2) by (intro malloc_array_fits) simp_all
  have 2: "malloc_array True 2 n (0 :: u16) = Some (replicate (unat n) 0)"
    using assms(3) by (intro malloc_array_fits) simp_all
  have "alloc_refcnts ok n [0..<unat c] (replicate (unat c) []) = Inr (0, replicate (unat c) (replicate (unat n) 0))"
    using alloc_refcnts_all [OF _ 2, of "[0..<unat c]" ok "replicate (unat c) []"] assms(1) upd_all [of "unat c" "replicate (unat c) []"]
    by simp
  then show ?thesis
    using set_all_ones [of "unat c" "replicate (unat c) (replicate (unat n) 0)" "unat n"] assms(1)
    by (simp add: server_init_refcnt_array_def 1)
qed

section \<open>The transmit queue\<close>

text \<open>
  The number of scatter-gather entries asked for is the number of ring entries that a transmission of
  as many segments takes.
\<close>

lemma tx_max_sge_enough:
  assumes "documented_abi A" "unat n < 2 ^ 28" "unat il < 2 ^ 28"
  shows "unat (tx_max_sge (ucast (n :: u32)) il) = wqes_needed A n il"
proof -
  let ?x = "(il - 2 + 15) div 16 :: u64"
  have "unat (13 + il) = unat il + 13" using assms(3) by (simp add: unat_word_ariths)
  then have x: "unat ?x = (unat il + 13) div 16" by (simp add: unat_div_distrib)
  then have small: "unat ?x < 2 ^ 28" using assms(3) by simp
  then have two: "unat (2 + ?x) = 2 + unat ?x" by (simp add: unat_word_ariths)
  have sum: "unat (h + ucast n + 3 :: u64) = unat h + unat n + 3" if "unat h < 2 ^ 29" for h
    using that assms(2) by (simp add: unat_word_ariths)
  have dp: "unat (num_dpsegs A n) = unat n"
  proof -
    have "unat (16 * ucast n :: u64) = 16 * unat n" using assms(2) by (simp add: unat_word_ariths)
    then have "unat (16 * ucast n div 16 :: u64) = unat n" by (simp add: unat_div_distrib)
    then have "unat (ucast (16 * ucast n div 16 :: u64) :: u32) = unat n" using assms(2) by (subst unat_ucast_u64_less) simp_all
    then show ?thesis using assms(1) by (simp add: num_dpsegs_def documented_abi_def)
  qed
  show ?thesis
  proof (cases "0 < il")
    case True
    have "unat (num_hdr_segs A il) = unat (2 + ?x)"
      using True assms(1) small two by (simp add: num_hdr_segs_def documented_abi_def) (subst unat_ucast_u64_less; simp)
    moreover have "unat (tx_max_sge (ucast n) il) = (unat (2 + ?x) + unat n + 3) div 4"
      using True sum [of "2 + ?x"] small two by (simp add: tx_max_sge_def Let_def unat_div_distrib)
    ultimately show ?thesis using dp by (simp add: wqes_needed_def)
  next
    case False
    then show ?thesis using sum [of 2] dp by (simp add: tx_max_sge_def num_hdr_segs_def wqes_needed_def unat_div_distrib)
  qed
qed

definition tx_verbs_ok :: "tx_verbs \<Rightarrow> nat \<Rightarrow> bool" where
  "tx_verbs_ok V k \<longleftrightarrow> tv_cq V \<and> (\<forall>n. tv_qp V n) \<and> (\<forall>i. tv_modify V i = 0) \<and> tv_obj V = 0 \<and> tv_alloc V
     \<and> is_power_of_two (tv_stride V) \<and> is_power_of_two (tv_cqe_size V) \<and> k < 16 \<and> tv_wqe_cnt V = 2 ^ k"

text \<open>A fresh transmit queue is empty: nothing is in flight and the whole ring is free.\<close>

lemma init_txq_ready:
  assumes "tx_verbs_ok V k" "sq_head (n_txq s) = 0" "true_cq_head (n_txq s) = 0"
  shows "\<exists>s'. mlx5_init_txq V nsegs il s = Inr (0, s') \<and> tx_ok (n_txq s') (n_mbufs s') [] \<and> n_rxq s' = n_rxq s"
proof -
  have V: "k < 16" "tv_wqe_cnt V = 2 ^ k" "tv_alloc V" using assms(1) by (simp_all add: tx_verbs_ok_def)
  have c: "unat (ucast (2 ^ k :: u32) :: u64) = 2 ^ k" using V(1) by (simp add: unat_exp)
  have "(2 :: nat) ^ k \<le> 2 ^ 16" using V(1) by (intro power_increasing) simp_all
  then have "malloc_array True 8 (ucast (2 ^ k :: u32) :: u64) NULL = Some (replicate (2 ^ k) NULL)"
    using malloc_array_fits [of 8 "ucast (2 ^ k :: u32)" NULL] by (simp only: c) simp
  then show ?thesis using assms V(1)
    by (auto simp: mlx5_init_txq_def tx_verbs_ok_def tx_geometry_def tx_ok_def)
qed

end
