(* ===== verification/Latency.thy ===== *)
theory Latency
  imports Requests
begin

text \<open>
  latency.c and inc/base/latency.h: the packet map a client fills with round-trip times, the
  reduction of that map to one latency per request, and the statistics printed from them.
  \<open>malloc\<close> may fail; the moving average, which nothing reads, is left out. Conversions of integers
  to \<open>float\<close> and products with a constant are written out with the rounding of the
  hardware; \<open>to_ns\<close> stands for the conversion of cycles to nanoseconds.
\<close>

section \<open>State\<close>

abbreviation (input) MAX_ITERATIONS :: nat where "MAX_ITERATIONS \<equiv> 1000000"
abbreviation (input) MAX_SEGMENT_SIZE :: u32 where "MAX_SEGMENT_SIZE \<equiv> 8192"

record packet_map =
  pm_rtts :: "u64 list"
  pm_ids :: "u64 list"
  pm_count :: u64
  pm_sent_ids :: "u32 list"
  pm_grouped :: "u64 list"

record latency_dist =
  ld_min :: u64
  ld_max :: u64
  ld_sum :: u64
  ld_count :: u64
  ld_latencies :: "u64 list"
  ld_allocated :: u64

section \<open>Recording\<close>

definition alloc_latency_dist :: "bool \<Rightarrow> latency_dist \<Rightarrow> u64 \<Rightarrow> int \<times> latency_dist" where
  "alloc_latency_dist ok d ct = (case malloc_array ok 8 ct 0 of None \<Rightarrow> (- ENOMEM, d)
     | Some arr \<Rightarrow> (0, d\<lparr>ld_latencies := arr, ld_allocated := ct\<rparr>))"

definition free_latency_dist :: "latency_dist \<Rightarrow> latency_dist" where
  "free_latency_dist d = d\<lparr>ld_latencies := []\<rparr>"

definition add_latency_to_map :: "packet_map \<Rightarrow> u64 \<Rightarrow> u32 \<Rightarrow> (int \<times> packet_map) res" where
  "add_latency_to_map m rtt i =
     bindE (updE (pm_rtts m) (unat (pm_count m)) rtt) (\<lambda>rtts.
     bindE (updE (pm_ids m) (unat (pm_count m)) (ucast i)) (\<lambda>ids.
     let m = m\<lparr>pm_rtts := rtts, pm_ids := ids, pm_count := pm_count m + 1\<rparr> in
     if of_nat MAX_ITERATIONS < pm_count m then Inr (- ENOMEM, m) else Inr (0, m)))"

definition free_pktmap :: "packet_map \<Rightarrow> packet_map" where
  "free_pktmap m = m\<lparr>pm_sent_ids := [], pm_grouped := []\<rparr>"

definition add_latency :: "latency_dist \<Rightarrow> u64 \<Rightarrow> (int \<times> latency_dist) res" where
  "add_latency d latency =
     bindE (updE (ld_latencies d) (unat (ld_count d)) latency) (\<lambda>ls.
     let d = d\<lparr>ld_latencies := ls, ld_count := ld_count d + 1\<rparr> in
     if ld_allocated d < ld_count d then Inr (- ENOMEM, d)
     else
       let d = d\<lparr>ld_sum := ld_sum d + latency\<rparr>;
           d = (if latency < ld_min d then d\<lparr>ld_min := latency\<rparr> else d);
           d = (if ld_max d < latency then d\<lparr>ld_max := latency\<rparr> else d)
       in Inr (0, d))"

text \<open>
  The quotient of two integers of at most 32 bits lies further from the next integer than
  a \<open>double\<close> can round, so the ceiling of the quotient is the exact one.
\<close>

definition ceil_div :: "nat \<Rightarrow> nat \<Rightarrow> nat" where
  "ceil_div a b = (a + b - 1) div b"

definition calculate_total_packets_required :: "u32 \<Rightarrow> u32 \<Rightarrow> int res" where
  "calculate_total_packets_required sz nb_segs =
     (if MAX_SEGMENT_SIZE < sz then
        if nb_segs \<noteq> 1 then Inl (Exit 1)
        else Inr (int (ceil_div (unat sz) (unat MAX_SEGMENT_SIZE)))
      else
        bindE (guardE DivByZero (sz \<noteq> 0)) (\<lambda>_.
        let pkts_per_segment = MAX_SEGMENT_SIZE div sz;
            total_pkts_required = ceil_div (unat nb_segs) (unat pkts_per_segment) in
        bindE (guardE SignedOverflow (total_pkts_required \<le> INT_MAX)) (\<lambda>_.
        Inr (int total_pkts_required))))"

section \<open>One latency per request\<close>

definition clear_row :: "u64 \<Rightarrow> nat \<Rightarrow> u32 list \<times> u64 list \<Rightarrow> (u32 list \<times> u64 list) res" where
  "clear_row b r st = (case st of (sent, grouped) \<Rightarrow>
     bindE (updE sent r 0) (\<lambda>sent.
     bindE (foldE (\<lambda>c g. updE g (unat (of_nat r * b + of_nat c)) 0) [0..<unat b] grouped) (\<lambda>grouped.
     Inr (sent, grouped))))"

text \<open>The first empty place of row \<open>r\<close> among its entries \<open>c .. c + n - 1\<close> gets the round-trip time.\<close>

primrec place_rtt :: "u64 \<Rightarrow> u64 \<Rightarrow> u64 \<Rightarrow> nat \<Rightarrow> nat \<Rightarrow> u64 list \<Rightarrow> u64 list res" where
  "place_rtt b r rtt c 0 g = Inr g"
| "place_rtt b r rtt c (Suc n) g =
     bindE (nthE g (unat (r * b + of_nat c))) (\<lambda>v.
     if v = 0 then updE g (unat (r * b + of_nat c)) rtt else place_rtt b r rtt (Suc c) n g)"

definition group_reply :: "packet_map \<Rightarrow> u64 \<Rightarrow> nat \<Rightarrow> u32 list \<times> u64 list \<Rightarrow> (u32 list \<times> u64 list) res" where
  "group_reply m b i st = (case st of (sent, grouped) \<Rightarrow>
     bindE (nthE (pm_ids m) i) (\<lambda>id64.
     let i32 = ucast id64 :: u32 in
     bindE (nthE (pm_rtts m) i) (\<lambda>rtt.
     bindE (updE sent (unat i32) 1) (\<lambda>sent.
     bindE (place_rtt b (ucast i32) rtt 0 (unat b) grouped) (\<lambda>grouped.
     Inr (sent, grouped))))))"

definition row_max :: "u64 \<Rightarrow> nat \<Rightarrow> u64 list \<Rightarrow> u64 res" where
  "row_max b r g = foldE (\<lambda>c mx. bindE (nthE g (unat (of_nat r * b + of_nat c))) (\<lambda>rtt.
     Inr (if rtt \<noteq> 0 then (if mx < rtt then rtt else mx) else mx))) [0..<unat b] 0"

definition add_row :: "u64 \<Rightarrow> u32 list \<Rightarrow> u64 list \<Rightarrow> nat \<Rightarrow> latency_dist \<Rightarrow> latency_dist res" where
  "add_row b sent g r d =
     bindE (nthE sent r) (\<lambda>s.
     if s = 0 then Inr d
     else bindE (row_max b r g) (\<lambda>max_rtt.
       if 0 < max_rtt then bindE (add_latency d max_rtt) (\<lambda>(ret, d). Inr d) else Inr d))"

definition calculate_latencies ::
  "(nat \<Rightarrow> bool) \<Rightarrow> packet_map \<Rightarrow> latency_dist \<Rightarrow> u64 \<Rightarrow> u64 \<Rightarrow> (int \<times> packet_map \<times> latency_dist) res" where
  "calculate_latencies malloc_ok m d num_sent num_per_bucket =
     (let (ret, d) = alloc_latency_dist (malloc_ok 0) d num_sent in
      if ret \<noteq> 0 then Inr (ret, m, d)
      else case (malloc_array (malloc_ok 1) 4 num_sent 0, malloc_array (malloc_ok 2) 8 (num_sent * num_per_bucket) 0) of
        (Some sent, Some grouped) \<Rightarrow>
          bindE (foldE (clear_row num_per_bucket) [0..<unat num_sent] (sent, grouped)) (\<lambda>st.
          bindE (foldE (group_reply m num_per_bucket) [0..<unat (pm_count m)] st) (\<lambda>(sent, grouped).
          bindE (foldE (add_row num_per_bucket sent grouped) [0..<unat num_sent] d) (\<lambda>d.
          Inr (0, m\<lparr>pm_sent_ids := sent, pm_grouped := grouped\<rparr>, d))))
      | _ \<Rightarrow> Inr (- ENOMEM, m, d))"

section \<open>Statistics\<close>

text \<open>A natural number rounded to \<open>p\<close> binary digits, to even when it lies half way.\<close>

fun bit_length :: "nat \<Rightarrow> nat" where
  "bit_length n = (if n = 0 then 0 else Suc (bit_length (n div 2)))"

declare bit_length.simps [simp del]

definition round_bits :: "nat \<Rightarrow> nat \<Rightarrow> nat" where
  "round_bits p n = (let e = bit_length n - p in
     if e = 0 then n
     else let q = n div 2 ^ e; r = n mod 2 ^ e; h = 2 ^ (e - 1) in
       (if h < r \<or> r = h \<and> odd q then q + 1 else q) * 2 ^ e)"

text \<open>\<open>(size_t)((float)n * c)\<close> for a \<open>double\<close> constant \<open>c = k / 2 ^ 53\<close>.\<close>

definition scaled :: "nat \<Rightarrow> u64 \<Rightarrow> nat" where
  "scaled k n = round_bits 53 (round_bits 24 (unat n) * k) div 2 ^ 53"

abbreviation (input) HALF :: nat where "HALF \<equiv> 2 ^ 52"
abbreviation (input) P99 :: nat where "P99 \<equiv> 8917127262193582"
abbreviation (input) P999 :: nat where "P999 \<equiv> 8998192055486251"

definition cmpfunc :: "u64 \<Rightarrow> u64 \<Rightarrow> int" where
  "cmpfunc a b = sint (ucast (a - b) :: u32)"

text \<open>
  \<open>qsort\<close> orders an array by a comparison function; for one that orders the elements
  consistently, and tells different ones apart, the result does not depend on the algorithm.
\<close>

primrec insert_by :: "('a \<Rightarrow> 'a \<Rightarrow> int) \<Rightarrow> 'a \<Rightarrow> 'a list \<Rightarrow> 'a list" where
  "insert_by cmp x [] = [x]"
| "insert_by cmp x (y # ys) = (if cmp x y \<le> 0 then x # y # ys else y # insert_by cmp x ys)"

definition qsort_by :: "('a \<Rightarrow> 'a \<Rightarrow> int) \<Rightarrow> 'a list \<Rightarrow> 'a list" where
  "qsort_by cmp xs = foldr (insert_by cmp) xs []"

definition display :: "(u64 \<Rightarrow> u64) \<Rightarrow> u64 \<Rightarrow> int \<Rightarrow> u64" where
  "display to_ns num in_cycles = (if in_cycles = 0 then num else cycles_to_ns to_ns num)"

record latency_stats =
  st_min :: u64
  st_max :: u64
  st_avg :: u64
  st_median :: u64
  st_p99 :: u64
  st_p999 :: u64

definition cut_latency :: "latency_dist \<Rightarrow> u64 \<Rightarrow> nat \<Rightarrow> u64 list \<times> u64 \<Rightarrow> (u64 list \<times> u64) res" where
  "cut_latency d cutoff i st = (case st of (arr, s) \<Rightarrow>
     bindE (nthE (ld_latencies d) i) (\<lambda>l.
     if of_nat i < cutoff then Inr (arr, s - l)
     else bindE (updE arr (unat (of_nat i - cutoff)) l) (\<lambda>arr. Inr (arr, s))))"

definition latency_summary :: "(u64 \<Rightarrow> u64) \<Rightarrow> bool \<Rightarrow> latency_dist \<Rightarrow> int \<Rightarrow> latency_stats res" where
  "latency_summary to_ns malloc_ok d in_cycles =
     (let num_sorted = of_nat (round_bits 24 (unat (ld_count d)));
          cutoff = ld_count d - num_sorted in
      case malloc_array malloc_ok 8 num_sorted 0 of None \<Rightarrow> Inl (Exit 1)
      | Some arr \<Rightarrow>
        bindE (foldE (cut_latency d cutoff) [0..<unat (ld_count d)] (arr, ld_sum d)) (\<lambda>(arr, s).
        let arr = qsort_by cmpfunc arr in
        bindE (guardE DivByZero (num_sorted \<noteq> 0)) (\<lambda>_.
        bindE (nthE arr (scaled HALF num_sorted)) (\<lambda>med.
        bindE (nthE arr (scaled P99 num_sorted)) (\<lambda>p99.
        bindE (nthE arr (scaled P999 num_sorted)) (\<lambda>p999.
        Inr \<lparr>st_min = display to_ns (ld_min d) in_cycles, st_max = display to_ns (ld_max d) in_cycles,
          st_avg = display to_ns (s div num_sorted) in_cycles, st_median = display to_ns med in_cycles,
          st_p99 = display to_ns p99 in_cycles, st_p999 = display to_ns p999 in_cycles\<rparr>))))))"

definition dump_debug_latencies :: "(u64 \<Rightarrow> u64) \<Rightarrow> bool \<Rightarrow> latency_dist \<Rightarrow> int \<Rightarrow> (int \<times> latency_stats option) res" where
  "dump_debug_latencies to_ns malloc_ok d in_cycles =
     (if ld_count d = 0 then Inr (0, None)
      else bindE (latency_summary to_ns malloc_ok d in_cycles) (\<lambda>st. Inr (0, Some st)))"

text \<open>
  The rates \<open>dump_latencies\<close> prints beside the statistics are \<open>float\<close> quotients and left
  out; the log has one line for each latency, opened without a check.
\<close>

definition dump_latencies ::
  "(u64 \<Rightarrow> u64) \<Rightarrow> bool \<Rightarrow> bool \<Rightarrow> latency_dist \<Rightarrow> int \<Rightarrow> int \<Rightarrow> (int \<times> latency_stats option \<times> (nat \<times> u64) list) res" where
  "dump_latencies to_ns malloc_ok fopen_ok d has_latency_log in_cycles =
     (if ld_count d = 0 then Inr (- EINVAL, None, [])
      else
        bindE (latency_summary to_ns malloc_ok d in_cycles) (\<lambda>st.
        if has_latency_log \<noteq> 0 then
          bindE (guardE NullDeref fopen_ok) (\<lambda>_.
          bindE (guardE SignedOverflow (unat (ld_count d) \<le> INT_MAX)) (\<lambda>_.
          bindE (foldE (\<lambda>i out. bindE (nthE (ld_latencies d) i) (\<lambda>l. Inr (out @ [(i, display to_ns l in_cycles)])))
            [0..<unat (ld_count d)] []) (\<lambda>out.
          Inr (0, Some st, out))))
        else Inr (0, Some st, [])))"

definition calculate_and_dump_latencies ::
  "(u64 \<Rightarrow> u64) \<Rightarrow> (nat \<Rightarrow> bool) \<Rightarrow> bool \<Rightarrow> packet_map \<Rightarrow> latency_dist \<Rightarrow> u64 \<Rightarrow> int \<Rightarrow> int \<Rightarrow> int
    \<Rightarrow> (int \<times> latency_stats option \<times> (nat \<times> u64) list \<times> packet_map \<times> latency_dist) res" where
  "calculate_and_dump_latencies to_ns malloc_ok fopen_ok m d num_sent num_packets_per_request has_latency_log in_cycles =
     bindE (calculate_latencies malloc_ok m d num_sent (of_int num_packets_per_request)) (\<lambda>(ret, m, d).
     if ret \<noteq> 0 then Inr (ret, None, [], m, d)
     else bindE (dump_latencies to_ns (malloc_ok 3) fopen_ok d has_latency_log in_cycles) (\<lambda>(ret, st, log).
       if ret \<noteq> 0 then Inr (ret, st, log, m, d)
       else Inr (ret, st, log, free_pktmap m, free_latency_dist d)))"

section \<open>The latencies of a run\<close>

text \<open>The round-trip times recorded for request \<open>r\<close>, in the order of the replies.\<close>

definition reply_id :: "packet_map \<Rightarrow> nat \<Rightarrow> nat" where
  "reply_id m i = unat (ucast (pm_ids m ! i) :: u32)"

definition received_rtts :: "packet_map \<Rightarrow> nat \<Rightarrow> nat \<Rightarrow> u64 list" where
  "received_rtts m k r = map ((!) (pm_rtts m)) (filter (\<lambda>i. reply_id m i = r \<and> pm_rtts m ! i \<noteq> 0) [0..<k])"

text \<open>The latency of a request: the largest of its first \<open>b\<close> round-trip times.\<close>

definition request_latency :: "nat \<Rightarrow> packet_map \<Rightarrow> nat \<Rightarrow> u64" where
  "request_latency b m r = fold max (take b (received_rtts m (unat (pm_count m)) r)) 0"

definition expected_latencies :: "nat \<Rightarrow> nat \<Rightarrow> packet_map \<Rightarrow> u64 list" where
  "expected_latencies n b m = filter (\<lambda>l. 0 < l) (map (request_latency b m) [0..<n])"

text \<open>The table of replies: row \<open>r\<close> holds the first \<open>b\<close> of \<open>recv r\<close>, then zeros.\<close>

definition table_ok :: "nat \<Rightarrow> nat \<Rightarrow> (nat \<Rightarrow> u64 list) \<Rightarrow> u64 list \<Rightarrow> bool" where
  "table_ok n b recv g \<longleftrightarrow> length g = n * b
     \<and> (\<forall>r<n. \<forall>c<b. g ! (r * b + c) = (if c < length (recv r) then recv r ! c else 0))"

lemma table_index:
  fixes r n c b :: nat
  assumes "r < n" "c < b"
  shows "r * b + c < n * b"
proof -
  have "r * b + c < Suc r * b" using assms(2) by simp
  also have "\<dots> \<le> n * b" using assms(1) by (intro mult_right_mono) simp_all
  finally show ?thesis .
qed

lemma table_index_inj:
  assumes "c < b" "c' < (b :: nat)"
  shows "r * b + c = r' * b + c' \<longleftrightarrow> r = r' \<and> c = c'"
proof
  assume eq: "r * b + c = r' * b + c'"
  have "(r * b + c) div b = r" "(r' * b + c') div b = r'" using assms by simp_all
  then show "r = r' \<and> c = c'" using eq by auto
qed simp

lemma unat_table_index:
  fixes b :: u64
  assumes "r < n" "c < unat b" "n * unat b < 2 ^ 64"
  shows "unat (of_nat r * b + of_nat c) = r * unat b + c"
proof -
  have "of_nat r * b + of_nat c = of_nat (r * unat b + c)" by simp
  moreover have "r * unat b + c < 2 ^ LENGTH(64)" using table_index [OF assms(1,2)] assms(3) by simp
  ultimately show ?thesis using unat_of_nat_less [where 'a = 64, of "r * unat b + c"] by simp
qed

lemma place_rtt_eq:
  assumes "table_ok n (unat b) recv g" "r < n" "n * unat b < 2 ^ 64" "0 \<notin> set (recv r)"
    and "c \<le> length (recv r)" "c + k = unat b"
  shows "place_rtt b (of_nat r) rtt c k g
    = Inr (if length (recv r) < unat b then g[r * unat b + length (recv r) := rtt] else g)"
  using assms(5,6)
proof (induction k arbitrary: c)
  case (Suc k)
  have c: "c < unat b" using Suc.prems by simp
  note ix = unat_table_index [OF assms(2) c assms(3)]
  have len: "r * unat b + c < length g" using table_index [OF assms(2) c] assms(1) by (simp add: table_ok_def)
  have v: "g ! (r * unat b + c) = (if c < length (recv r) then recv r ! c else 0)"
    using assms(1,2) c by (simp add: table_ok_def)
  show ?case
  proof (cases "c < length (recv r)")
    case True
    then have "recv r ! c \<noteq> 0" using assms(4) nth_mem by metis
    then show ?thesis using True v len ix Suc.IH [of "Suc c"] Suc.prems by simp
  next
    case False
    then show ?thesis using v len ix Suc.prems by simp
  qed
qed simp

lemma table_ok_place:
  assumes "table_ok n b recv g" "r < n" "length (recv r) < b"
  shows "table_ok n b (recv(r := recv r @ [v])) (g[r * b + length (recv r) := v])"
  unfolding table_ok_def
proof (intro conjI allI impI)
  fix r' c
  assume rc: "r' < n" "c < b"
  have "r * b + length (recv r) < length g" using table_index [OF assms(2,3)] assms(1) by (simp add: table_ok_def)
  then have "g[r * b + length (recv r) := v] ! (r' * b + c) = (if r = r' \<and> length (recv r) = c then v else g ! (r' * b + c))"
    using table_index_inj [OF assms(3) rc(2), of r r'] by (auto simp: nth_list_update)
  then show "g[r * b + length (recv r) := v] ! (r' * b + c)
      = (if c < length ((recv(r := recv r @ [v])) r') then (recv(r := recv r @ [v])) r' ! c else 0)"
    using assms(1) rc by (auto simp: table_ok_def nth_append less_Suc_eq)
qed (use assms(1) in \<open>simp add: table_ok_def\<close>)

lemma table_ok_full:
  assumes "table_ok n b recv g" "b \<le> length (recv r)"
  shows "table_ok n b (recv(r := recv r @ [v])) g"
  using assms by (auto simp: table_ok_def nth_append)

lemma clear_rows_eq:
  assumes "n * unat b < 2 ^ 64" "length sent = n" "length g = n * unat b" "k \<le> n"
  shows "\<exists>sent' g'. foldE (clear_row b) [0..<k] (sent, g) = Inr (sent', g') \<and> length sent' = n \<and> length g' = n * unat b
    \<and> (\<forall>r<k. sent' ! r = 0 \<and> (\<forall>c<unat b. g' ! (r * unat b + c) = 0))"
  using assms(4)
proof (induction k)
  case (Suc k)
  then obtain s1 g1 where s1: "foldE (clear_row b) [0..<k] (sent, g) = Inr (s1, g1)" "length s1 = n" "length g1 = n * unat b"
    "\<forall>r<k. s1 ! r = 0 \<and> (\<forall>c<unat b. g1 ! (r * unat b + c) = 0)" by auto
  have row: "\<exists>g2. foldE (\<lambda>c g. updE g (unat (of_nat k * b + of_nat c)) 0) [0..<j] g1 = Inr g2 \<and> length g2 = n * unat b
      \<and> (\<forall>r\<le>k. \<forall>c<unat b. r < k \<or> c < j \<longrightarrow> g2 ! (r * unat b + c) = 0)" if "j \<le> unat b" for j
    using that
  proof (induction j)
    case 0
    then show ?case using s1(3,4) by auto
  next
    case (Suc j)
    then obtain g2 where g2: "foldE (\<lambda>c g. updE g (unat (of_nat k * b + of_nat c)) 0) [0..<j] g1 = Inr g2" "length g2 = n * unat b"
      "\<forall>r\<le>k. \<forall>c<unat b. r < k \<or> c < j \<longrightarrow> g2 ! (r * unat b + c) = 0" by auto
    have ix: "unat (of_nat k * b + of_nat j) = k * unat b + j" "k * unat b + j < length g2"
      using unat_table_index [of k n j b] table_index [of k n j "unat b"] Suc.prems \<open>Suc k \<le> n\<close> assms(1) g2(2) by simp_all
    have "g2[k * unat b + j := 0] ! (r * unat b + c) = 0" if "r \<le> k" "c < unat b" "r < k \<or> c < Suc j" for r c
    proof -
      have "k * unat b + j = r * unat b + c \<longleftrightarrow> k = r \<and> j = c" using table_index_inj [of j "unat b" c k r] that(2) Suc.prems by simp
      then show ?thesis using g2(3) that ix(2) by (auto simp: nth_list_update less_Suc_eq)
    qed
    then show ?case using g2(1,2) ix by auto
  qed
  obtain g2 where g2: "foldE (\<lambda>c g. updE g (unat (of_nat k * b + of_nat c)) 0) [0..<unat b] g1 = Inr g2" "length g2 = n * unat b"
    "\<forall>r\<le>k. \<forall>c<unat b. r < k \<or> c < unat b \<longrightarrow> g2 ! (r * unat b + c) = 0" using row by blast
  have "clear_row b k (s1, g1) = Inr (s1[k := 0], g2)" using s1(2) g2(1) Suc.prems by (simp add: clear_row_def)
  then have "foldE (clear_row b) [0..<Suc k] (sent, g) = Inr (s1[k := 0], g2)" using s1(1) by simp
  moreover have "s1[k := 0] ! r = 0 \<and> (\<forall>c<unat b. g2 ! (r * unat b + c) = 0)" if "r < Suc k" for r
    using that s1(2,4) g2(3) Suc.prems by (cases "r = k") (auto simp: nth_list_update)
  ultimately show ?case using s1(2) g2(2) by (intro exI [of _ "s1[k := 0]"] exI [of _ g2]) simp
qed (use assms(2,3) in simp)

lemma received_rtts_Suc:
  "received_rtts m (Suc k) r = received_rtts m k r @ (if reply_id m k = r \<and> pm_rtts m ! k \<noteq> 0 then [pm_rtts m ! k] else [])"
  by (simp add: received_rtts_def)

lemma received_rtts_nonzero: "0 \<notin> set (received_rtts m k r)"
  by (auto simp: received_rtts_def)

lemma table_ok_same:
  assumes "table_ok n b recv g" "r < n" "length (recv r) < b"
  shows "g[r * b + length (recv r) := 0] = g"
proof -
  have "g ! (r * b + length (recv r)) = 0" using assms by (simp add: table_ok_def)
  then show ?thesis by (metis list_update_id)
qed

lemma table_ok_cong: "table_ok n b recv g \<Longrightarrow> (\<And>r. recv r = recv' r) \<Longrightarrow> table_ok n b recv' g"
  by (simp add: table_ok_def)

lemma group_reply_ok:
  assumes "n * unat b < 2 ^ 64" "k < length (pm_ids m)" "k < length (pm_rtts m)" "reply_id m k < n"
    and "length sent = n" "table_ok n (unat b) (received_rtts m k) g"
  shows "\<exists>g'. group_reply m b k (sent, g) = Inr (sent[reply_id m k := 1], g')
    \<and> table_ok n (unat b) (received_rtts m (Suc k)) g'"
proof -
  let ?r = "reply_id m k" and ?recv = "received_rtts m k" and ?v = "pm_rtts m ! k"
  have r: "(of_nat ?r :: u64) = ucast (ucast (pm_ids m ! k) :: u32)" by (simp add: reply_id_def)
  note place = place_rtt_eq [OF assms(6,4,1) received_rtts_nonzero, of 0 "unat b" ?v, simplified]
  let ?g' = "if length (?recv ?r) < unat b then g[?r * unat b + length (?recv ?r) := ?v] else g"
  have "group_reply m b k (sent, g) = Inr (sent[?r := 1], ?g')"
    using place assms(2-5) unfolding r by (simp add: group_reply_def Let_def reply_id_def)
  moreover have "table_ok n (unat b) (received_rtts m (Suc k)) ?g'"
  proof (cases "?v = 0")
    case True
    then have "?g' = g" using table_ok_same [OF assms(6,4)] by simp
    then show ?thesis using table_ok_cong [OF assms(6)] True by (simp add: received_rtts_Suc)
  next
    case False
    then have "received_rtts m (Suc k) = ?recv(?r := ?recv ?r @ [?v])"
      by (auto simp: received_rtts_Suc fun_eq_iff)
    then show ?thesis using table_ok_place [OF assms(6,4)] table_ok_full [OF assms(6)] by (simp add: not_less)
  qed
  ultimately show ?thesis by blast
qed

lemma group_replies_eq:
  assumes "n * unat b < 2 ^ 64" "k \<le> length (pm_ids m)" "k \<le> length (pm_rtts m)" "\<forall>i<k. reply_id m i < n"
    and "length sent = n" "\<forall>r<n. sent ! r = 0" "table_ok n (unat b) (\<lambda>_. []) g"
  shows "\<exists>sent' g'. foldE (group_reply m b) [0..<k] (sent, g) = Inr (sent', g') \<and> length sent' = n
    \<and> (\<forall>r<n. sent' ! r = 0 \<longrightarrow> received_rtts m k r = []) \<and> table_ok n (unat b) (received_rtts m k) g'"
  using assms(2-4)
proof (induction k)
  case 0
  have "received_rtts m 0 = (\<lambda>_. [])" by (simp add: received_rtts_def fun_eq_iff)
  then show ?case using assms(5,7) by simp
next
  case (Suc k)
  then obtain s1 g1 where s1: "foldE (group_reply m b) [0..<k] (sent, g) = Inr (s1, g1)" "length s1 = n"
    "\<forall>r<n. s1 ! r = 0 \<longrightarrow> received_rtts m k r = []" "table_ok n (unat b) (received_rtts m k) g1" by auto
  obtain g2 where g2: "group_reply m b k (s1, g1) = Inr (s1[reply_id m k := 1], g2)"
    "table_ok n (unat b) (received_rtts m (Suc k)) g2"
    using group_reply_ok [OF assms(1) _ _ _ s1(2,4)] Suc.prems by auto
  have "received_rtts m (Suc k) r = []" if "r < n" "s1[reply_id m k := 1] ! r = 0" for r
    using that s1(2,3) by (cases "r = reply_id m k") (auto simp: received_rtts_Suc)
  then show ?case using s1(1,2) g2 by (intro exI [of _ "s1[reply_id m k := 1]"] exI [of _ g2]) simp
qed

lemma row_max_eq:
  assumes "table_ok n (unat b) recv g" "r < n" "n * unat b < 2 ^ 64" "0 \<notin> set (recv r)"
  shows "row_max b r g = Inr (fold max (take (unat b) (recv r)) 0)"
proof -
  have "foldE (\<lambda>c mx. bindE (nthE g (unat (of_nat r * b + of_nat c))) (\<lambda>rtt.
     Inr (if rtt \<noteq> 0 then (if mx < rtt then rtt else mx) else mx))) [0..<k] 0 = Inr (fold max (take k (recv r)) 0)"
    if "k \<le> unat b" for k
    using that
  proof (induction k)
    case (Suc k)
    have ix: "unat (of_nat r * b + of_nat k) = r * unat b + k" "r * unat b + k < length g"
      using unat_table_index [OF assms(2) _ assms(3)] table_index [OF assms(2)] assms(1) Suc.prems by (simp_all add: table_ok_def)
    have v: "g ! (r * unat b + k) = (if k < length (recv r) then recv r ! k else 0)"
      using assms(1,2) Suc.prems by (simp add: table_ok_def)
    show ?case
    proof (cases "k < length (recv r)")
      case True
      then have "recv r ! k \<noteq> 0" using assms(4) nth_mem by metis
      moreover have "(if mx < recv r ! k then recv r ! k else mx) = max (recv r ! k) mx" for mx
        by (auto simp: max_def)
      ultimately show ?thesis using Suc ix v True by (simp add: take_Suc_conv_app_nth)
    next
      case False
      then show ?thesis using Suc ix v by simp
    qed
  qed simp
  then show ?thesis by (simp add: row_max_def)
qed

text \<open>The distribution after the latencies \<open>ls\<close> have been added to an empty one with room for \<open>n\<close>.\<close>

definition with_latencies :: "latency_dist \<Rightarrow> nat \<Rightarrow> u64 list \<Rightarrow> latency_dist" where
  "with_latencies d n ls = d\<lparr>ld_latencies := ls @ replicate (n - length ls) 0, ld_count := of_nat (length ls),
     ld_sum := ld_sum d + sum_list ls, ld_min := fold min ls (ld_min d), ld_max := fold max ls (ld_max d)\<rparr>"

lemma add_latency_eq:
  assumes "length ls < n" "n < 2 ^ 64" "ld_allocated d = of_nat n"
  shows "add_latency (with_latencies d n ls) l = Inr (0, with_latencies d n (ls @ [l]))"
proof -
  have "unat (of_nat (length ls) :: u64) = length ls" using assms(1,2) by (intro unat_of_nat_less) simp
  moreover have "\<not> (of_nat n :: u64) < of_nat (length ls) + 1"
  proof -
    have "unat (of_nat (Suc (length ls)) :: u64) = Suc (length ls)" "unat (of_nat n :: u64) = n"
      using assms(1,2) by (intro unat_of_nat_less, simp)+
    then show ?thesis using assms(1) by (simp add: word_less_nat_alt add.commute)
  qed
  moreover have "replicate (n - length ls) (0 :: u64) = 0 # replicate (n - Suc (length ls)) 0"
    using assms(1) by (simp flip: replicate_Suc add: Suc_diff_Suc)
  ultimately show ?thesis using assms(1,3)
    by (simp add: add_latency_def with_latencies_def Let_def list_update_append min_def max_def add.commute add.left_commute)
qed

lemma add_rows_eq:
  assumes "table_ok n (unat b) recv g" "n * unat b < 2 ^ 64" "n < 2 ^ 64" "\<forall>r. 0 \<notin> set (recv r)" "length sent = n"
    and "\<forall>r<n. sent ! r = 0 \<longrightarrow> recv r = []" "ld_allocated d = of_nat n" "k \<le> n"
  shows "foldE (add_row b sent g) [0..<k] (with_latencies d n [])
    = Inr (with_latencies d n (filter (\<lambda>l. 0 < l) (map (\<lambda>r. fold max (take (unat b) (recv r)) 0) [0..<k])))"
  using assms(8)
proof (induction k)
  case (Suc k)
  let ?ls = "filter (\<lambda>l. 0 < l) (map (\<lambda>r. fold max (take (unat b) (recv r)) 0) [0..<k])"
  have l: "length ?ls < n" using length_filter_le [of "\<lambda>l. 0 < l" "map (\<lambda>r. fold max (take (unat b) (recv r)) (0 :: u64)) [0..<k]"] Suc.prems
    by simp
  have mx: "row_max b k g = Inr (fold max (take (unat b) (recv k)) 0)"
    by (rule row_max_eq [OF assms(1) _ assms(2)]) (use Suc.prems assms(4) in simp_all)
  have "sent ! k = 0 \<Longrightarrow> recv k = []" using assms(6) Suc.prems by simp
  then have "add_row b sent g k (with_latencies d n ?ls)
      = Inr (with_latencies d n (?ls @ filter (\<lambda>l. 0 < l) [fold max (take (unat b) (recv k)) 0]))"
    using mx assms(5) Suc.prems add_latency_eq [OF l assms(3,7)] by (auto simp: add_row_def)
  then show ?case using Suc by simp
qed simp

lemma latency_tables:
  assumes "unat num_sent * unat b < 2 ^ 61" "unat num_sent < 2 ^ 61"
  shows "malloc_array True 8 num_sent 0 = Some (replicate (unat num_sent) (0 :: u64))"
    "malloc_array True 4 num_sent 0 = Some (replicate (unat num_sent) (0 :: u32))"
    "malloc_array True 8 (num_sent * b) 0 = Some (replicate (unat num_sent * unat b) (0 :: u64))"
proof -
  have nb: "unat (num_sent * b) = unat num_sent * unat b" using assms(1) by (simp add: unat_word_ariths)
  have "unat (8 :: u64) * unat (num_sent * b) < 2 ^ 64" using assms(1) nb by (simp add: mult.commute)
  from malloc_array_fits [OF this]
  show "malloc_array True 8 (num_sent * b) 0 = Some (replicate (unat num_sent * unat b) (0 :: u64))" by (simp add: nb)
qed (use assms(2) in \<open>simp_all add: malloc_array_fits\<close>)

text \<open>
  C25. The reduction of the packet map yields one latency for every request that was answered with a
  round-trip time other than 0, in the order of the requests: the largest of its first \<open>num_per_bucket\<close> times. The count, the sum, the
  minimum and the maximum are those of the list.
\<close>

theorem latencies_per_request:
  assumes "\<forall>i. malloc_ok i" "unat num_sent * unat b < 2 ^ 61" "unat num_sent < 2 ^ 61"
    and "unat (pm_count m) \<le> length (pm_ids m)" "unat (pm_count m) \<le> length (pm_rtts m)"
    and "\<forall>i<unat (pm_count m). reply_id m i < unat num_sent" "ld_count d = 0"
  shows "let ls = expected_latencies (unat num_sent) (unat b) m in
    \<exists>m' d'. calculate_latencies malloc_ok m d num_sent b = Inr (0, m', d')
      \<and> unat (ld_count d') = length ls \<and> take (length ls) (ld_latencies d') = ls \<and> ld_sum d' = ld_sum d + sum_list ls
      \<and> ld_min d' = fold min ls (ld_min d) \<and> ld_max d' = fold max ls (ld_max d)"
proof -
  let ?n = "unat num_sent" and ?ls = "expected_latencies (unat num_sent) (unat b) m"
  note a = latency_tables [OF assms(2,3)]
  define d0 where "d0 = d\<lparr>ld_allocated := num_sent\<rparr>"
  have d0: "ld_allocated d0 = of_nat ?n" "with_latencies d0 ?n [] = d\<lparr>ld_latencies := replicate ?n 0, ld_allocated := num_sent\<rparr>"
    using assms(7) by (simp_all add: d0_def with_latencies_def)
  have small: "?n * unat b < 2 ^ 64" "?n < 2 ^ 64" using assms(2,3) by simp_all
  obtain s1 g1 where s1: "foldE (clear_row b) [0..<?n] (replicate ?n 0, replicate (?n * unat b) 0) = Inr (s1, g1)"
    "length s1 = ?n" "length g1 = ?n * unat b" "\<forall>r<?n. s1 ! r = 0 \<and> (\<forall>c<unat b. g1 ! (r * unat b + c) = 0)"
    using clear_rows_eq [OF small(1) length_replicate length_replicate order_refl, of 0 0] by auto
  then have "table_ok ?n (unat b) (\<lambda>_. []) g1" by (simp add: table_ok_def)
  with s1 obtain s2 g2 where s2: "foldE (group_reply m b) [0..<unat (pm_count m)] (s1, g1) = Inr (s2, g2)" "length s2 = ?n"
    "\<forall>r<?n. s2 ! r = 0 \<longrightarrow> received_rtts m (unat (pm_count m)) r = []" "table_ok ?n (unat b) (received_rtts m (unat (pm_count m))) g2"
    using group_replies_eq [OF small(1) assms(4-6), of s1 g1] by auto
  have "foldE (add_row b s2 g2) [0..<?n] (with_latencies d0 ?n []) = Inr (with_latencies d0 ?n ?ls)"
    using add_rows_eq [OF s2(4) small _ s2(2,3) d0(1) order_refl] received_rtts_nonzero
    by (simp add: expected_latencies_def request_latency_def [abs_def])
  then have "calculate_latencies malloc_ok m d num_sent b
      = Inr (0, m\<lparr>pm_sent_ids := s2, pm_grouped := g2\<rparr>, with_latencies d0 ?n ?ls)"
    using assms(1) a s1(1) s2(1) unfolding d0(2) by (simp add: calculate_latencies_def alloc_latency_dist_def)
  moreover have "length ?ls \<le> ?n"
    using length_filter_le [of "\<lambda>l. 0 < l" "map (request_latency (unat b) m) [0..<?n]"] by (simp add: expected_latencies_def)
  then have "unat (of_nat (length ?ls) :: u64) = length ?ls" using small(2) by (intro unat_of_nat_less) simp
  ultimately show ?thesis by (simp add: Let_def with_latencies_def d0_def)
qed

definition example_map :: packet_map where
  "example_map = \<lparr>pm_rtts = [30, 20, 25], pm_ids = [0, 2, 2], pm_count = 3, pm_sent_ids = [], pm_grouped = []\<rparr>"

definition example_dist :: latency_dist where
  "example_dist = \<lparr>ld_min = 0x7FFFFFFFFFFFFFFF, ld_max = 0, ld_sum = 0, ld_count = 0, ld_latencies = [], ld_allocated = 0\<rparr>"

lemma latencies_per_request_witness:
  "\<exists>m' d'. calculate_latencies (\<lambda>_. True) example_map example_dist 3 2 = Inr (0, m', d')
    \<and> take 2 (ld_latencies d') = [30, 25] \<and> ld_sum d' = 55 \<and> ld_min d' = 25 \<and> ld_max d' = 30"
proof -
  have "expected_latencies 3 2 example_map = [30, 25]" by code_simp
  moreover have "\<forall>i<unat (pm_count example_map). reply_id example_map i < unat (3 :: u64)"
  proof -
    have "list_all (\<lambda>i. reply_id example_map i < unat (3 :: u64)) [0..<3]" by code_simp
    moreover have "unat (pm_count example_map) = 3" by (simp add: example_map_def)
    ultimately show ?thesis by (simp only: list_all_iff set_upt) simp
  qed
  ultimately show ?thesis
    using latencies_per_request [of "\<lambda>_. True" 3 2 example_map example_dist]
    by (auto simp: example_map_def example_dist_def Let_def simp flip: numeral_2_eq_2)
qed

text \<open>
  C26. A reply whose id is not below the number of requests counted as sent is written behind the end of
  the table. The client counts one request too few: after the requests \<open>0 .. n\<close> it passes the id of the next one
  less one, so that the reply to its last request lies outside.
\<close>

theorem reply_beyond_sent:
  assumes "\<forall>i. malloc_ok i" "unat num_sent * unat b < 2 ^ 61" "unat num_sent < 2 ^ 61"
    and "unat (pm_count m) \<le> length (pm_ids m)" "unat (pm_count m) \<le> length (pm_rtts m)"
    and "i < unat (pm_count m)" "\<forall>j<i. reply_id m j < unat num_sent" "unat num_sent \<le> reply_id m i"
  shows "calculate_latencies malloc_ok m d num_sent b = Inl OutOfBounds"
proof -
  let ?n = "unat num_sent"
  note a = latency_tables [OF assms(2,3)]
  have small: "?n * unat b < 2 ^ 64" using assms(2) by simp
  obtain s1 g1 where s1: "foldE (clear_row b) [0..<?n] (replicate ?n 0, replicate (?n * unat b) 0) = Inr (s1, g1)"
    "length s1 = ?n" "length g1 = ?n * unat b" "\<forall>r<?n. s1 ! r = 0 \<and> (\<forall>c<unat b. g1 ! (r * unat b + c) = 0)"
    using clear_rows_eq [OF small length_replicate length_replicate order_refl, of 0 0] by auto
  then have "table_ok ?n (unat b) (\<lambda>_. []) g1" by (simp add: table_ok_def)
  with s1 obtain s2 g2 where s2: "foldE (group_reply m b) [0..<i] (s1, g1) = Inr (s2, g2)" "length s2 = ?n"
    using group_replies_eq [OF small _ _ assms(7), of s1 g1] assms(4-6) by auto
  have "group_reply m b i (s2, g2) = Inl OutOfBounds"
    using assms(4-6,8) s2(2) by (simp add: group_reply_def Let_def reply_id_def updE_def)
  moreover have "[0..<unat (pm_count m)] = [0..<i] @ i # [Suc i..<unat (pm_count m)]"
    using assms(6) upt_add_eq_append [of 0 i "unat (pm_count m) - i"] upt_conv_Cons by simp
  ultimately have "foldE (group_reply m b) [0..<unat (pm_count m)] (s1, g1) = Inl OutOfBounds"
    using s2(1) by simp
  then show ?thesis
    using assms(1) a s1(1) by (simp add: calculate_latencies_def alloc_latency_dist_def)
qed

lemma reply_beyond_sent_witness:
  "calculate_latencies (\<lambda>_. True) example_map example_dist (3 - 1) 1 = Inl OutOfBounds"
proof -
  have "\<forall>j<1. reply_id example_map j < unat (2 :: u64)" "unat (2 :: u64) \<le> reply_id example_map 1"
    by (simp_all add: example_map_def reply_id_def)
  then show ?thesis
    using reply_beyond_sent [of "\<lambda>_. True" 2 1 example_map 1 example_dist] by (auto simp: example_map_def)
qed

end
