(* ===== verification/Client.thy ===== *)
theory Client
  imports Init Latency
begin

text \<open>
  The client of main.c: one request per round of the main loop, built in a fresh mbuf from the header and the table of
  requests, sent until the ring takes it, then a wait for the time of the next request in which replies
  are received and their round trip times recorded. The table lies in memory as it was filled by
  \<open>initialize_client_requests\<close>; an access behind its end is a fault.
\<close>

section \<open>State\<close>

text \<open>
  \<open>cl_dev\<close> is what the device does between two calls into the driver; \<open>cl_to_ns\<close>, \<open>cl_to_cycles\<close> and \<open>cl_sec_to_ns\<close> stand for
  products with floating point constants. \<open>cl_request_header\<close> is the address of a local variable nothing is written to.
\<close>

record client_cfg =
  cl_reqs :: ptr
  cl_nreqs :: nat
  cl_nseg :: u64
  cl_segsz :: u64
  cl_header :: ptr
  cl_request_header :: ptr
  cl_mac :: ptr
  cl_lkey :: u32
  cl_total_time :: u64
  cl_abi :: abi
  cl_dev :: "nat \<Rightarrow> net \<Rightarrow> net"
  cl_clk :: tsc
  cl_start_tsc :: u64
  cl_to_ns :: "u64 \<Rightarrow> u64"
  cl_to_cycles :: "u64 \<Rightarrow> u64"
  cl_sec_to_ns :: "u64 \<Rightarrow> u64"

record client =
  k_net :: net
  k_map :: packet_map
  k_readings :: nat
  k_turns :: nat
  k_current :: nat
  k_last :: u64
  k_budget :: u64
  k_received :: u64
  k_outstanding :: u64

abbreviation (input) REQ_MBUFS_SIZE :: u32 where "REQ_MBUFS_SIZE \<equiv> 16384"

definition sizeof_ClientRequest :: u64 where
  "sizeof_ClientRequest = 8 + 4 + 4 + 8 * of_nat MAX_SCATTERS"

definition get_client_req :: "client_cfg \<Rightarrow> nat \<Rightarrow> ptr" where
  "get_client_req cfg i = cl_reqs cfg + of_nat i * sizeof_ClientRequest"

definition client_payload_size :: "client_cfg \<Rightarrow> u64" where
  "client_payload_size cfg = 8 * (cl_nseg cfg + 1)"

definition req_guard :: "client_cfg \<Rightarrow> nat \<Rightarrow> unit res" where
  "req_guard cfg i = guardE OutOfBounds (i < cl_nreqs cfg)"

definition client_cycles :: "client_cfg \<Rightarrow> u64 \<Rightarrow> client \<Rightarrow> u64 \<times> client" where
  "client_cycles cfg base k =
     (let (c, t) = cycles_offset (cl_start_tsc cfg) (cl_clk cfg) base (k_readings k) in (c, k\<lparr>k_readings := t\<rparr>))"

definition client_nanotime :: "client_cfg \<Rightarrow> client \<Rightarrow> u64 \<times> client" where
  "client_nanotime cfg k =
     (let (c, t) = nanotime (cl_to_ns cfg) (cl_start_tsc cfg) (cl_clk cfg) (k_readings k) in (c, k\<lparr>k_readings := t\<rparr>))"

definition device_turn :: "client_cfg \<Rightarrow> client \<Rightarrow> client" where
  "device_turn cfg k = k\<lparr>k_net := cl_dev cfg (k_turns k) (k_net k), k_turns := Suc (k_turns k)\<rparr>"

section \<open>Sending\<close>

text \<open>The buffer behind the mbuf is not compared with NULL; copying into it then writes through NULL.\<close>

definition build_packet :: "client_cfg \<Rightarrow> nat \<Rightarrow> ptr \<Rightarrow> ptr \<Rightarrow> net \<Rightarrow> net" where
  "build_packet cfg cur pkt buffer s =
     (let s = upd_mbuf pkt (\<lambda>b. mbuf_init b buffer REQ_MBUFS_SIZE 0) s;
          s = upd_mbuf pkt (\<lambda>b. b\<lparr>m_release := TxCompletion, m_lkey := cl_lkey cfg\<rparr>) s;
          (h, b) = mbuf_copy (n_mem s) (n_mbufs s pkt) (cl_header cfg) sizeof_OutgoingHeader 0;
          s = upd_mbuf pkt (\<lambda>_. b) (s\<lparr>n_mem := h\<rparr>);
          (h, b) = mbuf_copy (n_mem s) (n_mbufs s pkt) (get_client_req cfg cur + 8) (client_payload_size cfg) sizeof_OutgoingHeader
      in upd_mbuf pkt (\<lambda>_. b) (s\<lparr>n_mem := h\<rparr>))"

definition client_packet :: "client_cfg \<Rightarrow> nat \<Rightarrow> net \<Rightarrow> (ptr \<times> net) res" where
  "client_packet cfg cur s =
     bindE (mempool_alloc (mbuf_mempool s)) (\<lambda>(pkt, p).
     let s = s\<lparr>mbuf_mempool := p\<rparr> in
     if pkt = NULL then Inr (NULL, s)
     else
       bindE (mempool_alloc (tx_buf_mempool s)) (\<lambda>(buffer, p).
       let s = s\<lparr>tx_buf_mempool := p\<rparr> in
       bindE (guardE NullDeref (buffer \<noteq> NULL)) (\<lambda>_.
       bindE (req_guard cfg cur) (\<lambda>_.
       Inr (pkt, build_packet cfg cur pkt buffer s)))))"

text \<open>The loop \<open>while (sent != 1)\<close>, at most \<open>fuel\<close> rounds of it.\<close>

primrec client_transmit :: "client_cfg \<Rightarrow> nat \<Rightarrow> ptr \<Rightarrow> client \<Rightarrow> client res" where
  "client_transmit cfg 0 pkt k = Inl NoFuel"
| "client_transmit cfg (Suc fuel) pkt k =
     (let k = device_turn cfg k in
      bindE (mlx5_transmit_one (cl_abi cfg) pkt (cl_request_header cfg) 0 (k_net k)) (\<lambda>(sent, s).
      let k = k\<lparr>k_net := s\<rparr> in
      if sent \<noteq> 1 then client_transmit cfg fuel pkt k else Inr k))"

text \<open>One request; the flag is False when no mbuf is left. The time it is sent at replaces the gap in the table.\<close>

definition client_send :: "client_cfg \<Rightarrow> nat \<Rightarrow> u64 \<Rightarrow> client \<Rightarrow> (bool \<times> client) res" where
  "client_send cfg fuel start_cycle k =
     bindE (client_packet cfg (k_current k) (k_net k)) (\<lambda>(pkt, s).
     let k = k\<lparr>k_net := s\<rparr> in
     if pkt = NULL then Inr (False, k)
     else
       let (cur_send, k) = client_cycles cfg start_cycle k;
           s = k_net k;
           k = k\<lparr>k_net := s\<lparr>n_mem := st64 (n_mem s) (get_client_req cfg (k_current k)) cur_send\<rparr>, k_last := cur_send\<rparr> in
       bindE (client_transmit cfg fuel pkt k) (\<lambda>k.
       Inr (True, k\<lparr>k_current := Suc (k_current k)\<rparr>)))"

section \<open>Waiting\<close>

definition client_receive :: "client_cfg \<Rightarrow> u64 \<Rightarrow> ptr \<Rightarrow> client \<Rightarrow> client res" where
  "client_receive cfg start_cycle pkt k =
     (let s = k_net k in
      case check_valid_packet (n_mem s) (n_mbufs s pkt) (cl_mac cfg) of
        None \<Rightarrow> bindE (free_mbuf pkt s) (\<lambda>s. Inr (k\<lparr>k_net := s\<rparr>))
      | Some (payload, payload_len) \<Rightarrow>
          let i = read_u64 (n_mem s) payload 0 in
          bindE (req_guard cfg (unat i)) (\<lambda>_.
          let timestamp = ld64 (n_mem s) (get_client_req cfg (unat i));
              (now, k) = client_cycles cfg start_cycle k in
          bindE (add_latency_to_map (k_map k) (now - timestamp) (ucast i)) (\<lambda>(ret, pm).
          bindE (free_mbuf pkt s) (\<lambda>s.
          Inr (k\<lparr>k_net := s, k_map := pm, k_received := k_received k + 1, k_outstanding := k_outstanding k - 1\<rparr>)))))"

text \<open>One round; the flag says whether it is time for the next request.\<close>

definition client_round :: "client_cfg \<Rightarrow> u64 \<Rightarrow> client \<Rightarrow> (bool \<times> client) res" where
  "client_round cfg start_cycle k =
     bindE (req_guard cfg (k_current k)) (\<lambda>_.
     let gap = ld64 (n_mem (k_net k)) (get_client_req cfg (k_current k)) in
     if gap < k_budget k then Inr (True, k\<lparr>k_budget := k_budget k - gap\<rparr>)
     else
       let (now, k) = client_cycles cfg start_cycle k in
       if (gap - k_budget k) + k_last k \<le> now then Inr (True, k\<lparr>k_budget := 0\<rparr>)
       else
         let k = device_turn cfg k in
         bindE (mlx5_gather_rx (cl_abi cfg) 32 (k_net k)) (\<lambda>(pkts, s).
         bindE (foldE (client_receive cfg start_cycle) pkts (k\<lparr>k_net := s\<rparr>)) (\<lambda>k. Inr (False, k))))"

primrec client_wait :: "client_cfg \<Rightarrow> nat \<Rightarrow> u64 \<Rightarrow> client \<Rightarrow> client res" where
  "client_wait cfg 0 start_cycle k = Inl NoFuel"
| "client_wait cfg (Suc fuel) start_cycle k =
     bindE (client_round cfg start_cycle k) (\<lambda>(due, k).
     if due then Inr k else client_wait cfg fuel start_cycle k)"

section \<open>The main loop\<close>

text \<open>The flag is False when the loop was left for want of an mbuf.\<close>

primrec client_loop :: "client_cfg \<Rightarrow> nat \<Rightarrow> u64 \<Rightarrow> u64 \<Rightarrow> client \<Rightarrow> (bool \<times> client) res" where
  "client_loop cfg 0 stop start_cycle k = Inl NoFuel"
| "client_loop cfg (Suc fuel) stop start_cycle k =
     (let (now, k) = client_nanotime cfg k in
      if now < stop then
        bindE (client_send cfg fuel start_cycle k) (\<lambda>(ok, k).
        if \<not> ok then Inr (False, k)
        else bindE (client_wait cfg fuel start_cycle k) (client_loop cfg fuel stop start_cycle))
      else Inr (True, k))"

definition client_start :: "client_cfg \<Rightarrow> net \<Rightarrow> packet_map \<Rightarrow> (u64 \<times> u64 \<times> client)" where
  "client_start cfg s pm =
     (let k = \<lparr>k_net = s, k_map = pm, k_readings = 0, k_turns = 0, k_current = 0, k_last = 0, k_budget = 0,
            k_received = 0, k_outstanding = 0\<rparr>;
          (start_time, k) = client_nanotime cfg k;
          start_cycle = cl_to_cycles cfg start_time
      in (start_time, start_cycle, k\<lparr>k_last := start_cycle\<rparr>))"

text \<open>\<open>total_sent\<close> is read from the request behind the last one that was sent.\<close>

definition do_client ::
  "client_cfg \<Rightarrow> nat \<Rightarrow> (nat \<Rightarrow> bool) \<Rightarrow> bool \<Rightarrow> int \<Rightarrow> latency_dist \<Rightarrow> packet_map \<Rightarrow> net \<Rightarrow> (int \<times> client) res" where
  "do_client cfg fuel malloc_ok fopen_ok has_latency_log dist pm s =
     bindE (calculate_total_packets_required (ucast (cl_segsz cfg)) (ucast (cl_nseg cfg))) (\<lambda>per_request.
     let (start_time, start_cycle, k) = client_start cfg s pm in
     bindE (client_loop cfg fuel (start_time + cl_sec_to_ns cfg (cl_total_time cfg)) start_cycle k) (\<lambda>(ok, k).
     if \<not> ok then Inr (- ENOMEM, k)
     else
       let (now, k) = client_nanotime cfg k in
       bindE (req_guard cfg (k_current k)) (\<lambda>_.
       let total_sent = ucast (ld32 (n_mem (k_net k)) (get_client_req cfg (k_current k) + 8)) - 1 in
       bindE (calculate_and_dump_latencies (cl_to_ns cfg) malloc_ok fopen_ok (k_map k) dist total_sent
         per_request has_latency_log 1) (\<lambda>_. Inr (0, k)))))"

section \<open>The first packet\<close>

text \<open>
  The number of segments of the mbuf is never set; it is what the pool was filled with, so the transmission needs
  more ring entries than any ring has.
\<close>

lemma reap_idle:
  assumes "documented_abi A" "tx_ok (n_txq s) mb []" "completed A (n_txq s) (cq_head (n_txq s)) (true_cq_head (n_txq s)) []"
  shows "\<exists>h. reap_completions A s = Inr (s\<lparr>n_mem := h\<rparr>)"
proof -
  obtain k where "k < 16" "sq_wqe_cnt (n_txq s) = 2 ^ k" "length (t_buffers (n_txq s)) = 2 ^ k"
    using assms(2) by (auto simp: tx_ok_def)
  moreover have "in_ring (n_txq s) (n_mbufs s) (true_cq_head (n_txq s)) ([] @ [])" using assms(2) by (simp add: tx_ok_def)
  ultimately have "gather_completions_loop A SQ_CLEAN_MAX s = Inr ([], s)"
    using gather_loop_eq [of A k s "[]" "[]" SQ_CLEAN_MAX] assms(1,3) by (simp add: advance_def)
  then show ?thesis by (auto simp: reap_completions_def mlx5_gather_completions_def)
qed

lemma dirty_transmission_refused:
  assumes "documented_abi A" "tx_ok (n_txq s) mb []" "completed A (n_txq s) (cq_head (n_txq s)) (true_cq_head (n_txq s)) []"
    and "m \<noteq> NULL" "m_nb_segs (n_mbufs s m) = 0x63636363"
  shows "\<exists>h. mlx5_transmit_one A m rh 0 s = Inr (0, s\<lparr>n_mem := h\<rparr>)"
proof -
  obtain k where k: "k < 16" "sq_wqe_cnt (n_txq s) = 2 ^ k" and idle: "sq_head (n_txq s) = true_cq_head (n_txq s)"
    using assms(2) by (auto simp: tx_ok_def)
  have "(2::nat) ^ k < 2 ^ 16" using k(1) by (intro power_strict_increasing) simp_all
  then have "unat (2 ^ k :: u32) < 65536" using k(1) by (simp add: unat_exp)
  then have small: "(2 ^ k :: u32) < 0x18D8D8DA" by (simp add: word_less_nat_alt)
  have dp: "num_hdr_segs A 0 = 2" "num_dpsegs A 0x63636363 = 0x63636363"
    using assms(1) by (simp_all add: num_hdr_segs_def num_dpsegs_def documented_abi_def)
  obtain h where "reap_completions A s = Inr (s\<lparr>n_mem := h\<rparr>)" using reap_idle [OF assms(1-3)] by blast
  then have "mlx5_fill_tx_segment A m rh 0 s = Inr (ENOMEM, s\<lparr>n_mem := h\<rparr>)"
    using assms(4,5) small by (simp add: mlx5_fill_tx_segment_def dp Let_def nr_inflight_tx_def idle k(2))
  then show ?thesis by (intro exI [of _ h]) (simp add: mlx5_transmit_one_def mlx5_post_transmission_def Let_def)
qed

text \<open>While nothing is in flight the device leaves the transmit queue and the mbuf structures alone.\<close>

definition rx_only_device :: "client_cfg \<Rightarrow> bool" where
  "rx_only_device cfg \<longleftrightarrow> (\<forall>i s. n_txq (cl_dev cfg i s) = n_txq s \<and> n_mbufs (cl_dev cfg i s) = n_mbufs s)"

lemma client_transmit_stuck:
  assumes "documented_abi (cl_abi cfg)" "rx_only_device cfg" "pkt \<noteq> NULL"
    and "tx_ok (n_txq (k_net k)) mb []"
    and "completed (cl_abi cfg) (n_txq (k_net k)) (cq_head (n_txq (k_net k))) (true_cq_head (n_txq (k_net k))) []"
    and "m_nb_segs (n_mbufs (k_net k) pkt) = 0x63636363"
  shows "client_transmit cfg fuel pkt k = Inl NoFuel"
  using assms(4-)
proof (induction fuel arbitrary: k)
  case (Suc fuel)
  let ?k = "device_turn cfg k"
  have dev: "n_txq (k_net ?k) = n_txq (k_net k)" "n_mbufs (k_net ?k) = n_mbufs (k_net k)"
    using assms(2) by (simp_all add: device_turn_def rx_only_device_def)
  obtain h where "mlx5_transmit_one (cl_abi cfg) pkt (cl_request_header cfg) 0 (k_net ?k) = Inr (0, (k_net ?k)\<lparr>n_mem := h\<rparr>)"
    using dirty_transmission_refused [OF assms(1) _ _ assms(3), of "k_net ?k"] Suc.prems dev by metis
  moreover have "client_transmit cfg fuel pkt (?k\<lparr>k_net := (k_net ?k)\<lparr>n_mem := h\<rparr>\<rparr>) = Inl NoFuel"
    using Suc.IH [of "?k\<lparr>k_net := (k_net ?k)\<lparr>n_mem := h\<rparr>\<rparr>"] Suc.prems dev by simp
  ultimately show ?case by (simp add: Let_def)
qed simp

lemma build_packet_frame:
  "n_txq (build_packet cfg cur pkt buffer s) = n_txq s"
  "m_nb_segs (n_mbufs (build_packet cfg cur pkt buffer s) pkt) = m_nb_segs (n_mbufs s pkt)"
  by (simp_all add: build_packet_def upd_mbuf_def mbuf_copy_def mbuf_init_def Let_def)

text \<open>The bytes \<open>nb_segs\<close> of an item of the mbuf pool, 32 bytes behind its start.\<close>

lemma filled_word:
  assumes "unat b \<le> unat x" "unat x + 4 \<le> unat b + n" "unat b + n \<le> 2 ^ 64"
  shows "ld32 (memset m b 99 n) x = 0x63636363"
proof -
  have "memset m b 99 n (x + of_nat i) = 99" if "i < 4" for i
  proof -
    have "unat (x - b) = unat x - unat b" using assms(1) by (simp add: unat_sub word_le_nat_alt)
    moreover have eq: "x + of_nat i - b = (x - b) + of_nat i" by simp
    moreover have "unat ((x - b) + of_nat i :: u64) = unat (x - b) + i"
    proof -
      have "unat (of_nat i :: u64) = i" using that by (intro unat_of_nat_less) simp
      moreover have "unat (x - b) + i < 2 ^ 64" using that assms \<open>unat (x - b) = _\<close> by simp
      ultimately show ?thesis by (simp add: unat_word_ariths)
    qed
    ultimately have "unat (x + of_nat i - b) < n" using assms that unfolding eq by simp
    then show ?thesis by (simp add: memset_def store_bytes_def Let_def)
  qed
  from this [of 0] this [of 1] this [of 2] this [of 3]
  have "load_bytes (memset m b 99 n) x 4 = [99, 99, 99, 99]" by (simp add: load_bytes_def upt_rec)
  then show ?thesis by (simp add: ld32_def of_le32_def)
qed

text \<open>The first mbuf a fresh pool hands out.\<close>

lemma fresh_mbuf_dirty:
  assumes "mempool_memory_init K h True mp 128 4096 100 (m0, \<sigma>) = Inr (0, mp', m, \<sigma>')" "capacity mp = 0"
    and "mem_map_anom K h NULL (128 * 4096 * 100) PGSIZE_2MB 0 \<sigma> = Inr (b, \<sigma>')" "b \<noteq> NULL" "b \<noteq> MAP_FAILED"
    and "unat b + 128 * 4096 * 100 \<le> 2 ^ 64"
  shows "\<exists>pkt st. pool_inv mp' \<and> pool_free_stack mp' = pkt # st \<and> pkt \<noteq> NULL \<and> ld32 m (pkt + 32) = 0x63636363"
proof -
  have mp': "well_laid_out mp'" "pool_inv mp'" "allocated mp' = 0" "buf mp' = b" "len mp' = 52428800" "pgsize mp' = PGSIZE_2MB"
    "item_len mp' = 128" and m: "m = memset m0 b 99 52428800"
    using memory_init_creates [OF assms(3-5), of mp m0] assms(1,2,6) by auto
  have stack: "pool_free_stack mp' = mp_free_items mp'" using mp'(3) by (simp add: pool_free_stack_def)
  have "length (mp_free_items mp') = 25 * 16384" using mp'(1,5-7) by (simp add: well_laid_out_def Let_def)
  then obtain pkt st where pkt: "mp_free_items mp' = pkt # st" by (cases "mp_free_items mp'") simp_all
  then have inside: "unat b \<le> unat pkt" "unat pkt + 128 \<le> unat b + 52428800"
    using mp'(1,4,5,7) by (simp_all add: well_laid_out_def Let_def)
  have "0 < unat b" using assms(4) by (simp add: unat_gt_0)
  then have nn: "pkt \<noteq> NULL" using inside(1) by auto
  have "unat (pkt + 32) = unat pkt + 32" using inside assms(6) by (simp add: unat_word_ariths)
  then have "ld32 m (pkt + 32) = 0x63636363" unfolding m using inside assms(6) by (intro filled_word) simp_all
  then show ?thesis using mp'(2) stack pkt nn by (intro exI [of _ pkt] exI [of _ st]) simp
qed

text \<open>
  C32. In the state the initialisation leaves (the mbuf pool fresh from \<open>mempool_memory_init\<close> with the sizes of main.c, the
  structures in it what its memory was filled with, an idle transmit ring of any size), the client never gets past its
  first packet: \<open>nb_segs\<close> of the mbuf is not set, 0x63636363 segments never fit the ring, and
  the loop that waits for the packet to be accepted goes on for ever.
\<close>

theorem client_never_sends:
  assumes "documented_abi (cl_abi cfg)" "rx_only_device cfg" "tx_ok (n_txq s) (n_mbufs s) []"
    and "completed (cl_abi cfg) (n_txq s) (cq_head (n_txq s)) (true_cq_head (n_txq s)) []"
    and "mempool_memory_init K h True mp 128 4096 100 (m0, \<sigma>) = Inr (0, mbuf_mempool s, m, \<sigma>')" "capacity mp = 0"
    and "mem_map_anom K h NULL (128 * 4096 * 100) PGSIZE_2MB 0 \<sigma> = Inr (b, \<sigma>')" "b \<noteq> NULL" "b \<noteq> MAP_FAILED"
    and "unat b + 128 * 4096 * 100 \<le> 2 ^ 64"
    and "\<And>x. m_nb_segs (n_mbufs s x) = ld32 m (x + 32)"
    and "pool_inv (tx_buf_mempool s)" "pool_free_stack (tx_buf_mempool s) = buffer # bufs" "buffer \<noteq> NULL" "0 < cl_nreqs cfg"
    and "calculate_total_packets_required (ucast (cl_segsz cfg)) (ucast (cl_nseg cfg)) = Inr per"
    and "cl_to_ns cfg (cl_clk cfg 1 - cl_start_tsc cfg)
          < cl_to_ns cfg (cl_clk cfg 0 - cl_start_tsc cfg) + cl_sec_to_ns cfg (cl_total_time cfg)"
  shows "do_client cfg fuel malloc_ok fopen_ok has_latency_log dist pm s = Inl NoFuel"
proof -
  obtain pkt st where pkt: "pool_inv (mbuf_mempool s)" "pool_free_stack (mbuf_mempool s) = pkt # st" "pkt \<noteq> NULL"
    and "ld32 m (pkt + 32) = 0x63636363"
    using fresh_mbuf_dirty [OF assms(5-10)] by blast
  then have segs: "m_nb_segs (n_mbufs s pkt) = 0x63636363" using assms(11) by simp
  obtain p1 where p1: "mempool_alloc (mbuf_mempool s) = Inr (pkt, p1)"
    using pool_alloc_top [OF pkt(1,2)] by blast
  obtain p2 where p2: "mempool_alloc (tx_buf_mempool s) = Inr (buffer, p2)" using pool_alloc_top [OF assms(12,13)] by blast
  have send: "client_send cfg n start k = Inl NoFuel" if "k_net k = s" "k_current k = 0" for n start k
  proof -
    let ?s = "build_packet cfg 0 pkt buffer (s\<lparr>mbuf_mempool := p1, tx_buf_mempool := p2\<rparr>)"
    have packet: "client_packet cfg 0 s = Inr (pkt, ?s)"
      using p1 p2 pkt(3) assms(14,15) by (simp add: client_packet_def req_guard_def)
    have "n_txq ?s = n_txq s" "m_nb_segs (n_mbufs ?s pkt) = 0x63636363" using segs by (simp_all add: build_packet_frame)
    then have "client_transmit cfg n pkt k' = Inl NoFuel" if "n_txq (k_net k') = n_txq ?s" "n_mbufs (k_net k') = n_mbufs ?s" for k'
      using client_transmit_stuck [OF assms(1,2) pkt(3), of k' "n_mbufs s"] that assms(3,4) by simp
    then show ?thesis using that packet pkt(3)
      by (simp add: client_send_def client_cycles_def cycles_offset_def rdtsc_def Let_def)
  qed
  have "client_loop cfg fuel (fst (client_start cfg s pm) + cl_sec_to_ns cfg (cl_total_time cfg)) start (snd (snd (client_start cfg s pm)))
      = Inl NoFuel" for start
  proof (cases fuel)
    case (Suc n)
    then show ?thesis using assms(17)
      by (simp add: client_start_def client_nanotime_def nanotime_def rdtsc_def Let_def send)
  qed simp
  moreover obtain start_time start k where "client_start cfg s pm = (start_time, start, k)" by (cases "client_start cfg s pm")
  ultimately show ?thesis using assms(16) by (simp add: do_client_def)
qed

definition example_client :: client_cfg where
  "example_client = \<lparr>cl_reqs = 0x70000, cl_nreqs = 2, cl_nseg = 2, cl_segsz = 64, cl_header = 0x60000, cl_request_header = 0x61000,
     cl_mac = 0x62000, cl_lkey = 7, cl_total_time = 10, cl_abi = mlx5_abi, cl_dev = \<lambda>i s. s, cl_clk = of_nat, cl_start_tsc = 0,
     cl_to_ns = id, cl_to_cycles = id, cl_sec_to_ns = \<lambda>x. x * 1000000000\<rparr>"

definition fresh_net :: "mempool \<Rightarrow> mem \<Rightarrow> net" where
  "fresh_net mp m = (example_net (replicate 4 (example_cqe 0 0xF1)))\<lparr>n_mbufs := \<lambda>x. example_packet\<lparr>m_nb_segs := ld32 m (x + 32)\<rparr>,
     mbuf_mempool := mp, tx_buf_mempool := zero_mempool\<lparr>mp_free_items := [0x40000], capacity := 1\<rparr>\<rparr>"

lemma small_calm_mapping:
  "mem_map_anom calm_kernel \<lparr>has_2MB = True, has_1GB = True\<rparr> NULL (128 * 4096 * 100) PGSIZE_2MB 0 () = Inr (0x40000000, ())"
proof -
  have "align_up (0x3200000 :: u64) PGSIZE_2MB = 0x3200000" by (simp add: align_up_def)
  moreover have "touch_mapping (touch_fuel 0x3200000 PGSIZE_2MB) (\<lambda>_. True) 0x40000000 0x43200000 PGSIZE_2MB = Inr ()"
    by (rule touch_mapping_all [of _ 25]) (simp_all add: touch_fuel_def)
  ultimately show ?thesis
    by (simp add: mem_map_anom_def mem_map_anom_raw_def anon_flags_def calm_kernel_def Let_def)
qed

lemma client_never_sends_witness:
  "\<exists>mp m. mempool_memory_init calm_kernel \<lparr>has_2MB = True, has_1GB = True\<rparr> True zero_mempool 128 4096 100 (\<lambda>_. 0, ()) = Inr (0, mp, m, ())
    \<and> (\<forall>fuel dist pm. do_client example_client fuel (\<lambda>_. True) True 0 dist pm (fresh_net mp m) = Inl NoFuel)"
proof -
  let ?h = "\<lparr>has_2MB = True, has_1GB = True\<rparr>"
  obtain mp m where init: "mempool_memory_init calm_kernel ?h True zero_mempool 128 4096 100 (\<lambda>_. 0, ()) = Inr (0, mp, m, ())"
    using memory_init_creates [OF small_calm_mapping, of zero_mempool "\<lambda>_. 0"] by (auto simp: zero_mempool_def)
  let ?s = "fresh_net mp m"
  have tx: "tx_ok (n_txq ?s) (n_mbufs ?s) []" "completed mlx5_abi (n_txq ?s) (cq_head (n_txq ?s)) (true_cq_head (n_txq ?s)) []"
    using example_tx_init [of "n_mbufs ?s"] by (simp_all add: tx_init_def fresh_net_def)
  have pools: "mbuf_mempool ?s = mp" "pool_inv (tx_buf_mempool ?s)" "pool_free_stack (tx_buf_mempool ?s) = 0x40000 # []"
    by (simp_all add: fresh_net_def zero_mempool_def pool_inv_def pool_free_stack_def)
  have per: "calculate_total_packets_required (ucast (cl_segsz example_client)) (ucast (cl_nseg example_client)) = Inr 1"
    by (simp add: calculate_total_packets_required_def example_client_def ceil_div_def)
  have cfg: "cl_abi example_client = mlx5_abi" "rx_only_device example_client" "0 < cl_nreqs example_client"
    by (simp_all add: example_client_def rx_only_device_def)
  have clock: "cl_to_ns example_client (cl_clk example_client 1 - cl_start_tsc example_client)
      < cl_to_ns example_client (cl_clk example_client 0 - cl_start_tsc example_client)
        + cl_sec_to_ns example_client (cl_total_time example_client)"
    by (simp add: example_client_def)
  have "do_client example_client fuel (\<lambda>_. True) True 0 dist pm ?s = Inl NoFuel" for fuel dist pm
  proof (rule client_never_sends [OF _ cfg(2) tx(1) _ _ _ small_calm_mapping _ _ _ _ pools(2,3) _ cfg(3) per clock])
    show "mempool_memory_init calm_kernel ?h True zero_mempool 128 4096 100 (\<lambda>_. 0, ()) = Inr (0, mbuf_mempool ?s, m, ())"
      using init pools(1) by simp
  qed (use tx(2) in \<open>simp_all add: cfg(1) mlx5_abi_documented zero_mempool_def fresh_net_def\<close>)
  then show ?thesis using init by blast
qed

section \<open>The packet\<close>

lemma rte_memcpy_store:
  assumes "disjoint_regions d (unat n) a (unat n)"
  shows "rte_memcpy_func m d a n = store_bytes m d (load_bytes m a (unat n))"
  using rte_memcpy_any [OF assms] by (simp add: memcpy_def)

text \<open>
  C33. The packet of a request: with an mbuf and a buffer left, the packet in the buffer is the prepared header followed by the request
  as the table holds it from its id on, and it carries the release function that gives both back. Outside the
  buffer the memory is unchanged.
\<close>

theorem client_packet_contents:
  assumes "pool_inv (mbuf_mempool s)" "pool_free_stack (mbuf_mempool s) = pkt # pkts" "pkt \<noteq> NULL"
    and "pool_inv (tx_buf_mempool s)" "pool_free_stack (tx_buf_mempool s) = buffer # bufs" "buffer \<noteq> NULL"
    and "cur < cl_nreqs cfg" "unat (cl_nseg cfg) \<le> MAX_SCATTERS"
    and "disjoint_regions buffer 16384 (cl_header cfg) 44" "disjoint_regions buffer 16384 (get_client_req cfg cur + 8) 264"
  shows "\<exists>s'. client_packet cfg cur s = Inr (pkt, s')
    \<and> load_bytes (n_mem s') (m_data (n_mbufs s' pkt)) (unat (m_len (n_mbufs s' pkt)))
        = load_bytes (n_mem s) (cl_header cfg) 44 @ load_bytes (n_mem s) (get_client_req cfg cur + 8) (8 * (unat (cl_nseg cfg) + 1))
    \<and> (\<forall>x. 16384 \<le> unat (x - buffer) \<longrightarrow> n_mem s' x = n_mem s x)
    \<and> m_data (n_mbufs s' pkt) = buffer \<and> m_release (n_mbufs s' pkt) = TxCompletion \<and> m_lkey (n_mbufs s' pkt) = cl_lkey cfg
    \<and> pool_free_stack (mbuf_mempool s') = pkts \<and> pool_free_stack (tx_buf_mempool s') = bufs"
proof -
  let ?q = "get_client_req cfg cur + 8" and ?n = "8 * (unat (cl_nseg cfg) + 1)"
  obtain p1 where p1: "mempool_alloc (mbuf_mempool s) = Inr (pkt, p1)" "pool_free_stack p1 = pkts"
    using pool_alloc_top [OF assms(1,2)] by blast
  obtain p2 where p2: "mempool_alloc (tx_buf_mempool s) = Inr (buffer, p2)" "pool_free_stack p2 = bufs"
    using pool_alloc_top [OF assms(4,5)] by blast
  have size: "unat (client_payload_size cfg) = ?n" using assms(8) by (simp add: client_payload_size_def unat_word_ariths)
  have dh: "disjoint_regions buffer (unat (44 :: u64)) (cl_header cfg) (unat (44 :: u64))"
    using assms(9) by (simp add: disjoint_regions_def)
  have dq: "disjoint_regions (buffer + 44) ?n ?q ?n" "disjoint_regions buffer 44 ?q ?n"
    using assms(8) disjoint_parts(3) [OF assms(10), of 44 ?n ?n] disjoint_parts(4) [OF assms(10), of 44 ?n] by simp_all
  let ?m1 = "store_bytes (n_mem s) buffer (load_bytes (n_mem s) (cl_header cfg) 44)"
  let ?m2 = "store_bytes ?m1 (buffer + 44) (load_bytes ?m1 ?q ?n)"
  have eq: "?m2 = store_bytes (n_mem s) buffer (load_bytes (n_mem s) (cl_header cfg) 44 @ load_bytes (n_mem s) ?q ?n)"
    using store_bytes_append [of "load_bytes (n_mem s) (cl_header cfg) 44" "load_bytes ?m1 ?q ?n" "n_mem s" buffer] assms(8)
      load_store_disjoint [of buffer "load_bytes (n_mem s) (cl_header cfg) 44" ?q ?n "n_mem s"] dq(2) by simp
  let ?s = "build_packet cfg cur pkt buffer (s\<lparr>mbuf_mempool := p1, tx_buf_mempool := p2\<rparr>)"
  have "n_mem ?s = ?m2" "m_data (n_mbufs ?s pkt) = buffer" "m_len (n_mbufs ?s pkt) = 44 + ucast (client_payload_size cfg)"
    "m_release (n_mbufs ?s pkt) = TxCompletion" "m_lkey (n_mbufs ?s pkt) = cl_lkey cfg" "mbuf_mempool ?s = p1" "tx_buf_mempool ?s = p2"
    using rte_memcpy_store [OF dh] rte_memcpy_store [of "buffer + 44" "client_payload_size cfg" ?q] dq(1) size
    by (simp_all add: build_packet_def upd_mbuf_def mbuf_copy_def mbuf_init_def Let_def)
  moreover have "unat (44 + ucast (client_payload_size cfg) :: u32) = 44 + ?n"
    using size assms(8) by (simp add: unat_word_ariths unsigned_ucast_eq take_bit_nat_eq_self)
  moreover have "client_packet cfg cur s = Inr (pkt, ?s)"
    using p1 p2 assms(3,6,7) by (simp add: client_packet_def req_guard_def)
  moreover have "load_bytes ?m2 buffer (44 + ?n) = load_bytes (n_mem s) (cl_header cfg) 44 @ load_bytes (n_mem s) ?q ?n"
    unfolding eq using assms(8) by (intro load_store_same) simp_all
  moreover have "?m2 x = n_mem s x" if "16384 \<le> unat (x - buffer)" for x
    unfolding eq using that assms(8) by (intro store_bytes_outside) simp
  ultimately show ?thesis using p1(2) p2(2) by (intro exI [of _ ?s]) simp
qed

section \<open>The schedule\<close>

text \<open>Whether reading \<open>t\<close> of the counter is at or behind the time of the next request.\<close>

definition client_due :: "client_cfg \<Rightarrow> u64 \<Rightarrow> client \<Rightarrow> nat \<Rightarrow> bool" where
  "client_due cfg start_cycle k t \<longleftrightarrow>
     ld64 (n_mem (k_net k)) (get_client_req cfg (k_current k)) + k_last k \<le> cl_clk cfg t - cl_start_tsc cfg - start_cycle"

lemma client_cycles_eq:
  "client_cycles cfg base k = (cl_clk cfg (k_readings k) - cl_start_tsc cfg - base, k\<lparr>k_readings := Suc (k_readings k)\<rparr>)"
  by (simp add: client_cycles_def cycles_offset_def rdtsc_def)

definition same_plan :: "client \<Rightarrow> client \<Rightarrow> bool" where
  "same_plan k k' \<longleftrightarrow> k_budget k' = k_budget k \<and> k_current k' = k_current k \<and> k_last k' = k_last k \<and> k_readings k \<le> k_readings k'"

lemma client_receive_plan: "client_receive cfg start pkt k = Inr k' \<Longrightarrow> same_plan k k'"
  by (auto simp: client_receive_def client_cycles_eq same_plan_def Let_def split: option.splits elim!: bindE_InrE)

lemma client_receive_all_plan:
  assumes "foldE (client_receive cfg start) pkts k = Inr k'"
  shows "same_plan k k'"
  using assms by (rule foldE_invariant [where I = "same_plan k"]) (auto simp: same_plan_def dest!: client_receive_plan)

lemma client_round_plan:
  assumes "client_round cfg start k = Inr (due, k')" "k_budget k = 0"
  shows "same_plan k k' \<and> (due \<longrightarrow> k_readings k' = Suc (k_readings k) \<and> client_due cfg start k' (k_readings k))"
proof (cases "client_due cfg start k (k_readings k)")
  case True
  then have "due \<and> k' = k\<lparr>k_readings := Suc (k_readings k), k_budget := 0\<rparr>"
    using assms by (auto simp: client_round_def client_cycles_eq client_due_def Let_def elim!: bindE_InrE)
  then show ?thesis using True assms(2) by (simp add: same_plan_def client_due_def)
next
  case False
  obtain s pkts where "\<not> due"
    "foldE (client_receive cfg start) pkts (k\<lparr>k_readings := Suc (k_readings k), k_turns := Suc (k_turns k), k_net := s\<rparr>) = Inr k'"
    using assms False
    by (auto simp: client_round_def client_cycles_eq client_due_def device_turn_def Let_def elim!: bindE_InrE)
  then show ?thesis using client_receive_all_plan by (fastforce simp: same_plan_def)
qed

lemma client_wait_plan:
  assumes "client_wait cfg fuel start k = Inr k'" "k_budget k = 0"
  shows "same_plan k k' \<and> (\<exists>t. k_readings k \<le> t \<and> k_readings k' = Suc t \<and> client_due cfg start k' t)"
  using assms
proof (induction fuel arbitrary: k)
  case (Suc fuel)
  then obtain due k1 where r: "client_round cfg start k = Inr (due, k1)"
    "(if due then Inr k1 else client_wait cfg fuel start k1) = Inr k'"
    by (auto elim!: bindE_InrE)
  note plan = client_round_plan [OF r(1) Suc.prems(2)]
  show ?case
  proof (cases due)
    case False
    then have "client_wait cfg fuel start k1 = Inr k'" "k_budget k1 = 0" using r plan Suc.prems(2) by (simp_all add: same_plan_def)
    then show ?thesis using Suc.IH plan by (fastforce simp: same_plan_def)
  qed (use plan r(2) in auto)
qed simp

section \<open>Waiting with replies\<close>

text \<open>
  The writes of the receive path stay off the table entry at \<open>a\<close>: the data segments of the
  receive ring and the two doorbell records are elsewhere.
\<close>

definition entry_apart :: "abi \<Rightarrow> ptr \<Rightarrow> rxq \<Rightarrow> bool" where
  "entry_apart A a v \<longleftrightarrow> (\<forall>i. disjoint_regions (rx_wq_buf v + ucast (push_bit (unat (rx_wq_log_stride v)) (i AND (rx_wqe_cnt v - 1))) + data_addr A) 8 a 8)
     \<and> disjoint_regions (rx_wq_dbrec v) 4 a 8 \<and> disjoint_regions (rx_cq_dbrec v) 4 a 8"

text \<open>What the device does in a state leaves the entry and all of the receive queue but its completions alone.\<close>

definition device_spares :: "client_cfg \<Rightarrow> ptr \<Rightarrow> client \<Rightarrow> bool" where
  "device_spares cfg a k \<longleftrightarrow> (let d = cl_dev cfg (k_turns k) (k_net k) in
     ld64 (n_mem d) a = ld64 (n_mem (k_net k)) a \<and> n_rxq d = (n_rxq (k_net k))\<lparr>rx_cqes := rx_cqes (n_rxq d)\<rparr>)"

text \<open>The state after \<open>j\<close> rounds none of which found the request due.\<close>

primrec after_rounds :: "client_cfg \<Rightarrow> u64 \<Rightarrow> nat \<Rightarrow> client \<Rightarrow> client option" where
  "after_rounds cfg start_cycle 0 k = Some k"
| "after_rounds cfg start_cycle (Suc j) k = (case client_round cfg start_cycle k of
     Inr (False, k) \<Rightarrow> after_rounds cfg start_cycle j k | _ \<Rightarrow> None)"

lemma entry_apart_simps [simp]:
  "entry_apart A a (v\<lparr>consumer_idx := c\<rparr>) = entry_apart A a v" "entry_apart A a (v\<lparr>wq_head := h\<rparr>) = entry_apart A a v"
  "entry_apart A a (v\<lparr>r_buffers := b\<rparr>) = entry_apart A a v" "entry_apart A a (v\<lparr>rx_cqes := q\<rparr>) = entry_apart A a v"
  by (simp_all add: entry_apart_def)

lemma gather_rx_loop_keeps:
  assumes "gather_rx_loop A b s = Inr (ms, s')"
  shows "n_mem s' = n_mem s \<and> entry_apart A a (n_rxq s') = entry_apart A a (n_rxq s) \<and> length ms \<le> b
    \<and> (\<forall>m. m_release (n_mbufs s m) = RxCompletion \<or> m \<in> set ms \<longrightarrow> m_release (n_mbufs s' m) = RxCompletion)"
  using assms
proof (induction b arbitrary: s ms)
  case (Suc b)
  show ?case
  proof (cases "ms = [] \<and> s' = s")
    case False
    then obtain m c t ms' where "ms = m # ms'" "gather_rx_loop A b t = Inr (ms', s')" "n_mem t = n_mem s"
      "n_rxq t = (n_rxq s)\<lparr>consumer_idx := consumer_idx (n_rxq s) + 1\<rparr>" "n_mbufs t = (n_mbufs s)(m := mbuf_fill_cqe m c (n_mbufs s m))"
      using Suc.prems by (fastforce simp: Let_def split: if_splits elim!: bindE_InrE)
    then show ?thesis using Suc.IH [of t ms'] by (auto simp: filled_mbuf)
  qed simp
qed simp

lemma refill_loop_keeps:
  assumes "refill_loop A n s = Inr (r, s')" "entry_apart A a (n_rxq s)"
  shows "ld64 (n_mem s') a = ld64 (n_mem s) a \<and> entry_apart A a (n_rxq s') \<and> (\<forall>m. m_release (n_mbufs s' m) = m_release (n_mbufs s m))"
  using assms
proof (induction n arbitrary: s)
  case (Suc n)
  let ?v = "n_rxq s"
  obtain x bufs t where t: "refill_loop A n t = Inr (r, s')" "\<forall>m. m_release (n_mbufs t m) = m_release (n_mbufs s m)"
    "n_rxq t = ?v\<lparr>wq_head := wq_head ?v + 1, r_buffers := bufs\<rparr>"
    "n_mem t = st64 (n_mem s) (rx_wq_buf ?v + ucast (push_bit (unat (rx_wq_log_stride ?v)) (wq_head ?v AND (rx_wqe_cnt ?v - 1))) + data_addr A) x"
    using Suc.prems(1) by (fastforce simp: Let_def split: if_splits elim!: bindE_InrE)
  have "disjoint_regions (rx_wq_buf ?v + ucast (push_bit (unat (rx_wq_log_stride ?v)) (wq_head ?v AND (rx_wqe_cnt ?v - 1))) + data_addr A) 8 a 8"
    using Suc.prems(2) unfolding entry_apart_def by blast
  then have "ld64 (n_mem t) a = ld64 (n_mem s) a" by (simp add: t(4) ld64_def load_st_disjoint)
  moreover have "entry_apart A a (n_rxq t)" using Suc.prems(2) by (simp add: t(3))
  ultimately show ?case using Suc.IH [OF t(1)] t(2) by simp
qed simp

lemma gather_rx_keeps:
  assumes "mlx5_gather_rx A b s = Inr (ms, s')" "entry_apart A a (n_rxq s)"
  shows "ld64 (n_mem s') a = ld64 (n_mem s) a" "entry_apart A a (n_rxq s')" "length ms \<le> b"
    "\<forall>m\<in>set ms. m_release (n_mbufs s' m) = RxCompletion"
proof -
  obtain t where t: "gather_rx_loop A b s = Inr (ms, t)"
    and r: "ms = [] \<and> s' = t \<or> (\<exists>u. refill_loop A (length ms) (t\<lparr>n_mem := st32 (n_mem t) (rx_cq_dbrec (n_rxq t)) (hton32 (consumer_idx (n_rxq t) AND 0xffffff))\<rparr>) = Inr (0, u)
        \<and> s' = u\<lparr>n_mem := st32 (n_mem u) (rx_wq_dbrec (n_rxq u)) (hton32 (wq_head (n_rxq u) AND 0xffff))\<rparr>)"
    using assms(1) by (fastforce simp: mlx5_gather_rx_def mlx5_refill_rxqueue_def Let_def split: if_splits elim!: bindE_InrE)
  note loop = gather_rx_loop_keeps [OF t, of a]
  have db: "ld64 (st32 m (rx_cq_dbrec v) x) a = ld64 m a" "ld64 (st32 m (rx_wq_dbrec v) x) a = ld64 m a" if "entry_apart A a v" for m v x
    using that by (simp_all add: entry_apart_def ld64_def load_st_disjoint)
  have "ld64 (n_mem s') a = ld64 (n_mem s) a \<and> entry_apart A a (n_rxq s') \<and> length ms \<le> b
    \<and> (\<forall>m\<in>set ms. m_release (n_mbufs s' m) = RxCompletion)"
    using r
  proof (elim disjE exE conjE)
    fix u
    assume u: "refill_loop A (length ms) (t\<lparr>n_mem := st32 (n_mem t) (rx_cq_dbrec (n_rxq t)) (hton32 (consumer_idx (n_rxq t) AND 0xffffff))\<rparr>) = Inr (0, u)"
      and s': "s' = u\<lparr>n_mem := st32 (n_mem u) (rx_wq_dbrec (n_rxq u)) (hton32 (wq_head (n_rxq u) AND 0xffff))\<rparr>"
    show ?thesis using refill_loop_keeps [OF u, of a] loop assms(2) by (simp add: s' db)
  qed (use loop assms(2) in simp)
  then show "ld64 (n_mem s') a = ld64 (n_mem s) a" "entry_apart A a (n_rxq s')" "length ms \<le> b"
    "\<forall>m\<in>set ms. m_release (n_mbufs s' m) = RxCompletion" by simp_all
qed

text \<open>No call of a round has a bound of its own on its loops: a fault of a round is never \<open>NoFuel\<close>.\<close>

lemma mempool_no_fuel [simp]: "mempool_alloc p \<noteq> Inl NoFuel" "mempool_free p m \<noteq> Inl NoFuel"
  by (auto simp: mempool_alloc_def mempool_free_def Let_def bindE_eq_Inl nthE_def updE_def)

lemma gather_rx_loop_no_fuel: "gather_rx_loop A b s \<noteq> Inl NoFuel"
  by (induction b arbitrary: s) (auto simp: Let_def bindE_eq_Inl nthE_def guardE_def split: if_splits)

lemma refill_loop_no_fuel: "refill_loop A n s \<noteq> Inl NoFuel"
  by (induction n arbitrary: s) (auto simp: Let_def bindE_eq_Inl updE_def guardE_def split: if_splits)

lemma gather_rx_no_fuel: "mlx5_gather_rx A b s \<noteq> Inl NoFuel"
  by (auto simp: mlx5_gather_rx_def mlx5_refill_rxqueue_def Let_def bindE_eq_Inl guardE_def gather_rx_loop_no_fuel
      refill_loop_no_fuel split: if_splits)

text \<open>Receiving a packet of the receive pool: one reading of the counter at most, and the pool gets its buffer back.\<close>

lemma free_received_mbuf:
  assumes "m_release (n_mbufs s m) = RxCompletion"
  shows "free_mbuf m s \<noteq> Inl NoFuel" "free_mbuf m s = Inr s' \<Longrightarrow> \<exists>p. s' = s\<lparr>rx_buf_mempool := p\<rparr>"
  using assms
  by (auto simp: free_mbuf_def mbuf_free_def net_release_def rx_completion_def bindE_eq_Inl guardE_def elim!: bindE_InrE)

lemma client_receive_keeps:
  assumes "m_release (n_mbufs (k_net k) m) = RxCompletion"
  shows "client_receive cfg start m k \<noteq> Inl NoFuel"
    and "client_receive cfg start m k = Inr k' \<Longrightarrow> (\<exists>p. k_net k' = (k_net k)\<lparr>rx_buf_mempool := p\<rparr>) \<and> k_readings k' \<le> Suc (k_readings k)"
  using free_received_mbuf [OF assms]
  by (fastforce simp: client_receive_def client_cycles_eq add_latency_to_map_def req_guard_def Let_def bindE_eq_Inl guardE_def updE_def
      split: option.splits if_splits elim!: bindE_InrE)+

lemma client_receive_all_keeps:
  assumes "\<forall>m\<in>set pkts. m_release (n_mbufs (k_net k) m) = RxCompletion"
  shows "foldE (client_receive cfg start) pkts k \<noteq> Inl NoFuel
    \<and> (\<forall>k'. foldE (client_receive cfg start) pkts k = Inr k' \<longrightarrow>
        (\<exists>p. k_net k' = (k_net k)\<lparr>rx_buf_mempool := p\<rparr>) \<and> k_readings k' \<le> k_readings k + length pkts)"
  using assms
proof (induction pkts arbitrary: k)
  case Nil
  then show ?case by (auto intro: exI [of _ "rx_buf_mempool (k_net k)"])
next
  case (Cons m pkts)
  have m: "m_release (n_mbufs (k_net k) m) = RxCompletion" using Cons.prems by simp
  show ?case
  proof (cases "client_receive cfg start m k")
    case (Inl f)
    then show ?thesis using client_receive_keeps(1) [OF m] by auto
  next
    case (Inr k1)
    obtain p where p: "k_net k1 = (k_net k)\<lparr>rx_buf_mempool := p\<rparr>" "k_readings k1 \<le> Suc (k_readings k)"
      using client_receive_keeps(2) [OF m Inr] by blast
    then have "\<forall>m\<in>set pkts. m_release (n_mbufs (k_net k1) m) = RxCompletion" using Cons.prems by simp
    from Cons.IH [OF this] show ?thesis using Inr p by fastforce
  qed
qed

text \<open>One round: at its reading the request is due, or the round ends without a change to the plan, or it faults.\<close>

lemma client_round_cases:
  assumes "k_budget k = 0" "k_current k < cl_nreqs cfg"
    and "device_spares cfg (get_client_req cfg (k_current k)) k"
    and "entry_apart (cl_abi cfg) (get_client_req cfg (k_current k)) (n_rxq (k_net k))"
  obtains (due) "client_due cfg start k (k_readings k)" "client_round cfg start k = Inr (True, k\<lparr>k_readings := Suc (k_readings k)\<rparr>)"
  | (waits) k1 where "\<not> client_due cfg start k (k_readings k)" "client_round cfg start k = Inr (False, k1)" "same_plan k k1"
      "k_readings k < k_readings k1" "k_readings k1 \<le> k_readings k + 33" "client_due cfg start k1 = client_due cfg start k"
      "entry_apart (cl_abi cfg) (get_client_req cfg (k_current k)) (n_rxq (k_net k1))"
  | (fault) f where "\<not> client_due cfg start k (k_readings k)" "client_round cfg start k = Inl f" "f \<noteq> NoFuel"
proof -
  let ?a = "get_client_req cfg (k_current k)" and ?d = "cl_dev cfg (k_turns k) (k_net k)"
  let ?k = "\<lambda>s. k\<lparr>k_readings := Suc (k_readings k), k_turns := Suc (k_turns k), k_net := s\<rparr>"
  have dev: "ld64 (n_mem ?d) ?a = ld64 (n_mem (k_net k)) ?a" "entry_apart (cl_abi cfg) ?a (n_rxq ?d)"
  proof -
    have "n_rxq ?d = (n_rxq (k_net k))\<lparr>rx_cqes := rx_cqes (n_rxq ?d)\<rparr>" using assms(3) by (simp add: device_spares_def Let_def)
    then show "entry_apart (cl_abi cfg) ?a (n_rxq ?d)" using assms(4) entry_apart_simps(4) by metis
  qed (use assms(3) in \<open>simp add: device_spares_def Let_def\<close>)
  show thesis
  proof (cases "client_due cfg start k (k_readings k)")
    case True
    then show ?thesis using assms(1,2)
      by (intro due) (simp_all add: client_round_def req_guard_def client_cycles_eq client_due_def Let_def)
  next
    case False
    then have round: "client_round cfg start k = bindE (mlx5_gather_rx (cl_abi cfg) 32 ?d) (\<lambda>(pkts, s).
         bindE (foldE (client_receive cfg start) pkts (?k s)) (\<lambda>k. Inr (False, k)))"
      using assms(1,2) by (simp add: client_round_def req_guard_def client_cycles_eq client_due_def device_turn_def Let_def)
    show ?thesis
    proof (cases "mlx5_gather_rx (cl_abi cfg) 32 ?d")
      case (Inl f)
      then show ?thesis using gather_rx_no_fuel [of "cl_abi cfg" 32 ?d] False round by (intro fault [of f]) auto
    next
      case (Inr r)
      then obtain pkts s where g: "mlx5_gather_rx (cl_abi cfg) 32 ?d = Inr (pkts, s)" by (cases r) simp
      note keeps = gather_rx_keeps [OF g dev(2)]
      have rx: "\<forall>m\<in>set pkts. m_release (n_mbufs (k_net (?k s)) m) = RxCompletion" using keeps(4) by simp
      note all = client_receive_all_keeps [OF rx, of cfg start]
      show ?thesis
      proof (cases "foldE (client_receive cfg start) pkts (?k s)")
        case (Inl f)
        then show ?thesis using all False round g by (intro fault [of f]) auto
      next
        case (Inr k1)
        obtain p where p: "k_net k1 = s\<lparr>rx_buf_mempool := p\<rparr>" "k_readings k1 \<le> Suc (k_readings k) + length pkts"
          using all Inr by auto
        have plan: "same_plan (?k s) k1" by (rule client_receive_all_plan [OF Inr])
        then have k1: "k_current k1 = k_current k" "k_last k1 = k_last k" "same_plan k k1" "k_readings k < k_readings k1"
          by (simp_all add: same_plan_def)
        have "client_due cfg start k1 = client_due cfg start k" using p(1) keeps(1) dev(1) k1 by (intro ext) (simp add: client_due_def)
        then show ?thesis using p keeps(2,3) round g Inr False k1 by (intro waits [of k1]) simp_all
      qed
    qed
  qed
qed

lemma client_wait_until_due:
  assumes "k_budget k = 0" "k_current k < cl_nreqs cfg"
    and "\<forall>j k'. after_rounds cfg start j k = Some k' \<longrightarrow> device_spares cfg (get_client_req cfg (k_current k)) k'"
    and "entry_apart (cl_abi cfg) (get_client_req cfg (k_current k)) (n_rxq (k_net k))"
    and "0 < fuel" "k_readings k < t + 33" "t < k_readings k + fuel" "\<forall>i<33. client_due cfg start k (t + i)"
  shows "\<exists>j k'. after_rounds cfg start j k = Some k' \<and> same_plan k k'
    \<and> (\<forall>i<j. \<forall>ki. after_rounds cfg start i k = Some ki \<longrightarrow> \<not> client_due cfg start k (k_readings ki))
    \<and> (client_due cfg start k (k_readings k') \<and> client_wait cfg fuel start k = Inr (k'\<lparr>k_readings := Suc (k_readings k')\<rparr>)
      \<or> (\<exists>f. f \<noteq> NoFuel \<and> client_round cfg start k' = Inl f \<and> client_wait cfg fuel start k = Inl f))"
  using assms
proof (induction fuel arbitrary: k)
  case (Suc fuel)
  have spares: "device_spares cfg (get_client_req cfg (k_current k)) k" using Suc.prems(3) by (metis after_rounds.simps(1))
  show ?case
  proof (cases rule: client_round_cases [OF Suc.prems(1,2) spares Suc.prems(4), of start])
    case 1
    then show ?thesis by (intro exI [of _ 0] exI [of _ k]) (simp add: same_plan_def)
  next
    case (2 k1)
    have step: "after_rounds cfg start (Suc j) k = after_rounds cfg start j k1" for j using 2(2) by simp
    have plan: "k_budget k1 = 0" "k_current k1 = k_current k" using 2(3) Suc.prems(1) by (simp_all add: same_plan_def)
    have "k_readings k < t"
    proof (rule ccontr)
      assume "\<not> k_readings k < t"
      then have "k_readings k - t < 33" "t + (k_readings k - t) = k_readings k" using Suc.prems(6) by linarith+
      then show False using 2(1) Suc.prems(8) by metis
    qed
    then have num: "0 < fuel" "k_readings k1 < t + 33" "t < k_readings k1 + fuel" using 2(4,5) Suc.prems(7) by linarith+
    have "\<forall>j k'. after_rounds cfg start j k1 = Some k' \<longrightarrow> device_spares cfg (get_client_req cfg (k_current k1)) k'"
      using Suc.prems(3) step plan(2) by metis
    from Suc.IH [OF plan(1) _ this _ num] obtain j k' where IH: "after_rounds cfg start j k1 = Some k'" "same_plan k1 k'"
      "\<forall>i<j. \<forall>ki. after_rounds cfg start i k1 = Some ki \<longrightarrow> \<not> client_due cfg start k1 (k_readings ki)"
      "client_due cfg start k1 (k_readings k') \<and> client_wait cfg fuel start k1 = Inr (k'\<lparr>k_readings := Suc (k_readings k')\<rparr>)
        \<or> (\<exists>f. f \<noteq> NoFuel \<and> client_round cfg start k' = Inl f \<and> client_wait cfg fuel start k1 = Inl f)"
      using Suc.prems(2,8) 2(6,7) plan(2) by auto
    have "\<not> client_due cfg start k (k_readings ki)" if "i < Suc j" "after_rounds cfg start i k = Some ki" for i ki
    proof (cases i)
      case (Suc i')
      then show ?thesis using IH(3) that step 2(6) by auto
    qed (use that 2(1) in simp)
    moreover have "same_plan k k'" using 2(3) IH(2) by (simp add: same_plan_def)
    ultimately show ?thesis using IH(1,4) step 2(2,6) by (intro exI [of _ "Suc j"] exI [of _ k']) simp
  next
    case (3 f)
    then show ?thesis by (intro exI [of _ 0] exI [of _ k]) (simp add: same_plan_def)
  qed
qed simp

text \<open>When no reply arrives the rounds only read the counter.\<close>

lemma gather_rx_idle:
  assumes "received A (n_rxq s) (consumer_idx (n_rxq s)) []"
  shows "mlx5_gather_rx A (Suc b) s = Inr ([], s)"
  using assms by (simp add: mlx5_gather_rx_def Let_def slot_def)

lemma client_wait_idle:
  assumes "\<And>i. cl_dev cfg i (k_net k) = k_net k" "received (cl_abi cfg) (n_rxq (k_net k)) (consumer_idx (n_rxq (k_net k))) []"
    and "k_budget k = 0" "k_current k < cl_nreqs cfg"
    and "\<forall>i<j. \<not> client_due cfg start k (k_readings k + i)" "client_due cfg start k (k_readings k + j)" "j < fuel"
  shows "client_wait cfg fuel start k = Inr (k\<lparr>k_readings := k_readings k + Suc j, k_budget := 0, k_turns := k_turns k + j\<rparr>)"
  using assms
proof (induction fuel arbitrary: k j)
  case (Suc fuel)
  show ?case
  proof (cases j)
    case 0
    then show ?thesis using Suc.prems
      by (simp add: client_round_def req_guard_def client_cycles_eq client_due_def Let_def)
  next
    case (Suc i)
    let ?k = "k\<lparr>k_readings := Suc (k_readings k), k_turns := Suc (k_turns k)\<rparr>"
    have "\<not> client_due cfg start k (k_readings k)" using Suc.prems(5) Suc by (elim allE [of _ 0]) simp
    moreover have "mlx5_gather_rx (cl_abi cfg) 32 (k_net k) = Inr ([], k_net k)"
      using gather_rx_idle [OF Suc.prems(2), of 31] by (simp add: numeral_eq_Suc)
    ultimately have "client_round cfg start k = Inr (False, ?k)" using Suc.prems(1,3,4)
      by (simp add: client_round_def req_guard_def client_cycles_eq client_due_def device_turn_def Let_def)
    moreover have "client_wait cfg fuel start ?k = Inr (?k\<lparr>k_readings := k_readings ?k + Suc i, k_budget := 0, k_turns := k_turns ?k + i\<rparr>)"
      using Suc.prems Suc by (intro Suc.IH) (auto simp: client_due_def)
    ultimately show ?thesis using Suc by simp
  qed
qed simp

text \<open>
  C34. The wait for the next request, whatever replies arrive in it: rounds end at readings of the counter at which
  the request is not due, and the first one at whose reading the gap of the request
  after the last transmission has passed ends the wait; only a fault on the receive path can end it earlier, and it
  does end, after at most one round for each reading before the time is over. Which request is next, the time of the last
  transmission and the budget for lateness, which is zero from the start, are what they were.
  The device may do anything but write the table entry and the program's side of the receive queue; a
  round makes at most 33 readings, so the time has to be over for as many readings in a row.
\<close>

theorem client_waits_until_due:
  assumes "k_budget k = 0" "k_current k < cl_nreqs cfg"
    and "\<forall>j k'. after_rounds cfg start j k = Some k' \<longrightarrow> device_spares cfg (get_client_req cfg (k_current k)) k'"
    and "entry_apart (cl_abi cfg) (get_client_req cfg (k_current k)) (n_rxq (k_net k))"
    and "k_readings k \<le> t" "t < k_readings k + fuel" "\<forall>i<33. client_due cfg start k (t + i)"
  shows "\<exists>j k'. after_rounds cfg start j k = Some k'
    \<and> k_budget k' = 0 \<and> k_current k' = k_current k \<and> k_last k' = k_last k \<and> k_readings k \<le> k_readings k'
    \<and> (\<forall>i<j. \<forall>ki. after_rounds cfg start i k = Some ki \<longrightarrow> \<not> client_due cfg start k (k_readings ki))
    \<and> (client_due cfg start k (k_readings k') \<and> client_wait cfg fuel start k = Inr (k'\<lparr>k_readings := Suc (k_readings k')\<rparr>)
      \<or> (\<exists>f. f \<noteq> NoFuel \<and> client_round cfg start k' = Inl f \<and> client_wait cfg fuel start k = Inl f))"
proof -
  have "0 < fuel" "k_readings k < t + 33" using assms(5,6) by simp_all
  from client_wait_until_due [OF assms(1-4) this assms(6,7)] show ?thesis using assms(1) unfolding same_plan_def by metis
qed

text \<open>A device that delivers one packet to the waiting client; it is not for the client.\<close>

definition one_reply :: "cqe list" where
  "one_reply = example_cqe 0 0x20 # replicate 3 (example_cqe 0 0xF0)"

definition example_replying :: client_cfg where
  "example_replying = example_client\<lparr>cl_dev := \<lambda>i s. s\<lparr>n_rxq := (n_rxq s)\<lparr>rx_cqes := one_reply\<rparr>\<rparr>\<rparr>"

definition example_waiting :: client where
  "example_waiting = \<lparr>k_net = example_rx [0x30000],
     k_map = \<lparr>pm_rtts = [], pm_ids = [], pm_count = 0, pm_sent_ids = [], pm_grouped = []\<rparr>, k_readings = 1, k_turns = 0,
     k_current = 1, k_last = 5, k_budget = 0, k_received = 0, k_outstanding = 0\<rparr>"

lemma one_refill:
  assumes "rx_buf_mempool r = zero_mempool\<lparr>mp_free_items := [0x30000], capacity := 1, item_len := 16384\<rparr>"
    and "n_rxq r = example_rxq\<lparr>r_buffers := [0x10000, 0x20000], wq_head := 2, rx_cqe_cnt := 4, rx_cqes := one_reply, consumer_idx := 1\<rparr>"
  shows "\<exists>t. mlx5_refill_rxqueue mlx5_abi 1 r = Inr (0, t) \<and> n_mbufs t 0x10000 = n_mbufs r 0x10000
    \<and> n_rxq t = example_rxq\<lparr>r_buffers := [0x30000, 0x20000], wq_head := 3, rx_cqe_cnt := 4, rx_cqes := one_reply, consumer_idx := 1\<rparr>
    \<and> rx_buf_mempool t = zero_mempool\<lparr>mp_free_items := [0x30000], capacity := 1, item_len := 16384, allocated := 1\<rparr>
    \<and> n_mem t = st32 (st64 (n_mem r) 8200 (hton64 0x30080)) 1024 (hton32 3)"
proof -
  have "refill_loop mlx5_abi 1 r = refill_loop mlx5_abi (Suc 0) r" by simp
  then show ?thesis unfolding mlx5_refill_rxqueue_def using assms
    by (simp add: Let_def example_rxq_def mempool_alloc_def zero_mempool_def mlx5_abi_def word_le_nat_alt)
qed

lemma one_gather:
  "\<exists>t. mlx5_gather_rx mlx5_abi 32 (example_rx [0x30000]) = Inr ([0x10000], t)
    \<and> m_data (n_mbufs t 0x10000) = 0x10080 \<and> m_head (n_mbufs t 0x10000) = 0x10000 \<and> m_release (n_mbufs t 0x10000) = RxCompletion
    \<and> n_rxq t = example_rxq\<lparr>r_buffers := [0x30000, 0x20000], wq_head := 3, rx_cqe_cnt := 4, rx_cqes := one_reply, consumer_idx := 1\<rparr>
    \<and> rx_buf_mempool t = zero_mempool\<lparr>mp_free_items := [0x30000], capacity := 1, item_len := 16384, allocated := 1\<rparr>
    \<and> n_mem t = st32 (st64 (st32 (\<lambda>_. 0) 1152 (hton32 1)) 8200 (hton64 0x30080)) 1024 (hton32 3)"
proof -
  let ?d = "example_rx [0x30000]" and ?cs = "[example_cqe 0 0x20]"
  let ?r = "rx_read 1 [0x10000, 0x20000] ?cs ?d"
  from gather_rx_eq [OF mlx5_abi_documented example_rx_ok, of 1 32]
  have g: "mlx5_gather_rx mlx5_abi 32 ?d = bindE (mlx5_refill_rxqueue mlx5_abi 1 ?r) (\<lambda>(ret, s).
     bindE (guardE Abort (ret = 0)) (\<lambda>_. Inr ([0x10000], s)))" by simp
  have r: "rx_buf_mempool ?r = zero_mempool\<lparr>mp_free_items := [0x30000], capacity := 1, item_len := 16384\<rparr>"
    "n_rxq ?r = example_rxq\<lparr>r_buffers := [0x10000, 0x20000], wq_head := 2, rx_cqe_cnt := 4, rx_cqes := one_reply, consumer_idx := 1\<rparr>"
    "n_mem ?r = st32 (\<lambda>_. 0) 1152 (hton32 1)"
    by (simp_all add: rx_read_def Let_def example_rx_def example_rxq_def one_reply_def example_net_def)
  have "n_mbufs ?r 0x10000 = mbuf_fill_cqe 0x10000 (example_cqe 0 0x20) example_packet"
    by (simp add: rx_read_def Let_def example_rx_def example_net_def)
  then show ?thesis using one_refill [OF r(1,2)] unfolding g r(3) by (auto simp: filled_mbuf)
qed

lemma reply_due: "t < 100 \<Longrightarrow> client_due example_replying 0 example_waiting t \<longleftrightarrow> 5 \<le> t"
proof -
  assume "t < 100"
  then have "unat (of_nat t :: u64) = t" by (intro unat_of_nat_less) simp
  moreover have "ld64 (n_mem (k_net example_waiting)) a = 0" for a
    by (simp add: example_waiting_def example_rx_def example_net_def ld64_def zero_memory of_le64_def numeral_eq_Suc)
  ultimately show ?thesis
    by (simp add: client_due_def word_le_nat_alt example_replying_def example_client_def) (simp add: example_waiting_def)
qed

text \<open>The round that receives it: the memory at the packet is zero, so its type is not that of IP.\<close>

lemma replying_round:
  "\<exists>k1. client_round example_replying 0 example_waiting = Inr (False, k1) \<and> k_readings k1 = 2 \<and> k_turns k1 = 1 \<and> same_plan example_waiting k1
    \<and> n_rxq (k_net k1) = example_rxq\<lparr>r_buffers := [0x30000, 0x20000], wq_head := 3, rx_cqe_cnt := 4, rx_cqes := one_reply, consumer_idx := 1\<rparr>"
proof -
  obtain t where t: "mlx5_gather_rx mlx5_abi 32 (example_rx [0x30000]) = Inr ([0x10000], t)" "m_data (n_mbufs t 0x10000) = 0x10080"
    "m_head (n_mbufs t 0x10000) = 0x10000" "m_release (n_mbufs t 0x10000) = RxCompletion"
    "n_rxq t = example_rxq\<lparr>r_buffers := [0x30000, 0x20000], wq_head := 3, rx_cqe_cnt := 4, rx_cqes := one_reply, consumer_idx := 1\<rparr>"
    "rx_buf_mempool t = zero_mempool\<lparr>mp_free_items := [0x30000], capacity := 1, item_len := 16384, allocated := 1\<rparr>"
    "n_mem t = st32 (st64 (st32 (\<lambda>_. 0) 1152 (hton32 1)) 8200 (hton64 0x30080)) 1024 (hton32 3)" using one_gather by blast
  have "n_mem t 65676 = 0" "n_mem t 65677 = 0" by (simp_all add: t(7) byte_st_disjoint disjoint_regions_def)
  then have "ld16 (n_mem t) 65676 = 0" by (simp add: ld16_def load_bytes_def of_le16_def numeral_2_eq_2)
  then have "check_valid_packet (n_mem t) (n_mbufs t 0x10000) 0x62000 = None"
    by (simp add: check_valid_packet_def Let_def t(2) ntoh16_def bswap16_def)
  moreover have "free_mbuf 0x10000 t = Inr (t\<lparr>rx_buf_mempool := (rx_buf_mempool t)\<lparr>mp_free_items := [0x10000], allocated := 0\<rparr>\<rparr>)"
    using t(3,4,6) by (simp add: free_mbuf_def mbuf_free_def net_release_def rx_completion_def mempool_free_def zero_mempool_def Let_def)
  moreover have "cl_dev example_replying 0 (k_net example_waiting) = example_rx [0x30000]"
    by (simp add: example_replying_def example_waiting_def example_rx_def one_reply_def)
  moreover have "\<not> client_due example_replying 0 example_waiting 1" using reply_due [of 1] by simp
  ultimately show ?thesis using t(1,5)
    by (simp add: client_round_def req_guard_def client_cycles_eq client_due_def device_turn_def client_receive_def same_plan_def Let_def
        example_waiting_def example_replying_def example_client_def)
qed

lemma client_waits_until_due_witness:
  "\<exists>j k'. after_rounds example_replying 0 j example_waiting = Some k' \<and> k_readings k' = 5 \<and> consumer_idx (n_rxq (k_net k')) = 1
    \<and> client_wait example_replying 9 0 example_waiting = Inr (k'\<lparr>k_readings := 6\<rparr>)"
proof -
  let ?a = "get_client_req example_replying (k_current example_waiting)"
  have k: "k_budget example_waiting = 0" "k_current example_waiting < cl_nreqs example_replying" "k_readings example_waiting = 1"
    by (simp_all add: example_waiting_def example_replying_def example_client_def)
  have spares: "device_spares example_replying a c" for a c by (simp add: device_spares_def example_replying_def Let_def)
  have apart: "entry_apart (cl_abi example_replying) ?a (n_rxq (k_net example_waiting))"
  proof -
    have "i AND 1 = 0 \<or> i AND 1 = 1" for i :: u32 by (simp add: and_one_eq mod_2_eq_odd)
    then have "disjoint_regions (8192 + ucast (push_bit 4 (i AND 1)) + 8) 8 0x70110 8" for i :: u32
      using \<open>\<And>i :: u32. i AND 1 = 0 \<or> i AND 1 = 1\<close> [of i] by (elim disjE) (simp_all add: disjoint_regions_def)
    then show ?thesis
      by (simp add: entry_apart_def disjoint_regions_def example_waiting_def example_rx_def example_rxq_def example_net_def example_replying_def
          example_client_def get_client_req_def sizeof_ClientRequest_def mlx5_abi_def)
  qed
  have due: "client_due example_replying 0 example_waiting (5 + i)" if "i < 33" for i using reply_due [of "5 + i"] that by simp
  obtain k1 where k1: "client_round example_replying 0 example_waiting = Inr (False, k1)" "k_readings k1 = 2" "k_turns k1 = 1"
    "same_plan example_waiting k1"
    "n_rxq (k_net k1) = example_rxq\<lparr>r_buffers := [0x30000, 0x20000], wq_head := 3, rx_cqe_cnt := 4, rx_cqes := one_reply, consumer_idx := 1\<rparr>"
    using replying_round by blast
  have same: "client_due example_replying 0 k1 = client_due example_replying 0 example_waiting"
    by (rule client_round_cases [OF k(1,2) spares apart, of 0]) (use k1(1) in auto)
  have eight: "client_wait example_replying 8 0 k1 = Inr (k1\<lparr>k_readings := 6, k_budget := 0, k_turns := 4\<rparr>)"
  proof -
    have "cl_dev example_replying i (k_net k1) = k_net k1" for i
      using k1(5) by (cases "k_net k1") (simp add: example_replying_def)
    moreover have "received (cl_abi example_replying) (n_rxq (k_net k1)) (consumer_idx (n_rxq (k_net k1))) []"
      by (simp add: k1(5) example_replying_def example_client_def one_reply_def example_rxq_def example_cqe_def slot_def cqe_status_def mlx5_abi_def Let_def)
    moreover have "\<forall>i<3. \<not> client_due example_replying 0 k1 (2 + i)" "client_due example_replying 0 k1 5"
      using reply_due by (auto simp: same)
    ultimately show ?thesis using client_wait_idle [of example_replying k1 3 0 8] k1(2-4) k(1,2) by (simp add: same_plan_def)
  qed
  have nine: "(9 :: nat) = Suc 8" by simp
  have wait: "client_wait example_replying 9 0 example_waiting = Inr (k1\<lparr>k_readings := 6, k_budget := 0, k_turns := 4\<rparr>)"
    unfolding nine client_wait.simps k1(1) using eight by simp
  obtain j k' where "after_rounds example_replying 0 j example_waiting = Some k'"
    "client_wait example_replying 9 0 example_waiting = Inr (k'\<lparr>k_readings := Suc (k_readings k')\<rparr>)"
    using client_waits_until_due [OF k(1,2) _ apart, of 0 5 9] spares due k(3) wait by auto
  moreover from this have "k'\<lparr>k_readings := Suc (k_readings k')\<rparr> = k1\<lparr>k_readings := 6, k_budget := 0, k_turns := 4\<rparr>" using wait by simp
  then have "k_readings (k'\<lparr>k_readings := Suc (k_readings k')\<rparr>) = 6" "k_net (k'\<lparr>k_readings := Suc (k_readings k')\<rparr>) = k_net k1" by simp_all
  then have "k_readings k' = 5" "k_net k' = k_net k1" by simp_all
  ultimately show ?thesis using k1(5) by (intro exI [of _ j] exI [of _ k']) simp
qed

lemma client_packet_contents_witness:
  "\<exists>s'. client_packet example_client 1 (fresh_net (zero_mempool\<lparr>mp_free_items := [256], capacity := 1\<rparr>) (\<lambda>_. 0)) = Inr (256, s')
    \<and> m_data (n_mbufs s' 256) = 0x40000 \<and> length (load_bytes (n_mem s') 0x40000 (unat (m_len (n_mbufs s' 256)))) = 68"
proof -
  let ?s = "fresh_net (zero_mempool\<lparr>mp_free_items := [256], capacity := 1\<rparr>) (\<lambda>_. 0)"
  have pools: "pool_inv (mbuf_mempool ?s)" "pool_free_stack (mbuf_mempool ?s) = 256 # []"
    "pool_inv (tx_buf_mempool ?s)" "pool_free_stack (tx_buf_mempool ?s) = 0x40000 # []"
    by (simp_all add: fresh_net_def zero_mempool_def pool_inv_def pool_free_stack_def)
  have "1 < cl_nreqs example_client" "unat (cl_nseg example_client) = 2"
    "disjoint_regions 0x40000 16384 (cl_header example_client) 44" "disjoint_regions 0x40000 16384 (get_client_req example_client 1 + 8) 264"
    by (simp_all add: example_client_def disjoint_regions_def get_client_req_def sizeof_ClientRequest_def)
  note ok = client_packet_contents [OF pools(1,2) _ pools(3,4) _ this(1) _ this(3,4)] this(2)
  then obtain s' where s': "client_packet example_client 1 ?s = Inr (256, s')" "m_data (n_mbufs s' 256) = 0x40000"
    "load_bytes (n_mem s') (m_data (n_mbufs s' 256)) (unat (m_len (n_mbufs s' 256)))
      = load_bytes (n_mem ?s) (cl_header example_client) 44 @ load_bytes (n_mem ?s) (get_client_req example_client 1 + 8) 24"
    by auto
  from arg_cong [OF s'(3), of length] s'(1,2) show ?thesis by simp
qed

end
