(* ===== verification/Numeral.thy ===== *)
theory Numeral
  imports Scan
begin

text \<open>
  Numbers written by \<open>snprintf\<close> (\<open>%d\<close> of a number that is not negative, \<open>%x\<close>, and with leading zeros), that the parsers
  read them back, and the reading of a file line by line with \<open>fgets\<close>.
\<close>

section \<open>Writing numbers\<close>

definition digit_chr :: "nat \<Rightarrow> char" where
  "digit_chr d = (if d < 10 then char_of (48 + d) else char_of (87 + d))"

function numeral_of :: "nat \<Rightarrow> nat \<Rightarrow> string" where
  "numeral_of b n = (if n < b \<or> b < 2 then [digit_chr n] else numeral_of b (n div b) @ [digit_chr (n mod b)])"
  by pat_completeness auto
termination by (relation "measure snd") auto

declare numeral_of.simps [simp del]

definition zero_pad :: "nat \<Rightarrow> string \<Rightarrow> string" where
  "zero_pad w s = replicate (w - length s) CHR ''0'' @ s"

section \<open>Reading them back\<close>

lemma digit_val_chr [simp]: "d < 16 \<Longrightarrow> digit_val (digit_chr d) = d"
  by (auto simp: digit_val_def digit_chr_def Let_def)

lemma number_Nil [simp]: "number b [] = 0"
  by (simp add: number_def)

lemma number_snoc [simp]: "number b (ds @ [c]) = number b ds * b + digit_val c"
  by (simp add: number_def)

lemma digit_zero [simp]: "digit_val CHR ''0'' = 0"
  by (simp add: digit_val_def)

lemma number_zeros [simp]: "number b (replicate k CHR ''0'' @ ds) = number b ds"
  by (induction ds rule: rev_induct) (induction k, simp_all flip: append_assoc replicate_append_same)

lemma numeral_of_number:
  assumes "2 \<le> b" "b \<le> 16"
  shows "number b (numeral_of b n) = n \<and> (\<forall>c \<in> set (numeral_of b n). is_digit b c) \<and> numeral_of b n \<noteq> []"
proof (induction n rule: less_induct)
  case (less n)
  show ?case
  proof (cases "n < b")
    case True
    then show ?thesis using assms by (subst (1 2 3) numeral_of.simps) (simp add: number_def is_digit_def)
  next
    case False
    then have "n div b < n" using assms by (intro div_less_dividend) simp_all
    have m: "n mod b < b" using assms(1) by simp
    then have v: "digit_val (digit_chr (n mod b)) = n mod b" using assms(2) by (intro digit_val_chr) linarith
    show ?thesis using less.IH [OF \<open>n div b < n\<close>] False assms m v
      by (subst (1 2 3) numeral_of.simps) (auto simp: is_digit_def)
  qed
qed

lemma zero_pad_number:
  assumes "2 \<le> b" "b \<le> 16"
  shows "number b (zero_pad w (numeral_of b n)) = n" "c \<in> set (zero_pad w (numeral_of b n)) \<Longrightarrow> is_digit b c"
    "zero_pad w (numeral_of b n) \<noteq> []"
  using numeral_of_number [OF assms, of n] assms by (auto simp: zero_pad_def is_digit_def)

lemma length_numeral_of: "2 \<le> b \<Longrightarrow> n < b ^ Suc k \<Longrightarrow> length (numeral_of b n) \<le> Suc k"
proof (induction k arbitrary: n)
  case 0
  then show ?case by (subst numeral_of.simps) simp
next
  case (Suc k)
  then have "n div b < b ^ Suc k" by (simp add: less_mult_imp_div_less mult.commute)
  then show ?case using Suc.IH [of "n div b"] Suc.prems(1) by (subst numeral_of.simps) simp
qed

lemma length_zero_pad: "length s \<le> w \<Longrightarrow> length (zero_pad w s) = w"
  by (simp add: zero_pad_def)

text \<open>A digit is neither white space nor a sign.\<close>

lemma digit_not_space: "is_digit b c \<Longrightarrow> b \<le> 16 \<Longrightarrow> \<not> is_space c \<and> c \<noteq> CHR ''-'' \<and> c \<noteq> CHR ''+''"
  by (auto simp: is_digit_def digit_val_def is_space_def Let_def split: if_splits)

lemma takeWhile_digits:
  assumes "\<forall>c \<in> set ds. P c" "\<And>c. r \<noteq> [] \<Longrightarrow> c = hd r \<Longrightarrow> \<not> P c"
  shows "takeWhile P (ds @ r) = ds" "dropWhile P (ds @ r) = r"
proof -
  have "takeWhile P r = []" "dropWhile P r = r" using assms(2) by (cases r; simp)+
  then show "takeWhile P (ds @ r) = ds" "dropWhile P (ds @ r) = r"
    using assms(1) by (simp_all add: takeWhile_append2 dropWhile_append2)
qed

text \<open>A run of digits that ends at a character that is none is converted to its number, in a fixed base.\<close>

lemma strto_digits:
  assumes "ds \<noteq> []" "\<forall>c \<in> set ds. is_digit b c" "r \<noteq> [] \<Longrightarrow> \<not> is_digit b (hd r)" "2 \<le> b" "b \<le> 16"
    and "b = 16 \<Longrightarrow> \<not> has_hex_prefix (ds @ r)"
  shows "strto b (ds @ r) = Some (False, number b ds, r)"
proof -
  obtain d t where ds: "ds = d # t" using assms(1) by (cases ds) auto
  then have d: "\<not> is_space d" "d \<noteq> CHR ''-''" "d \<noteq> CHR ''+''" using digit_not_space [of b d] assms(2,5) by auto
  have "split_sign (dropWhile is_space (ds @ r)) = (False, ds @ r)" using d by (simp add: ds split_sign_def)
  moreover have "pick_base b (ds @ r) = (b, ds @ r)" using assms(4,6) by (auto simp: pick_base_def)
  moreover have "takeWhile (is_digit b) (ds @ r) = ds" "dropWhile (is_digit b) (ds @ r) = r"
    by (rule takeWhile_digits; use assms(2,3) in simp)+
  ultimately show ?thesis using assms(1) by (simp add: strto_def)
qed

section \<open>Files\<close>

abbreviation (input) newline :: char where "newline \<equiv> CHR 0x0A"

definition file_gets :: "nat \<Rightarrow> string \<Rightarrow> string \<times> string" where
  "file_gets n s = (let k = min n (Suc (length (takeWhile (\<lambda>c. c \<noteq> newline) s))) in (take k s, drop k s))"

end
