(* ===== verification/Reply.thy ===== *)
theory Reply
  imports Server
begin

text \<open>
  What the replies of the server contain: the zero-copy chain refers to the
  segments the request asks for and the copying path puts the same bytes into its buffer;
  reference counts and mbufs taken for a chain come back when it completes.
\<close>

section \<open>Updating one mbuf\<close>

lemma upd_mbuf_simps [simp]:
  "n_mbufs (upd_mbuf m f s) = (n_mbufs s)(m := f (n_mbufs s m))"
  "n_mem (upd_mbuf m f s) = n_mem s" "mbuf_mempool (upd_mbuf m f s) = mbuf_mempool s"
  "tx_buf_mempool (upd_mbuf m f s) = tx_buf_mempool s" "rx_buf_mempool (upd_mbuf m f s) = rx_buf_mempool s"
  "working_set_refcnts (upd_mbuf m f s) = working_set_refcnts s" "num_total_segments (upd_mbuf m f s) = num_total_segments s"
  "using_ref_counting (upd_mbuf m f s) = using_ref_counting s" "n_txq (upd_mbuf m f s) = n_txq s"
  "n_rxq (upd_mbuf m f s) = n_rxq s"
  by (simp_all add: upd_mbuf_def)

text \<open>What building a reply leaves alone.\<close>

definition same_net :: "net \<Rightarrow> net \<Rightarrow> bool" where
  "same_net s s' \<longleftrightarrow> n_txq s' = n_txq s \<and> n_rxq s' = n_rxq s \<and> rx_buf_mempool s' = rx_buf_mempool s
     \<and> num_total_segments s' = num_total_segments s \<and> using_ref_counting s' = using_ref_counting s"

lemma same_net_refl [simp]: "same_net s s"
  by (simp add: same_net_def)

lemma same_net_trans: "same_net s s' \<Longrightarrow> same_net s' s'' \<Longrightarrow> same_net s s''"
  by (simp add: same_net_def)

section \<open>Reference counts\<close>

text \<open>
  The counter of a segment number lies in the array \<open>seg div tot\<close> at place
  \<open>seg mod tot\<close>.
\<close>

definition refcnt_ok :: "u64 \<Rightarrow> u16 list list \<Rightarrow> u64 \<Rightarrow> bool" where
  "refcnt_ok tot rs seg \<longleftrightarrow> tot \<noteq> 0 \<and> unat (seg div tot) < length rs
     \<and> unat (seg mod tot) < length (rs ! unat (seg div tot))"

definition bump :: "u64 \<Rightarrow> u16 \<Rightarrow> u64 \<Rightarrow> u16 list list \<Rightarrow> u16 list list" where
  "bump tot d seg rs = (let a = unat (seg div tot); b = unat (seg mod tot) in
     rs[a := (rs ! a)[b := rs ! a ! b + d]])"

lemma bump_shape [simp]: "length (bump tot d seg rs) = length rs" "length (bump tot d seg rs ! i) = length (rs ! i)"
  by (simp add: bump_def Let_def)
    (cases "unat (seg div tot) < length rs"; cases "i = unat (seg div tot)"; simp add: bump_def Let_def not_less list_update_beyond)

lemma refcnt_ok_bump [simp]: "refcnt_ok tot (bump tot d seg rs) seg' = refcnt_ok tot rs seg'"
  by (simp add: refcnt_ok_def)

lemma bump_commute: "bump tot d seg (bump tot e seg' rs) = bump tot e seg' (bump tot d seg rs)"
proof -
  let ?a = "unat (seg div tot)" and ?a' = "unat (seg' div tot)"
  let ?b = "unat (seg mod tot)" and ?b' = "unat (seg' mod tot)"
  consider "?a \<noteq> ?a'" | "?a = ?a'" "?b \<noteq> ?b'" | "?a = ?a'" "?b = ?b'" by blast
  then show ?thesis
  proof cases
    case 1
    then show ?thesis by (simp add: bump_def Let_def list_update_swap)
  next
    case 2
    then show ?thesis
      by (cases "?a' < length rs") (simp_all add: bump_def Let_def list_update_swap [of ?b ?b'] not_less list_update_beyond)
  next
    case 3
    then show ?thesis
      by (cases "?a' < length rs"; cases "?b' < length (rs ! ?a')") (simp_all add: bump_def Let_def add_ac not_less list_update_beyond)
  qed
qed

lemma bump_cancel: "bump tot (- d) seg (bump tot d seg rs) = rs"
proof -
  let ?a = "unat (seg div tot)" and ?b = "unat (seg mod tot)"
  show ?thesis
    by (cases "?a < length rs"; cases "?b < length (rs ! ?a)") (simp_all add: bump_def Let_def not_less list_update_beyond)
qed

lemma fold_bump_cancel: "fold (bump tot (- d)) segs (fold (bump tot d) segs rs) = rs"
proof (induction segs arbitrary: rs)
  case (Cons seg segs)
  have "bump tot (- d) seg (fold (bump tot d) segs (bump tot d seg rs))
      = fold (bump tot d) segs (bump tot (- d) seg (bump tot d seg rs))"
    by (rule fold_commute_apply) (auto simp: bump_commute fun_eq_iff)
  then show ?case using Cons.IH by (simp add: bump_cancel)
qed simp

lemma refcnt_ok_fold [simp]: "refcnt_ok tot (fold (bump tot d) segs rs) seg = refcnt_ok tot rs seg"
  by (induction segs arbitrary: rs) simp_all

lemma server_change_refcnt_eq:
  assumes "refcnt_ok (num_total_segments s) (working_set_refcnts s) seg"
  shows "\<exists>c. server_change_refcnt seg 1 s = Inr (c, s\<lparr>working_set_refcnts := bump (num_total_segments s) 1 seg (working_set_refcnts s)\<rparr>)"
    and "\<exists>c. server_change_refcnt seg (- 1) s = Inr (c, s\<lparr>working_set_refcnts := bump (num_total_segments s) (- 1) seg (working_set_refcnts s)\<rparr>)"
  using assms by (simp_all add: server_change_refcnt_def refcnt_ok_def bump_def Let_def)

section \<open>The zero-copy chain\<close>

text \<open>An mbuf that refers to a segment of the working set, and a chain of them linked in order.\<close>

definition segment_addr :: "server_cfg \<Rightarrow> u64 \<Rightarrow> u64 \<Rightarrow> ptr" where
  "segment_addr cfg tot seg = get_server_region (server_working_set cfg) (seg mod tot) (segment_size cfg)"

definition segment_mbuf :: "server_cfg \<Rightarrow> net \<Rightarrow> u64 \<Rightarrow> mbuf \<Rightarrow> bool" where
  "segment_mbuf cfg s seg b \<longleftrightarrow> m_data b = segment_addr cfg (num_total_segments s) seg \<and> m_len b = ucast (segment_size cfg)
     \<and> m_release b = ZeroCopyTxCompletion \<and> m_lkey b = tx_lkey cfg \<and> (using_ref_counting s \<noteq> 0 \<longrightarrow> m_release_data b = seg)"

definition chain_ok :: "server_cfg \<Rightarrow> net \<Rightarrow> u64 list \<Rightarrow> ptr list \<Rightarrow> bool" where
  "chain_ok cfg s segs ms \<longleftrightarrow> length ms = length segs \<and> distinct ms \<and> NULL \<notin> set ms
     \<and> (\<forall>i<length ms. segment_mbuf cfg s (segs ! i) (n_mbufs s (ms ! i)))
     \<and> (\<forall>i. Suc i < length ms \<longrightarrow> m_next (n_mbufs s (ms ! i)) = ms ! Suc i)"

definition refs_ok :: "net \<Rightarrow> u64 list \<Rightarrow> bool" where
  "refs_ok s segs \<longleftrightarrow> num_total_segments s \<noteq> 0
     \<and> (using_ref_counting s \<noteq> 0 \<longrightarrow> (\<forall>seg\<in>set segs. refcnt_ok (num_total_segments s) (working_set_refcnts s) seg))"

definition counted :: "net \<Rightarrow> u64 list \<Rightarrow> u16 list list" where
  "counted s segs = (if using_ref_counting s \<noteq> 0 then fold (bump (num_total_segments s) 1) segs (working_set_refcnts s)
     else working_set_refcnts s)"

text \<open>The state after the mbuf \<open>m\<close> for the segment \<open>seg\<close> has been appended to \<open>ms\<close>.\<close>

definition linked_to :: "ptr \<Rightarrow> ptr list \<Rightarrow> (ptr \<Rightarrow> mbuf) \<Rightarrow> ptr \<Rightarrow> mbuf" where
  "linked_to m ms mb = (if ms \<noteq> [] then mb(last ms := (mb (last ms))\<lparr>m_next := m\<rparr>) else mb)"

lemma zero_copy_step:
  assumes "pool_inv (mbuf_mempool s)" "pool_free_stack (mbuf_mempool s) = m # st" "m \<noteq> NULL" "refs_ok s (seg # segs)" "m \<notin> set ms"
  obtains s1 b where "zero_copy_segments cfg rh (seg # segs) ms s = zero_copy_segments cfg rh segs (ms @ [m]) s1"
    "n_mbufs s1 = (linked_to m ms (n_mbufs s))(m := b)" "segment_mbuf cfg s seg b" "m_next b = m_next (n_mbufs s m)"
    "pool_inv (mbuf_mempool s1)" "pool_free_stack (mbuf_mempool s1) = st" "allocated (mbuf_mempool s1) = allocated (mbuf_mempool s) + 1"
    "capacity (mbuf_mempool s1) = capacity (mbuf_mempool s)"
    "same_net s s1" "tx_buf_mempool s1 = tx_buf_mempool s" "working_set_refcnts s1 = counted s [seg]"
    "\<forall>x. 8 \<le> unat (x - req_checksum rh) \<longrightarrow> n_mem s1 x = n_mem s x"
proof -
  obtain p where p: "mempool_alloc (mbuf_mempool s) = Inr (m, p)" "pool_free_stack p = st" "pool_inv p"
    using pool.alloc_top [OF assms(1,2)] by blast
  have pc: "allocated p = allocated (mbuf_mempool s) + 1" "capacity p = capacity (mbuf_mempool s)"
    using p(1) assms(3) by (auto simp: mempool_alloc_def nthE_def split: if_splits)
  define s2 where "s2 = upd_mbuf m (\<lambda>b. b\<lparr>m_lkey := tx_lkey cfg, m_release := ZeroCopyTxCompletion\<rparr>) (link_prev m ms (s\<lparr>mbuf_mempool := p\<rparr>))"
  have tot: "num_total_segments s \<noteq> 0" using assms(4) by (simp add: refs_ok_def)
  have s2: "working_set_refcnts s2 = working_set_refcnts s" "num_total_segments s2 = num_total_segments s"
    "using_ref_counting s2 = using_ref_counting s" "n_mem s2 = n_mem s" "tx_buf_mempool s2 = tx_buf_mempool s" "mbuf_mempool s2 = p"
    "same_net s s2" "n_mbufs s2 = (linked_to m ms (n_mbufs s))(m := (n_mbufs s m)\<lparr>m_lkey := tx_lkey cfg, m_release := ZeroCopyTxCompletion\<rparr>)"
    using assms(5) by (auto simp: s2_def linked_to_def link_prev_def same_net_def)
  obtain s3 where cnt: "take_ref rh m seg s2 = Inr s3"
    and s3: "working_set_refcnts s3 = counted s [seg]" "same_net s s3" "tx_buf_mempool s3 = tx_buf_mempool s" "mbuf_mempool s3 = p"
      "\<And>x. 8 \<le> unat (x - req_checksum rh) \<Longrightarrow> n_mem s3 x = n_mem s x"
      "n_mbufs s3 = (n_mbufs s2)(m := (n_mbufs s2 m)\<lparr>m_release_data := if using_ref_counting s \<noteq> 0 then seg else m_release_data (n_mbufs s2 m)\<rparr>)"
  proof (cases "using_ref_counting s = 0")
    case False
    have "refcnt_ok (num_total_segments s2) (working_set_refcnts s2) seg"
      using assms(4) False unfolding s2 by (simp add: refs_ok_def)
    from server_change_refcnt_eq(1) [OF this] obtain c where
      "server_change_refcnt seg 1 s2 = Inr (c, s2\<lparr>working_set_refcnts := bump (num_total_segments s2) 1 seg (working_set_refcnts s2)\<rparr>)" by blast
    with False s2 show thesis
      by (intro that [of "upd_mbuf m (\<lambda>b. b\<lparr>m_release_data := seg\<rparr>) (s2\<lparr>working_set_refcnts :=
            bump (num_total_segments s2) 1 seg (working_set_refcnts s2),
            n_mem := st64 (n_mem s2) (req_checksum rh) (ld64 (n_mem s2) (req_checksum rh) + ucast c)\<rparr>)"])
        (simp_all add: take_ref_def Let_def counted_def same_net_def st64_def store_bytes_outside)
  next
    case True
    with s2 show thesis by (intro that [of s2]) (simp_all add: take_ref_def counted_def)
  qed
  let ?f = "\<lambda>b. (mbuf_init b (segment_addr cfg (num_total_segments s) seg) (ucast (segment_size cfg)) 0)\<lparr>m_len := ucast (segment_size cfg)\<rparr>"
  define s1 where "s1 = upd_mbuf m (\<lambda>b. b\<lparr>m_len := ucast (segment_size cfg)\<rparr>) (upd_mbuf m (\<lambda>b. mbuf_init b
      (segment_addr cfg (num_total_segments s) seg) (ucast (segment_size cfg)) 0) s3)"
  show thesis
  proof (rule that [of s1 "n_mbufs s1 m"])
    show "zero_copy_segments cfg rh (seg # segs) ms s = zero_copy_segments cfg rh segs (ms @ [m]) s1"
      using p(1) assms(3) tot cnt unfolding s2_def
      by (simp add: Let_def s1_def segment_addr_def flip: s2_def)
  qed (use assms(3) p pc s3 s2 in \<open>simp_all add: s1_def same_net_def segment_mbuf_def mbuf_init_def Let_def\<close>)
qed

lemma segment_mbuf_cong:
  assumes "segment_mbuf cfg s seg b" "same_net s s'"
  shows "segment_mbuf cfg s' seg (b\<lparr>m_next := n\<rparr>)" "segment_mbuf cfg s' seg b"
  using assms by (simp_all add: segment_mbuf_def same_net_def)

lemma chain_ok_append:
  assumes "chain_ok cfg s segs ms" "m \<notin> set ms" "m \<noteq> NULL" "same_net s s1"
    and "n_mbufs s1 = (linked_to m ms (n_mbufs s))(m := b)" "segment_mbuf cfg s seg b"
  shows "chain_ok cfg s1 (segs @ [seg]) (ms @ [m])"
proof -
  have old: "n_mbufs s1 (ms ! i) = (if Suc i = length ms then (n_mbufs s (ms ! i))\<lparr>m_next := m\<rparr> else n_mbufs s (ms ! i))"
    if "i < length ms" for i
  proof -
    have d: "distinct ms" using assms(1) by (simp add: chain_ok_def)
    have "ms ! i \<noteq> m" using that assms(2) by auto
    moreover have "last ms = ms ! (length ms - 1)" using that by (intro last_conv_nth) auto
    moreover have "ms ! i = ms ! (length ms - 1) \<longleftrightarrow> i = length ms - 1"
      using that d by (simp add: nth_eq_iff_index_eq)
    ultimately show ?thesis using that assms(5) by (auto simp: linked_to_def)
  qed
  show ?thesis
    unfolding chain_ok_def
  proof (intro conjI allI impI)
    fix i
    assume i: "i < length (ms @ [m])"
    show "segment_mbuf cfg s1 ((segs @ [seg]) ! i) (n_mbufs s1 ((ms @ [m]) ! i))"
    proof (cases "i = length ms")
      case True
      have "length ms = length segs" using assms(1) by (simp add: chain_ok_def)
      then show ?thesis using True assms(5) segment_mbuf_cong(2) [OF assms(6,4)] by (simp add: nth_append)
    next
      case False
      then have "i < length ms" using i by simp
      moreover from this have "segment_mbuf cfg s (segs ! i) (n_mbufs s (ms ! i))" using assms(1) by (simp add: chain_ok_def)
      moreover have "length ms = length segs" using assms(1) by (simp add: chain_ok_def)
      ultimately show ?thesis using old segment_mbuf_cong [OF _ assms(4)] by (simp add: nth_append)
    qed
  next
    fix i
    assume i: "Suc i < length (ms @ [m])"
    then show "m_next (n_mbufs s1 ((ms @ [m]) ! i)) = (ms @ [m]) ! Suc i"
      using old [of i] assms(1) by (auto simp: nth_append chain_ok_def)
  qed (use assms(1-3) in \<open>auto simp: chain_ok_def\<close>)
qed

lemma counted_Cons:
  assumes "same_net s s1" "working_set_refcnts s1 = counted s [seg]"
  shows "counted s1 segs = counted s (seg # segs)"
  using assms by (simp add: counted_def same_net_def)

lemma refs_ok_step:
  assumes "refs_ok s (seg # segs)" "same_net s s1" "working_set_refcnts s1 = counted s [seg]"
  shows "refs_ok s1 segs"
  using assms by (auto simp: refs_ok_def counted_def same_net_def)

lemma zero_copy_segments_eq:
  assumes "pool_inv (mbuf_mempool s)" "pool_free_stack (mbuf_mempool s) = ns @ rest" "length ns = length segs"
    and "refs_ok s segs" "chain_ok cfg s segs0 ms" "distinct (ms @ ns)" "NULL \<notin> set ns"
  shows "\<exists>s'. zero_copy_segments cfg rh segs ms s = Inr (0, ms @ ns, s') \<and> chain_ok cfg s' (segs0 @ segs) (ms @ ns)
    \<and> pool_inv (mbuf_mempool s') \<and> pool_free_stack (mbuf_mempool s') = rest \<and> capacity (mbuf_mempool s') = capacity (mbuf_mempool s)
    \<and> same_net s s' \<and> tx_buf_mempool s' = tx_buf_mempool s \<and> working_set_refcnts s' = counted s segs
    \<and> (\<forall>x. 8 \<le> unat (x - req_checksum rh) \<longrightarrow> n_mem s' x = n_mem s x)
    \<and> (\<forall>m. m \<notin> set (ms @ ns) \<longrightarrow> n_mbufs s' m = n_mbufs s m)"
  using assms
proof (induction segs arbitrary: ns ms segs0 s)
  case Nil
  then show ?case by (simp add: counted_def)
next
  case (Cons seg segs)
  obtain m ns' where ns: "ns = m # ns'" using Cons.prems(3) by (cases ns) auto
  have m: "m \<noteq> NULL" "m \<notin> set ms" "NULL \<notin> set ns'" "distinct ((ms @ [m]) @ ns')" using Cons.prems(6,7) ns by auto
  from Cons.prems(2) have st: "pool_free_stack (mbuf_mempool s) = m # (ns' @ rest)" by (simp add: ns)
  obtain s1 b where s1: "zero_copy_segments cfg rh (seg # segs) ms s = zero_copy_segments cfg rh segs (ms @ [m]) s1"
    "n_mbufs s1 = (linked_to m ms (n_mbufs s))(m := b)" "segment_mbuf cfg s seg b"
    "pool_inv (mbuf_mempool s1)" "pool_free_stack (mbuf_mempool s1) = ns' @ rest"
    "capacity (mbuf_mempool s1) = capacity (mbuf_mempool s)"
    "same_net s s1" "tx_buf_mempool s1 = tx_buf_mempool s" "working_set_refcnts s1 = counted s [seg]"
    "\<forall>x. 8 \<le> unat (x - req_checksum rh) \<longrightarrow> n_mem s1 x = n_mem s x"
    by (rule zero_copy_step [OF Cons.prems(1) st m(1) Cons.prems(4) m(2), of cfg rh]) (rule that)
  have len: "length ns' = length segs" using Cons.prems(3) ns by simp
  obtain s' where s': "zero_copy_segments cfg rh segs (ms @ [m]) s1 = Inr (0, (ms @ [m]) @ ns', s')"
    "chain_ok cfg s' ((segs0 @ [seg]) @ segs) ((ms @ [m]) @ ns')" "pool_inv (mbuf_mempool s')" "pool_free_stack (mbuf_mempool s') = rest"
    "capacity (mbuf_mempool s') = capacity (mbuf_mempool s1)" "same_net s1 s'" "tx_buf_mempool s' = tx_buf_mempool s1"
    "working_set_refcnts s' = counted s1 segs" "\<forall>x. 8 \<le> unat (x - req_checksum rh) \<longrightarrow> n_mem s' x = n_mem s1 x"
    "\<forall>x. x \<notin> set ((ms @ [m]) @ ns') \<longrightarrow> n_mbufs s' x = n_mbufs s1 x"
    using Cons.IH [OF s1(4,5) len refs_ok_step [OF Cons.prems(4) s1(7,9)]
        chain_ok_append [OF Cons.prems(5) m(2,1) s1(7,2,3)] m(4,3)] by blast
  have "\<forall>x. x \<notin> set (ms @ m # ns') \<longrightarrow> n_mbufs s' x = n_mbufs s x"
    using s'(10) s1(2) by (auto simp: linked_to_def)
  moreover have "\<forall>x. 8 \<le> unat (x - req_checksum rh) \<longrightarrow> n_mem s' x = n_mem s x" using s'(9) s1(10) by simp
  ultimately show ?case
    using s1(1,6,8) s'(1-5,7,8) same_net_trans [OF s1(7) s'(6)] counted_Cons [OF s1(7,9)] ns by (intro exI [of _ s']) simp
qed

section \<open>Chains as paths\<close>

primrec path :: "(ptr \<Rightarrow> mbuf) \<Rightarrow> ptr \<Rightarrow> ptr list \<Rightarrow> bool" where
  "path mb m [] \<longleftrightarrow> m = NULL"
| "path mb m (x # xs) \<longleftrightarrow> m = x \<and> x \<noteq> NULL \<and> path mb (m_next (mb x)) xs"

lemma path_nth:
  assumes "ms \<noteq> []" "NULL \<notin> set ms" "\<forall>i. Suc i < length ms \<longrightarrow> m_next (mb (ms ! i)) = ms ! Suc i" "m_next (mb (last ms)) = NULL"
  shows "path mb (hd ms) ms"
  using assms
proof (induction ms)
  case (Cons x xs)
  show ?case
  proof (cases xs)
    case (Cons y ys)
    have "\<forall>i. Suc i < length xs \<longrightarrow> m_next (mb (xs ! i)) = xs ! Suc i"
      using Cons.prems(3) by (metis Suc_less_eq length_Cons nth_Cons_Suc)
    then have "path mb (hd xs) xs" using Cons.IH Cons.prems Cons by auto
    moreover have "m_next (mb x) = hd xs" using Cons.prems(3) Cons by (auto dest: spec [of _ 0])
    ultimately show ?thesis using Cons.prems(2) Cons by simp
  qed (use Cons.prems in simp)
qed simp

text \<open>Completing a zero-copy chain gives its mbufs and its references back.\<close>

definition uncounted :: "net \<Rightarrow> u64 list \<Rightarrow> u16 list list" where
  "uncounted s segs = (if using_ref_counting s = 1 then fold (bump (num_total_segments s) (- 1)) segs (working_set_refcnts s)
     else working_set_refcnts s)"

lemma pool_in_use: "pool_inv p \<Longrightarrow> unat (allocated p) + length (pool_free_stack p) = unat (capacity p)"
  by (simp add: pool_inv_def pool_free_stack_def word_le_nat_alt)

lemma mempool_free_capacity: "mempool_free p x = Inr p' \<Longrightarrow> capacity p' = capacity p"
  by (auto simp: mempool_free_def Let_def bindE_eq_Inr)

lemma zero_copy_completion_step:
  assumes "pool_inv (mbuf_mempool s)" "0 < unat (allocated (mbuf_mempool s))" "m \<noteq> NULL"
    and "using_ref_counting s = 1 \<Longrightarrow> refcnt_ok (num_total_segments s) (working_set_refcnts s) (m_release_data (n_mbufs s m))"
  obtains p where "mempool_free (mbuf_mempool s) m = Inr p" "pool_free_stack p = m # pool_free_stack (mbuf_mempool s)" "pool_inv p"
    "zero_copy_tx_completion (Suc fuel) m s = zero_copy_tx_completion fuel (m_next (n_mbufs s m))
       (s\<lparr>working_set_refcnts := uncounted s [m_release_data (n_mbufs s m)], mbuf_mempool := p\<rparr>)"
proof -
  obtain p where p: "mempool_free (mbuf_mempool s) m = Inr p" "pool_free_stack p = m # pool_free_stack (mbuf_mempool s)" "pool_inv p"
    using pool.free_push [OF assms(1,2), of m] by blast
  show thesis
  proof (cases "using_ref_counting s = 1")
    case True
    obtain c where "server_change_refcnt (m_release_data (n_mbufs s m)) (- 1) s = Inr (c, s\<lparr>working_set_refcnts :=
        bump (num_total_segments s) (- 1) (m_release_data (n_mbufs s m)) (working_set_refcnts s)\<rparr>)"
      using server_change_refcnt_eq(2) [OF assms(4) [OF True]] by blast
    then show thesis using that [OF p] p(1) assms(3) True by (simp add: uncounted_def Let_def)
  next
    case False
    then show thesis using that [OF p] p(1) assms(3) by (simp add: uncounted_def Let_def)
  qed
qed

lemma zero_copy_completion_eq:
  assumes "path (n_mbufs s) m ms" "length ms \<le> fuel" "pool_inv (mbuf_mempool s)" "length ms \<le> unat (allocated (mbuf_mempool s))"
    and "using_ref_counting s = 1 \<Longrightarrow> (\<forall>x\<in>set ms. refcnt_ok (num_total_segments s) (working_set_refcnts s) (m_release_data (n_mbufs s x)))"
  shows "\<exists>p. zero_copy_tx_completion fuel m s = Inr (s\<lparr>mbuf_mempool := p,
      working_set_refcnts := uncounted s (map (\<lambda>x. m_release_data (n_mbufs s x)) ms)\<rparr>)
    \<and> pool_inv p \<and> pool_free_stack p = rev ms @ pool_free_stack (mbuf_mempool s)"
  using assms
proof (induction ms arbitrary: m s fuel)
  case Nil
  then show ?case by (intro exI [of _ "mbuf_mempool s"]) (cases fuel; simp add: uncounted_def)
next
  case (Cons x ms)
  obtain fuel' where fuel: "fuel = Suc fuel'" using Cons.prems(2) by (cases fuel) auto
  have m: "m = x" "x \<noteq> NULL" "path (n_mbufs s) (m_next (n_mbufs s x)) ms" using Cons.prems(1) by simp_all
  obtain p where p: "mempool_free (mbuf_mempool s) x = Inr p" "pool_free_stack p = x # pool_free_stack (mbuf_mempool s)" "pool_inv p"
    "zero_copy_tx_completion (Suc fuel') x s = zero_copy_tx_completion fuel' (m_next (n_mbufs s x))
       (s\<lparr>working_set_refcnts := uncounted s [m_release_data (n_mbufs s x)], mbuf_mempool := p\<rparr>)"
    using zero_copy_completion_step [OF Cons.prems(3) _ m(2), of fuel'] Cons.prems(4,5) by (metis length_Cons list.set_intros(1) less_le_trans zero_less_Suc)
  let ?s = "s\<lparr>working_set_refcnts := uncounted s [m_release_data (n_mbufs s x)], mbuf_mempool := p\<rparr>"
  have "unat (allocated p) + 1 = unat (allocated (mbuf_mempool s))"
    using pool_in_use [OF p(3)] pool_in_use [OF Cons.prems(3)] p(2) mempool_free_capacity [OF p(1)] by simp
  then obtain q where "zero_copy_tx_completion fuel' (m_next (n_mbufs s x)) ?s = Inr (?s\<lparr>mbuf_mempool := q,
      working_set_refcnts := uncounted ?s (map (\<lambda>x. m_release_data (n_mbufs ?s x)) ms)\<rparr>)"
      "pool_inv q" "pool_free_stack q = rev ms @ pool_free_stack (mbuf_mempool ?s)"
    using Cons.IH [of ?s "m_next (n_mbufs s x)" fuel'] m(3) p(3) Cons.prems(2,4,5) fuel by (auto simp: uncounted_def)
  then show ?case using p(2,4) fuel m(1) by (intro exI [of _ q]) (simp add: uncounted_def)
qed

section \<open>The zero-copy reply\<close>

lemma zero_copy_reply_eq:
  assumes "pool_inv (mbuf_mempool s)" "pool_free_stack (mbuf_mempool s) = ns @ rest" "length ns = length segs"
    and "segs \<noteq> []" "unat (num_segments cfg) = length segs" "refs_ok s segs" "distinct (NULL # ns)"
  obtains s' where "zero_copy_reply cfg i heads request segs s = Inr (0, heads @ [hd ns], s')"
    "chain_ok cfg s' segs ns" "path (n_mbufs s') (hd ns) ns" "m_nb_segs (n_mbufs s' (hd ns)) = ucast (num_segments cfg)"
    "pool_inv (mbuf_mempool s')" "pool_free_stack (mbuf_mempool s') = rest" "capacity (mbuf_mempool s') = capacity (mbuf_mempool s)"
    "same_net s s'" "tx_buf_mempool s' = tx_buf_mempool s" "working_set_refcnts s' = counted s segs"
    "\<forall>x. 8 \<le> unat (x - req_checksum (request_header_at cfg i)) \<longrightarrow> n_mem s' x
       = parse_outgoing_request_header (n_mem s) (request_header_at cfg i) (n_mbufs s request) (num_segments cfg * segment_size cfg + 16) x"
proof -
  let ?rh = "request_header_at cfg i"
  define s0 where "s0 = s\<lparr>n_mem := parse_outgoing_request_header (n_mem s) ?rh (n_mbufs s request)
                (num_segments cfg * segment_size cfg + 16)\<rparr>"
  have s0: "pool_inv (mbuf_mempool s0)" "pool_free_stack (mbuf_mempool s0) = ns @ rest" "refs_ok s0 segs"
    "chain_ok cfg s0 [] []" "distinct ([] @ ns)" "NULL \<notin> set ns" "counted s0 segs = counted s segs" "same_net s s0"
    "capacity (mbuf_mempool s0) = capacity (mbuf_mempool s)" "tx_buf_mempool s0 = tx_buf_mempool s"
    using assms by (auto simp: s0_def refs_ok_def chain_ok_def counted_def same_net_def)
  obtain s1 where s1: "zero_copy_segments cfg ?rh segs [] s0 = Inr (0, ns, s1)" "chain_ok cfg s1 segs ns" "pool_inv (mbuf_mempool s1)"
    "pool_free_stack (mbuf_mempool s1) = rest" "capacity (mbuf_mempool s1) = capacity (mbuf_mempool s0)" "same_net s0 s1"
    "tx_buf_mempool s1 = tx_buf_mempool s0" "working_set_refcnts s1 = counted s0 segs"
    "\<forall>x. 8 \<le> unat (x - req_checksum ?rh) \<longrightarrow> n_mem s1 x = n_mem s0 x"
    using zero_copy_segments_eq [OF s0(1,2) assms(3) s0(3-6), of ?rh] by auto
  have ns: "ns \<noteq> []" "ns ! 0 = hd ns" using assms(3,4) by (cases ns; simp)+
  have "unat (num_segments cfg - 1) = length ns - 1" using assms(3,4,5) ns by (subst unat_minus_one) auto
  then have fin: "nthE ns (unat (num_segments cfg - 1)) = Inr (last ns)" using ns by (simp add: last_conv_nth)
  define s2 where "s2 = upd_mbuf (hd ns) (\<lambda>b. b\<lparr>m_pkt_len := ucast (segment_size cfg * num_segments cfg)\<rparr>)
    (upd_mbuf (last ns) (\<lambda>b. b\<lparr>m_next := NULL\<rparr>) (upd_mbuf (hd ns) (\<lambda>b. b\<lparr>m_nb_segs := ucast (num_segments cfg)\<rparr>) s1))"
  have run: "zero_copy_reply cfg i heads request segs s = Inr (0, heads @ [hd ns], s2)"
    using s1(1) ns fin by (simp add: zero_copy_reply_def Let_def s2_def flip: s0_def)
  have keep: "m_next (n_mbufs s2 m) = (if m = last ns then NULL else m_next (n_mbufs s1 m))"
    "segment_mbuf cfg s2 seg (n_mbufs s2 m) = segment_mbuf cfg s1 seg (n_mbufs s1 m)" for m seg
    by (simp_all add: s2_def segment_mbuf_def)
  have d: "distinct ns" "NULL \<notin> set ns" using assms(7) by simp_all
  have "ns ! j \<noteq> last ns" if "Suc j < length ns" for j
    using that d(1) ns(1) nth_eq_iff_index_eq [of ns j "length ns - 1"] by (simp add: last_conv_nth)
  then have chain: "chain_ok cfg s2 segs ns" using s1(2) keep by (auto simp: chain_ok_def)
  have "path (n_mbufs s2) (hd ns) ns"
    by (rule path_nth [OF ns(1) d(2)]) (use chain keep(1) in \<open>simp_all add: chain_ok_def\<close>)
  moreover have "same_net s s2" using same_net_trans [OF s0(8) s1(6)] by (simp add: s2_def same_net_def)
  moreover have "m_nb_segs (n_mbufs s2 (hd ns)) = ucast (num_segments cfg)" by (simp add: s2_def)
  moreover have "pool_inv (mbuf_mempool s2)" "pool_free_stack (mbuf_mempool s2) = rest"
    "capacity (mbuf_mempool s2) = capacity (mbuf_mempool s)" "tx_buf_mempool s2 = tx_buf_mempool s"
    "working_set_refcnts s2 = counted s segs" using s1 s0 by (simp_all add: s2_def)
  moreover have "\<forall>x. 8 \<le> unat (x - req_checksum ?rh) \<longrightarrow> n_mem s2 x
       = parse_outgoing_request_header (n_mem s) ?rh (n_mbufs s request) (num_segments cfg * segment_size cfg + 16) x"
    using s1(9) by (simp add: s2_def s0_def)
  ultimately show thesis using that run chain by blast
qed

text \<open>
  C6. A zero-copy reply raises the reference count of every segment it mentions, once for each
  mention, for as long as it is in flight; when it completes, every count and every mbuf it took is back.
\<close>

theorem zero_copy_round_trip:
  assumes "pool_inv (mbuf_mempool s)" "pool_free_stack (mbuf_mempool s) = ns @ rest" "length ns = length segs"
    and "segs \<noteq> []" "unat (num_segments cfg) = length segs" "refs_ok s segs" "distinct (NULL # ns)"
    and "using_ref_counting s \<in> {0, 1}"
  shows "\<exists>m s' s''. zero_copy_reply cfg i heads request segs s = Inr (0, heads @ [m], s')
    \<and> working_set_refcnts s' = counted s segs
    \<and> free_mbuf m s' = Inr s'' \<and> working_set_refcnts s'' = working_set_refcnts s
    \<and> mset (pool_free_stack (mbuf_mempool s'')) = mset (pool_free_stack (mbuf_mempool s)) \<and> pool_inv (mbuf_mempool s'')"
proof -
  obtain s' where s': "zero_copy_reply cfg i heads request segs s = Inr (0, heads @ [hd ns], s')"
    "chain_ok cfg s' segs ns" "path (n_mbufs s') (hd ns) ns" "pool_inv (mbuf_mempool s')" "pool_free_stack (mbuf_mempool s') = rest"
    "capacity (mbuf_mempool s') = capacity (mbuf_mempool s)" "same_net s s'" "working_set_refcnts s' = counted s segs"
    by (rule zero_copy_reply_eq [OF assms(1-7), of i heads request]) (rule that)
  have ns: "ns \<noteq> []" "hd ns \<in> set ns" "hd ns \<noteq> NULL" "ns ! 0 = hd ns" using assms(3,4,7) by (cases ns; simp)+
  have rel: "m_release (n_mbufs s' (hd ns)) = ZeroCopyTxCompletion"
    using s'(2) ns(1,4) by (auto simp: chain_ok_def segment_mbuf_def dest: spec [of _ 0])
  have data: "map (\<lambda>x. m_release_data (n_mbufs s' x)) ns = segs" if "using_ref_counting s = 1"
    using s'(2,7) that by (intro nth_equalityI) (auto simp: chain_ok_def segment_mbuf_def same_net_def)
  have "length ns + length rest \<le> unat (capacity (mbuf_mempool s))"
    using pool_in_use [OF assms(1)] assms(2) by simp
  moreover have "unat (allocated (mbuf_mempool s')) + length rest = unat (capacity (mbuf_mempool s))"
    using pool_in_use [OF s'(4)] s'(5,6) by simp
  ultimately have len: "length ns \<le> unat (allocated (mbuf_mempool s'))" "length ns \<le> chain_fuel s'"
    using s'(6) by (simp_all add: chain_fuel_def)
  have ok: "\<forall>x\<in>set ns. refcnt_ok (num_total_segments s') (working_set_refcnts s') (m_release_data (n_mbufs s' x))"
    if "using_ref_counting s' = 1"
  proof -
    have u: "using_ref_counting s = 1" "num_total_segments s' = num_total_segments s" using that s'(7) by (simp_all add: same_net_def)
    have "\<forall>seg\<in>set segs. refcnt_ok (num_total_segments s') (working_set_refcnts s') seg"
      using assms(6) u s'(8) by (simp add: refs_ok_def counted_def)
    then show ?thesis unfolding data [OF u(1), symmetric] by simp
  qed
  obtain p where p: "zero_copy_tx_completion (chain_fuel s') (hd ns) s' = Inr (s'\<lparr>mbuf_mempool := p,
      working_set_refcnts := uncounted s' (map (\<lambda>x. m_release_data (n_mbufs s' x)) ns)\<rparr>)"
    "pool_inv p" "pool_free_stack p = rev ns @ rest"
    using zero_copy_completion_eq [OF s'(3) len(2) s'(4) len(1) ok] s'(5) by auto
  have "uncounted s' (map (\<lambda>x. m_release_data (n_mbufs s' x)) ns) = working_set_refcnts s"
    using assms(8) s'(7,8) data fold_bump_cancel [of "num_total_segments s" 1 segs "working_set_refcnts s"]
    by (auto simp: uncounted_def counted_def same_net_def)
  then show ?thesis
    using s'(1,8) p rel ns(3) assms(2)
    by (intro exI [of _ "hd ns"] exI [of _ s'] exI [of _ "s'\<lparr>mbuf_mempool := p, working_set_refcnts := working_set_refcnts s\<rparr>"])
      (simp add: free_mbuf_def mbuf_free_def net_release_def)
qed

section \<open>The copied reply\<close>

text \<open>The bytes of the working set the segments stand for.\<close>

definition segments_data :: "server_cfg \<Rightarrow> mem \<Rightarrow> u64 \<Rightarrow> u64 list \<Rightarrow> u8 list" where
  "segments_data cfg m tot segs = concat (map (\<lambda>seg. load_bytes m (segment_addr cfg tot seg) (unat (segment_size cfg))) segs)"

definition apart :: "server_cfg \<Rightarrow> u64 \<Rightarrow> u64 list \<Rightarrow> ptr \<Rightarrow> nat \<Rightarrow> bool" where
  "apart cfg tot segs d K \<longleftrightarrow> (\<forall>seg\<in>set segs. disjoint_regions d K (segment_addr cfg tot seg) (unat (segment_size cfg)))"

lemma segments_data_cong:
  assumes "apart cfg tot segs d K" "\<And>a n. disjoint_regions d K a n \<Longrightarrow> load_bytes m' a n = load_bytes m a n"
  shows "segments_data cfg m' tot segs = segments_data cfg m tot segs"
  unfolding segments_data_def using assms by (intro arg_cong [where f = concat] map_cong) (auto simp: apart_def)

lemma reverse_request_header_frame:
  assumes "disjoint_regions h 64 a n" "0 < n"
  shows "load_bytes (parse_outgoing_request_header m h mb k) a n = load_bytes m a n"
  using disjoint_parts [OF assms(1)] assms(2)
  by (simp add: parse_outgoing_request_header_def initialize_reverse_request_header_def Let_def ether_addr_copy_def field_access add.assoc)

lemma into_mbuf_frame:
  assumes "disjoint_regions (m_data om) 50 a n" "0 < n"
  shows "load_bytes (parse_outgoing_request_header_into_mbuf m om mb k) a n = load_bytes m a n"
  using disjoint_parts [OF assms(1)] assms(2)
  by (simp add: parse_outgoing_request_header_into_mbuf_def Let_def ether_addr_copy_def field_access add.assoc)

lemma copy_segments_eq:
  fixes d :: ptr and i :: nat
  assumes "num_total_segments s \<noteq> 0" "apart cfg (num_total_segments s) segs d K" "m_data (n_mbufs s m) = d"
    and "58 + (i + length segs) * unat (segment_size cfg) \<le> K" "K < 2 ^ 64" "0 < unat (segment_size cfg)"
  shows "\<exists>s'. copy_segments cfg m 58 i segs s = Inr s'
    \<and> load_bytes (n_mem s') d (58 + (i + length segs) * unat (segment_size cfg))
      = load_bytes (n_mem s) d (58 + i * unat (segment_size cfg)) @ segments_data cfg (n_mem s) (num_total_segments s) segs
    \<and> m_data (n_mbufs s' m) = d \<and> (\<forall>x. x \<noteq> m \<longrightarrow> n_mbufs s' x = n_mbufs s x) \<and> same_net s s'
    \<and> m_next (n_mbufs s' m) = m_next (n_mbufs s m) \<and> m_release (n_mbufs s' m) = m_release (n_mbufs s m)
    \<and> mbuf_mempool s' = mbuf_mempool s \<and> tx_buf_mempool s' = tx_buf_mempool s"
  using assms(1-4)
proof (induction segs arbitrary: i s)
  case Nil
  then show ?case by (simp add: segments_data_def)
next
  case (Cons seg segs)
  let ?sz = "unat (segment_size cfg)" and ?a = "segment_addr cfg (num_total_segments s) seg"
  let ?k = "58 + i * ?sz"
  have k: "?k + ?sz \<le> K" using Cons.prems(4) by (simp add: algebra_simps)
  have off: "(58 :: u64) + of_nat i * segment_size cfg = of_nat ?k"
    by simp
  have uk: "unat (of_nat ?k :: u64) = ?k" by (rule unat_of_nat_less) (use k assms(5) in simp)
  have dj: "disjoint_regions (d + of_nat ?k) ?sz ?a ?sz"
  proof (rule disjoint_parts(3) [where K = K])
    show "disjoint_regions d K ?a ?sz" using Cons.prems(2) by (simp add: apart_def)
  qed (use uk k assms(6) in simp_all)
  let ?h = "memcpy (n_mem s) (d + of_nat ?k) ?a ?sz"
  let ?s = "upd_mbuf m (\<lambda>_. (n_mbufs s m)\<lparr>m_len := m_len (n_mbufs s m) + ucast (segment_size cfg)\<rparr>) (s\<lparr>n_mem := ?h\<rparr>)"
  have copy: "mbuf_copy (n_mem s) (n_mbufs s m) ?a (segment_size cfg) (58 + of_nat i * segment_size cfg)
      = (?h, (n_mbufs s m)\<lparr>m_len := m_len (n_mbufs s m) + ucast (segment_size cfg)\<rparr>)"
    unfolding mbuf_copy_def Cons.prems(3) off rte_memcpy_any [OF dj] by (rule refl)
  have run: "copy_segments cfg m 58 i (seg # segs) s = copy_segments cfg m 58 (Suc i) segs ?s"
    unfolding copy_segments.simps Let_def segment_addr_def [symmetric] copy using Cons.prems(1) by simp
  have bytes: "load_bytes ?h d (?k + ?sz) = load_bytes (n_mem s) d ?k @ load_bytes (n_mem s) ?a ?sz"
    by (rule load_after_append) (use k assms(5) in simp)
  have outside: "load_bytes ?h a n = load_bytes (n_mem s) a n" if "disjoint_regions d K a n" "0 < n" for a n
    by (rule load_memcpy_disjoint, rule disjoint_parts(3) [OF that(1)]) (use uk k assms(6) that(2) in simp_all)
  have "segments_data cfg ?h (num_total_segments s) segs = segments_data cfg (n_mem s) (num_total_segments s) segs"
    unfolding segments_data_def using Cons.prems(2) outside assms(6)
    by (intro arg_cong [where f = concat] map_cong) (auto simp: apart_def)
  moreover obtain s' where "copy_segments cfg m 58 (Suc i) segs ?s = Inr s'"
    "load_bytes (n_mem s') d (58 + (Suc i + length segs) * ?sz)
      = load_bytes (n_mem ?s) d (58 + Suc i * ?sz) @ segments_data cfg (n_mem ?s) (num_total_segments ?s) segs"
    "m_data (n_mbufs s' m) = d" "\<forall>x. x \<noteq> m \<longrightarrow> n_mbufs s' x = n_mbufs ?s x" "same_net ?s s'"
    "m_next (n_mbufs s' m) = m_next (n_mbufs ?s m)" "m_release (n_mbufs s' m) = m_release (n_mbufs ?s m)"
    "mbuf_mempool s' = mbuf_mempool ?s" "tx_buf_mempool s' = tx_buf_mempool ?s"
  proof -
    have "num_total_segments ?s \<noteq> 0" "apart cfg (num_total_segments ?s) segs d K" "m_data (n_mbufs ?s m) = d"
      "58 + (Suc i + length segs) * ?sz \<le> K" using Cons.prems by (simp_all add: upd_mbuf_def apart_def)
    from Cons.IH [OF this] that show thesis by blast
  qed
  ultimately show ?case
    using run bytes by (intro exI [of _ s']) (simp add: upd_mbuf_def same_net_def segments_data_def algebra_simps)
qed

lemma copy_reply_eq:
  fixes segs :: "u64 list"
  defines "n \<equiv> length segs"
  assumes "pool_inv (mbuf_mempool s)" "pool_free_stack (mbuf_mempool s) = m # ms" "m \<noteq> NULL"
    and "pool_inv (tx_buf_mempool s)" "pool_free_stack (tx_buf_mempool s) = b # bs" "b \<noteq> NULL"
    and "num_total_segments s \<noteq> 0" "apart cfg (num_total_segments s) segs b (58 + n * unat (segment_size cfg))"
    and "58 + n * unat (segment_size cfg) < 2 ^ 64" "0 < unat (segment_size cfg)"
  obtains s' where "copy_reply cfg i heads request segs s = Inr (0, heads @ [m], s')"
    "load_bytes (n_mem s') (b + 58) (n * unat (segment_size cfg)) = segments_data cfg (n_mem s) (num_total_segments s) segs"
    "m_data (n_mbufs s' m) = b" "m_len (n_mbufs s' m) = ucast (58 + segment_size cfg * num_segments cfg)"
    "m_next (n_mbufs s' m) = NULL" "m_release (n_mbufs s' m) = TxCompletion" "same_net s s'"
    "pool_free_stack (mbuf_mempool s') = ms" "pool_free_stack (tx_buf_mempool s') = bs"
proof -
  let ?K = "58 + n * unat (segment_size cfg)"
  obtain p where p: "mempool_alloc (mbuf_mempool s) = Inr (m, p)" "pool_free_stack p = ms"
    using pool.alloc_top [OF assms(2,3)] by blast
  obtain q where q: "mempool_alloc (tx_buf_mempool s) = Inr (b, q)" "pool_free_stack q = bs"
    using pool.alloc_top [OF assms(5,6)] by blast
  define s1 where "s1 = upd_mbuf m (\<lambda>b. b\<lparr>m_release := TxCompletion, m_next := NULL\<rparr>) (upd_mbuf m (\<lambda>mb. mbuf_init mb b DATA_MBUFS_SIZE 0)
    (upd_mbuf m (\<lambda>b. b\<lparr>m_lkey := tx_lkey cfg\<rparr>) (s\<lparr>mbuf_mempool := p\<rparr>)\<lparr>tx_buf_mempool := q\<rparr>))"
  define s2 where "s2 = s1\<lparr>n_mem := parse_outgoing_request_header_into_mbuf (n_mem s1) (n_mbufs s1 m) (n_mbufs s1 request)
    (num_segments cfg * segment_size cfg + 16)\<rparr>"
  have s2: "num_total_segments s2 = num_total_segments s" "m_data (n_mbufs s2 m) = b" "same_net s s2"
    "m_next (n_mbufs s2 m) = NULL" "m_release (n_mbufs s2 m) = TxCompletion" "mbuf_mempool s2 = p" "tx_buf_mempool s2 = q"
    by (simp_all add: s2_def s1_def mbuf_init_def Let_def same_net_def upd_mbuf_def)
  obtain s3 where s3: "copy_segments cfg m 58 0 segs s2 = Inr s3"
    "load_bytes (n_mem s3) b ?K = load_bytes (n_mem s2) b 58 @ segments_data cfg (n_mem s2) (num_total_segments s2) segs"
    "m_data (n_mbufs s3 m) = b" "same_net s2 s3" "m_next (n_mbufs s3 m) = m_next (n_mbufs s2 m)"
    "m_release (n_mbufs s3 m) = m_release (n_mbufs s2 m)" "mbuf_mempool s3 = mbuf_mempool s2" "tx_buf_mempool s3 = tx_buf_mempool s2"
    using copy_segments_eq [of s2 cfg segs b ?K m 0] assms(8-11) by (auto simp: s2 n_def)
  have data: "segments_data cfg (n_mem s2) (num_total_segments s) segs = segments_data cfg (n_mem s) (num_total_segments s) segs"
  proof -
    have "load_bytes (n_mem s2) a k = load_bytes (n_mem s) a k" if "disjoint_regions b ?K a k" for a k
    proof (cases "k = 0")
      case False
      have "m_data (n_mbufs s1 m) = b" "n_mem s1 = n_mem s" by (simp_all add: s1_def mbuf_init_def Let_def)
      moreover have "disjoint_regions b 50 a k" by (rule disjoint_parts(4) [OF that]) simp_all
      ultimately show ?thesis using into_mbuf_frame [of "n_mbufs s1 m" a k] False by (simp add: s2_def)
    qed simp
    then show ?thesis by (rule segments_data_cong [OF assms(9)])
  qed
  have bytes: "load_bytes (n_mem s3) (b + 58) (n * unat (segment_size cfg)) = segments_data cfg (n_mem s) (num_total_segments s) segs"
    using arg_cong [OF s3(2), of "drop 58"] data by (simp add: s2(1))
  define s4 where "s4 = upd_mbuf m (\<lambda>b. b\<lparr>m_nb_segs := 1, m_pkt_len := ucast (58 + segment_size cfg * num_segments cfg),
    m_len := ucast (58 + segment_size cfg * num_segments cfg)\<rparr>) s3"
  show thesis
  proof (rule that)
    show "copy_reply cfg i heads request segs s = Inr (0, heads @ [m], s4)"
      using p(1) q(1) assms(4,7) s3(1) unfolding s2_def s1_def
      by (cases "request = m") (simp_all add: copy_reply_def Let_def s4_def)
  qed (use bytes s3 s2 p(2) q(2) same_net_trans [OF s2(3) s3(4)] in \<open>simp_all add: s4_def same_net_def\<close>)
qed

section \<open>Both paths send the same bytes\<close>

text \<open>What the device gathers behind the inlined headers of a chain of mbufs.\<close>

definition gathered :: "net \<Rightarrow> ptr list \<Rightarrow> u8 list" where
  "gathered s ms = concat (map (\<lambda>m. load_bytes (n_mem s) (m_data (n_mbufs s m)) (unat (m_len (n_mbufs s m)))) ms)"

lemma load_bytes_eqI:
  assumes "\<forall>x. k \<le> unat (x - c) \<longrightarrow> h x = g x" "disjoint_regions c k a n" "0 < k"
  shows "load_bytes h a n = load_bytes g a n"
  using assms disjoint_regions_offset [OF assms(2), of _ 0] by (intro nth_equalityI) auto

lemma zero_copy_gathered:
  assumes "chain_ok cfg s' segs ns" "same_net s s'" "unat (segment_size cfg) < 2 ^ 32" "0 < unat (segment_size cfg)"
    and "\<forall>x. 8 \<le> unat (x - req_checksum rh) \<longrightarrow> n_mem s' x = parse_outgoing_request_header (n_mem s) rh mb k x"
    and "apart cfg (num_total_segments s) segs rh 64"
  shows "gathered s' ns = segments_data cfg (n_mem s) (num_total_segments s) segs"
  unfolding gathered_def segments_data_def
proof (rule arg_cong [where f = concat], rule nth_equalityI)
  fix i
  assume "i < length (map (\<lambda>m. load_bytes (n_mem s') (m_data (n_mbufs s' m)) (unat (m_len (n_mbufs s' m)))) ns)"
  then have i: "i < length ns" "i < length segs" using assms(1) by (simp_all add: chain_ok_def)
  let ?a = "segment_addr cfg (num_total_segments s) (segs ! i)" and ?sz = "unat (segment_size cfg)"
  have mb: "m_data (n_mbufs s' (ns ! i)) = ?a" "unat (m_len (n_mbufs s' (ns ! i))) = ?sz"
    using assms(1,2,3) i(1) by (simp_all add: chain_ok_def segment_mbuf_def same_net_def unat_ucast_u64_less)
  have dj: "disjoint_regions rh 64 ?a ?sz" using assms(6) i(2) by (simp add: apart_def)
  have "load_bytes (n_mem s') ?a ?sz = load_bytes (parse_outgoing_request_header (n_mem s) rh mb k) ?a ?sz"
    by (rule load_bytes_eqI [OF assms(5)], rule disjoint_parts(3) [OF dj]) (use assms(4) in simp_all)
  also have "\<dots> = load_bytes (n_mem s) ?a ?sz" by (rule reverse_request_header_frame [OF dj assms(4)])
  finally show "map (\<lambda>m. load_bytes (n_mem s') (m_data (n_mbufs s' m)) (unat (m_len (n_mbufs s' m)))) ns ! i
      = map (\<lambda>seg. load_bytes (n_mem s) (segment_addr cfg (num_total_segments s) seg) ?sz) segs ! i"
    using i mb by simp
qed (use assms(1) in \<open>simp add: chain_ok_def\<close>)

text \<open>
  C5. For the same request in the same state, the chain the zero-copy path builds is linked through to
  its end, and the device gathers from it exactly the bytes the copying path leaves in its buffer behind the
  58 bytes of header: the requested segments of the working set, in the order asked for.
\<close>

theorem replies_same_payload:
  assumes "pool_inv (mbuf_mempool s)" "pool_free_stack (mbuf_mempool s) = ns @ rest" "length ns = length segs"
    and "segs \<noteq> []" "unat (num_segments cfg) = length segs" "refs_ok s segs" "distinct (NULL # ns)"
    and "pool_inv (tx_buf_mempool s)" "pool_free_stack (tx_buf_mempool s) = b # bs" "b \<noteq> NULL"
    and "58 + length segs * unat (segment_size cfg) \<le> 16384" "0 < unat (segment_size cfg)"
    and "apart cfg (num_total_segments s) segs b (58 + length segs * unat (segment_size cfg))"
    and "apart cfg (num_total_segments s) segs (request_header_at cfg i) 64"
  shows "\<exists>s1 s2. zero_copy_reply cfg i heads request segs s = Inr (0, heads @ [hd ns], s1)
    \<and> path (n_mbufs s1) (hd ns) ns \<and> m_nb_segs (n_mbufs s1 (hd ns)) = of_nat (length segs)
    \<and> copy_reply cfg i heads request segs s = Inr (0, heads @ [hd ns], s2)
    \<and> m_data (n_mbufs s2 (hd ns)) = b \<and> unat (m_len (n_mbufs s2 (hd ns))) = 58 + length segs * unat (segment_size cfg)
    \<and> gathered s1 ns = load_bytes (n_mem s2) (b + 58) (length segs * unat (segment_size cfg))
    \<and> gathered s1 ns = segments_data cfg (n_mem s) (num_total_segments s) segs"
proof -
  let ?n = "length segs" and ?sz = "unat (segment_size cfg)"
  obtain s1 where s1: "zero_copy_reply cfg i heads request segs s = Inr (0, heads @ [hd ns], s1)"
    "chain_ok cfg s1 segs ns" "path (n_mbufs s1) (hd ns) ns" "m_nb_segs (n_mbufs s1 (hd ns)) = ucast (num_segments cfg)" "same_net s s1"
    "\<forall>x. 8 \<le> unat (x - req_checksum (request_header_at cfg i)) \<longrightarrow> n_mem s1 x
       = parse_outgoing_request_header (n_mem s) (request_header_at cfg i) (n_mbufs s request) (num_segments cfg * segment_size cfg + 16) x"
    by (rule zero_copy_reply_eq [OF assms(1-7), of i heads request]) (rule that)
  obtain m ms where ns: "ns = m # ms" using assms(3,4) by (cases ns) auto
  have one: "?sz \<le> ?n * ?sz" using assms(4) by (cases segs) simp_all
  then have "?sz \<le> 16384" using assms(11) by linarith
  then have K: "58 + ?n * ?sz < 2 ^ 64" "?sz < 2 ^ 32" using assms(11) by simp_all
  have "num_total_segments s \<noteq> 0" using assms(6) by (simp add: refs_ok_def)
  then obtain s2 where s2: "copy_reply cfg i heads request segs s = Inr (0, heads @ [m], s2)"
    "load_bytes (n_mem s2) (b + 58) (?n * ?sz) = segments_data cfg (n_mem s) (num_total_segments s) segs"
    "m_data (n_mbufs s2 m) = b" "m_len (n_mbufs s2 m) = ucast (58 + segment_size cfg * num_segments cfg)"
    using copy_reply_eq [OF assms(1) _ _ assms(8-10) _ assms(13) K(1) assms(12), of m "ms @ rest" i heads request] assms(2,7) ns by auto
  have "58 + segment_size cfg * num_segments cfg = of_nat (58 + ?n * ?sz)"
    by (simp add: assms(5) [symmetric] mult.commute)
  moreover have "unat (of_nat (58 + ?n * ?sz) :: u64) = 58 + ?n * ?sz" using K(1) by (intro unat_of_nat_less) simp
  ultimately have "unat (58 + segment_size cfg * num_segments cfg) = 58 + ?n * ?sz" by (simp only:)
  then have len: "unat (m_len (n_mbufs s2 m)) = 58 + ?n * ?sz"
    using assms(11) by (simp add: s2(4) unat_ucast_u64_less)
  have "ucast (num_segments cfg) = (of_nat ?n :: u32)" using assms(5) by (metis of_nat_unat)
  then show ?thesis
    using s1(1,3,4) s2 len ns zero_copy_gathered [OF s1(2,5) K(2) assms(12) s1(6) assms(14)] by auto
qed

section \<open>An example\<close>

definition example_cfg :: server_cfg where
  "example_cfg = \<lparr>echo_mode = 0, zero_copy = 1, read_incoming_packet = 0, num_segments = 2, segment_size = 64,
     server_working_set = 0x80000, tx_lkey = 9, rx_lkey = 8, request_headers = 0x90000, server_mac = 0x98000, tmp_ether = 0x99000\<rparr>"

definition example_server :: net where
  "example_server = (example_net [])\<lparr>mbuf_mempool := zero_mempool\<lparr>mp_free_items := [256, 384], capacity := 2\<rparr>,
     tx_buf_mempool := zero_mempool\<lparr>mp_free_items := [0x40000], capacity := 1\<rparr>, using_ref_counting := 1\<rparr>"

lemma example_server_ok:
  "pool_inv (mbuf_mempool example_server)" "pool_free_stack (mbuf_mempool example_server) = [256, 384] @ []"
  "pool_inv (tx_buf_mempool example_server)" "pool_free_stack (tx_buf_mempool example_server) = 0x40000 # []"
  "refs_ok example_server [1, 1]" "unat (num_segments example_cfg) = length [1, 1 :: u64]" "using_ref_counting example_server \<in> {0, 1}"
  "num_total_segments example_server = 2"
  by (simp_all add: example_server_def example_net_def zero_mempool_def pool_inv_def pool_free_stack_def refs_ok_def refcnt_ok_def example_cfg_def)

lemma zero_copy_round_trip_witness:
  "\<exists>m s' s''. zero_copy_reply example_cfg 0 [] 512 [1, 1] example_server = Inr (0, [m], s')
    \<and> working_set_refcnts s' = [[3, 7]] \<and> free_mbuf m s' = Inr s'' \<and> working_set_refcnts s'' = [[3, 5]]"
proof -
  have "counted example_server [1, 1] = [[3, 7]]" "working_set_refcnts example_server = [[3, 5]]"
    by (simp_all add: counted_def example_server_def example_net_def bump_def Let_def)
  then show ?thesis
    using zero_copy_round_trip [OF example_server_ok(1,2) _ _ example_server_ok(6,5) _ example_server_ok(7), of 0 "[]" 512] by auto
qed

lemma replies_same_payload_witness:
  "\<exists>s1 s2. zero_copy_reply example_cfg 0 [] 512 [1, 1] example_server = Inr (0, [256], s1)
    \<and> copy_reply example_cfg 0 [] 512 [1, 1] example_server = Inr (0, [256], s2)
    \<and> gathered s1 [256, 384] = load_bytes (n_mem s2) 0x4003A 128"
proof -
  have "unat (segment_size example_cfg) = 64" by (simp add: example_cfg_def)
  moreover have "apart example_cfg 2 [1, 1] 0x40000 186" "apart example_cfg 2 [1, 1] (request_header_at example_cfg 0) 64"
    by (simp_all add: apart_def segment_addr_def get_server_region_def example_cfg_def request_header_at_def disjoint_regions_def)
  ultimately show ?thesis
    using replies_same_payload [OF example_server_ok(1,2) _ _ example_server_ok(6,5) _ example_server_ok(3,4), of 0 "[]" 512]
      example_server_ok(8) by auto
qed

end
