(* ===== verification/Posting.thy ===== *)
theory Posting
  imports Reply "HOL-Library.Sublist"
begin

text \<open>
  The server's loops over packets: posting a batch of replies, cutting a burst of
  received packets into batches, and what happens when a batch fails.
\<close>

section \<open>Posting a batch\<close>

text \<open>Where a transmission's ring entry lies depends on the geometry of the ring only.\<close>

definition ring_mapped :: "txq \<Rightarrow> bool" where
  "ring_mapped v \<longleftrightarrow> (\<forall>x. get_segment v (x AND (sq_wqe_cnt v - 1)) \<noteq> NULL)"

definition same_geometry :: "net \<Rightarrow> net \<Rightarrow> bool" where
  "same_geometry s s' \<longleftrightarrow> sq_buf (n_txq s') = sq_buf (n_txq s) \<and> tx_sq_log_stride (n_txq s') = tx_sq_log_stride (n_txq s)
     \<and> sq_wqe_cnt (n_txq s') = sq_wqe_cnt (n_txq s) \<and> (\<forall>m. m_nb_segs (n_mbufs s' m) = m_nb_segs (n_mbufs s m))"

lemma same_geometry_refl [simp]: "same_geometry s s"
  by (simp add: same_geometry_def)

lemma same_geometry_trans: "same_geometry s s' \<Longrightarrow> same_geometry s' s'' \<Longrightarrow> same_geometry s s''"
  by (simp add: same_geometry_def)

lemma ring_mapped_cong: "same_geometry s s' \<Longrightarrow> ring_mapped (n_txq s) \<Longrightarrow> ring_mapped (n_txq s')"
  by (simp add: same_geometry_def ring_mapped_def get_segment_def)

definition flight_of :: "abi \<Rightarrow> net \<Rightarrow> ptr \<times> ptr \<times> u64 \<Rightarrow> ptr \<times> nat" where
  "flight_of A s e = (case e of (m, rh, il) \<Rightarrow> (m, wqes_needed A (m_nb_segs (n_mbufs s m)) il))"

lemma flight_of_cong: "same_geometry s s' \<Longrightarrow> flight_of A s' = flight_of A s"
  by (auto simp: same_geometry_def flight_of_def)

lemma advance_geometry: "n_txq s' = advance fl (n_txq s) \<Longrightarrow> n_mbufs s' = n_mbufs s \<Longrightarrow> same_geometry s s'"
  by (simp add: same_geometry_def advance_def)

lemma fill_tx_geometry:
  assumes "documented_abi A" "tx_ok (n_txq s) (n_mbufs s) (fin @ rest)"
    and "completed A (n_txq s) (cq_head (n_txq s)) (true_cq_head (n_txq s)) fin"
    and "mlx5_fill_tx_segment A m rh il s = Inr (ret, s')"
  shows "same_geometry s s'"
  using assms(4)
proof (cases rule: fill_tx_cases)
  case (1 s1)
  then show ?thesis using maybe_reaped [OF assms(1-3), of s1] advance_geometry by auto
next
  case (2 s1 h)
  then have "same_geometry s s1" using maybe_reaped [OF assms(1-3) 2(3)] advance_geometry by auto
  then show ?thesis using 2(7) by (simp add: same_geometry_def)
qed

lemma transmit_one_geometry:
  assumes "documented_abi A" "il \<le> 1024" "tx_ok (n_txq s) (n_mbufs s) (fin @ rest)"
    and "completed A (n_txq s) (cq_head (n_txq s)) (true_cq_head (n_txq s)) fin" "m \<notin> fst ` set (fin @ rest)"
    and "get_segment (n_txq s) (sq_head (n_txq s) AND (sq_wqe_cnt (n_txq s) - 1)) \<noteq> NULL"
    and "mlx5_transmit_one A m rh il s = Inr (ret, s')"
  shows "same_geometry s s'"
  using assms(7,6)
proof (cases rule: transmit_one_cases)
  case 1
  then show ?thesis using fill_tx_geometry [OF assms(1,3,4)] by blast
next
  case (2 r s1 s2)
  have g: "same_geometry s s1" by (rule fill_tx_geometry [OF assms(1,3,4) 2(2)])
  obtain j where j: "completed A (n_txq s1) (cq_head (n_txq s1)) (true_cq_head (n_txq s1)) (drop j fin)"
    "tx_ok (n_txq s1) (n_mbufs s1) (drop j fin @ (rest @ [(m, wqes_needed A (m_nb_segs (n_mbufs s m)) il)]))"
    using fill_tx_ring [OF assms(1-5) 2(2)] 2(3) by (auto simp: Let_def split: if_splits)
  have "\<exists>i\<le>length (drop j fin). n_txq s' = advance (take i (drop j fin)) (n_txq s2) \<and> n_mbufs s' = n_mbufs s2"
    by (rule maybe_reaped [OF assms(1) _ _ 2(6)]) (use j 2(4,5) in simp_all)
  then have "same_geometry s2 s'" using advance_geometry by auto
  then show ?thesis using g 2(4,5) by (simp add: same_geometry_def)
qed

text \<open>One more transmission behind those in flight.\<close>

lemma transmit_one_inv:
  assumes "documented_abi A" "tx_inv A c" "ring_mapped (n_txq (sys_net c))" "il \<le> 1024" "m \<notin> fst ` set (in_flight c)"
    and "mlx5_transmit_one A m rh il (sys_net c) = Inr (ret, s')"
  obtains c' where "sys_net c' = s'" "tx_inv A c'" "same_geometry (sys_net c) s'" "ret = 0 \<or> ret = 1"
    "suffix (in_flight c') (in_flight c @ (if ret = 1 then [flight_of A (sys_net c) (m, rh, il)] else []))"
proof -
  let ?x = "if ret = 1 then [flight_of A (sys_net c) (m, rh, il)] else []"
  have inv: "tx_ok (n_txq (sys_net c)) (n_mbufs (sys_net c)) (in_flight c)"
    "completed A (n_txq (sys_net c)) (cq_head (n_txq (sys_net c))) (true_cq_head (n_txq (sys_net c))) (sys_done c)"
    using assms(2) by (simp_all add: tx_inv_def)
  have seg: "get_segment (n_txq (sys_net c)) (sq_head (n_txq (sys_net c)) AND (sq_wqe_cnt (n_txq (sys_net c)) - 1)) \<noteq> NULL"
    using assms(3) by (simp add: ring_mapped_def)
  obtain j where j: "j \<le> length (sys_done c)"
    and post: "completed A (n_txq s') (cq_head (n_txq s')) (true_cq_head (n_txq s')) (drop j (sys_done c))"
    "if ret = 1 then tx_ok (n_txq s') (n_mbufs s') ((drop j (sys_done c) @ sys_pending c) @
        [(m, wqes_needed A (m_nb_segs (n_mbufs (sys_net c) m)) il)])
     else ret = 0 \<and> n_mbufs s' = n_mbufs (sys_net c) \<and> tx_ok (n_txq s') (n_mbufs s') (drop j (sys_done c) @ sys_pending c)
       \<and> unat (sq_wqe_cnt (n_txq s')) < entries (drop j (sys_done c) @ sys_pending c)
           + wqes_needed A (m_nb_segs (n_mbufs (sys_net c) m)) il \<and> j = min SQ_CLEAN_MAX (length (sys_done c))"
    using transmit_one_ring [OF assms(1,4) inv assms(5) seg assms(6)] unfolding Let_def by blast
  let ?c = "\<lparr>sys_net = s', sys_done = drop j (sys_done c), sys_pending = sys_pending c @ ?x\<rparr>"
  have "ret = 0 \<or> ret = 1" using post(2) by (cases "ret = 1") simp_all
  moreover have "tx_ok (n_txq s') (n_mbufs s') (drop j (sys_done c) @ sys_pending c @ ?x)"
  proof (cases "ret = 1")
    case False
    then have "tx_ok (n_txq s') (n_mbufs s') (drop j (sys_done c) @ sys_pending c)"
      using post(2) unfolding if_not_P [OF False] by blast
    then show ?thesis using False by simp
  qed (use post(2) in \<open>simp add: flight_of_def\<close>)
  then have "tx_inv A ?c" using post(1) by (simp add: tx_inv_def)
  moreover have "suffix (in_flight ?c) (in_flight c @ ?x)" using suffix_drop [of j "sys_done c"] by (simp only: tx_sys.simps append_assoc [symmetric] same_suffix_suffix)
  moreover have "same_geometry (sys_net c) s'" by (rule transmit_one_geometry [OF assms(1,4) inv assms(5) seg assms(6)])
  ultimately show thesis by (intro that [of ?c]) simp_all
qed

text \<open>The packets a batch consists of: none twice, none in flight already, and none with more than 1024 bytes to inline.\<close>

definition postable :: "flight \<Rightarrow> (ptr \<times> ptr \<times> u64) list \<Rightarrow> bool" where
  "postable fl es \<longleftrightarrow> distinct (map fst es) \<and> fst ` set es \<inter> fst ` set fl = {} \<and> (\<forall>e\<in>set es. snd (snd e) \<le> 1024)"

lemma postable_suffix: "postable fl es \<Longrightarrow> suffix fl' fl \<Longrightarrow> postable fl' es"
  unfolding postable_def by (drule set_mono_suffix, drule image_mono [of _ _ fst]) blast

lemma postable_step:
  assumes "postable fl ((m, rh, il) # es)" "suffix fl' (fl @ [flight_of A s (m, rh, il)])"
  shows "postable fl' es"
  by (rule postable_suffix [OF _ assms(2)]) (use assms(1) in \<open>auto simp: postable_def flight_of_def\<close>)

lemma transmit_loop_inv:
  assumes "documented_abi A" "tx_inv A c" "ring_mapped (n_txq (sys_net c))" "postable (in_flight c) es"
    and "transmit_loop A es (sys_net c) = Inr (n, s')"
  shows "\<exists>c'. sys_net c' = s' \<and> tx_inv A c' \<and> same_geometry (sys_net c) s' \<and> n \<le> length es
    \<and> suffix (in_flight c') (in_flight c @ map (flight_of A (sys_net c)) (take n es))"
  using assms(2-)
proof (induction es arbitrary: c n)
  case Nil
  then show ?case by (intro exI [of _ c]) simp
next
  case (Cons e es)
  obtain m rh il where e: "e = (m, rh, il)" by (cases e)
  from Cons.prems(4) e obtain ret s1 where t: "mlx5_transmit_one A m rh il (sys_net c) = Inr (ret, s1)"
    and r: "(if ret \<noteq> 1 then Inr (0, s1) else bindE (transmit_loop A es s1) (\<lambda>(n, s). Inr (Suc n, s))) = Inr (n, s')"
    by (auto elim!: bindE_InrE)
  have "m \<notin> fst ` set (in_flight c)" "il \<le> 1024" using Cons.prems(3) e by (auto simp: postable_def)
  with transmit_one_inv [OF assms(1) Cons.prems(1,2) _ _ t] obtain c1 where c1: "sys_net c1 = s1" "tx_inv A c1"
    "same_geometry (sys_net c) s1" "ret = 0 \<or> ret = 1"
    "suffix (in_flight c1) (in_flight c @ (if ret = 1 then [flight_of A (sys_net c) (m, rh, il)] else []))" by blast
  show ?case
  proof (cases "ret = 1")
    case False
    then show ?thesis using r c1 by (intro exI [of _ c1]) simp
  next
    case True
    then obtain n' where n': "transmit_loop A es s1 = Inr (n', s')" "n = Suc n'"
      using r by (auto elim!: bindE_InrE)
    have fl: "suffix (in_flight c1) (in_flight c @ [flight_of A (sys_net c) (m, rh, il)])"
      using c1(5) unfolding if_P [OF True] .
    have "postable (in_flight c1) es" by (rule postable_step [OF _ fl]) (use Cons.prems(3) e in simp)
    from Cons.IH [OF c1(2) _ this, of n'] n'(1) ring_mapped_cong [OF c1(3) Cons.prems(2)]
    obtain c2 where c2: "sys_net c2 = s'" "tx_inv A c2" "same_geometry s1 s'" "n' \<le> length es"
      "suffix (in_flight c2) (in_flight c1 @ map (flight_of A s1) (take n' es))"
      unfolding c1(1) by blast
    have "suffix (in_flight c1 @ map (flight_of A s1) (take n' es))
      ((in_flight c @ [flight_of A (sys_net c) (m, rh, il)]) @ map (flight_of A s1) (take n' es))"
      using fl by (simp only: same_suffix_suffix)
    from suffix_order.trans [OF c2(5) this]
    have "suffix (in_flight c2) (in_flight c @ map (flight_of A (sys_net c)) (take n (e # es)))"
      unfolding e n'(2) flight_of_cong [OF c1(3)] by simp
    moreover have "n \<le> length (e # es)" using c2(4) n'(2) by simp
    ultimately show ?thesis using c2(1,2) same_geometry_trans [OF c1(3) c2(3)] by blast
  qed
qed

text \<open>
  Between two tries the device may complete transmissions in flight; it does not move the ring
  or touch the chains of mbufs.
\<close>

definition quiet_device :: "abi \<Rightarrow> (nat \<Rightarrow> net \<Rightarrow> net) \<Rightarrow> bool" where
  "quiet_device A dev \<longleftrightarrow> (\<forall>i c. tx_inv A c \<longrightarrow> (\<exists>c'. sys_net c' = dev i (sys_net c) \<and> tx_inv A c'
     \<and> same_geometry (sys_net c) (sys_net c') \<and> in_flight c' = in_flight c))"

lemma quiet_deviceE:
  assumes "quiet_device A dev" "tx_inv A c"
  obtains c' where "sys_net c' = dev i (sys_net c)" "tx_inv A c'" "same_geometry (sys_net c) (sys_net c')"
    "in_flight c' = in_flight c"
  using assms unfolding quiet_device_def by metis

lemma postable_rest:
  assumes "postable fl es" "suffix fl' (fl @ map (flight_of A s) (take n es))"
  shows "postable fl' (drop n es)"
proof (rule postable_suffix [OF _ assms(2)])
  have "distinct (map fst (take n es) @ map fst (drop n es))"
    using assms(1) by (simp add: postable_def flip: map_append)
  then have "fst ` set (drop n es) \<inter> fst ` set (take n es) = {}" "distinct (map fst (drop n es))" by auto
  moreover have "fst ` flight_of A s ` set (take n es) = fst ` set (take n es)"
    by (force simp: flight_of_def)
  moreover have "fst ` set (drop n es) \<inter> fst ` set fl = {}" "\<forall>e\<in>set (drop n es). snd (snd e) \<le> 1024"
    using assms(1) set_drop_subset [of n es] unfolding postable_def by blast+
  ultimately show "postable (fl @ map (flight_of A s) (take n es)) (drop n es)"
    by (simp add: postable_def image_Un Int_Un_distrib)
qed

lemma post_loop_inv:
  assumes "documented_abi A" "quiet_device A dev" "tx_inv A c" "ring_mapped (n_txq (sys_net c))"
    and "postable (in_flight c) (drop k es)" "k \<le> length es" "post_loop A dev fuel es k (sys_net c) = Inr s'"
  shows "\<exists>c'. sys_net c' = s' \<and> tx_inv A c' \<and> same_geometry (sys_net c) s'
    \<and> suffix (in_flight c') (in_flight c @ map (flight_of A (sys_net c)) (drop k es))"
  using assms(3-)
proof (induction fuel arbitrary: c k)
  case 0
  then show ?case by (intro exI [of _ c]) (simp split: if_splits)
next
  case (Suc fuel)
  show ?case
  proof (cases "k < length es")
    case False
    then show ?thesis using Suc.prems by (intro exI [of _ c]) simp
  next
    case True
    obtain d where d: "sys_net d = dev fuel (sys_net c)" "tx_inv A d" "same_geometry (sys_net c) (sys_net d)"
      "in_flight d = in_flight c" by (rule quiet_deviceE [OF assms(2) Suc.prems(1)])
    from Suc.prems(5) True obtain n s1 where n: "transmit_loop A (drop k es) (sys_net d) = Inr (n, s1)"
      and r: "post_loop A dev fuel es (k + n) s1 = Inr s'"
      by (auto simp: mlx5_transmit_batch_def d(1) elim!: bindE_InrE)
    have "postable (in_flight d) (drop k es)" using Suc.prems(3) d(4) by simp
    from transmit_loop_inv [OF assms(1) d(2) ring_mapped_cong [OF d(3) Suc.prems(2)] this n]
    obtain e where e: "sys_net e = s1" "tx_inv A e" "same_geometry (sys_net d) s1" "n \<le> length (drop k es)"
      "suffix (in_flight e) (in_flight c @ map (flight_of A (sys_net c)) (take n (drop k es)))"
      unfolding d(4) flight_of_cong [OF d(3)] by (elim exE conjE) (rule that)
    have g: "same_geometry (sys_net c) (sys_net e)" using same_geometry_trans [OF d(3) e(3)] e(1) by simp
    have "postable (in_flight e) (drop (k + n) es)"
      using postable_rest [OF Suc.prems(3) e(5)] by (simp add: add.commute)
    moreover have "k + n \<le> length es" using e(4) True by simp
    ultimately obtain c' where c': "sys_net c' = s'" "tx_inv A c'" "same_geometry (sys_net e) s'"
      "suffix (in_flight c') (in_flight e @ map (flight_of A (sys_net e)) (drop (k + n) es))"
      using Suc.IH [OF e(2) ring_mapped_cong [OF g Suc.prems(2)] _ _ r [folded e(1)]] by blast
    have "suffix (in_flight e @ map (flight_of A (sys_net c)) (drop (k + n) es))
      ((in_flight c @ map (flight_of A (sys_net c)) (take n (drop k es))) @ map (flight_of A (sys_net c)) (drop (k + n) es))"
      using e(5) by (simp only: same_suffix_suffix)
    moreover have "map (flight_of A (sys_net c)) (take n (drop k es)) @ map (flight_of A (sys_net c)) (drop (k + n) es)
      = map (flight_of A (sys_net c)) (drop k es)"
      using append_take_drop_id [of n "drop k es"] by (simp only: drop_drop add.commute flip: map_append)
    ultimately have "suffix (in_flight c') (in_flight c @ map (flight_of A (sys_net c)) (drop k es))"
      using suffix_order.trans [OF c'(4)] unfolding flight_of_cong [OF g] by simp
    then show ?thesis using c'(1,2) same_geometry_trans [OF g c'(3)] by blast
  qed
qed

text \<open>The entries of a batch: each reply with the header and the inline length of its position.\<close>

definition batch_entries :: "server_cfg \<Rightarrow> ptr list \<Rightarrow> (ptr \<times> ptr \<times> u64) list" where
  "batch_entries cfg ms = map (\<lambda>(i, m). (m, inline_args cfg i)) (enumerate 0 ms)"



section \<open>Cutting a burst into batches\<close>

text \<open>Releasing a packet returns it to its pool and leaves the bytes and the mbuf structures alone.\<close>

definition same_packets :: "net \<Rightarrow> net \<Rightarrow> bool" where
  "same_packets s s' \<longleftrightarrow> n_mem s' = n_mem s \<and> n_mbufs s' = n_mbufs s"

lemma same_packets_refl [simp]: "same_packets s s"
  by (simp add: same_packets_def)

lemma same_packets_trans: "same_packets s s' \<Longrightarrow> same_packets s' s'' \<Longrightarrow> same_packets s s''"
  by (simp add: same_packets_def)

lemma server_change_refcnt_packets: "server_change_refcnt i d s = Inr (c, s') \<Longrightarrow> same_packets s s'"
  by (auto simp: server_change_refcnt_def Let_def same_packets_def split: if_splits elim!: bindE_InrE)

lemma tx_completion_packets: "tx_completion n m s = Inr s' \<Longrightarrow> same_packets s s'"
proof (induction n arbitrary: m s)
  case (Suc n)
  show ?case
  proof (cases "m = NULL")
    case False
    with Suc.prems obtain p q where
      "tx_completion n (m_next (n_mbufs s m)) (s\<lparr>tx_buf_mempool := p, mbuf_mempool := q\<rparr>) = Inr s'"
      by (auto simp: Let_def elim!: bindE_InrE)
    from Suc.IH [OF this] show ?thesis by (simp add: same_packets_def)
  qed (use Suc.prems in simp)
qed (simp split: if_splits)

lemma zero_copy_tx_completion_packets: "zero_copy_tx_completion n m s = Inr s' \<Longrightarrow> same_packets s s'"
proof (induction n arbitrary: m s)
  case (Suc n)
  show ?case
  proof (cases "m = NULL")
    case False
    with Suc.prems obtain s1 p where s1: "(if using_ref_counting s = 1
        then bindE (server_change_refcnt (m_release_data (n_mbufs s m)) (- 1) s) (\<lambda>(refcnt, s). Inr s) else Inr s) = Inr s1"
      "zero_copy_tx_completion n (m_next (n_mbufs s m)) (s1\<lparr>mbuf_mempool := p\<rparr>) = Inr s'"
      by (auto simp: Let_def elim!: bindE_InrE)
    from s1(1) have "same_packets s s1"
      by (auto split: if_splits elim!: bindE_InrE intro: server_change_refcnt_packets)
    with Suc.IH [OF s1(2)] show ?thesis by (simp add: same_packets_def)
  qed (use Suc.prems in simp)
qed (simp split: if_splits)

lemma free_mbuf_packets: "free_mbuf m s = Inr s' \<Longrightarrow> same_packets s s'"
  using tx_completion_packets zero_copy_tx_completion_packets
  by (cases "m_release (n_mbufs s m)") (auto simp: free_mbuf_def mbuf_free_def net_release_def
      rx_completion_def same_packets_def elim!: bindE_InrE)

text \<open>The packets of a burst the server accepts.\<close>

definition accepted :: "server_cfg \<Rightarrow> net \<Rightarrow> ptr \<Rightarrow> bool" where
  "accepted cfg s pkt \<longleftrightarrow> check_valid_packet (n_mem s) (n_mbufs s pkt) (server_mac cfg) \<noteq> None"

lemma accepted_cong: "same_packets s s' \<Longrightarrow> accepted cfg s' = accepted cfg s"
  by (rule ext) (simp add: accepted_def same_packets_def)

lemma burst_Nil [simp]: "server_burst A dev fuel cfg [] batch = Inr" "foldE free_mbuf [] = Inr" "bindE r Inr = r"
  by (rule ext, simp)+ (cases r, simp_all)

lemma server_burst_eq:
  assumes "length batch + length pkts \<le> BATCH_SIZE" "pkts \<noteq> []"
  shows "server_burst A dev fuel cfg pkts batch s =
    bindE (foldE free_mbuf (filter (\<lambda>p. \<not> accepted cfg s p) pkts) s) (\<lambda>s'.
      if accepted cfg s (last pkts) then finish_batch A dev fuel cfg (batch @ filter (accepted cfg s) pkts) s'
      else Inr s')"
  using assms
proof (induction pkts arbitrary: batch s)
  case (Cons p pkts)
  have ih: "server_burst A dev fuel cfg pkts b s' =
      bindE (foldE free_mbuf (filter (\<lambda>p. \<not> accepted cfg s p) pkts) s') (\<lambda>s'.
        if accepted cfg s (last pkts) then finish_batch A dev fuel cfg (b @ filter (accepted cfg s) pkts) s' else Inr s')"
    if "same_packets s s'" "length b + length pkts \<le> BATCH_SIZE" "pkts \<noteq> []" for b s'
    using Cons.IH [OF that(2,3), of s'] unfolding accepted_cong [OF that(1)] .
  show ?case
  proof (cases "accepted cfg s p")
    case True
    then have ok: "check_valid_packet (n_mem s) (n_mbufs s p) (server_mac cfg) \<noteq> None" by (simp add: accepted_def)
    show ?thesis
    proof (cases "pkts = []")
      case True
      then show ?thesis using ok \<open>accepted cfg s p\<close> by (simp only: server_burst.simps) simp
    next
      case False
      then have "Suc (length batch) \<noteq> BATCH_SIZE" using Cons.prems(1) by (cases pkts) simp_all
      moreover have "(batch @ [p]) @ filter (accepted cfg s) pkts = batch @ filter (accepted cfg s) (p # pkts)"
        using \<open>accepted cfg s p\<close> by simp
      ultimately show ?thesis using ih [of s "batch @ [p]"] Cons.prems(1) False \<open>accepted cfg s p\<close>
        by (simp only: server_burst.simps if_not_P [OF ok]) simp
    qed
  next
    case False
    then have bad: "check_valid_packet (n_mem s) (n_mbufs s p) (server_mac cfg) = None" unfolding accepted_def by blast
    show ?thesis
    proof (cases "free_mbuf p s")
      case (Inr s')
      show ?thesis
      proof (cases "pkts = []")
        case False
        have "filter (accepted cfg s) (p # pkts) = filter (accepted cfg s) pkts" using \<open>\<not> accepted cfg s p\<close> by simp
        then show ?thesis using \<open>\<not> accepted cfg s p\<close> Inr False ih [OF free_mbuf_packets [OF Inr], of batch] Cons.prems(1)
          by (simp only: server_burst.simps if_P [OF bad]) simp
      qed (use bad \<open>\<not> accepted cfg s p\<close> Inr in simp)
    qed (use bad \<open>\<not> accepted cfg s p\<close> in simp)
  qed
qed simp

text \<open>
  C7. A burst of at most 32 packets is served as one batch of its acceptable packets, in order, after
  the others have been freed; but only when its last packet is acceptable. When the last one is not, the
  acceptable packets before it are neither answered nor freed: the batch is lost.
\<close>

theorem burst_is_one_batch:
  assumes "pkts \<noteq> []" "length pkts \<le> BURST_SIZE"
  shows "server_burst A dev fuel cfg pkts [] s =
    bindE (foldE free_mbuf (filter (\<lambda>p. \<not> accepted cfg s p) pkts) s) (\<lambda>s'.
      if accepted cfg s (last pkts) then finish_batch A dev fuel cfg (filter (accepted cfg s) pkts) s' else Inr s')"
  using server_burst_eq [of "[]" pkts] assms unfolding append_Nil by simp

lemma burst_is_one_batch_witness:
  "server_burst mlx5_abi (\<lambda>_ s. s) 1 example_cfg [512] [] example_server = free_mbuf 512 example_server"
proof -
  have "\<not> accepted example_cfg example_server 512"
    by (simp add: accepted_def check_valid_packet_def Let_def example_server_def example_net_def example_packet_def
        ld16_def field_access mbuf_data_def)
  then show ?thesis
    using burst_is_one_batch [of "[512]" mlx5_abi "\<lambda>_ s. s" 1 example_cfg example_server] by simp
qed

section \<open>A batch that fails\<close>

text \<open>
  C8. Outside echo mode, a batch that fails to be answered is freed twice: the first
  time its packets are freed and its entries set to NULL, the second time the first entry is
  dereferenced, so that the server does not survive running out of buffers.
\<close>

theorem failed_batch_crashes:
  assumes "process_server_requests A dev fuel cfg batch s = Inr (ret, s1)" "ret \<noteq> 0" "echo_mode cfg = 0" "batch \<noteq> []"
    and "foldE free_mbuf batch s1 = Inr s2"
  shows "finish_batch A dev fuel cfg batch s = Inl NullDeref"
proof -
  have "free_batch batch s1 = Inr (map (\<lambda>_. NULL) batch, s2)" using assms(5) by (simp add: free_batch_def)
  moreover have "free_batch (map (\<lambda>_. NULL) batch) s2 = Inl NullDeref"
    using assms(4) by (cases batch) (simp_all add: free_batch_def free_mbuf_def)
  ultimately show ?thesis using assms(1-3) by (simp add: finish_batch_def)
qed

lemma failed_batch_crashes_witness:
  "finish_batch mlx5_abi (\<lambda>_ s. s) 1 (example_cfg\<lparr>zero_copy := 0, num_segments := 0\<rparr>) [512]
     (example_server\<lparr>tx_buf_mempool := zero_mempool, rx_buf_mempool := zero_mempool\<lparr>mp_free_items := [0, 0], allocated := 2, capacity := 2\<rparr>,
        n_mbufs := \<lambda>_. example_packet\<lparr>m_release := RxCompletion\<rparr>\<rparr>) = Inl NullDeref"
proof -
  let ?cfg = "example_cfg\<lparr>zero_copy := 0, num_segments := 0\<rparr>"
  let ?s = "example_server\<lparr>tx_buf_mempool := zero_mempool, rx_buf_mempool := zero_mempool\<lparr>mp_free_items := [0, 0], allocated := 2, capacity := 2\<rparr>,
        n_mbufs := \<lambda>_. example_packet\<lparr>m_release := RxCompletion\<rparr>\<rparr>"
  have p: "\<exists>s1 s2. process_server_requests mlx5_abi (\<lambda>_ s. s) 1 ?cfg [512] ?s = Inr (ENOMEM, s1)
      \<and> foldE free_mbuf [512] s1 = Inr s2"
    by (simp add: process_server_requests_def process_request_def read_segments_def Let_def example_cfg_def example_server_def
        copy_reply_def mempool_alloc_def zero_mempool_def free_mbuf_def mbuf_free_def net_release_def rx_completion_def
        mempool_free_def example_net_def example_packet_def upd_mbuf_def)
  then obtain s1 s2 where s: "process_server_requests mlx5_abi (\<lambda>_ s. s) 1 ?cfg [512] ?s = Inr (ENOMEM, s1)"
    "foldE free_mbuf [512] s1 = Inr s2" by blast
  from failed_batch_crashes [OF s(1) _ _ _ s(2)] show ?thesis by (simp add: example_cfg_def)
qed

end
