(* ===== verification/Boot.thy ===== *)
theory Boot
  imports Args Client Numeral Posting
begin

text \<open>
  From \<open>main\<close> to the loops: finding the card (the rest of mlx5_init.c), \<open>init_mlx5\<close>, \<open>init_workload\<close>, \<open>cleanup_mlx5\<close> and
  \<open>main\<close> of main.c. What the kernel and the verbs library answer is the parameter \<open>env\<close>.
\<close>

section \<open>The card\<close>

text \<open>
  The file \<open>uevent\<close> of a device, read in lines of at most 31 characters; the rest of a longer line is read over, its
  last character replacing the 31st.
\<close>

primrec skip_line :: "char \<Rightarrow> string \<Rightarrow> char \<times> string" where
  "skip_line c [] = (c, [])"
| "skip_line c (x # s) = (if c \<noteq> newline then skip_line x s else (c, x # s))"

definition read_line :: "string \<Rightarrow> string \<times> string" where
  "read_line s = (case file_gets 31 s of (l, s) \<Rightarrow>
     if length l = 31 then (case skip_line (last l) s of (c, s) \<Rightarrow> (butlast l @ [c], s)) else (l, s))"

definition scan_slot :: "string \<Rightarrow> u64 list" where
  "scan_slot l = (if take 14 l = ''PCI_SLOT_NAME='' then scan_fields pci_format (drop 14 l) else [])"

lemma length_skip_line: "length (snd (skip_line c s)) \<le> length s"
  by (induction s arbitrary: c) (simp_all add: le_Suc_eq)

lemma length_read_line:
  assumes "s \<noteq> []"
  shows "length (snd (read_line s)) < length s"
proof -
  obtain l r where g: "file_gets 31 s = (l, r)" by (cases "file_gets 31 s")
  then have r: "length r < length s" using assms by (auto simp: file_gets_def Let_def)
  show ?thesis
  proof (cases "length l = 31")
    case True
    then show ?thesis using g length_skip_line [of "last l" r] r by (simp add: read_line_def split: prod.split) (metis le_less_trans snd_conv)
  qed (use g r in \<open>simp add: read_line_def\<close>)
qed

function uevent_lines :: "string \<Rightarrow> pci_addr \<Rightarrow> pci_addr" where
  "uevent_lines s a =
     (if s = [] then a
      else
        let (l, rest) = read_line s; vs = scan_slot l; a = store_pci vs a in
        if length vs = 4 then a else uevent_lines rest a)"
  by pat_completeness auto
termination
proof (relation "measure (\<lambda>(s, a). length s)")
  fix s :: string and a a' :: pci_addr and p l rest vs
  assume "s \<noteq> []" "p = read_line s" "(l, rest) = p"
  then have "length rest < length s" using length_read_line [of s] by (metis snd_conv)
  then show "((rest, a'), s, a) \<in> measure (\<lambda>(s, a). length s)" by simp
qed simp

declare uevent_lines.simps [simp del]

text \<open>A device as the library lists it: its name, and its file or the error number of opening it.\<close>

record ib_device =
  dev_name :: string
  dev_uevent :: "int + string"

definition ibv_device_to_pci_addr :: "ib_device \<Rightarrow> pci_addr \<Rightarrow> int \<times> pci_addr" where
  "ibv_device_to_pci_addr d a = (case dev_uevent d of Inl err \<Rightarrow> (- err, a) | Inr file \<Rightarrow> (0, uevent_lines file a))"

text \<open>
  The search; the address of a device keeps what the previous one left in it, and the comparison of the structures includes
  \<open>pad\<close>, their last byte, which is zero in the static one. The result is the device.
\<close>

primrec find_device :: "u8 \<Rightarrow> pci_addr \<Rightarrow> ib_device list \<Rightarrow> pci_addr \<Rightarrow> ib_device option" where
  "find_device pad nic [] a = None"
| "find_device pad nic (d # ds) a =
     (if take 4 (dev_name d) \<noteq> ''mlx5'' then find_device pad nic ds a
      else (case ibv_device_to_pci_addr d a of (ret, a) \<Rightarrow>
        if ret \<noteq> 0 then find_device pad nic ds a
        else if a = nic \<and> pad = 0 then Some d else find_device pad nic ds a))"

definition init_ibv_context ::
  "ib_device list option \<Rightarrow> u8 \<Rightarrow> pci_addr \<Rightarrow> (ib_device \<Rightarrow> bool) \<Rightarrow> bool \<Rightarrow> pci_addr \<Rightarrow> int" where
  "init_ibv_context dev_list pad stack opens pd_ok nic =
     (case dev_list of None \<Rightarrow> - 1
      | Some ds \<Rightarrow>
        (case find_device pad nic ds stack of None \<Rightarrow> - 1
         | Some d \<Rightarrow> if \<not> opens d then - 1 else if \<not> pd_ok then - 1 else 0))"



section \<open>Setting up the card\<close>

text \<open>
  What the outside world answers: the kernel, the allocations of the pools, the devices, the registrations of memory (the transmit side is 0, the receive
  side 1), and the queues. \<open>flow\<close> is the result of installing the steering rule for an address.
\<close>

record 'k env =
  e_kernel :: "'k kernel"
  e_huge :: huge
  e_calloc :: "nat \<Rightarrow> bool"
  e_malloc :: "nat \<Rightarrow> bool"
  e_context :: "pci_addr \<Rightarrow> int"
  e_reg :: "nat \<Rightarrow> ptr \<Rightarrow> u64 \<Rightarrow> u32 option"
  e_errno :: int
  e_rx :: rx_verbs
  e_tx :: tx_verbs
  e_flow :: "u8 list \<Rightarrow> int"
  e_abi :: abi

record 'k boot =
  b_net :: net
  b_kern :: 'k
  b_working_set :: ptr
  b_tx_mr :: "u32 option"
  b_rx_mr :: "u32 option"

text \<open>\<open>RETURN_ON_ERR\<close>: a result other than zero is returned.\<close>

definition on_ok :: "(int \<times> 's) res \<Rightarrow> ('s \<Rightarrow> (int \<times> 's) res) \<Rightarrow> (int \<times> 's) res" where
  "on_ok r f = bindE r (\<lambda>(ret, s). if ret \<noteq> 0 then Inr (ret, s) else f s)"

abbreviation (input) CONTROL_MBUFS_SIZE :: u64 where "CONTROL_MBUFS_SIZE \<equiv> 128"
abbreviation (input) CONTROL_MBUFS_PER_PAGE :: u64 where "CONTROL_MBUFS_PER_PAGE \<equiv> 4096"
abbreviation (input) REQ_MBUFS_PER_PAGE :: u64 where "REQ_MBUFS_PER_PAGE \<equiv> 256"
abbreviation (input) REQ_MBUFS_PAGES :: u64 where "REQ_MBUFS_PAGES \<equiv> 100"
abbreviation (input) DATA_MBUFS_PER_PAGE :: u64 where "DATA_MBUFS_PER_PAGE \<equiv> 256"
abbreviation (input) DATA_MBUFS_PAGES :: u64 where "DATA_MBUFS_PAGES \<equiv> 40"

definition boot_pool ::
  "'k env \<Rightarrow> nat \<Rightarrow> (net \<Rightarrow> mempool) \<Rightarrow> (mempool \<Rightarrow> net \<Rightarrow> net) \<Rightarrow> u64 \<Rightarrow> u64 \<Rightarrow> u64 \<Rightarrow> 'k boot \<Rightarrow> (int \<times> 'k boot) res" where
  "boot_pool E i get put sz per_page pages b =
     bindE (mempool_memory_init (e_kernel E) (e_huge E) (e_calloc E i) (get (b_net b)) sz per_page pages (n_mem (b_net b), b_kern b))
       (\<lambda>(ret, mp, m, k). Inr (ret, b\<lparr>b_net := put mp ((b_net b)\<lparr>n_mem := m\<rparr>), b_kern := k\<rparr>))"

definition boot_mbuf_pool :: "'k env \<Rightarrow> 'k boot \<Rightarrow> (int \<times> 'k boot) res" where
  "boot_mbuf_pool E = boot_pool E 0 mbuf_mempool (\<lambda>mp. mbuf_mempool_update (\<lambda>_. mp)) CONTROL_MBUFS_SIZE CONTROL_MBUFS_PER_PAGE REQ_MBUFS_PAGES"

definition boot_tx_pool :: "'k env \<Rightarrow> u64 \<Rightarrow> u64 \<Rightarrow> u64 \<Rightarrow> 'k boot \<Rightarrow> (int \<times> 'k boot) res" where
  "boot_tx_pool E = boot_pool E 1 tx_buf_mempool (\<lambda>mp. tx_buf_mempool_update (\<lambda>_. mp))"

definition boot_rx_pool :: "'k env \<Rightarrow> u64 \<Rightarrow> u64 \<Rightarrow> u64 \<Rightarrow> 'k boot \<Rightarrow> (int \<times> 'k boot) res" where
  "boot_rx_pool E = boot_pool E 2 rx_buf_mempool (\<lambda>mp. rx_buf_mempool_update (\<lambda>_. mp))"

definition boot_reg_tx :: "'k env \<Rightarrow> ptr \<Rightarrow> u64 \<Rightarrow> 'k boot \<Rightarrow> (int \<times> 'k boot) res" where
  "boot_reg_tx E start n b = (case memory_registration (e_reg E 0 start n) (e_errno E) of (ret, mr) \<Rightarrow> Inr (ret, b\<lparr>b_tx_mr := mr\<rparr>))"

definition boot_reg_rx :: "'k env \<Rightarrow> 'k boot \<Rightarrow> (int \<times> 'k boot) res" where
  "boot_reg_rx E b = (case memory_registration (e_reg E 1 (buf (rx_buf_mempool (b_net b))) (len (rx_buf_mempool (b_net b)))) (e_errno E) of
     (ret, mr) \<Rightarrow> Inr (ret, b\<lparr>b_rx_mr := mr\<rparr>))"

definition boot_reg_tx_pool :: "'k env \<Rightarrow> 'k boot \<Rightarrow> (int \<times> 'k boot) res" where
  "boot_reg_tx_pool E b = boot_reg_tx E (buf (tx_buf_mempool (b_net b))) (len (tx_buf_mempool (b_net b))) b"

definition boot_client_memory :: "'k env \<Rightarrow> 'k boot \<Rightarrow> (int \<times> 'k boot) res" where
  "boot_client_memory E b =
     on_ok (boot_tx_pool E (ucast REQ_MBUFS_SIZE) REQ_MBUFS_PER_PAGE REQ_MBUFS_PAGES b) (\<lambda>b.
     on_ok (boot_reg_tx_pool E b) (\<lambda>b.
     on_ok (boot_rx_pool E (ucast DATA_MBUFS_SIZE) DATA_MBUFS_PER_PAGE DATA_MBUFS_PAGES b) (boot_reg_rx E)))"

definition boot_working_set :: "'k env \<Rightarrow> settings \<Rightarrow> 'k boot \<Rightarrow> (int \<times> 'k boot) res" where
  "boot_working_set E s b =
     bindE (server_memory_init (e_kernel E) (e_huge E) (s_working_set_size s) (n_mem (b_net b), b_kern b)) (\<lambda>(ret, ws, m, k).
     Inr (ret, b\<lparr>b_net := (b_net b)\<lparr>n_mem := m\<rparr>, b_kern := k,
       b_working_set := (case ws of None \<Rightarrow> b_working_set b | Some a \<Rightarrow> a)\<rparr>))"

definition boot_refcnts :: "'k env \<Rightarrow> settings \<Rightarrow> 'k boot \<Rightarrow> (int \<times> 'k boot) res" where
  "boot_refcnts E s b =
     (if s_using_ref_counting s = 0 then Inr (0, b)
      else bindE (guardE DivByZero (s_segment_size s \<noteq> 0)) (\<lambda>_.
        bindE (server_init_refcnt_array (e_malloc E) (s_num_refcnt_arrays s) (s_working_set_size s div s_segment_size s)) (\<lambda>(ret, refs).
        Inr (ret, b\<lparr>b_net := (b_net b)\<lparr>working_set_refcnts := refs\<rparr>\<rparr>))))"

definition boot_server_memory :: "'k env \<Rightarrow> settings \<Rightarrow> 'k boot \<Rightarrow> (int \<times> 'k boot) res" where
  "boot_server_memory E s b =
     on_ok (boot_working_set E s b) (\<lambda>b.
     on_ok (boot_refcnts E s b) (\<lambda>b.
     on_ok (boot_rx_pool E (ucast REQ_MBUFS_SIZE) REQ_MBUFS_PER_PAGE REQ_MBUFS_PAGES b) (\<lambda>b.
     on_ok (boot_reg_rx E b) (\<lambda>b.
     if s_zero_copy s = 0 then
       on_ok (boot_tx_pool E (ucast DATA_MBUFS_SIZE) DATA_MBUFS_PER_PAGE DATA_MBUFS_PAGES b) (boot_reg_tx_pool E)
     else boot_reg_tx E (b_working_set b) (s_working_set_size s) b))))"

definition tx_expectations :: "settings \<Rightarrow> u64 \<times> u64" where
  "tx_expectations s =
     (let inline_length = 14 + 20 + 8 + 8 * 2; segs = s_num_segments s;
          inline_length = (if s_echo_mode s = 1 then 0 else inline_length)
      in if s_zero_copy s \<noteq> 1 then (1, 0) else (segs, inline_length))"

definition boot_rxq :: "'k env \<Rightarrow> 'k boot \<Rightarrow> (int \<times> 'k boot) res" where
  "boot_rxq E b = (case b_rx_mr b of None \<Rightarrow> Inl NullDeref | Some lkey \<Rightarrow>
     bindE (mlx5_init_rxq (e_abi E) (e_rx E) lkey (b_net b)) (\<lambda>(ret, s). Inr (ret, b\<lparr>b_net := s\<rparr>)))"

definition boot_flows :: "'k env \<Rightarrow> settings \<Rightarrow> 'k boot \<Rightarrow> (int \<times> 'k boot) res" where
  "boot_flows E s b = Inr (e_flow E (if s_mode s = UDP_CLIENT then s_client_mac s else s_server_mac s), b)"

definition boot_txq :: "'k env \<Rightarrow> settings \<Rightarrow> 'k boot \<Rightarrow> (int \<times> 'k boot) res" where
  "boot_txq E s b = (case tx_expectations s of (segs, inline_length) \<Rightarrow>
     bindE (mlx5_init_txq (e_tx E) segs inline_length (b_net b)) (\<lambda>(ret, n). Inr (ret, b\<lparr>b_net := n\<rparr>)))"

definition init_mlx5 :: "'k env \<Rightarrow> settings \<Rightarrow> 'k boot \<Rightarrow> (int \<times> 'k boot) res" where
  "init_mlx5 E s b =
     on_ok (Inr (e_context E (s_pci s), b)) (\<lambda>b.
     on_ok (boot_mbuf_pool E b) (\<lambda>b.
     on_ok (if s_mode s = UDP_CLIENT then boot_client_memory E b else boot_server_memory E s b) (\<lambda>b.
     on_ok (boot_rxq E b) (\<lambda>b.
     on_ok (boot_flows E s b) (boot_txq E s)))))"

section \<open>The workload\<close>

text \<open>The addresses of the static variables the functions take pointers to, of the table of requests, and of two local variables.\<close>

record statics =
  a_header :: ptr
  a_client_mac :: ptr
  a_server_mac :: ptr
  a_request_headers :: ptr
  a_requests :: ptr
  a_request_header :: ptr
  a_tmp_ether :: ptr

text \<open>Random numbers, \<open>float\<close> products, the clock and the device, as in Requests and Client.\<close>

record world =
  w_rnd :: "nat \<Rightarrow> u64"
  w_cycles :: "u64 \<Rightarrow> u64"
  w_padded :: "u64 \<Rightarrow> u64 \<Rightarrow> u64"
  w_raw :: ClientRequest
  w_calibrate :: "u64 \<Rightarrow> u64 res"
  w_dev :: "nat \<Rightarrow> net \<Rightarrow> net"
  w_clk :: tsc
  w_start_tsc :: u64
  w_to_ns :: "u64 \<Rightarrow> u64"
  w_to_cycles :: "u64 \<Rightarrow> u64"
  w_sec_to_ns :: "u64 \<Rightarrow> u64"
  w_fopen :: bool

definition request_bytes :: "ClientRequest \<Rightarrow> u8 list" where
  "request_bytes r = le64 (timestamp_offset r) @ le32 (cr_packet_id r) @ le32 (cr_id_padding r) @ concat (map le64 (segment_offsets r))"

definition init_workload ::
  "'k env \<Rightarrow> world \<Rightarrow> statics \<Rightarrow> settings \<Rightarrow> 'k boot \<Rightarrow> (int \<times> nat \<times> 'k boot) res" where
  "init_workload E W A s b =
     (let n = b_net b in
      if s_mode s = UDP_CLIENT then
        let m = initialize_outgoing_header (n_mem n) (a_header A) (a_client_mac A) (a_server_mac A) (s_client_ip s) (s_server_ip s)
              (ucast (s_client_port s)) (ucast (s_server_port s)) (8 * (1 + s_num_segments s)) in
        bindE (initialize_client_requests (e_malloc E) (w_rnd W) (w_cycles W) (w_padded W) (w_raw W)
            \<lparr>rate_pps = s_rate_pps s, total_time = s_total_time s\<rparr> (s_segment_size s) (s_num_segments s) (s_working_set_size s)) (\<lambda>(ret, reqs).
        Inr (ret, length reqs, b\<lparr>b_net := n\<lparr>n_mem := store_bytes m (a_requests A) (concat (map request_bytes reqs))\<rparr>\<rparr>))
      else
        bindE (initialize_server_memory (b_working_set b) (s_segment_size s) (s_working_set_size s) (n_mem n)) (\<lambda>(ret, m).
        Inr (ret, 0, b\<lparr>b_net := n\<lparr>n_mem := m\<rparr>\<rparr>)))"

definition server_cfg_of :: "statics \<Rightarrow> settings \<Rightarrow> 'k boot \<Rightarrow> server_cfg" where
  "server_cfg_of A s b = \<lparr>echo_mode = s_echo_mode s, zero_copy = s_zero_copy s, read_incoming_packet = s_read_incoming_packet s,
     num_segments = s_num_segments s, segment_size = s_segment_size s, server_working_set = b_working_set b,
     tx_lkey = the (b_tx_mr b), rx_lkey = the (b_rx_mr b), request_headers = a_request_headers A, server_mac = a_server_mac A,
     tmp_ether = a_tmp_ether A\<rparr>"

definition client_cfg_of :: "'k env \<Rightarrow> world \<Rightarrow> statics \<Rightarrow> settings \<Rightarrow> nat \<Rightarrow> 'k boot \<Rightarrow> client_cfg" where
  "client_cfg_of E W A s nreqs b = \<lparr>cl_reqs = a_requests A, cl_nreqs = nreqs, cl_nseg = s_num_segments s, cl_segsz = s_segment_size s,
     cl_header = a_header A, cl_request_header = a_request_header A, cl_mac = a_client_mac A, cl_lkey = the (b_tx_mr b),
     cl_total_time = s_total_time s, cl_abi = e_abi E, cl_dev = w_dev W, cl_clk = w_clk W, cl_start_tsc = w_start_tsc W,
     cl_to_ns = w_to_ns W, cl_to_cycles = w_to_cycles W, cl_sec_to_ns = w_sec_to_ns W\<rparr>"

section \<open>Cleaning up\<close>

text \<open>What \<open>cleanup_mlx5\<close> gives back, in order; it stops at the first call that fails.\<close>

datatype release_call = Munmap ptr u64 | Deregister "u32 option"

definition unmap_pool :: "mempool \<Rightarrow> release_call" where
  "unmap_pool p = Munmap (buf p) (len p)"

definition cleanup_calls :: "settings \<Rightarrow> 'k boot \<Rightarrow> release_call list" where
  "cleanup_calls s b = (let n = b_net b in unmap_pool (mbuf_mempool n) #
     (if s_mode s = UDP_CLIENT then
        [Deregister (b_tx_mr b), unmap_pool (tx_buf_mempool n), Deregister (b_rx_mr b), unmap_pool (rx_buf_mempool n)]
      else [Deregister (b_rx_mr b), unmap_pool (rx_buf_mempool n), Deregister (b_tx_mr b)]
        @ (if s_zero_copy s = 0 then [unmap_pool (tx_buf_mempool n)] else [])
        @ [Munmap (b_working_set b) (align_up (s_working_set_size s) PGSIZE_2MB)]))"

primrec run_cleanup :: "(release_call \<Rightarrow> int) \<Rightarrow> release_call list \<Rightarrow> int" where
  "run_cleanup f [] = 0"
| "run_cleanup f (c # cs) = (if f c \<noteq> 0 then f c else run_cleanup f cs)"

definition cleanup_mlx5 :: "(release_call \<Rightarrow> int) \<Rightarrow> settings \<Rightarrow> 'k boot \<Rightarrow> int" where
  "cleanup_mlx5 f s b = run_cleanup f (cleanup_calls s b)"

text \<open>The handler of the interrupt ends the process whatever the clean-up returns.\<close>

definition sig_handler :: "(release_call \<Rightarrow> int) \<Rightarrow> settings \<Rightarrow> 'k boot \<Rightarrow> unit res" where
  "sig_handler f s b = (let ret = cleanup_mlx5 f s b in Inl (Exit 0))"

section \<open>The program\<close>

text \<open>The static variables before anything ran, with what \<open>parse_args\<close> left in the configuration.\<close>

definition load_settings :: "statics \<Rightarrow> settings \<Rightarrow> net \<Rightarrow> net" where
  "load_settings A s n = n\<lparr>n_mem := store_bytes (store_bytes (n_mem n) (a_client_mac A) (s_client_mac s)) (a_server_mac A) (s_server_mac s),
     num_total_segments := s_num_total_segments s, using_ref_counting := s_using_ref_counting s\<rparr>"

definition empty_latencies :: latency_dist where
  "empty_latencies = \<lparr>ld_min = 2 ^ 63 - 1, ld_max = 0, ld_sum = 0, ld_count = 0, ld_latencies = [], ld_allocated = 0\<rparr>"

text \<open>The server's loop has no end: what it does in the first \<open>rounds\<close> rounds is \<open>do_server\<close>, and the call does not return.\<close>

definition run_mode ::
  "'k env \<Rightarrow> world \<Rightarrow> statics \<Rightarrow> nat \<Rightarrow> packet_map \<Rightarrow> settings \<Rightarrow> nat \<Rightarrow> 'k boot \<Rightarrow> (int \<times> 'k boot) res" where
  "run_mode E W A fuel pm s nreqs b =
     (if s_mode s = UDP_CLIENT then
        bindE (do_client (client_cfg_of E W A s nreqs b) fuel (e_malloc E) (w_fopen W) (if s_latency_log s = None then 0 else 1)
          empty_latencies pm (b_net b)) (\<lambda>(ret, k). Inr (ret, b\<lparr>b_net := k_net k\<rparr>))
      else
        bindE (guardE (Exit 1) (s_ready_file s = None \<or> w_fopen W)) (\<lambda>_.
        bindE (do_server (e_abi E) (w_dev W) fuel (server_cfg_of A s b) fuel (b_net b)) (\<lambda>_. Inl NoFuel)))"

definition netperf_main ::
  "'k env \<Rightarrow> world \<Rightarrow> statics \<Rightarrow> nat \<Rightarrow> packet_map \<Rightarrow> (char \<times> string option) list \<Rightarrow> int \<Rightarrow> 'k boot \<Rightarrow> (int \<times> 'k boot) res" where
  "netperf_main E W A fuel pm opts err b =
     bindE (parse_args (w_calibrate W) opts (default_settings, err)) (\<lambda>(ret, s, err).
     if ret \<noteq> 0 then Inr (ret, b)
     else on_ok (init_mlx5 E s (b\<lparr>b_net := load_settings A s (b_net b)\<rparr>)) (\<lambda>b.
       bindE (init_workload E W A s b) (\<lambda>(ret, nreqs, b).
       if ret \<noteq> 0 then Inr (ret, b) else run_mode E W A fuel pm s nreqs b)))"

section \<open>The state the loops start in\<close>

text \<open>What \<open>mmap\<close> promises of a mapping of whole pages it made.\<close>

definition maps_sanely :: "'k kernel \<Rightarrow> huge \<Rightarrow> bool" where
  "maps_sanely K h \<longleftrightarrow> (\<forall>n k a k'. n mod PGSIZE_2MB = 0 \<and> mem_map_anom K h NULL n PGSIZE_2MB 0 k = Inr (a, k') \<longrightarrow>
     a = MAP_FAILED \<or> (a \<noteq> NULL \<and> unat a + unat n \<le> 2 ^ 64))"

definition fresh_pool :: "nat \<Rightarrow> mempool \<Rightarrow> bool" where
  "fresh_pool n p \<longleftrightarrow> pool_inv p \<and> length (pool_free_stack p) = n \<and> distinct (pool_free_stack p) \<and> NULL \<notin> set (pool_free_stack p)"

lemma on_ok_0:
  assumes "on_ok r f = Inr (0, s')"
  obtains s where "r = Inr (0, s)" "f s = Inr (0, s')"
  using assms by (auto simp: on_ok_def elim!: bindE_InrE split: if_splits)

lemma created_calloc: "mempool_create c mp b n page sz = Inr (0, mp') \<Longrightarrow> c"
  by (cases c) (auto simp: mempool_create_def mempool_populate_def elim!: bindE_InrE split: if_splits)

lemma memory_init_fresh:
  assumes "mempool_memory_init K h c mp sz per np (m, k) = Inr (0, mp', m', k')" "maps_sanely K h" "capacity mp = 0"
    and "sz \<noteq> 0" "sz * per * np \<noteq> 0" "(sz * per * np) mod PGSIZE_2MB = 0" "unat (sz * per * np) \<le> 2 ^ 40"
  shows "fresh_pool (unat (sz * per * np div PGSIZE_2MB) * unat (PGSIZE_2MB div sz)) mp'"
proof -
  from assms(1) obtain b k1 m1 where map: "mem_map_anom K h NULL (sz * per * np) PGSIZE_2MB 0 k = Inr (b, k1)" "b \<noteq> NULL"
    "fill_region b (sz * per * np) m = Inr m1" and c: "mempool_create c mp b (sz * per * np) PGSIZE_2MB sz = Inr (0, mp')"
    by (auto simp: mempool_memory_init_def Let_def elim!: bindE_InrE split: if_splits)
  from map(3) assms(5) have "b \<noteq> MAP_FAILED" by (auto simp: fill_region_def elim!: bindE_InrE)
  moreover from this map(1) assms(2,6) have "unat b + unat (sz * per * np) \<le> 2 ^ 64" unfolding maps_sanely_def by metis
  ultimately obtain q where q: "mempool_memory_init K h True mp sz per np (m, k) = Inr (0, q, memset m b DEFAULT_CHAR (unat (sz * per * np)), k1)"
    "well_laid_out q" "pool_inv q" "allocated q = 0" "buf q = b" "len q = sz * per * np" "pgsize q = PGSIZE_2MB" "item_len q = sz"
    using memory_init_creates [OF map(1,2) _ assms(4,6,3) _ assms(7)] by blast
  have "c = True" using created_calloc [OF c] by simp
  then have "mp' = q" using assms(1) q(1) by simp
  have "0 < unat b" using map(2) by (simp add: unat_gt_0)
  then show ?thesis using q(2-8) unfolding \<open>mp' = q\<close>
    by (fastforce simp: fresh_pool_def pool_free_stack_def well_laid_out_def Let_def)
qed

lemma boot_pool_fresh:
  assumes "boot_pool E i get put sz per np b = Inr (0, b')" "maps_sanely (e_kernel E) (e_huge E)" "capacity (get (b_net b)) = 0"
    and "sz \<noteq> 0" "sz * per * np \<noteq> 0" "(sz * per * np) mod PGSIZE_2MB = 0" "unat (sz * per * np) \<le> 2 ^ 40"
  shows "\<exists>mp m. b_net b' = put mp ((b_net b)\<lparr>n_mem := m\<rparr>)
    \<and> fresh_pool (unat (sz * per * np div PGSIZE_2MB) * unat (PGSIZE_2MB div sz)) mp"
  using assms(1) memory_init_fresh [OF _ assms(2-7)]
  by (fastforce simp: boot_pool_def elim!: bindE_InrE split: prod.splits)

text \<open>What the set-up of the memory leaves alone: the rings, which are as they were before it.\<close>

definition same_queues :: "'k boot \<Rightarrow> 'k boot \<Rightarrow> bool" where
  "same_queues b b' \<longleftrightarrow> n_rxq (b_net b') = n_rxq (b_net b) \<and> n_txq (b_net b') = n_txq (b_net b)"

lemma boot_mbuf_pool_fresh:
  assumes "boot_mbuf_pool E b = Inr (0, b')" "maps_sanely (e_kernel E) (e_huge E)" "capacity (mbuf_mempool (b_net b)) = 0"
  shows "fresh_pool 409600 (mbuf_mempool (b_net b')) \<and> same_queues b b'
    \<and> rx_buf_mempool (b_net b') = rx_buf_mempool (b_net b) \<and> tx_buf_mempool (b_net b') = tx_buf_mempool (b_net b)"
  using boot_pool_fresh [OF assms(1) [unfolded boot_mbuf_pool_def] assms(2,3)] by (fastforce simp: same_queues_def)

lemma boot_tx_pool_fresh:
  assumes "boot_tx_pool E 16384 256 np b = Inr (0, b')" "maps_sanely (e_kernel E) (e_huge E)" "capacity (tx_buf_mempool (b_net b)) = 0"
    and "np = 100 \<or> np = 40"
  shows "fresh_pool (256 * unat np) (tx_buf_mempool (b_net b')) \<and> same_queues b b'
    \<and> rx_buf_mempool (b_net b') = rx_buf_mempool (b_net b) \<and> mbuf_mempool (b_net b') = mbuf_mempool (b_net b)"
  using boot_pool_fresh [OF assms(1) [unfolded boot_tx_pool_def] assms(2,3)] assms(4) by (fastforce simp: same_queues_def)

lemma boot_rx_pool_fresh:
  assumes "boot_rx_pool E 16384 256 np b = Inr (0, b')" "maps_sanely (e_kernel E) (e_huge E)" "capacity (rx_buf_mempool (b_net b)) = 0"
    and "np = 100 \<or> np = 40"
  shows "fresh_pool (256 * unat np) (rx_buf_mempool (b_net b')) \<and> same_queues b b'
    \<and> tx_buf_mempool (b_net b') = tx_buf_mempool (b_net b) \<and> mbuf_mempool (b_net b') = mbuf_mempool (b_net b)"
  using boot_pool_fresh [OF assms(1) [unfolded boot_rx_pool_def] assms(2,3)] assms(4) by (fastforce simp: same_queues_def)

lemma boot_small_steps:
  "boot_reg_tx E a n b = Inr (r, b') \<Longrightarrow> b_net b' = b_net b"
  "boot_reg_tx_pool E b = Inr (r, b') \<Longrightarrow> b_net b' = b_net b"
  "boot_reg_rx E b = Inr (r, b') \<Longrightarrow> b_net b' = b_net b"
  "boot_flows E s b = Inr (r, b') \<Longrightarrow> b_net b' = b_net b"
  by (auto simp: boot_reg_tx_def boot_reg_tx_pool_def boot_reg_rx_def boot_flows_def split: prod.splits)

lemma boot_server_steps:
  "boot_working_set E s b = Inr (r, b') \<Longrightarrow> \<exists>m. b_net b' = (b_net b)\<lparr>n_mem := m\<rparr>"
  "boot_refcnts E s b = Inr (r, b') \<Longrightarrow> \<exists>refs. b_net b' = (b_net b)\<lparr>working_set_refcnts := refs\<rparr>"
  by (fastforce simp: boot_working_set_def elim!: bindE_InrE split: prod.splits)
    (auto simp: boot_refcnts_def elim!: bindE_InrE split: if_splits prod.splits intro: exI [of _ "working_set_refcnts (b_net b)"])

text \<open>After the memory of either side: a fresh receive pool, and a fresh transmit pool where one is used.\<close>

definition memory_ready :: "settings \<Rightarrow> 'k boot \<Rightarrow> 'k boot \<Rightarrow> bool" where
  "memory_ready s b b' \<longleftrightarrow> same_queues b b' \<and> mbuf_mempool (b_net b') = mbuf_mempool (b_net b)
     \<and> (\<exists>n\<ge>10240. fresh_pool n (rx_buf_mempool (b_net b')))
     \<and> (s_mode s = UDP_CLIENT \<or> s_zero_copy s = 0 \<longrightarrow> (\<exists>n. fresh_pool n (tx_buf_mempool (b_net b'))))"

lemma boot_client_memory_ready:
  assumes "boot_client_memory E b = Inr (0, b')" "maps_sanely (e_kernel E) (e_huge E)"
    and "capacity (rx_buf_mempool (b_net b)) = 0" "capacity (tx_buf_mempool (b_net b)) = 0"
  shows "memory_ready s b b'"
proof -
  obtain b1 b2 b3 where st: "boot_tx_pool E 16384 256 100 b = Inr (0, b1)" "boot_reg_tx_pool E b1 = Inr (0, b2)"
    "boot_rx_pool E 16384 256 40 b2 = Inr (0, b3)" "boot_reg_rx E b3 = Inr (0, b')"
    using assms(1) unfolding boot_client_memory_def by (auto elim!: on_ok_0)
  note tx = boot_tx_pool_fresh [OF st(1) assms(2,4)]
  have "capacity (rx_buf_mempool (b_net b2)) = 0" using tx boot_small_steps(2) [OF st(2)] assms(3) by simp
  note rx = boot_rx_pool_fresh [OF st(3) assms(2) this]
  show ?thesis using tx rx boot_small_steps(2) [OF st(2)] boot_small_steps(3) [OF st(4)]
    by (auto simp: memory_ready_def same_queues_def)
qed

lemma boot_server_memory_ready:
  assumes "boot_server_memory E s b = Inr (0, b')" "maps_sanely (e_kernel E) (e_huge E)"
    and "capacity (rx_buf_mempool (b_net b)) = 0" "capacity (tx_buf_mempool (b_net b)) = 0"
  shows "memory_ready s b b' \<or> s_mode s = UDP_CLIENT"
proof -
  obtain b1 b2 b3 b4 where st: "boot_working_set E s b = Inr (0, b1)" "boot_refcnts E s b1 = Inr (0, b2)"
    "boot_rx_pool E 16384 256 100 b2 = Inr (0, b3)" "boot_reg_rx E b3 = Inr (0, b4)"
    and rest: "(if s_zero_copy s = 0 then on_ok (boot_tx_pool E (ucast DATA_MBUFS_SIZE) 256 40 b4) (boot_reg_tx_pool E)
      else boot_reg_tx E (b_working_set b4) (s_working_set_size s) b4) = Inr (0, b')"
    using assms(1) unfolding boot_server_memory_def by (auto elim!: on_ok_0)
  obtain m refs where b2: "b_net b2 = (b_net b)\<lparr>n_mem := m, working_set_refcnts := refs\<rparr>"
    using boot_server_steps(1) [OF st(1)] boot_server_steps(2) [OF st(2)] by auto
  have "capacity (rx_buf_mempool (b_net b2)) = 0" using assms(3) b2 by simp
  note rx = boot_rx_pool_fresh [OF st(3) assms(2) this, simplified]
  have b4: "b_net b4 = b_net b3" by (rule boot_small_steps(3) [OF st(4)])
  have large: "\<exists>n\<ge>10240. fresh_pool n (rx_buf_mempool (b_net b3))" using rx by (intro exI [of _ 25600]) simp
  show ?thesis
  proof (cases "s_zero_copy s = 0")
    case True
    then obtain b5 where t: "boot_tx_pool E 16384 256 40 b4 = Inr (0, b5)" "boot_reg_tx_pool E b5 = Inr (0, b')"
      using rest by (auto elim!: on_ok_0)
    have "capacity (tx_buf_mempool (b_net b4)) = 0" using rx b4 b2 assms(4) by simp
    note tx = boot_tx_pool_fresh [OF t(1) assms(2) this, simplified]
    have "b_net b' = b_net b5" by (rule boot_small_steps(2) [OF t(2)])
    then show ?thesis using rx tx b4 b2 large by (auto simp: memory_ready_def same_queues_def)
  next
    case False
    then have "b_net b' = b_net b4" using rest boot_small_steps(1) by auto
    then show ?thesis using rx b4 b2 large False by (auto simp: memory_ready_def same_queues_def)
  qed
qed

text \<open>A process that has done nothing yet: no pools, rings at their start.\<close>

definition blank_net :: "net \<Rightarrow> bool" where
  "blank_net n \<longleftrightarrow> capacity (mbuf_mempool n) = 0 \<and> capacity (rx_buf_mempool n) = 0 \<and> capacity (tx_buf_mempool n) = 0
     \<and> wq_head (n_rxq n) = 0 \<and> consumer_idx (n_rxq n) = 0 \<and> sq_head (n_txq n) = 0 \<and> true_cq_head (n_txq n) = 0 \<and> cq_head (n_txq n) = 0"

text \<open>The completion entries of a new transmit ring belong to the device.\<close>

definition tx_cqes_fresh :: "abi \<Rightarrow> tx_verbs \<Rightarrow> bool" where
  "tx_cqes_fresh A V \<longleftrightarrow> tv_cqes V \<noteq> [] \<and> cqe_status A (tv_cqes V ! 0) (tv_cqe_cnt V) 0 = CQE_INVALID A"

lemma boot_txq_ready:
  assumes "boot_txq E s b = Inr (0, b')" "tx_verbs_ok (e_tx E) j" "tx_cqes_fresh (e_abi E) (e_tx E)"
    and "sq_head (n_txq (b_net b)) = 0" "true_cq_head (n_txq (b_net b)) = 0" "cq_head (n_txq (b_net b)) = 0"
  shows "tx_init (e_abi E) \<lparr>sys_net = b_net b', sys_done = [], sys_pending = []\<rparr> \<and> n_rxq (b_net b') = n_rxq (b_net b)
    \<and> mbuf_mempool (b_net b') = mbuf_mempool (b_net b) \<and> rx_buf_mempool (b_net b') = rx_buf_mempool (b_net b)
    \<and> tx_buf_mempool (b_net b') = tx_buf_mempool (b_net b)"
proof -
  obtain segs il where e: "tx_expectations s = (segs, il)" by (cases "tx_expectations s")
  then have i: "mlx5_init_txq (e_tx E) segs il (b_net b) = Inr (0, b_net b')"
    using assms(1) by (auto simp: boot_txq_def elim!: bindE_InrE)
  obtain bufs where "(b_net b)\<lparr>n_txq := (tx_geometry (e_tx E) (n_txq (b_net b)))\<lparr>t_buffers := bufs\<rparr>\<rparr> = b_net b'"
    using i assms(2) [unfolded tx_verbs_ok_def] by (auto simp: mlx5_init_txq_def Let_def elim!: bindE_InrE split: if_splits option.splits)
  note bn = this [symmetric]
  have "tx_ok (n_txq (b_net b')) (n_mbufs (b_net b')) []"
    using init_txq_ready [OF assms(2,4,5), of segs il] i by auto
  moreover have "completed (e_abi E) (n_txq (b_net b')) 0 0 []" using assms(3)
    by (simp add: bn tx_geometry_def tx_cqes_fresh_def slot_def)
  ultimately show ?thesis using assms(5,6) by (simp add: tx_init_def bn tx_geometry_def)
qed

text \<open>
  C31. Whenever \<open>init_mlx5\<close> returns 0 from the blank state of a new process, on either side and in every mode,
  the invariants of the loops hold: the transmit ring is idle, the receive ring is full of buffers of its own
  with no completion pending, and the pools hold their free items once each, none of them NULL.
\<close>

theorem boot_ready:
  assumes "documented_abi (e_abi E)" "maps_sanely (e_kernel E) (e_huge E)" "rx_verbs_ok (e_rx E) k" "k \<le> 13"
    and "tx_verbs_ok (e_tx E) j" "tx_cqes_fresh (e_abi E) (e_tx E)" "blank_net (b_net b)"
    and "init_mlx5 E s b = Inr (0, b')"
  shows "tx_init (e_abi E) \<lparr>sys_net = b_net b', sys_done = [], sys_pending = []\<rparr>
    \<and> (\<exists>fl. length fl = 2 ^ k \<and> distinct fl \<and> posted (n_rxq (b_net b')) fl)
    \<and> received (e_abi E) (n_rxq (b_net b')) (consumer_idx (n_rxq (b_net b'))) []
    \<and> pool_inv (rx_buf_mempool (b_net b')) \<and> fresh_pool 409600 (mbuf_mempool (b_net b'))
    \<and> (s_mode s = UDP_CLIENT \<or> s_zero_copy s = 0 \<longrightarrow> (\<exists>n. fresh_pool n (tx_buf_mempool (b_net b'))))"
proof -
  obtain b1 b2 b3 b4 where st: "boot_mbuf_pool E b = Inr (0, b1)"
    "(if s_mode s = UDP_CLIENT then boot_client_memory E b1 else boot_server_memory E s b1) = Inr (0, b2)"
    "boot_rxq E b2 = Inr (0, b3)" "boot_flows E s b3 = Inr (0, b4)" "boot_txq E s b4 = Inr (0, b')"
    using assms(8) unfolding init_mlx5_def by (auto elim!: on_ok_0)
  note blank = assms(7) [unfolded blank_net_def]
  note mb = boot_mbuf_pool_fresh [OF st(1) assms(2) blank [THEN conjunct1]]
  have mem: "memory_ready s b1 b2"
    using st(2) boot_client_memory_ready [OF _ assms(2), of b1 b2 s] boot_server_memory_ready [OF _ assms(2), of s b1 b2] mb blank
    by (auto split: if_splits)
  then obtain n where rx: "10240 \<le> n" "fresh_pool n (rx_buf_mempool (b_net b2))" by (auto simp: memory_ready_def)
  have queues: "n_rxq (b_net b2) = n_rxq (b_net b)" "n_txq (b_net b2) = n_txq (b_net b)"
    using mb mem by (simp_all add: memory_ready_def same_queues_def)
  obtain lkey where lkey: "b_rx_mr b2 = Some lkey" "mlx5_init_rxq (e_abi E) (e_rx E) lkey (b_net b2) = Inr (0, b_net b3)"
    using st(3) by (auto simp: boot_rxq_def elim!: bindE_InrE split: option.splits)
  let ?st = "pool_free_stack (rx_buf_mempool (b_net b2))"
  have "(2 :: nat) ^ k \<le> 2 ^ 13" using assms(4) by (intro power_increasing) simp_all
  then have room: "2 ^ k \<le> length ?st" using rx by (simp add: fresh_pool_def)
  have r: "posted (n_rxq (b_net b3)) (take (2 ^ k) ?st)" "received (e_abi E) (n_rxq (b_net b3)) (consumer_idx (n_rxq (b_net b3))) []"
    "pool_inv (rx_buf_mempool (b_net b3))" "n_txq (b_net b3) = n_txq (b_net b2)" "mbuf_mempool (b_net b3) = mbuf_mempool (b_net b2)"
    "tx_buf_mempool (b_net b3) = tx_buf_mempool (b_net b2)"
    using init_rxq_posts [OF assms(1,3) _ _ _ _ room, of lkey] lkey(2) queues(1) rx(2) blank by (auto simp: fresh_pool_def)
  have b4: "b_net b4 = b_net b3" by (rule boot_small_steps(4) [OF st(4)])
  note tx = boot_txq_ready [OF st(5) assms(5,6), unfolded b4 r(4) queues(2)]
  have "\<exists>fl. length fl = 2 ^ k \<and> distinct fl \<and> posted (n_rxq (b_net b3)) fl"
    using r(1) room rx(2) by (intro exI [of _ "take (2 ^ k) ?st"]) (simp add: fresh_pool_def distinct_take)
  then show ?thesis using tx blank r mb mem b4 by (simp add: memory_ready_def)
qed

section \<open>An example\<close>

text \<open>A kernel that refuses empty and huge mappings and puts every other one at the same place.\<close>

definition careful_kernel :: "unit kernel" where
  "careful_kernel = calm_kernel\<lparr>sys_mmap := \<lambda>_ n _ _ _ k. (if n = 0 \<or> 2 ^ 40 < n then MAP_FAILED else 0x40000000, k)\<rparr>"

abbreviation (input) both_sizes :: huge where "both_sizes \<equiv> \<lparr>has_2MB = True, has_1GB = True\<rparr>"

lemma align_up_pages:
  fixes n :: u64
  assumes "n mod PGSIZE_2MB = 0"
  shows "align_up n PGSIZE_2MB = n"
proof -
  have m: "unat n mod 2 ^ 21 = 0" using assms by (simp add: unat_mod_distrib word_unat_eq_iff)
  then have "unat n + 2 ^ 21 \<le> 2 ^ 64"
    using unat_bound [of n] by (auto simp: mod_eq_0_iff_dvd elim!: dvdE)
  then have "unat (align_up n (2 ^ 21)) = (unat n + 2 ^ 21 - 1) div 2 ^ 21 * 2 ^ 21"
    by (intro unat_align_up) simp_all
  also have "\<dots> = unat n" using m by (auto simp: mod_eq_0_iff_dvd elim!: dvdE)
  finally show ?thesis by (simp add: word_unat_eq_iff)
qed

lemma careful_mapping:
  assumes "n mod PGSIZE_2MB = 0"
  shows "mem_map_anom careful_kernel both_sizes NULL n PGSIZE_2MB 0 () = Inr (if n = 0 \<or> 2 ^ 40 < n then MAP_FAILED else 0x40000000, ())"
proof (cases "n = 0 \<or> 2 ^ 40 < n")
  case True
  then show ?thesis using align_up_pages [OF assms]
    by (auto simp: mem_map_anom_def mem_map_anom_raw_def anon_flags_def careful_kernel_def calm_kernel_def Let_def)
next
  case False
  then have small: "unat n \<le> 2 ^ 40" by (simp add: word_less_nat_alt)
  have "unat n mod 2097152 = 0" using assms by (simp add: unat_mod_distrib word_unat_eq_iff)
  then have "unat n div 2097152 * 2097152 = unat n" by (metis add.right_neutral div_mult_mod_eq)
  moreover have "unat (0x40000000 + n) = 0x40000000 + unat n" using small by (simp add: unat_word_ariths)
  ultimately have "touch_mapping (touch_fuel n PGSIZE_2MB) (\<lambda>_. True) 0x40000000 (0x40000000 + n) PGSIZE_2MB = Inr ()"
    by (intro touch_mapping_all [of _ "unat n div 2097152"]) (simp_all add: touch_fuel_def)
  then show ?thesis using False align_up_pages [OF assms]
    by (simp add: mem_map_anom_def mem_map_anom_raw_def anon_flags_def careful_kernel_def calm_kernel_def Let_def)
qed

lemma careful_maps: "maps_sanely careful_kernel both_sizes"
  unfolding maps_sanely_def
proof (intro allI impI, elim conjE)
  fix n a :: u64 and k k' :: unit
  assume n: "n mod PGSIZE_2MB = 0" and "mem_map_anom careful_kernel both_sizes NULL n PGSIZE_2MB 0 k = Inr (a, k')"
  then have a: "a = (if n = 0 \<or> 2 ^ 40 < n then MAP_FAILED else 0x40000000)" using careful_mapping [OF n] by simp
  have "unat n \<le> 2 ^ 40" if "\<not> 2 ^ 40 < n" using that by (simp add: word_less_nat_alt)
  then show "a = MAP_FAILED \<or> (a \<noteq> NULL \<and> unat a + unat n \<le> 2 ^ 64)" using a by (auto split: if_splits)
qed

definition example_tx_verbs :: tx_verbs where
  "example_tx_verbs = \<lparr>tv_cq = True, tv_qp = \<lambda>_. True, tv_errno = \<lambda>_. 0, tv_modify = \<lambda>_. 0, tv_obj = 0, tv_alloc = True, tv_stride = 64,
     tv_wqe_cnt = 128, tv_sq_buf = 0x10000, tv_sq_dbrec = 0x9000, tv_bf_reg = 0x9100, tv_qp_num = 3,
     tv_cqes = replicate 128 (example_cqe 0 0xF1), tv_cqe_cnt = 128, tv_cqe_size = 64, tv_cq_dbrec = 0x9200\<rparr>"

definition example_env :: "unit env" where
  "example_env = \<lparr>e_kernel = careful_kernel, e_huge = both_sizes, e_calloc = \<lambda>_. True, e_malloc = \<lambda>_. True, e_context = \<lambda>_. 0,
     e_reg = \<lambda>_ _ _. Some 9, e_errno = 0, e_rx = example_rx_verbs, e_tx = example_tx_verbs, e_flow = \<lambda>_. 0, e_abi = mlx5_abi\<rparr>"

definition example_boot :: "unit boot" where
  "example_boot = \<lparr>b_net = (example_net [])\<lparr>mbuf_mempool := zero_mempool\<rparr>, b_kern = (), b_working_set = NULL, b_tx_mr = None, b_rx_mr = None\<rparr>"

definition example_settings :: settings where
  "example_settings = default_settings\<lparr>s_mode := UDP_SERVER, s_working_set_size := 0x200000\<rparr>"

lemma example_pool:
  assumes "capacity (get (b_net b)) = 0" "sz \<noteq> 0" "(sz * per * np) mod PGSIZE_2MB = 0" "sz * per * np \<noteq> 0" "unat (sz * per * np) \<le> 2 ^ 40"
  shows "\<exists>b'. boot_pool example_env i get put sz per np b = Inr (0, b')"
proof -
  have small: "\<not> 2 ^ 40 < sz * per * np" using assms(5) by (simp add: word_less_nat_alt)
  have map: "mem_map_anom careful_kernel both_sizes NULL (sz * per * np) PGSIZE_2MB 0 () = Inr (0x40000000, ())"
    unfolding careful_mapping [OF assms(3)] using small assms(4) by simp
  have "unat (0x40000000 :: u64) + unat (sz * per * np) \<le> 2 ^ 64" using assms(5) by simp
  from memory_init_creates [OF map _ _ assms(2,3,1) this assms(5), of "n_mem (b_net b)"]
  show ?thesis by (auto simp: boot_pool_def example_env_def)
qed

lemma example_verbs_ok: "tx_verbs_ok example_tx_verbs 7" "tx_cqes_fresh mlx5_abi example_tx_verbs"
proof -
  have "is_power_of_two (2 ^ 6 :: u32)" by (rule is_power_of_two_exp) simp
  then show "tx_verbs_ok example_tx_verbs 7" by (simp add: tx_verbs_ok_def example_tx_verbs_def)
  show "tx_cqes_fresh mlx5_abi example_tx_verbs"
    by (simp add: tx_cqes_fresh_def example_tx_verbs_def cqe_status_def example_cqe_def mlx5_abi_def Let_def)
qed

lemma example_working_set: "\<exists>b'. boot_working_set example_env example_settings b = Inr (0, b')"
proof -
  have "mem_map_anom careful_kernel both_sizes NULL 0x200000 PGSIZE_2MB 0 () = Inr (0x40000000, ())"
    using careful_mapping by (simp add: word_less_nat_alt)
  then show ?thesis
    by (simp add: boot_working_set_def server_memory_init_def fill_region_def example_env_def example_settings_def default_settings_def)
qed

lemma boot_ready_witness:
  "\<exists>b' fl. init_mlx5 example_env example_settings example_boot = Inr (0, b') \<and> length fl = 1024 \<and> posted (n_rxq (b_net b')) fl
    \<and> tx_init mlx5_abi \<lparr>sys_net = b_net b', sys_done = [], sys_pending = []\<rparr>"
proof -
  have env: "e_abi example_env = mlx5_abi" "e_kernel example_env = careful_kernel" "e_huge example_env = both_sizes"
    "e_rx example_env = example_rx_verbs" "e_tx example_env = example_tx_verbs"
    by (simp_all add: example_env_def)
  have blank: "blank_net (b_net example_boot)"
    by (simp add: blank_net_def example_boot_def example_net_def example_rxq_def example_txq_def zero_mempool_def)
  note bl = blank [unfolded blank_net_def]
  have maps: "maps_sanely (e_kernel example_env) (e_huge example_env)" using careful_maps env by simp
  obtain b1 where b1: "boot_mbuf_pool example_env example_boot = Inr (0, b1)"
    using example_pool [of mbuf_mempool example_boot 128 4096 100] bl by (auto simp: boot_mbuf_pool_def)
  note f1 = boot_mbuf_pool_fresh [OF b1 maps bl [THEN conjunct1]]
  obtain b2 where b2: "boot_working_set example_env example_settings b1 = Inr (0, b2)" using example_working_set by blast
  obtain m where n2: "b_net b2 = (b_net b1)\<lparr>n_mem := m\<rparr>" using boot_server_steps(1) [OF b2] by blast
  obtain b3 where b3: "boot_rx_pool example_env 16384 256 100 b2 = Inr (0, b3)"
    using example_pool [of rx_buf_mempool b2 16384 256 100] bl f1 n2 by (auto simp: boot_rx_pool_def)
  have "capacity (rx_buf_mempool (b_net b2)) = 0" using bl f1 n2 by simp
  note f3 = boot_rx_pool_fresh [OF b3 maps this, simplified]
  define b4 where "b4 = b3\<lparr>b_rx_mr := Some 9, b_tx_mr := Some 9\<rparr>"
  have mem: "boot_server_memory example_env example_settings b1 = Inr (0, b4)"
    using b2 b3 by (simp add: boot_server_memory_def on_ok_def boot_refcnts_def boot_reg_rx_def boot_reg_tx_def memory_registration_def
        example_settings_def default_settings_def b4_def) (simp add: example_env_def)
  have q: "wq_head (n_rxq (b_net b4)) = 0" "consumer_idx (n_rxq (b_net b4)) = 0" "pool_inv (rx_buf_mempool (b_net b4))"
    "NULL \<notin> set (pool_free_stack (rx_buf_mempool (b_net b4)))" "2 ^ 10 \<le> length (pool_free_stack (rx_buf_mempool (b_net b4)))"
    "sq_head (n_txq (b_net b4)) = 0" "true_cq_head (n_txq (b_net b4)) = 0"
    using f1 f3 bl n2 by (simp_all add: b4_def same_queues_def fresh_pool_def)
  obtain n5 where n5: "mlx5_init_rxq mlx5_abi example_rx_verbs 9 (b_net b4) = Inr (0, n5)" "n_txq n5 = n_txq (b_net b4)"
    using init_rxq_posts [OF mlx5_abi_documented example_rx_verbs_ok q(1-5), of 9] by blast
  obtain segs il where e: "tx_expectations example_settings = (segs, il)" by (cases "tx_expectations example_settings")
  obtain n6 where "mlx5_init_txq example_tx_verbs segs il n5 = Inr (0, n6)"
    using init_txq_ready [OF example_verbs_ok(1), of n5 segs il] q(6,7) n5(2) by auto
  note n6 = e this
  have rx: "boot_rxq example_env b4 = Inr (0, b4\<lparr>b_net := n5\<rparr>)" using n5(1) by (simp add: boot_rxq_def b4_def env)
  have tx: "boot_txq example_env example_settings (b4\<lparr>b_net := n5\<rparr>) = Inr (0, b4\<lparr>b_net := n6\<rparr>)"
    using n6 by (simp add: boot_txq_def env)
  have mode: "s_mode example_settings \<noteq> UDP_CLIENT" by (simp add: example_settings_def)
  have flows: "boot_flows example_env example_settings b = Inr (0, b)" for b by (simp add: boot_flows_def example_env_def)
  have run: "init_mlx5 example_env example_settings example_boot = Inr (0, b4\<lparr>b_net := n6\<rparr>)"
    using b1 mem rx flows tx mode by (simp add: init_mlx5_def on_ok_def) (simp add: example_env_def)
  have "documented_abi (e_abi example_env)" "rx_verbs_ok (e_rx example_env) 10" "tx_verbs_ok (e_tx example_env) 7"
    "tx_cqes_fresh (e_abi example_env) (e_tx example_env)"
    using mlx5_abi_documented example_rx_verbs_ok example_verbs_ok env by simp_all
  from boot_ready [OF this(1) maps this(2) _ this(3,4) blank run] run env(1) show ?thesis by auto
qed

end
