(* ===== verification/Calibrate.thy ===== *)
theory Calibrate
  imports Time
begin

text \<open>
  The calibration of time.c: the time stamp counter is measured against the monotonic clock over half a second. The readings of the clock
  are a sequence like those of the counter, \<open>None\<close> where the call fails, and the floating point operations are parameters.
\<close>

section \<open>State and parameters\<close>

record timespec =
  tv_sec :: int
  tv_nsec :: int

record 'f time_vars =
  tm_cycles_per_us :: u32
  tm_cycles_per_ns :: 'f
  tm_start_tsc :: u64

text \<open>Seconds as nanoseconds by way of \<open>double\<close>, and the two rates of cycles over nanoseconds.\<close>

record 'f time_float =
  fl_seconds :: "int \<Rightarrow> u64"
  fl_per_us :: "u64 \<Rightarrow> u64 \<Rightarrow> u32"
  fl_per_ns :: "u64 \<Rightarrow> u64 \<Rightarrow> 'f"

text \<open>The clock, the counter, and how many readings of both were taken.\<close>

record clocks =
  ck_clock :: "nat \<Rightarrow> timespec option"
  ck_tsc :: tsc
  ck_clock_reads :: nat
  ck_tsc_reads :: nat

definition clock_gettime :: "timespec \<Rightarrow> clocks \<Rightarrow> int \<times> timespec \<times> clocks" where
  "clock_gettime old c =
     (let r = ck_clock c (ck_clock_reads c); c = c\<lparr>ck_clock_reads := Suc (ck_clock_reads c)\<rparr> in
      case r of None \<Rightarrow> (- 1, old, c) | Some ts \<Rightarrow> (0, ts, c))"

definition read_tsc :: "clocks \<Rightarrow> u64 \<times> clocks" where
  "read_tsc c = (case rdtsc (ck_tsc c) (ck_tsc_reads c) of (v, t) \<Rightarrow> (v, c\<lparr>ck_tsc_reads := t\<rparr>))"

definition elapsed_ns :: "'f time_float \<Rightarrow> timespec \<Rightarrow> timespec \<Rightarrow> u64" where
  "elapsed_ns F t_start t_end = fl_seconds F (tv_sec t_end - tv_sec t_start) + word_of_int (tv_nsec t_end - tv_nsec t_start)"

section \<open>Calibration\<close>

text \<open>The benchmark prints what it measures; what is left of it are its readings.\<close>

definition rdtsc_benchmark :: "timespec \<Rightarrow> clocks \<Rightarrow> clocks" where
  "rdtsc_benchmark t0 c =
     (case clock_gettime t0 c of (_, _, c) \<Rightarrow>
      let c = ((\<lambda>c. snd (read_tsc c)) ^^ 1000000) c in
      case clock_gettime t0 c of (_, _, c) \<Rightarrow> c)"

text \<open>\<open>t0\<close> is what the variables on the stack hold before they are written.\<close>

definition time_calibrate_tsc :: "'f time_float \<Rightarrow> timespec \<Rightarrow> clocks \<Rightarrow> 'f time_vars \<Rightarrow> int \<times> clocks \<times> 'f time_vars" where
  "time_calibrate_tsc F t0 c v =
     (let c = rdtsc_benchmark t0 c in
      case clock_gettime t0 c of (ret, t_start, c) \<Rightarrow>
      if ret = 0 then
        (case read_tsc c of (start, c) \<Rightarrow>
         case clock_gettime t0 c of (_, t_end, c) \<Rightarrow>
         case read_tsc c of (end, c) \<Rightarrow>
         let ns = elapsed_ns F t_start t_end;
             v = v\<lparr>tm_cycles_per_us := fl_per_us F (end - start) ns, tm_cycles_per_ns := fl_per_ns F (end - start) ns\<rparr>
         in case read_tsc c of (s, c) \<Rightarrow> (0, c, v\<lparr>tm_start_tsc := s\<rparr>))
      else (- 1, c, v))"

definition time_init :: "'f time_float \<Rightarrow> timespec \<Rightarrow> clocks \<Rightarrow> 'f time_vars \<Rightarrow> int \<times> clocks \<times> 'f time_vars" where
  "time_init = time_calibrate_tsc"

section \<open>What it leaves behind\<close>

lemma read_tsc_eq: "read_tsc c = (ck_tsc c (ck_tsc_reads c), c\<lparr>ck_tsc_reads := Suc (ck_tsc_reads c)\<rparr>)"
  by (simp add: read_tsc_def rdtsc_def)

lemma read_tsc_many: "((\<lambda>c. snd (read_tsc c)) ^^ k) c = c\<lparr>ck_tsc_reads := ck_tsc_reads c + k\<rparr>"
  by (induction k) (simp_all add: read_tsc_eq)

lemma rdtsc_benchmark_reads:
  "rdtsc_benchmark t0 c = c\<lparr>ck_clock_reads := ck_clock_reads c + 2, ck_tsc_reads := ck_tsc_reads c + 1000000\<rparr>"
  unfolding rdtsc_benchmark_def read_tsc_many by (cases c) (auto simp: clock_gettime_def Let_def split: option.splits)

text \<open>When the clock fails the rate stays 0, and the first conversion to microseconds divides by it.\<close>

lemma time_init_failed:
  assumes "ck_clock c (ck_clock_reads c + 2) = None" "tm_cycles_per_us v = 0"
  shows "\<exists>c'. time_init F t0 c v = (- 1, c', v) \<and> microtime (tm_cycles_per_us v) (tm_start_tsc v) (ck_tsc c') t = Inl DivByZero"
  using assms by (auto simp: time_init_def time_calibrate_tsc_def rdtsc_benchmark_reads clock_gettime_def Let_def microtime_def rdtsc_def cycles_to_us_def)

text \<open>
  Otherwise the rates come from the readings around the sleep, and times count from the last of them. The second reading of the clock is not
  checked: when it fails the rates come from what the stack held.
\<close>

lemma time_init_rates:
  assumes "ck_clock c (ck_clock_reads c + 2) = Some ts" "te = (case ck_clock c (ck_clock_reads c + 3) of None \<Rightarrow> t0 | Some t \<Rightarrow> t)"
    and "r = ck_tsc_reads c + 1000000" "clk = ck_tsc c"
  shows "\<exists>c'. time_init F t0 c v = (0, c', v\<lparr>tm_cycles_per_us := fl_per_us F (clk (r + 1) - clk r) (elapsed_ns F ts te),
      tm_cycles_per_ns := fl_per_ns F (clk (r + 1) - clk r) (elapsed_ns F ts te), tm_start_tsc := clk (r + 2)\<rparr>)
    \<and> ck_tsc_reads c' = r + 3 \<and> fst (cycletime (clk (r + 2)) clk (ck_tsc_reads c')) = clk (r + 3) - clk (r + 2)"
  using assms by (auto simp: time_init_def time_calibrate_tsc_def rdtsc_benchmark_reads clock_gettime_def Let_def read_tsc_eq
      cycletime_def rdtsc_def numeral_2_eq_2 numeral_3_eq_3 split: option.splits)

end
