(* ===== verification/Linked.thy ===== *)
theory Linked
  imports Prelude
begin

text \<open>
  inc/base/list.h: the doubly linked circular lists, the singly linked lists and the
  doubly linked lists with a single head pointer. A node is an address; the two fields of a
  \<open>list_node\<close> are kept in two maps, and every access checks for NULL. An \<open>hlist_node\<close> points at
  the pointer that points at it, so that these nodes live in a memory of pointer cells. What every list
  promises is a refinement: the operations do on the memory what the obvious operations do on a list of addresses.
\<close>

section \<open>Doubly linked lists\<close>

record list_heap =
  lh_next :: "ptr \<Rightarrow> ptr"
  lh_prev :: "ptr \<Rightarrow> ptr"

definition get_next :: "list_heap \<Rightarrow> ptr \<Rightarrow> ptr res" where
  "get_next H p = bindE (guardE NullDeref (p \<noteq> NULL)) (\<lambda>_. Inr (lh_next H p))"

definition get_prev :: "list_heap \<Rightarrow> ptr \<Rightarrow> ptr res" where
  "get_prev H p = bindE (guardE NullDeref (p \<noteq> NULL)) (\<lambda>_. Inr (lh_prev H p))"

definition set_next :: "ptr \<Rightarrow> ptr \<Rightarrow> list_heap \<Rightarrow> list_heap res" where
  "set_next p v H = bindE (guardE NullDeref (p \<noteq> NULL)) (\<lambda>_. Inr (H\<lparr>lh_next := (lh_next H)(p := v)\<rparr>))"

definition set_prev :: "ptr \<Rightarrow> ptr \<Rightarrow> list_heap \<Rightarrow> list_heap res" where
  "set_prev p v H = bindE (guardE NullDeref (p \<noteq> NULL)) (\<lambda>_. Inr (H\<lparr>lh_prev := (lh_prev H)(p := v)\<rparr>))"

lemma node_access [simp]:
  "p \<noteq> NULL \<Longrightarrow> get_next H p = Inr (lh_next H p)" "p \<noteq> NULL \<Longrightarrow> get_prev H p = Inr (lh_prev H p)"
  "p \<noteq> NULL \<Longrightarrow> set_next p v H = Inr (H\<lparr>lh_next := (lh_next H)(p := v)\<rparr>)"
  "p \<noteq> NULL \<Longrightarrow> set_prev p v H = Inr (H\<lparr>lh_prev := (lh_prev H)(p := v)\<rparr>)"
  by (simp_all add: get_next_def get_prev_def set_next_def set_prev_def)

definition list_head_init :: "ptr \<Rightarrow> list_heap \<Rightarrow> list_heap res" where
  "list_head_init h H = bindE (set_prev h h H) (set_next h h)"

definition list_add :: "ptr \<Rightarrow> ptr \<Rightarrow> list_heap \<Rightarrow> list_heap res" where
  "list_add h n H =
     bindE (get_next H h) (\<lambda>first.
     bindE (set_next n first H) (\<lambda>H.
     bindE (set_prev n h H) (\<lambda>H.
     bindE (get_next H h) (\<lambda>first.
     bindE (set_prev first n H) (\<lambda>H.
     set_next h n H)))))"

definition list_add_tail :: "ptr \<Rightarrow> ptr \<Rightarrow> list_heap \<Rightarrow> list_heap res" where
  "list_add_tail h n H =
     bindE (set_next n h H) (\<lambda>H.
     bindE (get_prev H h) (\<lambda>tail.
     bindE (set_prev n tail H) (\<lambda>H.
     bindE (get_prev H h) (\<lambda>tail.
     bindE (set_next tail n H) (\<lambda>H.
     set_prev h n H)))))"

definition list_add_between :: "ptr \<Rightarrow> ptr \<Rightarrow> ptr \<Rightarrow> list_heap \<Rightarrow> list_heap res" where
  "list_add_between prev n nxt H =
     bindE (set_next prev n H) (\<lambda>H.
     bindE (set_prev n prev H) (\<lambda>H.
     bindE (set_next n nxt H) (\<lambda>H.
     set_prev nxt n H)))"

definition list_add_after :: "ptr \<Rightarrow> ptr \<Rightarrow> list_heap \<Rightarrow> list_heap res" where
  "list_add_after prev n H = bindE (get_next H prev) (\<lambda>nxt. list_add_between prev n nxt H)"

definition list_add_before :: "ptr \<Rightarrow> ptr \<Rightarrow> list_heap \<Rightarrow> list_heap res" where
  "list_add_before nxt n H = bindE (get_prev H nxt) (\<lambda>prev. list_add_between prev n nxt H)"

definition list_empty :: "list_heap \<Rightarrow> ptr \<Rightarrow> bool res" where
  "list_empty H h = bindE (get_next H h) (\<lambda>n. Inr (n = h))"

definition list_empty_volatile :: "list_heap \<Rightarrow> ptr \<Rightarrow> bool res" where
  "list_empty_volatile H h = bindE (get_next H h) (\<lambda>n. Inr (n = h))"

definition list_del :: "ptr \<Rightarrow> list_heap \<Rightarrow> list_heap res" where
  "list_del n H =
     bindE (get_next H n) (\<lambda>nxt.
     bindE (get_prev H n) (\<lambda>prev.
     bindE (set_prev nxt prev H) (\<lambda>H.
     bindE (get_prev H n) (\<lambda>prev.
     bindE (get_next H n) (\<lambda>nxt.
     set_next prev nxt H)))))"

definition list_del_from :: "ptr \<Rightarrow> ptr \<Rightarrow> list_heap \<Rightarrow> list_heap res" where
  "list_del_from h n H = list_del n H"

definition list_top :: "list_heap \<Rightarrow> ptr \<Rightarrow> u64 \<Rightarrow> ptr res" where
  "list_top H h off = bindE (list_empty H h) (\<lambda>e.
     if e then Inr NULL else bindE (get_next H h) (\<lambda>n. Inr (n - off)))"

definition list_pop :: "ptr \<Rightarrow> u64 \<Rightarrow> list_heap \<Rightarrow> (ptr \<times> list_heap) res" where
  "list_pop h off H = bindE (list_empty H h) (\<lambda>e.
     if e then Inr (NULL, H)
     else
       bindE (get_next H h) (\<lambda>n.
       bindE (list_del n H) (\<lambda>H. Inr (n - off, H))))"

definition list_tail :: "list_heap \<Rightarrow> ptr \<Rightarrow> u64 \<Rightarrow> ptr res" where
  "list_tail H h off = bindE (list_empty H h) (\<lambda>e.
     if e then Inr NULL else bindE (get_prev H h) (\<lambda>n. Inr (n - off)))"

definition list_entry_or_null :: "ptr \<Rightarrow> ptr \<Rightarrow> u64 \<Rightarrow> ptr" where
  "list_entry_or_null h n off = (if n = h then NULL else n - off)"

definition list_next :: "list_heap \<Rightarrow> ptr \<Rightarrow> ptr \<Rightarrow> u64 \<Rightarrow> ptr res" where
  "list_next H h i off = bindE (get_next H (i + off)) (\<lambda>n. Inr (list_entry_or_null h n off))"

definition list_prev :: "list_heap \<Rightarrow> ptr \<Rightarrow> ptr \<Rightarrow> u64 \<Rightarrow> ptr res" where
  "list_prev H h i off = bindE (get_prev H (i + off)) (\<lambda>n. Inr (list_entry_or_null h n off))"

definition list_append_list :: "ptr \<Rightarrow> ptr \<Rightarrow> list_heap \<Rightarrow> list_heap res" where
  "list_append_list to from H =
     bindE (get_prev H from) (\<lambda>from_tail.
     bindE (get_prev H to) (\<lambda>to_tail.
     bindE (set_prev to from_tail H) (\<lambda>H.
     bindE (set_next from_tail to H) (\<lambda>H.
     bindE (set_next to_tail from H) (\<lambda>H.
     bindE (set_prev from to_tail H) (\<lambda>H.
     bindE (list_del from H) (\<lambda>H.
     list_head_init from H)))))))"

definition list_prepend_list :: "ptr \<Rightarrow> ptr \<Rightarrow> list_heap \<Rightarrow> list_heap res" where
  "list_prepend_list to from H =
     bindE (get_prev H from) (\<lambda>from_tail.
     bindE (get_next H to) (\<lambda>to_head.
     bindE (set_next to from H) (\<lambda>H.
     bindE (set_prev from to H) (\<lambda>H.
     bindE (set_prev to_head from_tail H) (\<lambda>H.
     bindE (set_next from_tail to_head H) (\<lambda>H.
     bindE (list_del from H) (\<lambda>H.
     list_head_init from H)))))))"

text \<open>
  The iterations: the loop from node \<open>n\<close> on, with the body \<open>f\<close> applied to each entry. The safe
  variant reads the next node before the body runs.
\<close>

primrec for_each_from :: "nat \<Rightarrow> (ptr \<Rightarrow> 's \<Rightarrow> 's res) \<Rightarrow> list_heap \<Rightarrow> ptr \<Rightarrow> u64 \<Rightarrow> ptr \<Rightarrow> 's \<Rightarrow> 's res" where
  "for_each_from 0 f H h off n s = Inl NoFuel"
| "for_each_from (Suc fuel) f H h off n s =
     (if n \<noteq> h then
        bindE (f (n - off) s) (\<lambda>s.
        bindE (get_next H n) (\<lambda>n. for_each_from fuel f H h off n s))
      else Inr s)"

definition list_for_each_off :: "nat \<Rightarrow> (ptr \<Rightarrow> 's \<Rightarrow> 's res) \<Rightarrow> list_heap \<Rightarrow> ptr \<Rightarrow> u64 \<Rightarrow> 's \<Rightarrow> 's res" where
  "list_for_each_off fuel f H h off s = bindE (get_next H h) (\<lambda>n. for_each_from fuel f H h off n s)"

primrec for_each_rev_from :: "nat \<Rightarrow> (ptr \<Rightarrow> 's \<Rightarrow> 's res) \<Rightarrow> list_heap \<Rightarrow> ptr \<Rightarrow> u64 \<Rightarrow> ptr \<Rightarrow> 's \<Rightarrow> 's res" where
  "for_each_rev_from 0 f H h off n s = Inl NoFuel"
| "for_each_rev_from (Suc fuel) f H h off n s =
     (if n \<noteq> h then
        bindE (f (n - off) s) (\<lambda>s.
        bindE (get_prev H n) (\<lambda>n. for_each_rev_from fuel f H h off n s))
      else Inr s)"

definition list_for_each_rev :: "nat \<Rightarrow> (ptr \<Rightarrow> 's \<Rightarrow> 's res) \<Rightarrow> list_heap \<Rightarrow> ptr \<Rightarrow> u64 \<Rightarrow> 's \<Rightarrow> 's res" where
  "list_for_each_rev fuel f H h off s = bindE (get_prev H h) (\<lambda>n. for_each_rev_from fuel f H h off n s)"

primrec for_each_safe_from :: "nat \<Rightarrow> (ptr \<Rightarrow> list_heap \<Rightarrow> list_heap res) \<Rightarrow> ptr \<Rightarrow> u64 \<Rightarrow> ptr \<Rightarrow> ptr \<Rightarrow> list_heap \<Rightarrow> list_heap res" where
  "for_each_safe_from 0 f h off n nxt H = Inl NoFuel"
| "for_each_safe_from (Suc fuel) f h off n nxt H =
     (if n \<noteq> h then
        bindE (f (n - off) H) (\<lambda>H.
        bindE (get_next H nxt) (\<lambda>nxt'. for_each_safe_from fuel f h off nxt nxt' H))
      else Inr H)"

definition list_for_each_safe_off :: "nat \<Rightarrow> (ptr \<Rightarrow> list_heap \<Rightarrow> list_heap res) \<Rightarrow> ptr \<Rightarrow> u64 \<Rightarrow> list_heap \<Rightarrow> list_heap res" where
  "list_for_each_safe_off fuel f h off H =
     bindE (get_next H h) (\<lambda>n.
     bindE (get_next H n) (\<lambda>nxt. for_each_safe_from fuel f h off n nxt H))"

section \<open>Singly linked lists\<close>

text \<open>The head is a node; the field \<open>next\<close> of every node is kept in a map.\<close>

type_synonym slist_heap = "ptr \<Rightarrow> ptr"

definition slist_init_head :: "ptr \<Rightarrow> slist_heap \<Rightarrow> slist_heap" where
  "slist_init_head h S = S(h := NULL)"

definition slist_add_head :: "ptr \<Rightarrow> ptr \<Rightarrow> slist_heap \<Rightarrow> slist_heap res" where
  "slist_add_head h n S = bindE (guardE NullDeref (n \<noteq> NULL)) (\<lambda>_.
     let S = S(n := S h) in Inr (S(h := n)))"

definition slist_del_head :: "ptr \<Rightarrow> slist_heap \<Rightarrow> slist_heap res" where
  "slist_del_head h S = bindE (guardE NullDeref (S h \<noteq> NULL)) (\<lambda>_. Inr (S(h := S (S h))))"

definition slist_del :: "ptr \<Rightarrow> ptr \<Rightarrow> slist_heap \<Rightarrow> slist_heap res" where
  "slist_del prev n S = bindE (guardE NullDeref (prev \<noteq> NULL \<and> n \<noteq> NULL)) (\<lambda>_. Inr (S(prev := S n)))"

definition slist_empty :: "slist_heap \<Rightarrow> ptr \<Rightarrow> bool" where
  "slist_empty S h \<longleftrightarrow> S h = NULL"

definition slist_pop :: "ptr \<Rightarrow> u64 \<Rightarrow> slist_heap \<Rightarrow> (ptr \<times> slist_heap) res" where
  "slist_pop h off S = (if slist_empty S h then Inr (NULL, S)
     else let n = S h in bindE (slist_del h n S) (\<lambda>S. Inr (n - off, S)))"

primrec slist_for_each :: "nat \<Rightarrow> (ptr \<Rightarrow> 's \<Rightarrow> 's res) \<Rightarrow> slist_heap \<Rightarrow> ptr \<Rightarrow> 's \<Rightarrow> 's res" where
  "slist_for_each 0 f S pos s = Inl NoFuel"
| "slist_for_each (Suc fuel) f S pos s =
     (if pos \<noteq> NULL then bindE (f pos s) (slist_for_each fuel f S (S pos)) else Inr s)"

section \<open>Lists with a single head pointer\<close>

text \<open>
  A node at \<open>n\<close> has its field \<open>next\<close> in the cell at \<open>n\<close> and \<open>pprev\<close> in the one at \<open>n + 8\<close>;
  the head is one cell.
\<close>

type_synonym cells = "ptr \<Rightarrow> ptr"

definition hlist_init_head :: "ptr \<Rightarrow> cells \<Rightarrow> cells" where
  "hlist_init_head h C = C(h := NULL)"

definition hlist_add_head :: "ptr \<Rightarrow> ptr \<Rightarrow> cells \<Rightarrow> cells res" where
  "hlist_add_head h n C = bindE (guardE NullDeref (n \<noteq> NULL)) (\<lambda>_.
     let head = C h;
         C = C(n := head);
         C = C(n + 8 := h);
         C = C(h := n)
     in Inr (if head \<noteq> NULL then C(head + 8 := n) else C))"

definition hlist_del :: "ptr \<Rightarrow> cells \<Rightarrow> cells res" where
  "hlist_del n C = bindE (guardE NullDeref (n \<noteq> NULL \<and> C (n + 8) \<noteq> NULL)) (\<lambda>_.
     let C = C(C (n + 8) := C n)
     in Inr (if C n \<noteq> NULL then C(C n + 8 := C (n + 8)) else C))"

definition hlist_del_head :: "ptr \<Rightarrow> cells \<Rightarrow> cells res" where
  "hlist_del_head h C = (if C h \<noteq> NULL then hlist_del (C h) C else Inr C)"

definition hlist_empty :: "cells \<Rightarrow> ptr \<Rightarrow> bool" where
  "hlist_empty C h \<longleftrightarrow> C h = NULL"

primrec hlist_for_each :: "nat \<Rightarrow> (ptr \<Rightarrow> 's \<Rightarrow> 's res) \<Rightarrow> cells \<Rightarrow> ptr \<Rightarrow> 's \<Rightarrow> 's res" where
  "hlist_for_each 0 f C pos s = Inl NoFuel"
| "hlist_for_each (Suc fuel) f C pos s =
     (if pos \<noteq> NULL then bindE (f pos s) (hlist_for_each fuel f C (C pos)) else Inr s)"

primrec hlist_for_each_safe :: "nat \<Rightarrow> (ptr \<Rightarrow> cells \<Rightarrow> cells res) \<Rightarrow> ptr \<Rightarrow> cells \<Rightarrow> cells res" where
  "hlist_for_each_safe 0 f pos C = Inl NoFuel"
| "hlist_for_each_safe (Suc fuel) f pos C =
     (if pos \<noteq> NULL then let tmp = C pos in bindE (f pos C) (hlist_for_each_safe fuel f tmp) else Inr C)"

section \<open>Circles\<close>

text \<open>Consecutive nodes of a path are linked both ways.\<close>

fun links :: "list_heap \<Rightarrow> ptr list \<Rightarrow> bool" where
  "links H (a # b # xs) \<longleftrightarrow> lh_next H a = b \<and> lh_prev H b = a \<and> links H (b # xs)"
| "links H xs \<longleftrightarrow> True"

lemma links_append: "links H (xs @ a # ys) \<longleftrightarrow> links H (xs @ [a]) \<and> links H (a # ys)"
proof (induction xs)
  case (Cons x xs)
  then show ?case by (cases xs) auto
qed simp

lemma links_cong:
  assumes "\<forall>a\<in>set (butlast xs). lh_next H' a = lh_next H a" "\<forall>a\<in>set (tl xs). lh_prev H' a = lh_prev H a"
  shows "links H' xs = links H xs"
  using assms by (induction H xs rule: links.induct) auto

text \<open>The circle through the head \<open>h\<close> and the nodes \<open>xs\<close>.\<close>

definition dlist :: "list_heap \<Rightarrow> ptr \<Rightarrow> ptr list \<Rightarrow> bool" where
  "dlist H h xs \<longleftrightarrow> links H (h # xs @ [h]) \<and> distinct (h # xs) \<and> NULL \<notin> set (h # xs)"

definition link_in :: "ptr \<Rightarrow> ptr \<Rightarrow> ptr \<Rightarrow> list_heap \<Rightarrow> list_heap" where
  "link_in p n q H = H\<lparr>lh_next := (lh_next H)(p := n, n := q), lh_prev := (lh_prev H)(n := p, q := n)\<rparr>"

definition link_out :: "ptr \<Rightarrow> ptr \<Rightarrow> list_heap \<Rightarrow> list_heap" where
  "link_out p q H = H\<lparr>lh_next := (lh_next H)(p := q), lh_prev := (lh_prev H)(q := p)\<rparr>"

text \<open>Around every place of a circle there is a predecessor \<open>p\<close> and a successor \<open>q\<close>.\<close>

lemma circle_split:
  obtains ps p q qs where "h # us = ps @ [p]" "vs @ [h] = q # qs"
  by (metis append_butlast_last_id list.distinct(1) append_is_Nil_conv neq_Nil_conv)

lemma circle_apart:
  assumes "distinct (h # us @ vs)" "h # us = ps @ [p]" "vs @ [h] = q # qs"
  shows "p \<notin> set ps" "p \<notin> set (butlast (q # qs))" "q \<notin> set (tl (ps @ [p]))" "q \<notin> set qs"
proof -
  have vs: "butlast (q # qs) = vs" using assms(3) by (metis butlast_snoc)
  have us: "tl (ps @ [p]) = us" using assms(2) by (metis list.sel(3))
  have "p \<in> set (h # us)" using assms(2) by simp
  then show "p \<notin> set (butlast (q # qs))" using assms(1) vs by auto
  have "q \<in> set (vs @ [h])" using assms(3) by simp
  then show "q \<notin> set (tl (ps @ [p]))" using assms(1) us by auto
  have "distinct (ps @ [p])" using assms(1,2) by (metis distinct.simps(2) distinct_append append_Cons)
  then show "p \<notin> set ps" by simp
  have "distinct (q # qs)" using assms(1) by (simp flip: assms(3))
  then show "q \<notin> set qs" by simp
qed

lemma dlist_link_in:
  assumes "dlist H h (us @ vs)" "n \<notin> set (h # us @ vs)" "n \<noteq> NULL" "h # us = ps @ [p]" "vs @ [h] = q # qs"
  shows "dlist (link_in p n q H) h (us @ n # vs)"
proof -
  have d: "distinct (h # us @ vs)" using assms(1) by (simp add: dlist_def)
  have "(ps @ [p]) @ q # qs = h # (us @ vs) @ [h]" unfolding assms(4,5) [symmetric] by simp
  then have l: "links H ((ps @ [p]) @ q # qs)" using assms(1) by (simp only: dlist_def)
  note ap = circle_apart [OF d assms(4,5)]
  have n: "n \<notin> set (ps @ [p])" "n \<notin> set (q # qs)" using assms(2) unfolding assms(4,5) [symmetric] by simp_all
  let ?H = "link_in p n q H"
  have "links H (ps @ [p])" "links H (q # qs)" using l by (simp_all add: links_append [of H ps p "q # qs"])
  moreover have "links ?H (ps @ [p]) = links H (ps @ [p])"
    using ap n by (intro links_cong) (auto simp: link_in_def dest: in_set_butlastD list.set_sel(2) [rotated])
  moreover have "links ?H (q # qs) = links H (q # qs)"
    using ap n by (intro links_cong) (auto simp: link_in_def dest: in_set_butlastD)
  moreover have "lh_next ?H p = n" "lh_prev ?H n = p" "lh_next ?H n = q" "lh_prev ?H q = n"
    using n by (auto simp: link_in_def)
  ultimately have "links ?H ((ps @ [p]) @ n # q # qs)"
    by (simp add: links_append [of ?H ps p "n # q # qs"])
  moreover have "(ps @ [p]) @ n # q # qs = h # (us @ n # vs) @ [h]" unfolding assms(4,5) [symmetric] by simp
  ultimately have "links ?H (h # (us @ n # vs) @ [h])" by simp
  then show ?thesis using assms(1-3) by (auto simp: dlist_def)
qed

lemma dlist_link_out:
  assumes "dlist H h (us @ n # vs)" "h # us = ps @ [p]" "vs @ [h] = q # qs"
  shows "dlist (link_out p q H) h (us @ vs)" "lh_next H n = q" "lh_prev H n = p"
proof -
  have d: "distinct (h # us @ vs)" using assms(1) by (simp add: dlist_def)
  have "(ps @ [p]) @ n # q # qs = h # (us @ n # vs) @ [h]" unfolding assms(2,3) [symmetric] by simp
  then have l: "links H ((ps @ [p]) @ n # q # qs)" using assms(1) by (simp only: dlist_def)
  note ap = circle_apart [OF d assms(2,3)]
  let ?H = "link_out p q H"
  show nq: "lh_next H n = q" "lh_prev H n = p" using l by (simp_all add: links_append [of H ps p "n # q # qs"])
  have "links H (ps @ [p])" "links H (q # qs)" using l by (simp_all add: links_append [of H ps p "n # q # qs"])
  moreover have "links ?H (ps @ [p]) = links H (ps @ [p])"
    using ap by (intro links_cong) (auto simp: link_out_def dest: in_set_butlastD)
  moreover have "links ?H (q # qs) = links H (q # qs)"
    using ap by (intro links_cong) (auto simp: link_out_def dest: in_set_butlastD)
  moreover have "lh_next ?H p = q" "lh_prev ?H q = p" by (auto simp: link_out_def)
  ultimately have "links ?H ((ps @ [p]) @ q # qs)" by (simp add: links_append [of ?H ps p "q # qs"])
  moreover have "(ps @ [p]) @ q # qs = h # (us @ vs) @ [h]" unfolding assms(2,3) [symmetric] by simp
  ultimately have "links ?H (h # (us @ vs) @ [h])" by simp
  then show "dlist ?H h (us @ vs)" using assms(1) by (auto simp: dlist_def)
qed

lemma dlist_ends:
  assumes "dlist H h xs"
  shows "lh_next H h = hd (xs @ [h])" "lh_prev H h = last (h # xs)" "h \<noteq> NULL" "hd (xs @ [h]) \<noteq> NULL" "last (h # xs) \<noteq> NULL"
proof -
  have l: "links H (h # xs @ [h])" using assms by (simp add: dlist_def)
  show "lh_next H h = hd (xs @ [h])" using l by (cases xs) auto
  show "lh_prev H h = last (h # xs)"
  proof (cases xs rule: rev_cases)
    case (snoc ys y)
    then have "links H ((h # ys) @ y # [h])" using l by simp
    then have "links H (y # [h])" by (subst (asm) links_append) simp
    then show ?thesis using snoc by simp
  qed (use l in simp)
  have nn: "NULL \<notin> set (h # xs)" using assms by (simp add: dlist_def)
  then show "h \<noteq> NULL" "hd (xs @ [h]) \<noteq> NULL" by (cases xs; auto)+
  have "last (h # xs) \<in> set (h # xs)" by (rule last_in_set) simp
  then show "last (h # xs) \<noteq> NULL" using nn by metis
qed

section \<open>The operations on circles\<close>

lemma list_head_init_dlist: "h \<noteq> NULL \<Longrightarrow> \<exists>H'. list_head_init h H = Inr H' \<and> dlist H' h []"
  by (simp add: list_head_init_def dlist_def)

lemma list_add_between_eq:
  assumes "p \<noteq> NULL" "n \<noteq> NULL" "q \<noteq> NULL" "n \<noteq> p" "n \<noteq> q"
  shows "list_add_between p n q H = Inr (link_in p n q H)"
  using assms by (simp add: list_add_between_def link_in_def)

lemma list_add_dlist:
  assumes "dlist H h xs" "n \<notin> set (h # xs)" "n \<noteq> NULL"
  shows "\<exists>H'. list_add h n H = Inr H' \<and> dlist H' h (n # xs)"
proof -
  obtain qs where q: "xs @ [h] = hd (xs @ [h]) # qs" by (cases xs) auto
  have "hd (xs @ [h]) \<noteq> n" using assms(2) by (cases xs) auto
  then have "list_add h n H = Inr (link_in h n (hd (xs @ [h])) H)"
    using dlist_ends [OF assms(1)] assms(2,3) by (auto simp: list_add_def link_in_def fun_upd_twist)
  then show ?thesis using dlist_link_in [of H h "[]" xs n "[]" h, OF _ _ assms(3) _ q] assms(1,2) by simp
qed

lemma list_add_tail_dlist:
  assumes "dlist H h xs" "n \<notin> set (h # xs)" "n \<noteq> NULL"
  shows "\<exists>H'. list_add_tail h n H = Inr H' \<and> dlist H' h (xs @ [n])"
proof -
  have p: "h # xs = butlast (h # xs) @ [last (h # xs)]" by (simp only: append_butlast_last_id list.distinct simp_thms)
  have "last (h # xs) \<in> set (h # xs)" by (rule last_in_set) simp
  then have "last (h # xs) \<noteq> n" using assms(2) by metis
  then have "list_add_tail h n H = Inr (link_in (last (h # xs)) n h H)"
    using dlist_ends [OF assms(1)] assms(2,3) by (auto simp: list_add_tail_def link_in_def fun_upd_twist simp del: last.simps)
  then show ?thesis using dlist_link_in [of H h xs "[]" n, OF _ _ assms(3) p] assms(1,2) by simp
qed

lemma list_add_after_dlist:
  assumes "dlist H h (us @ p # vs)" "n \<notin> set (h # us @ p # vs)" "n \<noteq> NULL"
  shows "\<exists>H'. list_add_after p n H = Inr H' \<and> dlist H' h (us @ p # n # vs)"
proof -
  obtain q qs where q: "vs @ [h] = q # qs" by (cases vs) auto
  have "links H ((h # us) @ p # q # qs)" using assms(1) by (simp add: dlist_def flip: q)
  then have next_p: "lh_next H p = q" by (subst (asm) links_append) simp
  have "q \<in> set (vs @ [h])" using q by simp
  then have "q \<noteq> NULL" "q \<noteq> n" "p \<noteq> NULL" "p \<noteq> n" using assms by (auto simp: dlist_def)
  then have "list_add_after p n H = Inr (link_in p n q H)"
    using assms(3) next_p by (simp add: list_add_after_def list_add_between_eq)
  then show ?thesis using dlist_link_in [of H h "us @ [p]" vs n "h # us" p q qs] assms q by simp
qed

lemma list_add_before_dlist:
  assumes "dlist H h (us @ q # vs)" "n \<notin> set (h # us @ q # vs)" "n \<noteq> NULL"
  shows "\<exists>H'. list_add_before q n H = Inr H' \<and> dlist H' h (us @ n # q # vs)"
proof -
  obtain ps p where p: "h # us = ps @ [p]" by (metis rev_exhaust list.distinct(1))
  have "ps @ p # q # vs @ [h] = (ps @ [p]) @ q # vs @ [h]" by simp
  also have "\<dots> = h # (us @ q # vs) @ [h]" unfolding p [symmetric] by simp
  finally have "links H (ps @ p # q # vs @ [h])" using assms(1) by (simp only: dlist_def)
  then have prev_q: "lh_prev H q = p" by (subst (asm) links_append) simp
  have "p \<in> set (h # us)" using p by simp
  then have "q \<noteq> NULL" "q \<noteq> n" "p \<noteq> NULL" "p \<noteq> n" using assms by (auto simp: dlist_def)
  then have "list_add_before q n H = Inr (link_in p n q H)"
    using assms(3) prev_q by (simp add: list_add_before_def list_add_between_eq)
  then show ?thesis using dlist_link_in [of H h us "q # vs" n ps p q "vs @ [h]"] assms p by simp
qed

lemma list_del_dlist:
  assumes "dlist H h (us @ n # vs)"
  shows "\<exists>H'. list_del n H = Inr H' \<and> dlist H' h (us @ vs) \<and> lh_next H' n = lh_next H n"
proof -
  obtain ps p q qs where s: "h # us = ps @ [p]" "vs @ [h] = q # qs" by (rule circle_split)
  note out = dlist_link_out [OF assms s]
  have "p \<in> set (h # us)" "q \<in> set (vs @ [h])" using s by simp_all
  then have "p \<noteq> NULL" "q \<noteq> NULL" "n \<noteq> NULL" "n \<noteq> q" "n \<noteq> p" using assms by (auto simp: dlist_def)
  then have "list_del n H = Inr (link_out p q H)" using out(2,3) by (simp add: list_del_def link_out_def)
  moreover have "lh_next (link_out p q H) n = lh_next H n" using \<open>n \<noteq> p\<close> by (simp add: link_out_def)
  ultimately show ?thesis using out(1) by simp
qed

lemma list_empty_dlist:
  assumes "dlist H h xs"
  shows "list_empty H h = Inr (xs = [])"
proof -
  have "h \<notin> set xs" using assms by (simp add: dlist_def)
  then show ?thesis using dlist_ends(1,3) [OF assms] by (cases xs) (auto simp: list_empty_def)
qed

lemma list_pop_dlist:
  assumes "dlist H h (n # xs)"
  shows "\<exists>H'. list_pop h off H = Inr (n - off, H') \<and> dlist H' h xs"
proof -
  obtain H' where "list_del n H = Inr H'" "dlist H' h xs" using list_del_dlist [of H h "[]" n xs] assms by auto
  then show ?thesis using dlist_ends [OF assms] list_empty_dlist [OF assms] by (simp add: list_pop_def)
qed

lemma list_pop_empty: "dlist H h [] \<Longrightarrow> list_pop h off H = Inr (NULL, H)"
  using list_empty_dlist [of H h "[]"] by (simp add: list_pop_def)

lemma list_top_dlist: "dlist H h xs \<Longrightarrow> list_top H h off = Inr (if xs = [] then NULL else hd xs - off)"
  using dlist_ends [of H h xs] list_empty_dlist [of H h xs] by (simp add: list_top_def hd_append)

lemma list_tail_dlist: "dlist H h xs \<Longrightarrow> list_tail H h off = Inr (if xs = [] then NULL else last xs - off)"
  using dlist_ends [of H h xs] list_empty_dlist [of H h xs] by (auto simp: list_tail_def)

lemma for_each_from_links:
  assumes "links H (xs @ [h])" "h \<notin> set xs" "NULL \<notin> set xs" "length xs < fuel"
  shows "for_each_from fuel f H h off (hd (xs @ [h])) s = foldE f (map (\<lambda>n. n - off) xs) s"
  using assms
proof (induction xs arbitrary: fuel s)
  case Nil
  then show ?case by (cases fuel) simp_all
next
  case (Cons x xs)
  obtain fuel' where fuel: "fuel = Suc fuel'" using Cons.prems(4) by (cases fuel) simp_all
  have "lh_next H x = hd (xs @ [h])" "links H (xs @ [h])" using Cons.prems(1) by (cases xs; simp)+
  then show ?case using Cons.IH [of fuel'] Cons.prems fuel by (auto simp: bindE_def split: sum.splits)
qed

lemma list_for_each_dlist:
  assumes "dlist H h xs" "length xs < fuel"
  shows "list_for_each_off fuel f H h off s = foldE f (map (\<lambda>n. n - off) xs) s"
proof -
  have "links H (xs @ [h])" using assms(1) by (cases xs) (simp_all add: dlist_def)
  then show ?thesis using for_each_from_links [of H xs h fuel f off s] assms dlist_ends [OF assms(1)]
    by (simp add: list_for_each_off_def dlist_def)
qed

end
