(* ===== verification/Lists.thy ===== *)
theory Lists
  imports Linked
begin

text \<open>
  What the lists of inc/base/list.h promise: every sequence of operations on a circular
  list, and on a list with a single head pointer, does what the same operations do on a list of addresses; splicing
  moves all nodes; the loops end after one round over the nodes, also when they delete them. Working at the front of a
  list is an interface the three kinds of list share.
\<close>

section \<open>Splicing and deleting in a loop\<close>

lemma links_prefix: "links H (xs @ ys) \<Longrightarrow> links H xs"
  by (induction H xs rule: links.induct) auto

lemma links_join:
  assumes "links H (x # xs)" "links H (y # ys)" "lh_next H (last (x # xs)) = y" "lh_prev H y = last (x # xs)"
  shows "links H (x # xs @ y # ys)"
proof -
  obtain as a where a: "x # xs = as @ [a]" by (metis rev_exhaust list.distinct(1))
  then have "last (x # xs) = a" by simp
  then have "links H (as @ a # y # ys)" using assms a by (subst links_append) simp
  moreover have "as @ a # y # ys = (x # xs) @ y # ys" by (simp only: a append_assoc append_Cons append_Nil)
  ultimately show ?thesis by simp
qed

lemma last_not_before: "distinct (x # xs) \<Longrightarrow> last (x # xs) \<notin> set (butlast (x # xs))"
  by (metis append_butlast_last_id distinct_append list.distinct(1) list.set_intros(1) disjoint_iff)

lemma dlist_cong:
  assumes "\<forall>a\<in>set (h # xs). lh_next H' a = lh_next H a \<and> lh_prev H' a = lh_prev H a"
  shows "dlist H' h xs = dlist H h xs"
proof -
  have "links H' (h # xs @ [h]) = links H (h # xs @ [h])"
    using assms by (intro links_cong) (auto dest: in_set_butlastD)
  then show ?thesis by (simp add: dlist_def)
qed

lemma detach_head:
  assumes "dlist H dst (us @ src # vs)"
  shows "\<exists>H'. bindE (list_del src H) (list_head_init src) = Inr H' \<and> dlist H' dst (us @ vs) \<and> dlist H' src []"
proof -
  obtain H1 where H1: "list_del src H = Inr H1" "dlist H1 dst (us @ vs)" using list_del_dlist [OF assms] by blast
  have nn: "src \<noteq> NULL" "src \<notin> set (dst # us @ vs)" using assms by (auto simp: dlist_def)
  let ?H = "H1\<lparr>lh_prev := (lh_prev H1)(src := src), lh_next := (lh_next H1)(src := src)\<rparr>"
  have "dlist ?H dst (us @ vs)" using H1(2) nn by (subst dlist_cong [of _ _ _ H1]) auto
  then show ?thesis using H1(1) nn by (simp add: list_head_init_def dlist_def)
qed

lemma list_append_list_dlist:
  assumes "dlist H dst xs" "dlist H src ys" "set (dst # xs) \<inter> set (src # ys) = {}"
  shows "\<exists>H'. list_append_list dst src H = Inr H' \<and> dlist H' dst (xs @ ys) \<and> dlist H' src []"
proof -
  let ?tt = "last (dst # xs)" and ?ft = "last (src # ys)"
  let ?H = "H\<lparr>lh_next := (lh_next H)(?ft := dst, ?tt := src), lh_prev := (lh_prev H)(dst := ?ft, src := ?tt)\<rparr>"
  have sets: "?tt \<in> set (dst # xs)" "?ft \<in> set (src # ys)" by (rule last_in_set, simp)+
  have d: "distinct (dst # xs)" "distinct (src # ys)" using assms by (simp_all add: dlist_def)
  note before = last_not_before [OF d(1)] last_not_before [OF d(2)]
  have sub: "set (butlast (dst # xs)) \<subseteq> set (dst # xs)" "set (butlast (src # ys)) \<subseteq> set (src # ys)"
    by (rule subsetI, erule in_set_butlastD)+
  have ne: "?tt \<noteq> ?ft" "dst \<noteq> src" using sets assms(3) by auto
  have apart: "?ft \<notin> set (butlast (dst # xs))" "?tt \<notin> set (butlast (src # ys))" using sub sets assms(3) by blast+
  have l: "links H (dst # xs)" "links H (src # ys)"
    using assms(1,2) links_prefix [of H "dst # xs" "[dst]"] links_prefix [of H "src # ys" "[src]"] by (simp_all add: dlist_def)
  have "links ?H (dst # xs)"
  proof (subst links_cong)
    show "\<forall>a\<in>set (butlast (dst # xs)). lh_next ?H a = lh_next H a" using before(1) apart(1) by (auto simp del: last.simps butlast.simps)
    show "\<forall>a\<in>set (tl (dst # xs)). lh_prev ?H a = lh_prev H a" using d(1) assms(3) by auto
  qed (rule l)
  moreover have "links ?H (src # ys)"
  proof (subst links_cong)
    show "\<forall>a\<in>set (butlast (src # ys)). lh_next ?H a = lh_next H a" using before(2) apart(2) by (auto simp del: last.simps butlast.simps)
    show "\<forall>a\<in>set (tl (src # ys)). lh_prev ?H a = lh_prev H a" using d(2) assms(3) by auto
  qed (rule l)
  ultimately have "links ?H (dst # xs @ src # ys @ [dst])"
    using ne links_join [of ?H src ys dst "[]"] by (intro links_join) auto
  then have "dlist ?H dst (xs @ src # ys)" using assms by (auto simp: dlist_def)
  moreover have "list_append_list dst src H = bindE (list_del src ?H) (list_head_init src)"
    using dlist_ends [OF assms(1)] dlist_ends [OF assms(2)] by (simp add: list_append_list_def del: last.simps)
  ultimately show ?thesis using detach_head by metis
qed

lemma list_prepend_list_dlist:
  assumes "dlist H dst xs" "dlist H src ys" "set (dst # xs) \<inter> set (src # ys) = {}"
  shows "\<exists>H'. list_prepend_list dst src H = Inr H' \<and> dlist H' dst (ys @ xs) \<and> dlist H' src []"
proof -
  let ?th = "hd (xs @ [dst])" and ?ft = "last (src # ys)"
  let ?H = "H\<lparr>lh_prev := (lh_prev H)(src := dst, ?th := ?ft), lh_next := (lh_next H)(dst := src, ?ft := ?th)\<rparr>"
  obtain qs where qs: "xs @ [dst] = ?th # qs" by (cases xs) auto
  have sets: "?th \<in> set (dst # xs)" "?ft \<in> set (src # ys)" by (cases xs; simp) (rule last_in_set, simp)
  have d: "distinct (dst # xs)" "distinct (src # ys)" using assms by (simp_all add: dlist_def)
  have "distinct (?th # qs)" using d(1) by (simp flip: qs)
  have bq: "butlast (?th # qs) = xs" by (metis qs butlast_snoc)
  have sub: "set (butlast (src # ys)) \<subseteq> set (src # ys)" by (rule subsetI, erule in_set_butlastD)
  have sq: "set qs \<subseteq> set (dst # xs)" using arg_cong [OF qs, of set] by auto
  have "links H (xs @ [dst])" using assms(1) by (cases xs) (simp_all add: dlist_def)
  then have l: "links H (?th # qs)" "links H (src # ys)"
    using assms(2) links_prefix [of H "src # ys" "[src]"] by (simp_all add: dlist_def flip: qs)
  have "links ?H (?th # qs)"
  proof (subst links_cong)
    show "\<forall>a\<in>set (butlast (?th # qs)). lh_next ?H a = lh_next H a" unfolding bq using d(1) sets(2) assms(3) by auto
    show "\<forall>a\<in>set (tl (?th # qs)). lh_prev ?H a = lh_prev H a" using \<open>distinct (?th # qs)\<close> sq assms(3) by auto
  qed (rule l)
  moreover have "links ?H (src # ys)"
  proof (subst links_cong)
    show "\<forall>a\<in>set (butlast (src # ys)). lh_next ?H a = lh_next H a"
      using last_not_before [OF d(2)] sub assms(3) by auto
    show "\<forall>a\<in>set (tl (src # ys)). lh_prev ?H a = lh_prev H a" using d(2) sets(1) assms(3) by auto
  qed (rule l)
  ultimately have "links ?H (src # ys @ ?th # qs)" by (intro links_join) auto
  then have "links ?H (dst # src # ys @ ?th # qs)" using sets assms(3) by auto
  then have "links ?H (dst # (src # ys @ xs) @ [dst])" using qs by simp
  then have "dlist ?H dst ([] @ src # ys @ xs)" using assms by (auto simp: dlist_def)
  moreover have "list_prepend_list dst src H = bindE (list_del src ?H) (list_head_init src)"
    using dlist_ends [OF assms(1)] dlist_ends [OF assms(2)] by (simp add: list_prepend_list_def del: last.simps)
  ultimately show ?thesis using detach_head by fastforce
qed

text \<open>The safe loop may delete the entry it is at.\<close>

lemma for_each_safe_del:
  assumes "dlist H h xs" "length xs < fuel"
  shows "\<exists>H'. for_each_safe_from fuel (\<lambda>i. list_del (i + off)) h off (hd (xs @ [h])) (lh_next H (hd (xs @ [h]))) H = Inr H'
    \<and> dlist H' h []"
  using assms
proof (induction xs arbitrary: H fuel)
  case Nil
  then show ?case by (cases fuel) simp_all
next
  case (Cons x xs)
  obtain fuel' where fuel: "fuel = Suc fuel'" using Cons.prems(2) by (cases fuel) simp_all
  obtain H1 where H1: "list_del x H = Inr H1" "dlist H1 h xs" using list_del_dlist [of H h "[]" x xs] Cons.prems(1) by auto
  have "lh_next H x = hd (xs @ [h])" using Cons.prems(1) by (cases xs) (simp_all add: dlist_def)
  moreover have "x \<noteq> h" using Cons.prems(1) by (auto simp: dlist_def)
  ultimately show ?case using Cons.IH [OF H1(2), of fuel'] Cons.prems(2) fuel H1(1) dlist_ends [OF H1(2)] by simp
qed

lemma list_for_each_safe_del:
  assumes "dlist H h xs" "length xs < fuel"
  shows "\<exists>H'. list_for_each_safe_off fuel (\<lambda>i. list_del (i + off)) h off H = Inr H' \<and> dlist H' h []"
  using for_each_safe_del [OF assms] dlist_ends [OF assms(1)] by (simp add: list_for_each_safe_off_def)

section \<open>Singly linked lists\<close>

primrec spath :: "slist_heap \<Rightarrow> ptr \<Rightarrow> ptr list \<Rightarrow> bool" where
  "spath S p [] \<longleftrightarrow> S p = NULL"
| "spath S p (n # ns) \<longleftrightarrow> S p = n \<and> spath S n ns"

definition slist :: "slist_heap \<Rightarrow> ptr \<Rightarrow> ptr list \<Rightarrow> bool" where
  "slist S h xs \<longleftrightarrow> spath S h xs \<and> distinct (h # xs) \<and> NULL \<notin> set (h # xs)"

lemma spath_cong: "\<forall>a\<in>set (p # ns). S' a = S a \<Longrightarrow> spath S' p ns = spath S p ns"
  by (induction ns arbitrary: p) auto

lemma slist_add_head_ok:
  assumes "slist S h xs" "n \<notin> set (h # xs)" "n \<noteq> NULL"
  shows "\<exists>S'. slist_add_head h n S = Inr S' \<and> slist S' h (n # xs)"
proof -
  let ?S = "(S(n := S h))(h := n)"
  have "spath ?S n xs"
  proof (cases xs)
    case (Cons x ys)
    have "spath ?S x ys = spath S x ys" using assms Cons by (intro spath_cong) (auto simp: slist_def)
    then show ?thesis using assms Cons by (auto simp: slist_def)
  qed (use assms in \<open>auto simp: slist_def\<close>)
  then show ?thesis using assms by (auto simp: slist_add_head_def slist_def)
qed

lemma slist_del_ok:
  assumes "slist S h (us @ n # vs)"
  shows "\<exists>S'. slist_del (last (h # us)) n S = Inr S' \<and> slist S' h (us @ vs)"
proof -
  let ?p = "last (h # us)"
  have "spath (S(last (q # us) := S n)) q (us @ vs)"
    if "spath S q (us @ n # vs)" "distinct (q # us @ n # vs)" for q
    using that
  proof (induction us arbitrary: q)
    case Nil
    show ?case
    proof (cases vs)
      case (Cons v ws)
      have "spath (S(q := S n)) v ws = spath S v ws" using Nil Cons by (intro spath_cong) auto
      then show ?thesis using Nil Cons by (auto simp: fun_upd_def)
    qed (use Nil in simp)
  next
    case (Cons u us)
    then have "last (u # us) \<in> set (u # us)" by (intro last_in_set) simp
    then have "last (q # u # us) \<noteq> q" using Cons.prems(2) by auto
    then show ?case using Cons by simp
  qed
  then have "spath (S(?p := S n)) h (us @ vs)" using assms by (simp add: slist_def)
  moreover have "?p \<in> set (h # us)" by (rule last_in_set) simp
  then have "?p \<noteq> NULL" "n \<noteq> NULL" using assms by (auto simp: slist_def)
  ultimately show ?thesis using assms by (auto simp: slist_del_def slist_def)
qed

lemma slist_del_head_ok:
  assumes "slist S h (n # xs)"
  shows "\<exists>S'. slist_del_head h S = Inr S' \<and> slist S' h xs"
  using slist_del_ok [of S h "[]" n xs] assms by (auto simp: slist_del_head_def slist_del_def slist_def)

lemma slist_pop_ok:
  assumes "slist S h (n # xs)"
  shows "\<exists>S'. slist_pop h off S = Inr (n - off, S') \<and> slist S' h xs"
  using slist_del_ok [of S h "[]" n xs] assms by (auto simp: slist_pop_def slist_empty_def slist_def)

lemma slist_for_each_path:
  assumes "spath S p xs" "NULL \<notin> set xs" "length xs < fuel"
  shows "slist_for_each fuel f S (S p) s = foldE f xs s"
  using assms
proof (induction xs arbitrary: p fuel s)
  case (Cons x xs)
  obtain fuel' where fuel: "fuel = Suc fuel'" using Cons.prems(3) by (cases fuel) simp_all
  show ?case using Cons.IH [of x fuel'] Cons.prems fuel by (auto simp: bindE_def split: sum.splits)
qed (auto simp: less_Suc_eq_0_disj gr0_conv_Suc)

section \<open>Lists with a single head pointer\<close>

primrec hpath :: "cells \<Rightarrow> ptr \<Rightarrow> ptr list \<Rightarrow> bool" where
  "hpath C pp [] \<longleftrightarrow> C pp = NULL"
| "hpath C pp (n # ns) \<longleftrightarrow> C pp = n \<and> C (n + 8) = pp \<and> hpath C n ns"

primrec node_cells :: "ptr list \<Rightarrow> ptr list" where
  "node_cells [] = []"
| "node_cells (n # ns) = n # (n + 8) # node_cells ns"

definition hlist :: "cells \<Rightarrow> ptr \<Rightarrow> ptr list \<Rightarrow> bool" where
  "hlist C h xs \<longleftrightarrow> hpath C h xs \<and> distinct (h # node_cells xs) \<and> NULL \<notin> set (h # xs)"

definition node_fits :: "ptr \<Rightarrow> ptr \<Rightarrow> ptr list \<Rightarrow> bool" where
  "node_fits h n xs \<longleftrightarrow> n \<noteq> NULL \<and> {n, n + 8} \<inter> set (h # node_cells xs) = {}"

lemma node_cells_append [simp]: "node_cells (xs @ ys) = node_cells xs @ node_cells ys"
  by (induction xs) simp_all

lemma node_in_cells: "x \<in> set xs \<Longrightarrow> x \<in> set (node_cells xs) \<and> x + 8 \<in> set (node_cells xs)"
  by (induction xs) auto

lemma next_cell_ne [simp]: "(n :: ptr) + 8 \<noteq> n" "(n :: ptr) \<noteq> n + 8"
  by (simp_all add: eq_diff_eq [symmetric])

lemma hpath_cong: "\<forall>a\<in>set (pp # node_cells ns). C' a = C a \<Longrightarrow> hpath C' pp ns = hpath C pp ns"
  by (induction ns arbitrary: pp) auto

lemma hlist_add_head_ok:
  assumes "hlist C h xs" "node_fits h n xs"
  shows "\<exists>C'. hlist_add_head h n C = Inr C' \<and> hlist C' h (n # xs)"
proof -
  let ?C = "C(n := C h, n + 8 := h, h := n)"
  let ?D = "if C h \<noteq> NULL then ?C(C h + 8 := n) else ?C"
  have n: "n \<noteq> NULL" "n \<noteq> h" "n + 8 \<noteq> h" "n \<notin> set (node_cells xs)" "n + 8 \<notin> set (node_cells xs)"
    using assms(2) by (auto simp: node_fits_def)
  have h: "h \<notin> set (node_cells xs)" "distinct (node_cells xs)" "NULL \<notin> set xs" using assms(1) by (auto simp: hlist_def)
  have "hpath ?D h (n # xs)"
  proof (cases xs)
    case Nil
    then show ?thesis using assms(1) n by (simp add: hlist_def)
  next
    case (Cons x ys)
    have x: "C h = x" "x \<noteq> NULL" "hpath C x ys" using assms(1) Cons by (auto simp: hlist_def)
    have "hpath ?D x ys = hpath C x ys"
      using n h Cons x by (intro hpath_cong) auto
    then show ?thesis using n h Cons x by auto
  qed
  moreover have "distinct (h # node_cells (n # xs))" "NULL \<notin> set (h # n # xs)"
    using n h assms(1) by (auto simp: hlist_def)
  ultimately show ?thesis using n(1) by (simp add: hlist_add_head_def hlist_def Let_def)
qed

lemma hpath_pprev:
  assumes "hpath C pp (us @ n # vs)"
  shows "C (n + 8) = last (pp # us)" "C (last (pp # us)) = n" "hpath C n vs"
  using assms by (induction us arbitrary: pp) auto

lemma hlist_del_ok:
  assumes "hlist C h (us @ n # vs)"
  shows "\<exists>C'. hlist_del n C = Inr C' \<and> hlist C' h (us @ vs)"
proof -
  let ?p = "last (h # us)"
  let ?C = "C(?p := C n)"
  let ?D = "if C n \<noteq> NULL then ?C(C n + 8 := ?p) else ?C"
  have path: "hpath C h (us @ n # vs)" and d: "distinct (h # node_cells (us @ n # vs))" using assms by (simp_all add: hlist_def)
  note pp = hpath_pprev [OF path]
  have del: "hpath (if C n \<noteq> NULL then C(last (q # us) := C n, C n + 8 := last (q # us)) else C(last (q # us) := C n)) q (us @ vs)"
    if "hpath C q (us @ n # vs)" "distinct (q # node_cells (us @ n # vs))" "NULL \<notin> set vs" for q
    using that
  proof (induction us arbitrary: q)
    case Nil
    show ?case
    proof (cases vs)
      case (Cons v ws)
      let ?E = "C(q := C n, C n + 8 := q)"
      have v: "C n = v" "hpath C v ws" using Nil.prems(1) Cons by simp_all
      have "hpath ?E v ws = hpath C v ws" using Nil.prems(2) Cons v by (intro hpath_cong) auto
      then show ?thesis using Nil.prems Cons v by (auto simp: fun_upd_def)
    qed (use Nil in simp)
  next
    case (Cons u us)
    let ?l = "last (u # us)"
    have l: "?l \<in> set (u # us)" by (rule last_in_set) simp
    then have "?l \<in> set (node_cells (u # us))" using node_in_cells by blast
    then have ne: "?l \<noteq> q" "?l \<noteq> u + 8"
      using Cons.prems(2) l node_in_cells [of ?l us] by auto
    have nx: "C n \<noteq> NULL \<Longrightarrow> C n + 8 \<noteq> q \<and> C n + 8 \<noteq> u + 8"
    proof -
      assume "C n \<noteq> NULL"
      moreover have "hpath C n vs" using hpath_pprev(3) [OF Cons.prems(1)] .
      ultimately obtain v ws where "vs = v # ws" "C n = v" by (cases vs) auto
      then show ?thesis using Cons.prems(2) by auto
    qed
    define G where "G = (if C n \<noteq> NULL then C(?l := C n, C n + 8 := ?l) else C(?l := C n))"
    have "hpath G u (us @ vs)" unfolding G_def by (rule Cons.IH) (use Cons.prems in simp_all)
    moreover have "G q = u" "G (u + 8) = q"
      using Cons.prems(1) ne nx by (cases "C n = NULL"; simp add: G_def del: last.simps)+
    moreover have "last (q # u # us) = ?l" by simp
    ultimately show ?case by (simp only: G_def [symmetric] append_Cons hpath.simps simp_thms)
  qed
  have h': "hpath ?D h (us @ vs)" by (rule del [OF path d]) (use assms in \<open>simp add: hlist_def\<close>)
  have "?p \<in> set (h # us)" by (rule last_in_set) simp
  then have p: "?p \<noteq> NULL" "?p \<noteq> n" "?p \<noteq> n + 8"
    using assms d node_in_cells [of ?p us] by (auto simp: hlist_def)
  have nn: "n \<noteq> NULL" using assms by (auto simp: hlist_def)
  have "C n \<noteq> NULL \<Longrightarrow> ?C (n + 8) = ?p" "?C n = C n" using pp(1) p by simp_all
  then have "hlist_del n C = Inr ?D" using pp(1) p nn by (simp add: hlist_del_def Let_def del: last.simps)
  moreover have "distinct (h # node_cells (us @ vs))" "NULL \<notin> set (h # us @ vs)" using assms d by (auto simp: hlist_def)
  ultimately show ?thesis using h' by (simp add: hlist_def)
qed

lemma hlist_del_head_ok:
  assumes "hlist C h (n # xs)"
  shows "\<exists>C'. hlist_del_head h C = Inr C' \<and> hlist C' h xs"
  using hlist_del_ok [of C h "[]" n xs] assms by (auto simp: hlist_del_head_def hlist_def)

lemma hlist_for_each_path:
  assumes "hpath C p xs" "NULL \<notin> set xs" "length xs < fuel"
  shows "hlist_for_each fuel f C (C p) s = foldE f xs s"
  using assms
proof (induction xs arbitrary: p fuel s)
  case (Cons x xs)
  obtain fuel' where fuel: "fuel = Suc fuel'" using Cons.prems(3) by (cases fuel) simp_all
  show ?case using Cons.IH [of x fuel'] Cons.prems fuel by (auto simp: bindE_def split: sum.splits)
qed (auto simp: less_Suc_eq_0_disj gr0_conv_Suc)

text \<open>The safe loop of these lists, too, may delete the node it is at.\<close>

lemma hlist_for_each_safe_del:
  assumes "hlist C h xs" "length xs < fuel"
  shows "\<exists>C'. hlist_for_each_safe fuel hlist_del (C h) C = Inr C' \<and> hlist C' h []"
  using assms
proof (induction xs arbitrary: C fuel)
  case Nil
  then show ?case by (cases fuel) (auto simp: hlist_def)
next
  case (Cons x xs)
  obtain fuel' where fuel: "fuel = Suc fuel'" using Cons.prems(2) by (cases fuel) simp_all
  obtain C1 where C1: "hlist_del x C = Inr C1" "hlist C1 h xs" using hlist_del_ok [of C h "[]" x xs] Cons.prems(1) by auto
  have "C h = x" "x \<noteq> NULL" "C x = (case xs of [] \<Rightarrow> NULL | y # _ \<Rightarrow> y)" using Cons.prems(1)
    by (auto simp: hlist_def split: list.splits)
  moreover have "C1 h = (case xs of [] \<Rightarrow> NULL | y # _ \<Rightarrow> y)" using C1(2) by (auto simp: hlist_def split: list.splits)
  ultimately show ?case using Cons.IH [OF C1(2), of fuel'] Cons.prems(2) fuel C1(1) by simp
qed

section \<open>Working at the front of a list\<close>

text \<open>
  The interface the three kinds of list share: \<open>rel\<close> relates a memory to the nodes of a list, \<open>fits\<close> says which
  nodes may be added, and \<open>walk\<close> lists the nodes with a bound on the rounds of its loop.
\<close>

primrec all_fit :: "('n \<Rightarrow> 'n list \<Rightarrow> bool) \<Rightarrow> 'n list \<Rightarrow> 'n list \<Rightarrow> bool" where
  "all_fit fits [] xs \<longleftrightarrow> True"
| "all_fit fits (n # ns) xs \<longleftrightarrow> fits n xs \<and> all_fit fits ns (n # xs)"

locale front_list =
  fixes rel :: "'h \<Rightarrow> ptr list \<Rightarrow> bool"
    and fits :: "ptr \<Rightarrow> ptr list \<Rightarrow> bool"
    and push :: "ptr \<Rightarrow> 'h \<Rightarrow> 'h res"
    and drop_first :: "'h \<Rightarrow> 'h res"
    and walk :: "nat \<Rightarrow> 'h \<Rightarrow> ptr list res"
  assumes push_rel: "rel H xs \<Longrightarrow> fits n xs \<Longrightarrow> \<exists>H'. push n H = Inr H' \<and> rel H' (n # xs)"
    and drop_rel: "rel H (n # xs) \<Longrightarrow> \<exists>H'. drop_first H = Inr H' \<and> rel H' xs"
    and walk_rel: "rel H xs \<Longrightarrow> length xs < fuel \<Longrightarrow> walk fuel H = Inr xs"
begin

lemma pushes:
  assumes "rel H xs" "all_fit fits ns xs"
  shows "\<exists>H'. foldE push ns H = Inr H' \<and> rel H' (rev ns @ xs)"
  using assms
proof (induction ns arbitrary: H xs)
  case (Cons n ns)
  then obtain H1 where "push n H = Inr H1" "rel H1 (n # xs)" using push_rel by force
  then show ?case using Cons.IH [of H1 "n # xs"] Cons.prems(2) by simp
qed simp

lemma drops:
  assumes "rel H (us @ xs)"
  shows "\<exists>H'. foldE (\<lambda>_. drop_first) us H = Inr H' \<and> rel H' xs"
  using assms
proof (induction us arbitrary: H)
  case (Cons u us)
  then obtain H1 where "drop_first H = Inr H1" "rel H1 (us @ xs)" using drop_rel [of H u "us @ xs"] by auto
  then show ?case using Cons.IH by simp
qed simp

lemma last_in_first_out:
  assumes "rel H xs" "all_fit fits ns xs"
  shows "\<exists>H1 H2. foldE push ns H = Inr H1 \<and> rel H1 (rev ns @ xs) \<and> walk (Suc (length ns + length xs)) H1 = Inr (rev ns @ xs)
    \<and> foldE (\<lambda>_. drop_first) (rev ns) H1 = Inr H2 \<and> rel H2 xs"
proof -
  obtain H1 where H1: "foldE push ns H = Inr H1" "rel H1 (rev ns @ xs)" using pushes [OF assms] by blast
  obtain H2 where "foldE (\<lambda>_. drop_first) (rev ns) H1 = Inr H2" "rel H2 xs" using drops [OF H1(2)] by blast
  then show ?thesis using H1 walk_rel [OF H1(2)] by simp
qed

end

lemma foldE_collect: "foldE (\<lambda>n acc. Inr (acc @ [n])) ns acc = Inr (acc @ ns)"
  by (induction ns arbitrary: acc) simp_all

interpretation circle: front_list "\<lambda>H xs. dlist H h xs" "\<lambda>n xs. n \<noteq> NULL \<and> n \<notin> set (h # xs)" "list_add h"
    "\<lambda>H. bindE (list_pop h 0 H) (\<lambda>(n, H). Inr H)" "\<lambda>fuel H. list_for_each_off fuel (\<lambda>n acc. Inr (acc @ [n])) H h 0 []"
  for h
proof
  show "\<exists>H'. list_add h n H = Inr H' \<and> dlist H' h (n # xs)" if "dlist H h xs" "n \<noteq> NULL \<and> n \<notin> set (h # xs)" for H xs n
    using list_add_dlist [OF that(1)] that(2) by simp
  show "\<exists>H'. bindE (list_pop h 0 H) (\<lambda>(n, H). Inr H) = Inr H' \<and> dlist H' h xs" if "dlist H h (n # xs)" for H n xs
    using list_pop_dlist [OF that, of 0] by auto
  show "list_for_each_off fuel (\<lambda>n acc. Inr (acc @ [n])) H h 0 [] = Inr xs" if "dlist H h xs" "length xs < fuel" for H xs fuel
    using list_for_each_dlist [OF that, of "\<lambda>n acc. Inr (acc @ [n])" 0 "[]"] by (simp add: foldE_collect)
qed

interpretation single: front_list "\<lambda>S xs. slist S h xs" "\<lambda>n xs. n \<noteq> NULL \<and> n \<notin> set (h # xs)" "slist_add_head h"
    "slist_del_head h" "\<lambda>fuel S. slist_for_each fuel (\<lambda>n acc. Inr (acc @ [n])) S (S h) []"
  for h
proof
  show "\<exists>S'. slist_add_head h n S = Inr S' \<and> slist S' h (n # xs)" if "slist S h xs" "n \<noteq> NULL \<and> n \<notin> set (h # xs)" for S xs n
    using slist_add_head_ok [OF that(1)] that(2) by simp
  show "slist_for_each fuel (\<lambda>n acc. Inr (acc @ [n])) S (S h) [] = Inr xs" if "slist S h xs" "length xs < fuel" for S xs fuel
    using slist_for_each_path [of S h xs fuel "\<lambda>n acc. Inr (acc @ [n])" "[]"] that by (simp add: slist_def foldE_collect)
qed (rule slist_del_head_ok)

interpretation hashed: front_list "\<lambda>C xs. hlist C h xs" "\<lambda>n xs. node_fits h n xs" "hlist_add_head h"
    "hlist_del_head h" "\<lambda>fuel C. hlist_for_each fuel (\<lambda>n acc. Inr (acc @ [n])) C (C h) []"
  for h
proof
  show "hlist_for_each fuel (\<lambda>n acc. Inr (acc @ [n])) C (C h) [] = Inr xs" if "hlist C h xs" "length xs < fuel" for C xs fuel
    using hlist_for_each_path [of C h xs fuel "\<lambda>n acc. Inr (acc @ [n])" "[]"] that by (simp add: hlist_def foldE_collect)
qed (erule hlist_add_head_ok, assumption, rule hlist_del_head_ok)

section \<open>Sequences of operations\<close>

datatype list_op = Add ptr | AddTail ptr | AddAfter ptr ptr | AddBefore ptr ptr | Del ptr | Pop

definition run_op :: "ptr \<Rightarrow> list_op \<Rightarrow> list_heap \<Rightarrow> list_heap res" where
  "run_op h op H = (case op of Add n \<Rightarrow> list_add h n H | AddTail n \<Rightarrow> list_add_tail h n H
     | AddAfter p n \<Rightarrow> list_add_after p n H | AddBefore q n \<Rightarrow> list_add_before q n H
     | Del n \<Rightarrow> list_del_from h n H | Pop \<Rightarrow> bindE (list_pop h 0 H) (\<lambda>(n, H). Inr H))"

text \<open>The same operation on a list of addresses, where it may be used.\<close>

definition spec_op :: "ptr \<Rightarrow> list_op \<Rightarrow> ptr list \<Rightarrow> ptr list option" where
  "spec_op h op xs = (let fresh = (\<lambda>n. n \<noteq> NULL \<and> n \<notin> set (h # xs)) in
     case op of
       Add n \<Rightarrow> if fresh n then Some (n # xs) else None
     | AddTail n \<Rightarrow> if fresh n then Some (xs @ [n]) else None
     | AddAfter p n \<Rightarrow> if fresh n \<and> p \<in> set xs then Some (takeWhile (\<lambda>x. x \<noteq> p) xs @ p # n # tl (dropWhile (\<lambda>x. x \<noteq> p) xs)) else None
     | AddBefore q n \<Rightarrow> if fresh n \<and> q \<in> set xs then Some (takeWhile (\<lambda>x. x \<noteq> q) xs @ n # dropWhile (\<lambda>x. x \<noteq> q) xs) else None
     | Del n \<Rightarrow> if n \<in> set xs then Some (remove1 n xs) else None
     | Pop \<Rightarrow> Some (tl xs))"

primrec spec_ops :: "('op \<Rightarrow> 'a \<Rightarrow> 'a option) \<Rightarrow> 'op list \<Rightarrow> 'a \<Rightarrow> 'a option" where
  "spec_ops f [] xs = Some xs"
| "spec_ops f (op # ops) xs = (case f op xs of None \<Rightarrow> None | Some ys \<Rightarrow> spec_ops f ops ys)"

lemma spec_ops_sim:
  assumes "\<And>op H xs ys. rel H xs \<Longrightarrow> spec op xs = Some ys \<Longrightarrow> \<exists>H'. run op H = Inr H' \<and> rel H' ys"
    and "rel H xs" "spec_ops spec ops xs = Some ys"
  shows "\<exists>H'. foldE run ops H = Inr H' \<and> rel H' ys"
  using assms(2,3)
proof (induction ops arbitrary: H xs)
  case (Cons op ops)
  then obtain zs where zs: "spec op xs = Some zs" "spec_ops spec ops zs = Some ys" by (auto split: option.splits)
  from assms(1) [OF Cons.prems(1) zs(1)] obtain H1 where "run op H = Inr H1" "rel H1 zs" by blast
  then show ?case using Cons.IH [of H1 zs] zs(2) by simp
qed simp

lemma around:
  assumes "p \<in> set xs"
  shows "xs = takeWhile (\<lambda>x. x \<noteq> p) xs @ p # tl (dropWhile (\<lambda>x. x \<noteq> p) xs)"
    and "dropWhile (\<lambda>x. x \<noteq> p) xs = p # tl (dropWhile (\<lambda>x. x \<noteq> p) xs)"
  using assms by (induction xs) auto

lemma remove1_around: "n \<notin> set us \<Longrightarrow> remove1 n (us @ n # vs) = us @ vs"
  by (simp add: remove1_append)

lemma run_op_refines:
  assumes "dlist H h xs" "spec_op h op xs = Some ys"
  shows "\<exists>H'. run_op h op H = Inr H' \<and> dlist H' h ys"
proof (cases op)
  case (Add n)
  then show ?thesis using assms list_add_dlist by (auto simp: run_op_def spec_op_def split: if_splits)
next
  case (AddTail n)
  then show ?thesis using assms list_add_tail_dlist by (auto simp: run_op_def spec_op_def split: if_splits)
next
  case (AddAfter p n)
  then have p: "p \<in> set xs" "n \<noteq> NULL" "n \<notin> set (h # xs)"
    "ys = takeWhile (\<lambda>x. x \<noteq> p) xs @ p # n # tl (dropWhile (\<lambda>x. x \<noteq> p) xs)"
    using assms(2) by (auto simp: spec_op_def split: if_splits)
  note x = around(1) [OF p(1)]
  show ?thesis unfolding AddAfter p(4) run_op_def list_op.case
    by (rule list_add_after_dlist) (use assms(1) p(2,3) x in simp_all)
next
  case (AddBefore q n)
  then have q: "q \<in> set xs" "n \<noteq> NULL" "n \<notin> set (h # xs)"
    "ys = takeWhile (\<lambda>x. x \<noteq> q) xs @ n # dropWhile (\<lambda>x. x \<noteq> q) xs"
    using assms(2) by (auto simp: spec_op_def split: if_splits)
  let ?us = "takeWhile (\<lambda>x. x \<noteq> q) xs" and ?vs = "tl (dropWhile (\<lambda>x. x \<noteq> q) xs)"
  have x: "xs = ?us @ q # ?vs" by (rule around(1) [OF q(1)])
  have ys: "ys = ?us @ n # q # ?vs"
    using q(4) arg_cong [OF around(2) [OF q(1)], of "\<lambda>z. ?us @ n # z"] by (rule trans)
  show ?thesis unfolding AddBefore ys run_op_def list_op.case
    by (rule list_add_before_dlist) (use assms(1) q(2,3) x in simp_all)
next
  case (Del n)
  then have n: "n \<in> set xs" "ys = remove1 n xs" using assms(2) by (auto simp: spec_op_def split: if_splits)
  then obtain us vs where xs: "xs = us @ n # vs" by (meson split_list)
  then have "n \<notin> set us" using assms(1) by (auto simp: dlist_def)
  then show ?thesis using list_del_dlist [of H h us n vs] assms(1) Del n xs
    by (auto simp: run_op_def list_del_from_def remove1_around)
next
  case Pop
  then show ?thesis using assms list_pop_empty [of H h 0] list_pop_dlist [of H h _ _ 0]
    by (cases xs) (fastforce simp: run_op_def spec_op_def)+
qed

text \<open>
  C28. Every sequence of operations on a circular list that is allowed on the list of its nodes returns, and leaves the
  circle through the nodes that sequence yields; iterating then visits exactly these nodes, in order, and ends.
\<close>

theorem list_ops_refine:
  assumes "dlist H h xs" "spec_ops (spec_op h) ops xs = Some ys"
  shows "\<exists>H'. foldE (run_op h) ops H = Inr H' \<and> dlist H' h ys
    \<and> list_for_each_off (Suc (length ys)) (\<lambda>i acc. Inr (acc @ [i])) H' h 0 [] = Inr ys"
proof -
  have "\<exists>H'. foldE (run_op h) ops H = Inr H' \<and> dlist H' h ys"
    by (rule spec_ops_sim [where rel = "\<lambda>H. dlist H h", OF run_op_refines assms])
  then obtain H' where H': "foldE (run_op h) ops H = Inr H'" "dlist H' h ys" by blast
  then show ?thesis using circle.walk_rel [OF H'(2), of "Suc (length ys)"] by simp
qed

lemma list_ops_refine_witness:
  "\<exists>H0 H'. list_head_init 64 \<lparr>lh_next = \<lambda>_. 0, lh_prev = \<lambda>_. 0\<rparr> = Inr H0
    \<and> foldE (run_op 64) [Add 8, AddTail 16, AddAfter 8 24, AddBefore 8 32, Del 16, Pop] H0 = Inr H' \<and> dlist H' 64 [8, 24]"
proof -
  obtain H0 where H0: "list_head_init 64 \<lparr>lh_next = \<lambda>_. 0, lh_prev = \<lambda>_. 0\<rparr> = Inr H0" "dlist H0 64 []"
    using list_head_init_dlist [of 64] by auto
  have "spec_ops (spec_op 64) [Add 8, AddTail 16, AddAfter 8 24, AddBefore 8 32, Del 16, Pop] [] = Some [8, 24]"
    by (simp add: spec_op_def)
  from list_ops_refine [OF H0(2) this] H0(1) show ?thesis by blast
qed

text \<open>
  Splicing empties one circle into another, at its end or at its start, with every node kept and in order.
\<close>

lemma splice_moves_all:
  assumes "dlist H h xs" "dlist H g ys" "set (h # xs) \<inter> set (g # ys) = {}"
  shows "(\<exists>H'. list_append_list h g H = Inr H' \<and> dlist H' h (xs @ ys) \<and> dlist H' g [])
    \<and> (\<exists>H'. list_prepend_list h g H = Inr H' \<and> dlist H' h (ys @ xs) \<and> dlist H' g [])"
  using list_append_list_dlist [OF assms] list_prepend_list_dlist [OF assms] by (rule conjI)

lemma splice_moves_all_witness:
  "\<exists>H H'. list_append_list 64 128 H = Inr H' \<and> dlist H' 64 [8, 16]"
proof -
  let ?H = "\<lparr>lh_next = (\<lambda>_. 0)(64 := 8, 8 := 64, 128 := 16, 16 := 128), lh_prev = (\<lambda>_. 0)(64 := 8, 8 := 64, 128 := 16, 16 := 128)\<rparr>"
  have "dlist ?H 64 [8]" "dlist ?H 128 [16]" by (simp_all add: dlist_def)
  from splice_moves_all [OF this] show ?thesis by auto
qed

datatype hlist_op = HAdd ptr | HDel ptr | HDelHead

definition run_hlist_op :: "ptr \<Rightarrow> hlist_op \<Rightarrow> cells \<Rightarrow> cells res" where
  "run_hlist_op h op C = (case op of HAdd n \<Rightarrow> hlist_add_head h n C | HDel n \<Rightarrow> hlist_del n C | HDelHead \<Rightarrow> hlist_del_head h C)"

definition spec_hlist_op :: "ptr \<Rightarrow> hlist_op \<Rightarrow> ptr list \<Rightarrow> ptr list option" where
  "spec_hlist_op h op xs = (case op of HAdd n \<Rightarrow> if node_fits h n xs then Some (n # xs) else None
     | HDel n \<Rightarrow> if n \<in> set xs then Some (remove1 n xs) else None | HDelHead \<Rightarrow> Some (tl xs))"

lemma run_hlist_op_refines:
  assumes "hlist C h xs" "spec_hlist_op h op xs = Some ys"
  shows "\<exists>C'. run_hlist_op h op C = Inr C' \<and> hlist C' h ys"
proof (cases op)
  case (HAdd n)
  then show ?thesis using assms hlist_add_head_ok by (auto simp: run_hlist_op_def spec_hlist_op_def split: if_splits)
next
  case (HDel n)
  then have n: "n \<in> set xs" "ys = remove1 n xs" using assms(2) by (auto simp: spec_hlist_op_def split: if_splits)
  then obtain us vs where xs: "xs = us @ n # vs" by (meson split_list)
  have "n \<notin> set us"
  proof
    assume "n \<in> set us"
    then show False using assms(1) xs node_in_cells [of n us] by (auto simp: hlist_def)
  qed
  then show ?thesis using hlist_del_ok [of C h us n vs] assms(1) HDel n xs by (auto simp: run_hlist_op_def remove1_around)
next
  case HDelHead
  show ?thesis
  proof (cases xs)
    case Nil
    then show ?thesis using assms HDelHead by (auto simp: run_hlist_op_def spec_hlist_op_def hlist_del_head_def hlist_def)
  next
    case (Cons x zs)
    then show ?thesis using assms HDelHead hlist_del_head_ok [of C h x zs] by (auto simp: run_hlist_op_def spec_hlist_op_def)
  qed
qed

text \<open>
  A list with a single head pointer keeps its shape under additions at the head and removals anywhere: each node's
  \<open>pprev\<close> is the address of the pointer that points at the node, so that a removal needs neither the head nor a
  walk, and the loop that deletes every node ends with an empty list.
\<close>

lemma hlist_ops_refine:
  assumes "hlist C h xs" "spec_ops (spec_hlist_op h) ops xs = Some ys"
  shows "\<exists>C'. foldE (run_hlist_op h) ops C = Inr C' \<and> hlist C' h ys
    \<and> (\<exists>C''. hlist_for_each_safe (Suc (length ys)) hlist_del (C' h) C' = Inr C'' \<and> hlist C'' h [])"
proof -
  have "\<exists>C'. foldE (run_hlist_op h) ops C = Inr C' \<and> hlist C' h ys"
    by (rule spec_ops_sim [where rel = "\<lambda>C. hlist C h", OF run_hlist_op_refines assms])
  then obtain C' where C': "foldE (run_hlist_op h) ops C = Inr C'" "hlist C' h ys" by blast
  then show ?thesis using hlist_for_each_safe_del [OF C'(2), of "Suc (length ys)"] by simp
qed

lemma hlist_ops_refine_witness:
  "\<exists>C'. foldE (run_hlist_op 64) [HAdd 128, HAdd 160, HAdd 192, HDel 160] (hlist_init_head 64 (\<lambda>_. 1)) = Inr C' \<and> hlist C' 64 [192, 128]"
proof -
  have "hlist (hlist_init_head 64 (\<lambda>_. 1)) 64 []" by (simp add: hlist_def hlist_init_head_def)
  moreover have "spec_ops (spec_hlist_op 64) [HAdd 128, HAdd 160, HAdd 192, HDel 160] [] = Some [192, 128]"
    by (simp add: spec_hlist_op_def node_fits_def)
  ultimately show ?thesis using hlist_ops_refine [of "hlist_init_head 64 (\<lambda>_. 1)" 64 "[]"] by blast
qed

end
