(* ===== verification/Chains.thy ===== *)
theory Chains
  imports Lists
begin

text \<open>
  Singly linked chains of buffers: the queues of inc/net/mbufq.h and the item caches of inc/base/tcache.h. The member
  that links them is a map from addresses; NULL has none.
\<close>

type_synonym nexts = "ptr \<Rightarrow> ptr"

definition next_of :: "nexts \<Rightarrow> ptr \<Rightarrow> ptr res" where
  "next_of H p = (if p = NULL then Inl NullDeref else Inr (H p))"

definition set_next_of :: "ptr \<Rightarrow> ptr \<Rightarrow> nexts \<Rightarrow> nexts res" where
  "set_next_of p v H = (if p = NULL then Inl NullDeref else Inr (H(p := v)))"

lemma next_of_ok [simp]: "p \<noteq> NULL \<Longrightarrow> next_of H p = Inr (H p)" "p \<noteq> NULL \<Longrightarrow> set_next_of p v H = Inr (H(p := v))"
  by (simp_all add: next_of_def set_next_of_def)

primrec chain :: "nexts \<Rightarrow> ptr \<Rightarrow> ptr list \<Rightarrow> bool" where
  "chain H p [] \<longleftrightarrow> p = NULL"
| "chain H p (x # xs) \<longleftrightarrow> p = x \<and> x \<noteq> NULL \<and> chain H (H x) xs"

lemma chain_cong: "(\<And>x. x \<in> set xs \<Longrightarrow> H' x = H x) \<Longrightarrow> chain H' p xs = chain H p xs"
  by (induction xs arbitrary: p) auto

lemma chain_upd [simp]: "x \<notin> set xs \<Longrightarrow> chain (H(x := v)) p xs = chain H p xs"
  by (rule chain_cong) auto

lemma chain_NULL [simp]: "chain H NULL xs \<longleftrightarrow> xs = []"
  by (cases xs) auto

lemma chain_not_NULL: "chain H p xs \<Longrightarrow> x \<in> set xs \<Longrightarrow> x \<noteq> NULL"
  by (induction xs arbitrary: p) auto

lemma chain_join:
  assumes "chain H p xs" "distinct xs" "xs \<noteq> []" "chain H q ys" "set xs \<inter> set ys = {}"
  shows "chain (H(last xs := q)) p (xs @ ys)"
  using assms
proof (induction xs arbitrary: p)
  case (Cons x xs)
  show ?case
  proof (cases "xs = []")
    case True
    then show ?thesis using Cons.prems by (simp del: fun_upd_apply add: fun_upd_same)
  next
    case False
    then have "last xs \<noteq> x" using Cons.prems(2) by auto
    then show ?thesis using Cons.IH [of "H x"] Cons.prems False by auto
  qed
qed simp

section \<open>inc/net/mbufq.h\<close>

record mbufq =
  q_head :: ptr
  q_tail :: ptr

definition mbufq_init :: "mbufq \<Rightarrow> mbufq" where
  "mbufq_init q = q\<lparr>q_head := NULL\<rparr>"

definition mbufq_empty :: "mbufq \<Rightarrow> bool" where
  "mbufq_empty q \<longleftrightarrow> q_head q = NULL"

definition mbufq_peak_head :: "mbufq \<Rightarrow> ptr" where
  "mbufq_peak_head q = q_head q"

definition mbufq_push_tail :: "ptr \<Rightarrow> mbufq \<times> nexts \<Rightarrow> (mbufq \<times> nexts) res" where
  "mbufq_push_tail m = (\<lambda>(q, H). bindE (set_next_of m NULL H) (\<lambda>H.
     if q_head q = NULL then Inr (q\<lparr>q_head := m, q_tail := m\<rparr>, H)
     else bindE (set_next_of (q_tail q) m H) (\<lambda>H. Inr (q\<lparr>q_tail := m\<rparr>, H))))"

definition mbufq_pop_head :: "mbufq \<times> nexts \<Rightarrow> (ptr \<times> mbufq \<times> nexts) res" where
  "mbufq_pop_head = (\<lambda>(q, H).
     let head = q_head q in
     if head = NULL then Inr (NULL, q, H)
     else bindE (next_of H head) (\<lambda>n. Inr (head, q\<lparr>q_head := n\<rparr>, H)))"

text \<open>The two queues and the links.\<close>

definition mbufq_merge_to_tail :: "mbufq \<Rightarrow> mbufq \<Rightarrow> nexts \<Rightarrow> (mbufq \<times> mbufq \<times> nexts) res" where
  "mbufq_merge_to_tail dst src H =
     (if q_head src = NULL then Inr (dst, src, H)
      else bindE (if q_head dst = NULL then Inr (dst\<lparr>q_head := q_head src\<rparr>, H)
          else bindE (set_next_of (q_tail dst) (q_head src) H) (\<lambda>H. Inr (dst, H)))
        (\<lambda>(dst, H). Inr (dst\<lparr>q_tail := q_tail src\<rparr>, src\<lparr>q_head := NULL\<rparr>, H)))"

text \<open>What freeing a buffer does to the rest of the program and to the links is a parameter.\<close>

primrec mbufq_release :: "nat \<Rightarrow> (ptr \<Rightarrow> 's \<times> nexts \<Rightarrow> ('s \<times> nexts) res) \<Rightarrow> mbufq \<Rightarrow> 's \<times> nexts \<Rightarrow> (mbufq \<times> 's \<times> nexts) res" where
  "mbufq_release 0 free q s = Inl NoFuel"
| "mbufq_release (Suc k) free q s =
     bindE (mbufq_pop_head (q, snd s)) (\<lambda>(m, q, H).
     if m = NULL then Inr (q, fst s, H)
     else bindE (free m (fst s, H)) (mbufq_release k free q))"

section \<open>Queues and lists\<close>

definition queue_of :: "mbufq \<times> nexts \<Rightarrow> ptr list \<Rightarrow> bool" where
  "queue_of s xs \<longleftrightarrow> chain (snd s) (q_head (fst s)) xs \<and> distinct xs \<and> (xs \<noteq> [] \<longrightarrow> q_tail (fst s) = last xs)"

primrec pops :: "('s \<Rightarrow> ('a \<times> 's) res) \<Rightarrow> nat \<Rightarrow> 's \<Rightarrow> ('a list \<times> 's) res" where
  "pops pop 0 s = Inr ([], s)"
| "pops pop (Suc n) s = bindE (pop s) (\<lambda>(x, s). bindE (pops pop n s) (\<lambda>(xs, s). Inr (x # xs, s)))"

text \<open>What a queue of buffers promises, whatever it is made of.\<close>

locale fifo =
  fixes holds :: "'s \<Rightarrow> 'a list \<Rightarrow> bool"
    and fits :: "'a \<Rightarrow> 'a list \<Rightarrow> bool"
    and push :: "'a \<Rightarrow> 's \<Rightarrow> 's res"
    and pop :: "'s \<Rightarrow> ('a \<times> 's) res"
  assumes push_law: "holds s xs \<Longrightarrow> fits x xs \<Longrightarrow> \<exists>t. push x s = Inr t \<and> holds t (xs @ [x])"
    and pop_law: "holds s (x # xs) \<Longrightarrow> \<exists>t. pop s = Inr (x, t) \<and> holds t xs"
    and fits_law: "fits x (y # xs) \<Longrightarrow> fits x xs"
begin

lemma pops_holds: "holds s (xs @ ys) \<Longrightarrow> \<exists>t. pops pop (length xs) s = Inr (xs, t) \<and> holds t ys"
proof (induction xs arbitrary: s)
  case (Cons x xs)
  then obtain t where "pop s = Inr (x, t)" "holds t (xs @ ys)" using pop_law [of s x "xs @ ys"] by auto
  then show ?case using Cons.IH [of t] by auto
qed simp

lemma first_in_first_out:
  assumes "holds s xs" "\<And>us y vs. ys = us @ y # vs \<Longrightarrow> fits y (xs @ us)"
  shows "\<exists>t u. foldE push ys s = Inr t \<and> pops pop (length (xs @ ys)) t = Inr (xs @ ys, u) \<and> holds u []"
proof -
  have "\<exists>t. foldE push ys s = Inr t \<and> holds t (xs @ ys)"
    using assms
  proof (induction ys arbitrary: s xs)
    case (Cons y ys)
    obtain t where t: "push y s = Inr t" "holds t (xs @ [y])" using push_law [OF Cons.prems(1)] Cons.prems(2) [of "[]" y ys] by auto
    have "fits z ((xs @ [y]) @ us)" if "ys = us @ z # vs" for us z vs using Cons.prems(2) [of "y # us" z vs] that by simp
    from Cons.IH [OF t(2) this] t(1) show ?case by auto
  qed simp
  then show ?thesis using pops_holds [of _ "xs @ ys" "[]"] by auto
qed

end

interpretation mbufq: fifo queue_of "\<lambda>m xs. m \<noteq> NULL \<and> m \<notin> set xs" mbufq_push_tail "\<lambda>s. mbufq_pop_head s"
proof
  fix s :: "mbufq \<times> nexts" and xs x
  assume q: "queue_of s xs" and x: "x \<noteq> NULL \<and> x \<notin> set xs"
  obtain q0 H where s: "s = (q0, H)" by (cases s)
  show "\<exists>t. mbufq_push_tail x s = Inr t \<and> queue_of t (xs @ [x])"
  proof (cases "xs = []")
    case True
    then show ?thesis using q x by (simp add: queue_of_def s mbufq_push_tail_def)
  next
    case False
    then have t: "q_tail q0 = last xs" "chain H (q_head q0) xs" "distinct xs" using q by (simp_all add: queue_of_def s)
    then have "q_head q0 \<noteq> NULL" "last xs \<noteq> NULL" using False chain_not_NULL [OF t(2)] by (auto simp: neq_Nil_conv)
    moreover have "chain (H(x := NULL)) (q_head q0) xs" using t(2) x by simp
    then have "chain (H(x := NULL, last xs := x)) (q_head q0) (xs @ [x])" using chain_join [of "H(x := NULL)" _ xs x "[x]"] t(3) x False by simp
    ultimately show ?thesis using t x by (simp add: queue_of_def s mbufq_push_tail_def)
  qed
next
  fix s :: "mbufq \<times> nexts" and x xs
  assume "queue_of s (x # xs)"
  then show "\<exists>t. mbufq_pop_head s = Inr (x, t) \<and> queue_of t xs"
    by (cases s) (auto simp: queue_of_def mbufq_pop_head_def split: if_splits)
qed auto

text \<open>Merging appends one queue to the other and leaves it empty.\<close>

lemma mbufq_merge_appends:
  assumes "queue_of (dst, H) xs" "queue_of (src, H) ys" "set xs \<inter> set ys = {}"
  shows "\<exists>d s H'. mbufq_merge_to_tail dst src H = Inr (d, s, H') \<and> queue_of (d, H') (xs @ ys) \<and> queue_of (s, H') []"
proof (cases "ys = []")
  case True
  then show ?thesis using assms by (auto simp: mbufq_merge_to_tail_def queue_of_def)
next
  case ys: False
  then have src: "q_head src \<noteq> NULL" "chain H (q_head src) ys" "q_tail src = last ys" "distinct ys"
    using assms(2) by (auto simp: queue_of_def neq_Nil_conv)
  show ?thesis
  proof (cases "xs = []")
    case True
    then show ?thesis using assms(1) src ys by (auto simp: mbufq_merge_to_tail_def queue_of_def)
  next
    case False
    have dst: "chain H (q_head dst) xs" "q_tail dst = last xs" "distinct xs" using assms(1) False by (auto simp: queue_of_def)
    then have n: "q_head dst \<noteq> NULL" "last xs \<noteq> NULL" using False chain_not_NULL [OF dst(1)] by (auto simp: neq_Nil_conv)
    show ?thesis using src n dst(2,3) ys assms(3) chain_join [OF dst(1,3) False src(2) assms(3)]
      by (auto simp: mbufq_merge_to_tail_def queue_of_def)
  qed
qed

text \<open>Releasing a queue frees its buffers once each and in order, as long as freeing one leaves the links of the others alone.\<close>

lemma mbufq_release_all:
  assumes "chain (snd s) (q_head q) xs" "distinct xs" "length xs < fuel" "foldE free xs s = Inr s'"
    and "\<And>m s s' x. free m s = Inr s' \<Longrightarrow> x \<noteq> m \<Longrightarrow> snd s' x = snd s x"
  shows "mbufq_release fuel free q s = Inr (q\<lparr>q_head := NULL\<rparr>, s')"
  using assms(1-4)
proof (induction fuel arbitrary: xs q s)
  case (Suc k)
  show ?case
  proof (cases xs)
    case Nil
    then show ?thesis using Suc.prems by (cases s) (simp add: mbufq_pop_head_def)
  next
    case (Cons x ys)
    then have x: "q_head q = x" "x \<noteq> NULL" "chain (snd s) (snd s x) ys" "x \<notin> set ys" "distinct ys" using Suc.prems by auto
    obtain t where t: "free x s = Inr t" "foldE free ys t = Inr s'" using Suc.prems(4) Cons by (auto elim: bindE_InrE)
    have "chain (snd t) (snd s x) ys" using x(3,4) assms(5) [OF t(1)] chain_cong [of ys "snd t" "snd s"] by metis
    then have "mbufq_release k free (q\<lparr>q_head := snd s x\<rparr>) t = Inr (q\<lparr>q_head := snd s x, q_head := NULL\<rparr>, s')"
      using Suc.IH [of t "q\<lparr>q_head := snd s x\<rparr>" ys] x(5) t(2) Suc.prems(3) Cons by simp
    then show ?thesis using x(1,2) t(1) by (cases s) (simp add: mbufq_pop_head_def)
  qed
qed simp

section \<open>inc/base/tcache.h\<close>

text \<open>The slow paths, which exchange magazines with the shared cache, are not in the repository and are parameters.\<close>

record tcache_perthread =
  tc_rounds :: u32
  tc_capacity :: u32
  tc_loaded :: ptr
  tc_previous :: ptr

definition tcache_alloc ::
  "(tcache_perthread \<times> nexts \<Rightarrow> (ptr \<times> tcache_perthread \<times> nexts) res) \<Rightarrow> tcache_perthread \<times> nexts \<Rightarrow> (ptr \<times> tcache_perthread \<times> nexts) res" where
  "tcache_alloc slow = (\<lambda>(ltc, H).
     let item = tc_loaded ltc in
     if tc_rounds ltc = 0 then slow (ltc, H)
     else let ltc = ltc\<lparr>tc_rounds := tc_rounds ltc - 1\<rparr> in
       bindE (next_of H (tc_loaded ltc)) (\<lambda>n. Inr (item, ltc\<lparr>tc_loaded := n\<rparr>, H)))"

definition tcache_free ::
  "(ptr \<Rightarrow> tcache_perthread \<times> nexts \<Rightarrow> (tcache_perthread \<times> nexts) res) \<Rightarrow> ptr \<Rightarrow> tcache_perthread \<times> nexts \<Rightarrow> (tcache_perthread \<times> nexts) res" where
  "tcache_free slow item = (\<lambda>(ltc, H).
     if tc_capacity ltc \<le> tc_rounds ltc then slow item (ltc, H)
     else let ltc = ltc\<lparr>tc_rounds := tc_rounds ltc + 1\<rparr> in
       bindE (set_next_of item (tc_loaded ltc) H) (\<lambda>H. Inr (ltc\<lparr>tc_loaded := item\<rparr>, H)))"

text \<open>The loaded magazine as a stack of the items, one for every round.\<close>

definition magazine :: "u32 \<Rightarrow> tcache_perthread \<times> nexts \<Rightarrow> ptr list \<Rightarrow> bool" where
  "magazine cap s xs \<longleftrightarrow> chain (snd s) (tc_loaded (fst s)) xs \<and> unat (tc_rounds (fst s)) = length xs \<and> tc_capacity (fst s) = cap"

primrec walk_magazine :: "nat \<Rightarrow> nexts \<Rightarrow> ptr \<Rightarrow> ptr list" where
  "walk_magazine 0 H p = []"
| "walk_magazine (Suc k) H p = (if p = NULL then [] else p # walk_magazine k H (H p))"

lemma walk_magazine_chain: "chain H p xs \<Longrightarrow> length xs < fuel \<Longrightarrow> walk_magazine fuel H p = xs"
  by (induction fuel arbitrary: p xs) (case_tac xs; auto)+

interpretation magazine: front_list "magazine cap" "\<lambda>n xs. n \<noteq> NULL \<and> n \<notin> set xs \<and> length xs < unat cap" "tcache_free put"
  "\<lambda>s. bindE (tcache_alloc get s) (\<lambda>(_, s). Inr s)" "\<lambda>fuel s. Inr (walk_magazine fuel (snd s) (tc_loaded (fst s)))" for cap get put
proof
  fix s :: "tcache_perthread \<times> nexts" and xs n
  assume m: "magazine cap s xs" and n: "n \<noteq> NULL \<and> n \<notin> set xs \<and> length xs < unat cap"
  obtain l H where s: "s = (l, H)" by (cases s)
  have r: "unat (tc_rounds l) = length xs" "tc_capacity l = cap" "chain H (tc_loaded l) xs" using m by (simp_all add: magazine_def s)
  have "unat cap < 2 ^ LENGTH(32)" by (rule unsigned_less)
  then have "unat (tc_rounds l + 1) = Suc (length xs)" using r(1) n by (simp add: unat_plus_if')
  moreover have "\<not> tc_capacity l \<le> tc_rounds l" using r n by (simp add: word_le_nat_alt)
  ultimately show "\<exists>t. tcache_free put n s = Inr t \<and> magazine cap t (n # xs)"
    using n r by (simp add: tcache_free_def s magazine_def)
next
  fix s :: "tcache_perthread \<times> nexts" and xs n
  assume m: "magazine cap s (n # xs)"
  obtain l H where s: "s = (l, H)" by (cases s)
  have r: "unat (tc_rounds l) = Suc (length xs)" using m by (simp add: magazine_def s)
  then have "tc_rounds l \<noteq> 0" "1 \<le> tc_rounds l" by (auto simp: word_le_nat_alt)
  then have "unat (tc_rounds l - 1) = length xs" using r by (simp add: unat_sub)
  then show "\<exists>t. bindE (tcache_alloc get s) (\<lambda>(_, s). Inr s) = Inr t \<and> magazine cap t xs"
    using m \<open>tc_rounds l \<noteq> 0\<close> by (auto simp: tcache_alloc_def s magazine_def)
next
  fix s :: "tcache_perthread \<times> nexts" and xs fuel
  assume "magazine cap s xs" "length xs < fuel"
  then show "Inr (walk_magazine fuel (snd s) (tc_loaded (fst s))) = Inr xs" by (simp add: magazine_def walk_magazine_chain)
qed

text \<open>The item freed last is the next one allocated.\<close>

lemma tcache_alloc_top:
  assumes "magazine cap s (x # xs)"
  shows "\<exists>t. tcache_alloc slow s = Inr (x, t) \<and> magazine cap t xs"
proof -
  obtain l H where s: "s = (l, H)" by (cases s)
  have l: "tc_loaded l = x" "x \<noteq> NULL" "tc_rounds l \<noteq> 0" using assms by (auto simp: magazine_def s)
  obtain t where "bindE (tcache_alloc slow s) (\<lambda>(_, s). Inr s) = Inr t" "magazine cap t xs" using magazine.drop_rel [OF assms] by blast
  then show ?thesis using l by (auto simp: tcache_alloc_def s)
qed

end
