(* ===== verification/Channel.thy ===== *)
theory Channel
  imports Stddef
begin

text \<open>
  The channels between threads of inc/base/lrpc.h: a ring of messages in which one bit of each command says in which lap it
  was written. The operations are given as the accesses to shared memory they consist of; a sender and a receiver are run
  against each other in every interleaving of these. The slow path of sending is not in the repository and is a parameter of \<open>lrpc_send\<close>.
\<close>

section \<open>The structures\<close>

record lrpc_msg =
  lm_cmd :: u64
  lm_payload :: u64

record lrpc_chan_out =
  send_head :: u32
  send_tail :: u32
  out_size :: u32

record lrpc_chan_in =
  recv_head :: u32
  in_size :: u32

definition LRPC_DONE_PARITY :: u64 where
  "LRPC_DONE_PARITY = push_bit 63 1"

definition LRPC_CMD_MASK :: u64 where
  "LRPC_CMD_MASK = NOT LRPC_DONE_PARITY"

definition lrpc_slot :: "u32 \<Rightarrow> u32 \<Rightarrow> nat" where
  "lrpc_slot pos sz = unat (pos AND (sz - 1))"

definition lrpc_parity :: "u32 \<Rightarrow> u32 \<Rightarrow> u64" where
  "lrpc_parity pos sz = (if pos AND sz \<noteq> 0 then 0 else LRPC_DONE_PARITY)"

section \<open>Sending\<close>

definition lrpc_full :: "lrpc_chan_out \<Rightarrow> bool" where
  "lrpc_full out \<longleftrightarrow> out_size out \<le> send_head out - send_tail out"

text \<open>The payload is written; what remains is to store the command with its parity in the same slot.\<close>

definition lrpc_fill :: "lrpc_chan_out \<Rightarrow> u64 \<Rightarrow> u64 \<Rightarrow> lrpc_msg list \<Rightarrow> (nat \<times> u64 \<times> lrpc_chan_out \<times> lrpc_msg list) res" where
  "lrpc_fill out c p tbl =
     (let i = lrpc_slot (send_head out) (out_size out);
          c = c OR lrpc_parity (send_head out) (out_size out);
          out = out\<lparr>send_head := send_head out + 1\<rparr>
      in bindE (nthE tbl i) (\<lambda>m. bindE (updE tbl i (m\<lparr>lm_payload := p\<rparr>)) (\<lambda>tbl. Inr (i, c, out, tbl))))"

definition lrpc_publish :: "nat \<Rightarrow> u64 \<Rightarrow> lrpc_msg list \<Rightarrow> lrpc_msg list res" where
  "lrpc_publish i c tbl = bindE (nthE tbl i) (\<lambda>m. updE tbl i (m\<lparr>lm_cmd := c\<rparr>))"

definition lrpc_send ::
  "(lrpc_chan_out \<Rightarrow> u64 \<Rightarrow> u64 \<Rightarrow> lrpc_msg list \<Rightarrow> (bool \<times> lrpc_chan_out \<times> lrpc_msg list) res)
    \<Rightarrow> lrpc_chan_out \<Rightarrow> u64 \<Rightarrow> u64 \<Rightarrow> lrpc_msg list \<Rightarrow> (bool \<times> lrpc_chan_out \<times> lrpc_msg list) res" where
  "lrpc_send slow out c p tbl =
     (if lrpc_full out then slow out c p tbl
      else bindE (lrpc_fill out c p tbl) (\<lambda>(i, c, out, tbl). bindE (lrpc_publish i c tbl) (\<lambda>tbl. Inr (True, out, tbl))))"

definition lrpc_get_cached_send_window :: "lrpc_chan_out \<Rightarrow> u32" where
  "lrpc_get_cached_send_window out = out_size out - send_head out + send_tail out"

definition lrpc_get_cached_length :: "lrpc_chan_out \<Rightarrow> u32" where
  "lrpc_get_cached_length out = send_head out - send_tail out"

definition lrpc_poll_send_tail :: "lrpc_chan_out \<Rightarrow> u32 \<Rightarrow> u32 \<times> lrpc_chan_out" where
  "lrpc_poll_send_tail out wb = (let out = out\<lparr>send_tail := wb\<rparr> in (send_tail out, out))"

section \<open>Receiving\<close>

text \<open>The command is loaded and its parity compared; if it is of this lap the head advances.\<close>

definition lrpc_accept :: "lrpc_chan_in \<Rightarrow> lrpc_msg list \<Rightarrow> ((nat \<times> u64) option \<times> lrpc_chan_in) res" where
  "lrpc_accept inp tbl =
     (let i = lrpc_slot (recv_head inp) (in_size inp);
          parity = lrpc_parity (recv_head inp) (in_size inp)
      in bindE (nthE tbl i) (\<lambda>m.
         if lm_cmd m AND LRPC_DONE_PARITY \<noteq> parity then Inr (None, inp)
         else Inr (Some (i, lm_cmd m), inp\<lparr>recv_head := recv_head inp + 1\<rparr>)))"

definition lrpc_take :: "nat \<Rightarrow> u64 \<Rightarrow> lrpc_msg list \<Rightarrow> (u64 \<times> u64) res" where
  "lrpc_take i c tbl = bindE (nthE tbl i) (\<lambda>m. Inr (c AND LRPC_CMD_MASK, lm_payload m))"

text \<open>The message, the channel, and the value written back for the sender, if there is one.\<close>

definition lrpc_recv :: "lrpc_chan_in \<Rightarrow> lrpc_msg list \<Rightarrow> ((u64 \<times> u64) option \<times> lrpc_chan_in \<times> u32 option) res" where
  "lrpc_recv inp tbl =
     bindE (lrpc_accept inp tbl) (\<lambda>(r, inp). case r of None \<Rightarrow> Inr (None, inp, None)
       | Some (i, c) \<Rightarrow> bindE (lrpc_take i c tbl) (\<lambda>msg. Inr (Some msg, inp, Some (recv_head inp))))"

definition lrpc_empty :: "lrpc_chan_in \<Rightarrow> lrpc_msg list \<Rightarrow> bool res" where
  "lrpc_empty inp tbl =
     bindE (nthE tbl (lrpc_slot (recv_head inp) (in_size inp))) (\<lambda>m.
     Inr (lm_cmd m AND LRPC_DONE_PARITY \<noteq> lrpc_parity (recv_head inp) (in_size inp)))"

section \<open>Sender and receiver\<close>

text \<open>
  \<open>x_pub\<close> is a message of which the command is not stored yet, \<open>x_acc\<close> one of which the payload is not read yet, \<open>x_rel\<close> says
  that the head is not written back yet. \<open>x_sent\<close> and \<open>x_received\<close> record the messages.
\<close>

record lrpc_sys =
  x_tbl :: "lrpc_msg list"
  x_wb :: u32
  x_out :: lrpc_chan_out
  x_in :: lrpc_chan_in
  x_pub :: "(nat \<times> u64) option"
  x_acc :: "(nat \<times> u64) option"
  x_rel :: bool
  x_sent :: "(u64 \<times> u64) list"
  x_received :: "(u64 \<times> u64) list"

inductive lrpc_step :: "lrpc_sys \<Rightarrow> lrpc_sys \<Rightarrow> bool" where
  fill: "x_pub s = None \<Longrightarrow> \<not> lrpc_full (x_out s) \<Longrightarrow> c AND LRPC_DONE_PARITY = 0
    \<Longrightarrow> lrpc_fill (x_out s) c p (x_tbl s) = Inr (i, c', out, tbl)
    \<Longrightarrow> lrpc_step s (s\<lparr>x_tbl := tbl, x_out := out, x_pub := Some (i, c'), x_sent := x_sent s @ [(c, p)]\<rparr>)"
| publish: "x_pub s = Some (i, c) \<Longrightarrow> lrpc_publish i c (x_tbl s) = Inr tbl \<Longrightarrow> lrpc_step s (s\<lparr>x_tbl := tbl, x_pub := None\<rparr>)"
| poll: "x_pub s = None \<Longrightarrow> lrpc_poll_send_tail (x_out s) (x_wb s) = (t, out) \<Longrightarrow> lrpc_step s (s\<lparr>x_out := out\<rparr>)"
| accept: "x_acc s = None \<Longrightarrow> \<not> x_rel s \<Longrightarrow> lrpc_accept (x_in s) (x_tbl s) = Inr (r, inp)
    \<Longrightarrow> lrpc_step s (s\<lparr>x_in := inp, x_acc := r\<rparr>)"
| taken: "x_acc s = Some (i, c) \<Longrightarrow> lrpc_take i c (x_tbl s) = Inr msg
    \<Longrightarrow> lrpc_step s (s\<lparr>x_acc := None, x_rel := True, x_received := x_received s @ [msg]\<rparr>)"
| release: "x_rel s \<Longrightarrow> lrpc_step s (s\<lparr>x_wb := recv_head (x_in s), x_rel := False\<rparr>)"

text \<open>Both ends on a table of zeros with a power of two of entries.\<close>

definition lrpc_init :: "nat \<Rightarrow> lrpc_sys \<Rightarrow> bool" where
  "lrpc_init k s \<longleftrightarrow> x_tbl s = replicate (2 ^ k) \<lparr>lm_cmd = 0, lm_payload = 0\<rparr> \<and> x_wb s = 0
     \<and> x_out s = \<lparr>send_head = 0, send_tail = 0, out_size = 2 ^ k\<rparr> \<and> x_in s = \<lparr>recv_head = 0, in_size = 2 ^ k\<rparr>
     \<and> x_pub s = None \<and> x_acc s = None \<and> \<not> x_rel s \<and> x_sent s = [] \<and> x_received s = []"

inductive lrpc_reach :: "nat \<Rightarrow> lrpc_sys \<Rightarrow> bool" for k :: nat where
  start: "lrpc_init k s \<Longrightarrow> lrpc_reach k s"
| step: "lrpc_reach k s \<Longrightarrow> lrpc_step s s' \<Longrightarrow> lrpc_reach k s'"

section \<open>Positions\<close>

lemma lrpc_slot_nat:
  assumes "k < 32"
  shows "lrpc_slot (of_nat q) (2 ^ k) = q mod 2 ^ k"
proof -
  have "q mod 2 ^ 32 mod 2 ^ k = q mod 2 ^ k"
    using assms by (intro mod_mod_cancel le_imp_power_dvd) simp
  then show ?thesis using assms by (simp add: lrpc_slot_def and_mask_mod unat_of_nat)
qed

definition lap_bit :: "nat \<Rightarrow> nat \<Rightarrow> bool" where
  "lap_bit k q \<longleftrightarrow> \<not> bit q k"

lemma bit_of_nat_u32: "bit (of_nat q :: u32) i \<longleftrightarrow> i < 32 \<and> bit q i"
  by transfer (simp add: bit_take_bit_iff bit_of_nat_iff_bit)

lemma lrpc_parity_nat:
  assumes "k < 32"
  shows "lrpc_parity (of_nat q) (2 ^ k) = (if lap_bit k q then LRPC_DONE_PARITY else 0)"
proof -
  have "(of_nat q :: u32) AND 2 ^ k = (if bit q k then 2 ^ k else 0)"
    by (rule bit_word_eqI) (auto simp: bit_and_iff bit_exp_iff bit_of_nat_u32)
  moreover have "(2 :: u32) ^ k \<noteq> 0" using assms by auto
  ultimately show ?thesis by (simp add: lrpc_parity_def lap_bit_def)
qed

lemma lap_bit_flip: "lap_bit k (q + 2 ^ k) \<longleftrightarrow> \<not> lap_bit k q"
proof -
  have "(q + 2 ^ k) div 2 ^ k = Suc (q div 2 ^ k)" using div_add_self2 [of "2 ^ k" q] by simp
  then show ?thesis by (simp add: lap_bit_def bit_iff_odd)
qed

lemma parity_bits:
  assumes "c AND LRPC_DONE_PARITY = 0"
  shows "(c OR LRPC_DONE_PARITY) AND LRPC_DONE_PARITY = LRPC_DONE_PARITY" "(c OR 0) AND LRPC_DONE_PARITY = 0"
    "(c OR LRPC_DONE_PARITY) AND LRPC_CMD_MASK = c" "(c OR 0) AND LRPC_CMD_MASK = c"
proof -
  have b: "bit LRPC_DONE_PARITY i \<longleftrightarrow> i = 63" for i
    by (simp only: LRPC_DONE_PARITY_def bit_push_bit_iff bit_1_iff possible_bit_word) auto
  have "bit (c AND LRPC_DONE_PARITY) 63 = bit c 63" by (simp add: bit_and_iff b)
  then have "\<not> bit c 63" using assms by simp
  then show "(c OR LRPC_DONE_PARITY) AND LRPC_DONE_PARITY = LRPC_DONE_PARITY" "(c OR 0) AND LRPC_DONE_PARITY = 0"
    "(c OR LRPC_DONE_PARITY) AND LRPC_CMD_MASK = c" "(c OR 0) AND LRPC_CMD_MASK = c"
    using assms by (auto intro!: bit_word_eqI simp: LRPC_CMD_MASK_def bit_and_iff bit_or_iff bit_not_iff b)
qed

lemma done_parity_nonzero [simp]: "LRPC_DONE_PARITY \<noteq> 0"
  by (simp add: LRPC_DONE_PARITY_def)

lemma mod_apart:
  fixes a b n :: nat
  assumes "a < b" "b < a + n"
  shows "a mod n \<noteq> b mod n"
proof
  assume "a mod n = b mod n"
  then have "n dvd b - a" using mod_eq_dvd_iff_nat [of a b n] assms(1) by simp
  then show False using assms by (auto dest: dvd_imp_le)
qed

section \<open>The invariant\<close>

text \<open>
  With counts that do not wrap: \<open>S\<close> messages were begun, the commands of \<open>P\<close> are stored, \<open>R\<close> were accepted, \<open>L\<close> read, \<open>W\<close> written
  back, and the sender knows of \<open>T\<close>.
\<close>

definition parity_of :: "nat \<Rightarrow> nat \<Rightarrow> u64" where
  "parity_of k q = (if lap_bit k q then LRPC_DONE_PARITY else 0)"

lemma parity_of_cmd:
  assumes "c AND LRPC_DONE_PARITY = 0"
  shows "(c OR parity_of k q) AND LRPC_DONE_PARITY = parity_of k q" "(c OR parity_of k q) AND LRPC_CMD_MASK = c"
  using parity_bits [OF assms] by (simp_all add: parity_of_def)

lemma parity_of_next: "parity_of k (q + 2 ^ k) \<noteq> parity_of k q"
  by (simp add: parity_of_def lap_bit_flip)

definition counts_ok :: "nat \<Rightarrow> lrpc_sys \<Rightarrow> nat \<Rightarrow> nat \<Rightarrow> nat \<Rightarrow> nat \<Rightarrow> nat \<Rightarrow> nat \<Rightarrow> bool" where
  "counts_ok k s S P R L W T \<longleftrightarrow> T \<le> W \<and> W \<le> L \<and> L \<le> R \<and> R \<le> P \<and> P \<le> S \<and> S \<le> T + 2 ^ k
     \<and> length (x_sent s) = S \<and> length (x_received s) = L \<and> x_received s = take L (x_sent s)
     \<and> (x_pub s = None \<longrightarrow> P = S) \<and> (x_pub s \<noteq> None \<longrightarrow> S = Suc P)
     \<and> (x_acc s = None \<longrightarrow> R = L) \<and> (x_acc s \<noteq> None \<longrightarrow> R = Suc L \<and> \<not> x_rel s) \<and> (\<not> x_rel s \<longrightarrow> W = L)"

definition heads_ok :: "nat \<Rightarrow> lrpc_sys \<Rightarrow> nat \<Rightarrow> nat \<Rightarrow> nat \<Rightarrow> nat \<Rightarrow> bool" where
  "heads_ok k s S R W T \<longleftrightarrow> x_out s = \<lparr>send_head = of_nat S, send_tail = of_nat T, out_size = 2 ^ k\<rparr>
     \<and> x_in s = \<lparr>recv_head = of_nat R, in_size = 2 ^ k\<rparr> \<and> x_wb s = of_nat W"

definition table_ok :: "nat \<Rightarrow> lrpc_sys \<Rightarrow> nat \<Rightarrow> nat \<Rightarrow> nat \<Rightarrow> nat \<Rightarrow> bool" where
  "table_ok k s S P R L \<longleftrightarrow> length (x_tbl s) = 2 ^ k \<and> (\<forall>m\<in>set (x_sent s). fst m AND LRPC_DONE_PARITY = 0)
     \<and> (\<forall>q. L \<le> q \<and> q < S \<longrightarrow> lm_payload (x_tbl s ! (q mod 2 ^ k)) = snd (x_sent s ! q))
     \<and> (\<forall>q. R \<le> q \<and> q < P \<longrightarrow> lm_cmd (x_tbl s ! (q mod 2 ^ k)) = fst (x_sent s ! q) OR parity_of k q)
     \<and> (\<forall>q. P \<le> q \<and> q < R + 2 ^ k \<longrightarrow> lm_cmd (x_tbl s ! (q mod 2 ^ k)) AND LRPC_DONE_PARITY \<noteq> parity_of k q)
     \<and> (\<forall>i c. x_pub s = Some (i, c) \<longrightarrow> i = P mod 2 ^ k \<and> c = fst (x_sent s ! P) OR parity_of k P)
     \<and> (\<forall>i c. x_acc s = Some (i, c) \<longrightarrow> i = L mod 2 ^ k \<and> c AND LRPC_CMD_MASK = fst (x_sent s ! L))"

definition lrpc_inv :: "nat \<Rightarrow> lrpc_sys \<Rightarrow> bool" where
  "lrpc_inv k s \<longleftrightarrow> (\<exists>S P R L W T. counts_ok k s S P R L W T \<and> heads_ok k s S R W T \<and> table_ok k s S P R L)"

lemma lrpc_init_inv:
  assumes "lrpc_init k s"
  shows "lrpc_inv k s"
proof -
  have "parity_of k q = LRPC_DONE_PARITY" if "q < 2 ^ k" for q
    using that by (simp add: parity_of_def lap_bit_def bit_iff_odd)
  then have "table_ok k s 0 0 0 0" using assms by (auto simp: table_ok_def lrpc_init_def)
  moreover have "counts_ok k s 0 0 0 0 0 0" "heads_ok k s 0 0 0 0"
    using assms by (simp_all add: counts_ok_def heads_ok_def lrpc_init_def)
  ultimately show ?thesis unfolding lrpc_inv_def by blast
qed

lemma lrpc_full_iff:
  assumes "k < 32" "heads_ok k s S R W T" "T \<le> S" "S \<le> T + 2 ^ k"
  shows "lrpc_full (x_out s) \<longleftrightarrow> S = T + 2 ^ k"
proof -
  have "(2 :: nat) ^ k < 2 ^ 32" using assms(1) by (intro power_strict_increasing) simp_all
  then have "unat (of_nat (S - T) :: u32) = S - T" using assms(4) by (intro unat_of_nat_less) simp
  moreover have "(of_nat S - of_nat T :: u32) = of_nat (S - T)" using assms(3) by (simp add: of_nat_diff)
  moreover have "unat (2 ^ k :: u32) = 2 ^ k" using assms(1) by (simp add: unat_exp)
  ultimately have "(2 ^ k :: u32) \<le> of_nat S - of_nat T \<longleftrightarrow> 2 ^ k \<le> S - T" by (simp only: word_le_nat_alt)
  moreover have "lrpc_full (x_out s) \<longleftrightarrow> (2 ^ k :: u32) \<le> of_nat S - of_nat T" using assms(2) by (simp add: lrpc_full_def heads_ok_def)
  ultimately show ?thesis using assms(3,4) by linarith
qed

lemma counts_order:
  assumes "counts_ok k s S P R L W T"
  shows "T \<le> W" "W \<le> L" "L \<le> R" "R \<le> P" "P \<le> S" "S \<le> T + 2 ^ k" "T \<le> S"
  using assms unfolding counts_ok_def by linarith+

lemma fill_inv:
  assumes "k < 32" "counts_ok k s S P R L W T" "heads_ok k s S R W T" "table_ok k s S P R L"
    and "x_pub s = None" "\<not> lrpc_full (x_out s)" "c AND LRPC_DONE_PARITY = 0"
    and "lrpc_fill (x_out s) c p (x_tbl s) = Inr (i, c', out, tbl)"
  shows "lrpc_inv k (s\<lparr>x_tbl := tbl, x_out := out, x_pub := Some (i, c'), x_sent := x_sent s @ [(c, p)]\<rparr>)" (is "lrpc_inv k ?s")
proof -
  note ord = counts_order [OF assms(2)]
  have room: "S < T + 2 ^ k" using lrpc_full_iff [OF assms(1,3) ord(7,6)] ord(6) assms(6) by linarith
  have P: "P = S" using assms(2,5) by (simp add: counts_ok_def)
  have len: "S mod 2 ^ k < length (x_tbl s)" using assms(4) by (simp add: table_ok_def)
  have out: "send_head (x_out s) = of_nat S" "out_size (x_out s) = 2 ^ k" "send_tail (x_out s) = of_nat T"
    using assms(3) by (simp_all add: heads_ok_def)
  let ?m = "(x_tbl s ! (S mod 2 ^ k))\<lparr>lm_payload := p\<rparr>"
  have "lrpc_fill (x_out s) c p (x_tbl s) = Inr (S mod 2 ^ k, c OR parity_of k S, (x_out s)\<lparr>send_head := of_nat S + 1\<rparr>, (x_tbl s)[S mod 2 ^ k := ?m])"
    using len by (simp only: lrpc_fill_def out lrpc_slot_nat [OF assms(1)] lrpc_parity_nat [OF assms(1)] parity_of_def Let_def) simp
  then have f: "i = S mod 2 ^ k" "c' = c OR parity_of k S" "out = (x_out s)\<lparr>send_head := of_nat S + 1\<rparr>" "tbl = (x_tbl s)[S mod 2 ^ k := ?m]"
    using assms(8) by simp_all
  have apart: "q mod 2 ^ k \<noteq> S mod 2 ^ k" if "L \<le> q" "q < S" for q
    using that room ord by (intro mod_apart) linarith+
  have cmd: "lm_cmd (tbl ! j) = lm_cmd (x_tbl s ! j)" for j
    using len by (cases "j = S mod 2 ^ k") (simp_all add: f(4))
  have sent: "(x_sent s @ [(c, p)]) ! q = (if q < S then x_sent s ! q else (c, p))" if "q \<le> S" for q
    using that assms(2) by (simp add: counts_ok_def nth_append)
  have pay: "lm_payload (tbl ! (q mod 2 ^ k)) = snd ((x_sent s @ [(c, p)]) ! q)" if "L \<le> q" "q < Suc S" for q
    using that assms(4) len apart [of q] by (cases "q = S") (simp_all add: sent f(4) table_ok_def)
  have "table_ok k ?s (Suc S) S R L" unfolding table_ok_def
  proof (intro conjI allI impI ballI)
    show "length (x_tbl ?s) = 2 ^ k" using assms(4) by (simp add: table_ok_def f(4))
    show "fst m AND LRPC_DONE_PARITY = 0" if "m \<in> set (x_sent ?s)" for m using that assms(4,7) by (auto simp: table_ok_def)
    show "lm_payload (x_tbl ?s ! (q mod 2 ^ k)) = snd (x_sent ?s ! q)" if "L \<le> q \<and> q < Suc S" for q using pay [of q] that by simp
    show "lm_cmd (x_tbl ?s ! (q mod 2 ^ k)) = fst (x_sent ?s ! q) OR parity_of k q" if "R \<le> q \<and> q < S" for q
      using that assms(4) P sent [of q] by (simp add: table_ok_def cmd)
    show "lm_cmd (x_tbl ?s ! (q mod 2 ^ k)) AND LRPC_DONE_PARITY \<noteq> parity_of k q" if "S \<le> q \<and> q < R + 2 ^ k" for q
      using that assms(4) P by (simp add: table_ok_def cmd)
    show "j = S mod 2 ^ k" "d = fst (x_sent ?s ! S) OR parity_of k S" if "x_pub ?s = Some (j, d)" for j d
      using that f(1,2) sent [of S] by simp_all
    show "j = L mod 2 ^ k" "d AND LRPC_CMD_MASK = fst (x_sent ?s ! L)" if "x_acc ?s = Some (j, d)" for j d
    proof -
      have "L < S" using that assms(2) ord by (simp add: counts_ok_def)
      then show "j = L mod 2 ^ k" "d AND LRPC_CMD_MASK = fst (x_sent ?s ! L)"
        using that assms(4) sent [of L] by (simp_all add: table_ok_def)
    qed
  qed
  moreover have "counts_ok k ?s (Suc S) S R L W T"
  proof -
    note c = assms(2) [unfolded counts_ok_def]
    have "length (x_sent s) = S" "length (x_received s) = L" "x_received s = take L (x_sent s)" using c by blast+
    moreover have "x_acc s = None \<Longrightarrow> R = L" "x_acc s \<noteq> None \<Longrightarrow> R = Suc L" "x_acc s \<noteq> None \<Longrightarrow> \<not> x_rel s"
      "\<not> x_rel s \<Longrightarrow> W = L" using c by blast+
    ultimately show ?thesis unfolding counts_ok_def using ord room P by (intro conjI impI) simp_all
  qed
  moreover have "heads_ok k ?s (Suc S) R W T"
  proof -
    have h: "x_out s = \<lparr>send_head = of_nat S, send_tail = of_nat T, out_size = 2 ^ k\<rparr>"
      "x_in s = \<lparr>recv_head = of_nat R, in_size = 2 ^ k\<rparr>" "x_wb s = of_nat W" using assms(3) unfolding heads_ok_def by blast+
    show ?thesis unfolding heads_ok_def using h by (simp add: f(3) add.commute)
  qed
  ultimately show ?thesis unfolding lrpc_inv_def by blast
qed

lemma counts_facts:
  assumes "counts_ok k s S P R L W T"
  shows "length (x_sent s) = S" "length (x_received s) = L" "x_received s = take L (x_sent s)"
    "x_pub s = None \<Longrightarrow> P = S" "x_pub s \<noteq> None \<Longrightarrow> S = Suc P"
    "x_acc s = None \<Longrightarrow> R = L" "x_acc s \<noteq> None \<Longrightarrow> R = Suc L" "x_acc s \<noteq> None \<Longrightarrow> \<not> x_rel s" "\<not> x_rel s \<Longrightarrow> W = L"
  using assms unfolding counts_ok_def by blast+

lemma table_facts:
  assumes "table_ok k s S P R L"
  shows "length (x_tbl s) = 2 ^ k" "\<And>m. m \<in> set (x_sent s) \<Longrightarrow> fst m AND LRPC_DONE_PARITY = 0"
    "\<And>q. L \<le> q \<Longrightarrow> q < S \<Longrightarrow> lm_payload (x_tbl s ! (q mod 2 ^ k)) = snd (x_sent s ! q)"
    "\<And>q. R \<le> q \<Longrightarrow> q < P \<Longrightarrow> lm_cmd (x_tbl s ! (q mod 2 ^ k)) = fst (x_sent s ! q) OR parity_of k q"
    "\<And>q. P \<le> q \<Longrightarrow> q < R + 2 ^ k \<Longrightarrow> lm_cmd (x_tbl s ! (q mod 2 ^ k)) AND LRPC_DONE_PARITY \<noteq> parity_of k q"
    "\<And>i c. x_pub s = Some (i, c) \<Longrightarrow> i = P mod 2 ^ k" "\<And>i c. x_pub s = Some (i, c) \<Longrightarrow> c = fst (x_sent s ! P) OR parity_of k P"
    "\<And>i c. x_acc s = Some (i, c) \<Longrightarrow> i = L mod 2 ^ k" "\<And>i c. x_acc s = Some (i, c) \<Longrightarrow> c AND LRPC_CMD_MASK = fst (x_sent s ! L)"
  using assms unfolding table_ok_def by blast+

lemma heads_facts:
  assumes "heads_ok k s S R W T"
  shows "x_out s = \<lparr>send_head = of_nat S, send_tail = of_nat T, out_size = 2 ^ k\<rparr>"
    "x_in s = \<lparr>recv_head = of_nat R, in_size = 2 ^ k\<rparr>" "x_wb s = of_nat W"
  using assms unfolding heads_ok_def by blast+

lemma publish_inv:
  assumes "counts_ok k s S P R L W T" "heads_ok k s S R W T" "table_ok k s S P R L"
    and "x_pub s = Some (i, c)" "lrpc_publish i c (x_tbl s) = Inr tbl"
  shows "lrpc_inv k (s\<lparr>x_tbl := tbl, x_pub := None\<rparr>)" (is "lrpc_inv k ?s")
proof -
  note ord = counts_order [OF assms(1)] and cf = counts_facts [OF assms(1)] and tf = table_facts [OF assms(3)]
  have S: "S = Suc P" using cf(5) assms(4) by simp
  note i = tf(6) [OF assms(4)] and c = tf(7) [OF assms(4)]
  have len: "P mod 2 ^ k < length (x_tbl s)" by (simp add: tf(1))
  have tbl: "tbl = (x_tbl s)[P mod 2 ^ k := (x_tbl s ! (P mod 2 ^ k))\<lparr>lm_cmd := c\<rparr>]"
    using assms(5) len by (simp add: lrpc_publish_def i [symmetric])
  have pay: "lm_payload (tbl ! j) = lm_payload (x_tbl s ! j)" for j
    using len by (cases "j = P mod 2 ^ k") (simp_all add: tbl)
  have other: "lm_cmd (tbl ! (q mod 2 ^ k)) = lm_cmd (x_tbl s ! (q mod 2 ^ k))" if "q mod 2 ^ k \<noteq> P mod 2 ^ k" for q
    using that by (simp add: tbl)
  have stored: "lm_cmd (tbl ! (P mod 2 ^ k)) = c" using len by (simp add: tbl)
  have "table_ok k ?s S S R L" unfolding table_ok_def
  proof (intro conjI allI impI ballI)
    show "length (x_tbl ?s) = 2 ^ k" using tf(1) by (simp add: tbl)
    show "fst m AND LRPC_DONE_PARITY = 0" if "m \<in> set (x_sent ?s)" for m using that tf(2) by simp
    show "lm_payload (x_tbl ?s ! (q mod 2 ^ k)) = snd (x_sent ?s ! q)" if "L \<le> q \<and> q < S" for q using that tf(3) [of q] by (simp add: pay)
    show "lm_cmd (x_tbl ?s ! (q mod 2 ^ k)) = fst (x_sent ?s ! q) OR parity_of k q" if "R \<le> q \<and> q < S" for q
    proof (cases "q = P")
      case False
      then have "q < P" using that S by simp
      then have "q mod 2 ^ k \<noteq> P mod 2 ^ k" using that ord S by (intro mod_apart) linarith+
      then show ?thesis using tf(4) [of q] that \<open>q < P\<close> by (simp add: other)
    qed (simp add: stored c)
    show "lm_cmd (x_tbl ?s ! (q mod 2 ^ k)) AND LRPC_DONE_PARITY \<noteq> parity_of k q" if "S \<le> q \<and> q < R + 2 ^ k" for q
    proof (cases "q mod 2 ^ k = P mod 2 ^ k")
      case True
      have "\<not> q < P + 2 ^ k" using mod_apart [of P q "2 ^ k"] that S True by auto
      then show ?thesis using that ord by linarith
    qed (use that S tf(5) [of q] in \<open>simp add: other\<close>)
    show "j = S mod 2 ^ k" "d = fst (x_sent ?s ! S) OR parity_of k S" if "x_pub ?s = Some (j, d)" for j d using that by simp_all
    show "j = L mod 2 ^ k" "d AND LRPC_CMD_MASK = fst (x_sent ?s ! L)" if "x_acc ?s = Some (j, d)" for j d
      using that tf(8,9) by simp_all
  qed
  moreover have "counts_ok k ?s S S R L W T" unfolding counts_ok_def using ord cf(1,2,3,6-9) by (intro conjI impI) simp_all
  moreover have "heads_ok k ?s S R W T" unfolding heads_ok_def using heads_facts [OF assms(2)] by simp
  ultimately show ?thesis unfolding lrpc_inv_def by blast
qed

lemma poll_inv:
  assumes "counts_ok k s S P R L W T" "heads_ok k s S R W T" "table_ok k s S P R L"
    and "lrpc_poll_send_tail (x_out s) (x_wb s) = (t, out)"
  shows "lrpc_inv k (s\<lparr>x_out := out\<rparr>)" (is "lrpc_inv k ?s")
proof -
  note ord = counts_order [OF assms(1)] and cf = counts_facts [OF assms(1)] and tf = table_facts [OF assms(3)]
  have "heads_ok k ?s S R W W" unfolding heads_ok_def
    using heads_facts [OF assms(2)] assms(4) by (auto simp: lrpc_poll_send_tail_def Let_def)
  moreover have "counts_ok k ?s S P R L W W" unfolding counts_ok_def using ord cf by (intro conjI impI) simp_all
  moreover have "table_ok k ?s S P R L" unfolding table_ok_def using tf by (intro conjI allI impI ballI) simp_all
  ultimately show ?thesis unfolding lrpc_inv_def by blast
qed

text \<open>The parity test succeeds exactly when the next message is stored.\<close>

lemma accept_eq:
  assumes "k < 32" "counts_ok k s S P R L W T" "heads_ok k s S R W T" "table_ok k s S P R L"
  shows "lrpc_accept (x_in s) (x_tbl s) = Inr (if R < P
      then (Some (R mod 2 ^ k, lm_cmd (x_tbl s ! (R mod 2 ^ k))), \<lparr>recv_head = of_nat (Suc R), in_size = 2 ^ k\<rparr>) else (None, x_in s))"
    "lrpc_empty (x_in s) (x_tbl s) = Inr (R = P)"
    "R < P \<Longrightarrow> lm_cmd (x_tbl s ! (R mod 2 ^ k)) AND LRPC_DONE_PARITY = parity_of k R
       \<and> lm_cmd (x_tbl s ! (R mod 2 ^ k)) AND LRPC_CMD_MASK = fst (x_sent s ! R)"
proof -
  note ord = counts_order [OF assms(2)] and cf = counts_facts [OF assms(2)] and tf = table_facts [OF assms(4)]
  let ?c = "lm_cmd (x_tbl s ! (R mod 2 ^ k))"
  have len: "R mod 2 ^ k < length (x_tbl s)" by (simp add: tf(1))
  show new: "?c AND LRPC_DONE_PARITY = parity_of k R \<and> ?c AND LRPC_CMD_MASK = fst (x_sent s ! R)" if "R < P"
  proof -
    have "fst (x_sent s ! R) AND LRPC_DONE_PARITY = 0" using that ord cf(1) by (intro tf(2) nth_mem) simp
    then show ?thesis using that tf(4) [of R] parity_of_cmd by simp
  qed
  have iff: "?c AND LRPC_DONE_PARITY = parity_of k R \<longleftrightarrow> R < P"
  proof
    assume eq: "?c AND LRPC_DONE_PARITY = parity_of k R"
    show "R < P" using tf(5) [of R] eq ord(4) by (cases "R = P") simp_all
  qed (use new in blast)
  have h: "recv_head (x_in s) = of_nat R" "in_size (x_in s) = 2 ^ k" using heads_facts(2) [OF assms(3)] by simp_all
  have par: "lrpc_parity (of_nat R) (2 ^ k) = parity_of k R" by (simp only: lrpc_parity_nat [OF assms(1)] parity_of_def)
  show "lrpc_accept (x_in s) (x_tbl s) = Inr (if R < P
      then (Some (R mod 2 ^ k, ?c), \<lparr>recv_head = of_nat (Suc R), in_size = 2 ^ k\<rparr>) else (None, x_in s))"
    using len iff heads_facts(2) [OF assms(3)] by (simp add: lrpc_accept_def lrpc_slot_nat [OF assms(1)] par add.commute Let_def)
  show "lrpc_empty (x_in s) (x_tbl s) = Inr (R = P)"
    using len iff ord(4) by (auto simp: lrpc_empty_def h lrpc_slot_nat [OF assms(1)] par)
qed

lemma accept_inv:
  assumes "k < 32" "counts_ok k s S P R L W T" "heads_ok k s S R W T" "table_ok k s S P R L"
    and "x_acc s = None" "\<not> x_rel s" "lrpc_accept (x_in s) (x_tbl s) = Inr (r, inp)"
  shows "lrpc_inv k (s\<lparr>x_in := inp, x_acc := r\<rparr>)" (is "lrpc_inv k ?s")
proof (cases "R < P")
  case False
  then have "?s = s" using assms(5,7) accept_eq(1) [OF assms(1-4)] by simp
  then show ?thesis unfolding lrpc_inv_def using assms(2-4) by metis
next
  case True
  note ord = counts_order [OF assms(2)] and cf = counts_facts [OF assms(2)] and tf = table_facts [OF assms(4)]
  note new = accept_eq(3) [OF assms(1-4) True]
  have L: "R = L" using cf(6) assms(5) by simp
  have r: "r = Some (R mod 2 ^ k, lm_cmd (x_tbl s ! (R mod 2 ^ k)))" "inp = \<lparr>recv_head = of_nat (Suc R), in_size = 2 ^ k\<rparr>"
    using assms(7) accept_eq(1) [OF assms(1-4)] True by simp_all
  have "table_ok k ?s S P (Suc R) L" unfolding table_ok_def
  proof (intro conjI allI impI ballI)
    show "lm_cmd (x_tbl ?s ! (q mod 2 ^ k)) AND LRPC_DONE_PARITY \<noteq> parity_of k q" if "P \<le> q \<and> q < Suc R + 2 ^ k" for q
    proof (cases "q = R + 2 ^ k")
      case True
      then have "lm_cmd (x_tbl ?s ! (q mod 2 ^ k)) AND LRPC_DONE_PARITY = parity_of k R" using new by simp
      then show ?thesis using parity_of_next [of k R] True by simp
    qed (use that tf(5) [of q] in simp)
    show "j = L mod 2 ^ k" "d AND LRPC_CMD_MASK = fst (x_sent ?s ! L)" if "x_acc ?s = Some (j, d)" for j d
      using that r(1) L new by auto
  qed (use tf in simp_all)
  moreover have "counts_ok k ?s S P (Suc R) L W T" unfolding counts_ok_def
    using ord cf(1-5,9) True L r(1) assms(6) by (intro conjI impI) simp_all
  moreover have "heads_ok k ?s S (Suc R) W T" unfolding heads_ok_def using heads_facts [OF assms(3)] r(2) by simp
  ultimately show ?thesis unfolding lrpc_inv_def by blast
qed

lemma taken_inv:
  assumes "counts_ok k s S P R L W T" "heads_ok k s S R W T" "table_ok k s S P R L"
    and "x_acc s = Some (i, c)" "lrpc_take i c (x_tbl s) = Inr msg"
  shows "lrpc_inv k (s\<lparr>x_acc := None, x_rel := True, x_received := x_received s @ [msg]\<rparr>)" (is "lrpc_inv k ?s")
proof -
  note ord = counts_order [OF assms(1)] and cf = counts_facts [OF assms(1)] and tf = table_facts [OF assms(3)]
  have R: "R = Suc L" "L < S" using cf(7) assms(4) ord by simp_all
  have "L mod 2 ^ k < length (x_tbl s)" by (simp add: tf(1))
  then have "msg = (fst (x_sent s ! L), snd (x_sent s ! L))"
    using assms(5) tf(3) [of L] tf(9) [OF assms(4)] R(2) by (simp add: lrpc_take_def tf(8) [OF assms(4)])
  then have "x_received ?s = take (Suc L) (x_sent s)" using cf(1,3) R(2) by (simp add: take_Suc_conv_app_nth)
  moreover have "length (x_received ?s) = Suc L" using cf(2) by simp
  ultimately have "counts_ok k ?s S P R (Suc L) W T" unfolding counts_ok_def
    using ord cf(1,4,5) R by (intro conjI impI) simp_all
  moreover have "table_ok k ?s S P R (Suc L)" unfolding table_ok_def using tf by (intro conjI allI impI ballI) simp_all
  moreover have "heads_ok k ?s S R W T" unfolding heads_ok_def using heads_facts [OF assms(2)] by simp
  ultimately show ?thesis unfolding lrpc_inv_def by blast
qed

lemma release_inv:
  assumes "counts_ok k s S P R L W T" "heads_ok k s S R W T" "table_ok k s S P R L" "x_rel s"
  shows "lrpc_inv k (s\<lparr>x_wb := recv_head (x_in s), x_rel := False\<rparr>)" (is "lrpc_inv k ?s")
proof -
  note ord = counts_order [OF assms(1)] and cf = counts_facts [OF assms(1)] and tf = table_facts [OF assms(3)]
  have n: "x_acc s = None" using cf(8) assms(4) by blast
  then have "R = L" by (rule cf(6))
  then have "heads_ok k ?s S R L T" unfolding heads_ok_def using heads_facts [OF assms(2)] by simp
  moreover have "counts_ok k ?s S P R L L T" unfolding counts_ok_def using ord cf(1-6) n by (intro conjI impI) simp_all
  moreover have "table_ok k ?s S P R L" unfolding table_ok_def using tf by (intro conjI allI impI ballI) simp_all
  ultimately show ?thesis unfolding lrpc_inv_def by blast
qed

section \<open>The operations as steps\<close>

lemma lrpc_send_steps:
  assumes "x_pub s = None" "\<not> lrpc_full (x_out s)" "c AND LRPC_DONE_PARITY = 0"
    and "lrpc_send slow (x_out s) c p (x_tbl s) = Inr (b, out, tbl)"
  shows "b \<and> lrpc_step\<^sup>*\<^sup>* s (s\<lparr>x_tbl := tbl, x_out := out, x_sent := x_sent s @ [(c, p)]\<rparr>)"
proof -
  obtain i c' tbl' where f: "lrpc_fill (x_out s) c p (x_tbl s) = Inr (i, c', out, tbl')"
    and g: "lrpc_publish i c' tbl' = Inr tbl" and b: b
    using assms(2,4) by (auto simp: lrpc_send_def elim!: bindE_InrE)
  let ?s = "s\<lparr>x_tbl := tbl', x_out := out, x_pub := Some (i, c'), x_sent := x_sent s @ [(c, p)]\<rparr>"
  have 1: "lrpc_step s ?s" using assms(1-3) f by (rule lrpc_step.fill)
  have 2: "lrpc_step ?s (?s\<lparr>x_tbl := tbl, x_pub := None\<rparr>)" using g by (intro lrpc_step.publish) simp_all
  have e: "?s\<lparr>x_tbl := tbl, x_pub := None\<rparr> = s\<lparr>x_tbl := tbl, x_out := out, x_sent := x_sent s @ [(c, p)]\<rparr>"
    using assms(1) by (cases s) simp
  have "lrpc_step\<^sup>*\<^sup>* s (?s\<lparr>x_tbl := tbl, x_pub := None\<rparr>)"
    by (rule converse_rtranclp_into_rtranclp [OF 1 r_into_rtranclp [of lrpc_step, OF 2]])
  then show ?thesis unfolding e using b by (rule conjI [rotated])
qed

lemma lrpc_recv_steps:
  assumes "x_acc s = None" "\<not> x_rel s" "lrpc_recv (x_in s) (x_tbl s) = Inr (Some msg, inp, wb)"
  shows "wb = Some (recv_head inp) \<and> lrpc_step\<^sup>*\<^sup>* s (s\<lparr>x_in := inp, x_wb := recv_head inp, x_received := x_received s @ [msg]\<rparr>)"
proof -
  obtain i c where f: "lrpc_accept (x_in s) (x_tbl s) = Inr (Some (i, c), inp)"
    and g: "lrpc_take i c (x_tbl s) = Inr msg" and w: "wb = Some (recv_head inp)"
    using assms(3) by (auto simp: lrpc_recv_def split: option.splits elim!: bindE_InrE)
  let ?a = "s\<lparr>x_in := inp, x_acc := Some (i, c)\<rparr>"
  let ?b = "?a\<lparr>x_acc := None, x_rel := True, x_received := x_received s @ [msg]\<rparr>"
  have 1: "lrpc_step s ?a" using assms(1,2) f by (rule lrpc_step.accept)
  have 2: "lrpc_step ?a ?b" using lrpc_step.taken [of ?a i c msg] g by simp
  have 3: "lrpc_step ?b (?b\<lparr>x_wb := recv_head inp, x_rel := False\<rparr>)" using lrpc_step.release [of ?b] by simp
  have e: "?b\<lparr>x_wb := recv_head inp, x_rel := False\<rparr> = s\<lparr>x_in := inp, x_wb := recv_head inp, x_received := x_received s @ [msg]\<rparr>"
    using assms(1,2) by (cases s) simp
  have "lrpc_step\<^sup>*\<^sup>* s (?b\<lparr>x_wb := recv_head inp, x_rel := False\<rparr>)"
    by (rule converse_rtranclp_into_rtranclp [OF 1 converse_rtranclp_into_rtranclp [OF 2 r_into_rtranclp [of lrpc_step, OF 3]]])
  then show ?thesis unfolding e using w by (rule conjI [rotated])
qed

lemma lrpc_reach_steps:
  assumes "lrpc_step\<^sup>*\<^sup>* s s'" "lrpc_reach k s"
  shows "lrpc_reach k s'"
  using assms by (induction rule: rtranclp_induct) (auto intro: lrpc_reach.step)

section \<open>The contract\<close>

lemma lrpc_step_inv:
  assumes "k < 32" "lrpc_inv k s" "lrpc_step s s'"
  shows "lrpc_inv k s'"
proof -
  obtain S P R L W T where inv: "counts_ok k s S P R L W T" "heads_ok k s S R W T" "table_ok k s S P R L"
    using assms(2) unfolding lrpc_inv_def by blast
  note facts = fill_inv [OF assms(1) inv] publish_inv [OF inv] poll_inv [OF inv] accept_inv [OF assms(1) inv] taken_inv [OF inv] release_inv [OF inv]
  show ?thesis using assms(3) by (cases rule: lrpc_step.cases) (use facts in blast)+
qed

lemma lrpc_reach_inv:
  assumes "k < 32" "lrpc_reach k s"
  shows "lrpc_inv k s"
  using assms(2) by (induction rule: lrpc_reach.induct) (blast intro: lrpc_init_inv lrpc_step_inv [OF assms(1)])+

text \<open>
  C36. Between a sender and a receiver of one channel of a power of two of entries, in every interleaving of their accesses to the
  shared table: what was received is, in order and unchanged, a prefix of what was sent, so nothing is lost, repeated or read half written
  even though commands and counters wrap; at most as many messages as the table has entries are not received. Between operations the emptiness test
  is true exactly when everything sent is received, and the sender that sees a full channel after polling has as many messages
  outstanding as the table has entries.
\<close>

theorem lrpc_channel_fifo:
  assumes "k < 32" "lrpc_reach k s"
  shows "x_received s = take (length (x_received s)) (x_sent s)
    \<and> length (x_sent s) \<le> length (x_received s) + 2 ^ k
    \<and> (x_pub s = None \<and> x_acc s = None \<longrightarrow> lrpc_empty (x_in s) (x_tbl s) = Inr (x_received s = x_sent s))
    \<and> (x_acc s = None \<and> \<not> x_rel s \<longrightarrow> (lrpc_full (snd (lrpc_poll_send_tail (x_out s) (x_wb s)))
         \<longleftrightarrow> length (x_sent s) = length (x_received s) + 2 ^ k))"
proof -
  obtain S P R L W T where inv: "counts_ok k s S P R L W T" "heads_ok k s S R W T" "table_ok k s S P R L"
    using lrpc_reach_inv [OF assms] unfolding lrpc_inv_def by blast
  note ord = counts_order [OF inv(1)] and cf = counts_facts [OF inv(1)]
  have "lrpc_full (snd (lrpc_poll_send_tail (x_out s) (x_wb s))) \<longleftrightarrow> S = L + 2 ^ k" if "\<not> x_rel s"
  proof -
    let ?s = "s\<lparr>x_out := snd (lrpc_poll_send_tail (x_out s) (x_wb s))\<rparr>"
    have "heads_ok k ?s S R W L"
      unfolding heads_ok_def using heads_facts [OF inv(2)] cf(9) that by (simp add: lrpc_poll_send_tail_def)
    then show ?thesis using lrpc_full_iff [OF assms(1), of ?s S R W L] ord by simp
  qed
  moreover have "lrpc_empty (x_in s) (x_tbl s) = Inr (x_received s = x_sent s)" if "x_pub s = None" "x_acc s = None"
  proof -
    have "x_received s = x_sent s \<longleftrightarrow> L = S"
    proof
      assume "L = S"
      then have "take L (x_sent s) = x_sent s" using cf(1) by simp
      then show "x_received s = x_sent s" using cf(3) by (rule trans [rotated])
    qed (use cf(1,2) in metis)
    moreover have "P = S" "R = L" using cf(4,6) that by blast+
    ultimately show ?thesis using accept_eq(2) [OF assms(1) inv] by simp
  qed
  moreover have "x_received s = take (length (x_received s)) (x_sent s)" unfolding cf(2) by (rule cf(3))
  moreover have "S \<le> L + 2 ^ k" using ord by linarith
  ultimately show ?thesis unfolding cf(1,2) by blast
qed

definition lrpc_run :: lrpc_sys where
  "lrpc_run = \<lparr>x_tbl = replicate 2 \<lparr>lm_cmd = 0, lm_payload = 0\<rparr>, x_wb = 0, x_out = \<lparr>send_head = 0, send_tail = 0, out_size = 2\<rparr>,
     x_in = \<lparr>recv_head = 0, in_size = 2\<rparr>, x_pub = None, x_acc = None, x_rel = False, x_sent = [], x_received = []\<rparr>"

lemma lrpc_channel_fifo_witness:
  "\<exists>s. lrpc_reach 1 s \<and> x_sent s = [(5, 7)] \<and> x_received s = [(5, 7)] \<and> lrpc_empty (x_in s) (x_tbl s) = Inr True
     \<and> length (x_sent s) \<le> length (x_received s) + 2 ^ 1"
proof -
  have r: "lrpc_reach 1 lrpc_run" by (rule lrpc_reach.start) (simp add: lrpc_init_def lrpc_run_def)
  have "lrpc_send (\<lambda>o' c p t. Inr (False, o', t)) (x_out lrpc_run) 5 7 (x_tbl lrpc_run)
      = Inr (True, \<lparr>send_head = 1, send_tail = 0, out_size = 2\<rparr>, [\<lparr>lm_cmd = 9223372036854775813, lm_payload = 7\<rparr>, \<lparr>lm_cmd = 0, lm_payload = 0\<rparr>])"
    by code_simp
  moreover have "\<not> lrpc_full (x_out lrpc_run)" "5 AND LRPC_DONE_PARITY = 0" "x_pub lrpc_run = None" by code_simp+
  ultimately have "lrpc_step\<^sup>*\<^sup>* lrpc_run (lrpc_run\<lparr>x_tbl := [\<lparr>lm_cmd = 9223372036854775813, lm_payload = 7\<rparr>, \<lparr>lm_cmd = 0, lm_payload = 0\<rparr>],
      x_out := \<lparr>send_head = 1, send_tail = 0, out_size = 2\<rparr>, x_sent := x_sent lrpc_run @ [(5, 7)]\<rparr>)"
    (is "lrpc_step\<^sup>*\<^sup>* _ ?a") using lrpc_send_steps by blast
  then have a: "lrpc_reach 1 ?a" using r by (rule lrpc_reach_steps)
  have "lrpc_recv (x_in ?a) (x_tbl ?a) = Inr (Some (5, 7), \<lparr>recv_head = 1, in_size = 2\<rparr>, Some 1)" by code_simp
  moreover have "x_acc ?a = None" "\<not> x_rel ?a" by code_simp+
  ultimately have "lrpc_step\<^sup>*\<^sup>* ?a (?a\<lparr>x_in := \<lparr>recv_head = 1, in_size = 2\<rparr>, x_wb := recv_head \<lparr>recv_head = 1, in_size = 2\<rparr>,
      x_received := x_received ?a @ [(5, 7)]\<rparr>)" (is "lrpc_step\<^sup>*\<^sup>* _ ?b") using lrpc_recv_steps by blast
  then have b: "lrpc_reach 1 ?b" using a by (rule lrpc_reach_steps)
  have "x_sent ?b = [(5, 7)]" "x_received ?b = [(5, 7)]" "x_pub ?b = None \<and> x_acc ?b = None" by (simp_all add: lrpc_run_def)
  then show ?thesis using lrpc_channel_fifo [OF _ b] b by (intro exI [of _ ?b]) simp
qed

end
