(* ===== verification/Descriptors.thy ===== *)
theory Descriptors
  imports Inline Chains
begin

text \<open>
  The bytes of the transmit ring: what the device reads there for a transmission
  in flight. A transmission starts at an entry of 64 bytes and consists of segments
  of 16 bytes, which continue at the start of the ring behind its end: the control
  segment, the Ethernet segment with the inlined headers, and a data segment for
  every mbuf of the packet.
\<close>

section \<open>Positions in the ring\<close>

text \<open>Byte \<open>z\<close> counted from the first byte of entry \<open>x\<close>, going round at the end of the ring.\<close>

definition ring_at :: "txq \<Rightarrow> u32 \<Rightarrow> nat \<Rightarrow> ptr" where
  "ring_at v x z = sq_buf v + of_nat ((64 * slot (sq_wqe_cnt v) x + z) mod (64 * unat (sq_wqe_cnt v)))"

definition in_tx_ring :: "txq \<Rightarrow> ptr \<Rightarrow> bool" where
  "in_tx_ring v a \<longleftrightarrow> unat (sq_buf v) \<le> unat a \<and> unat a < unat (sq_buf v) + 64 * unat (sq_wqe_cnt v)"

text \<open>
  The ring as the device lays it out: entries of 64 bytes, not at the very start of the address
  space, with the two indices that the program writes for the device outside of it.
\<close>

definition ring_layout :: "txq \<Rightarrow> bool" where
  "ring_layout v \<longleftrightarrow> tx_sq_log_stride v = 6 \<and> sq_stride v = 64 \<and> 26 \<le> unat (sq_buf v)
     \<and> unat (sq_buf v) + 64 * unat (sq_wqe_cnt v) + 64 < 2 ^ 64"

definition tx_layout :: "abi \<Rightarrow> txq \<Rightarrow> bool" where
  "tx_layout A v \<longleftrightarrow> ring_layout v \<and> (\<forall>i<4. \<not> in_tx_ring v (tx_cq_dbrec v + of_nat i)
     \<and> \<not> in_tx_ring v (sq_dbrec v + 4 * SND_DBR A + of_nat i))"

definition ring_geometry :: "txq \<Rightarrow> nat \<Rightarrow> bool" where
  "ring_geometry v k \<longleftrightarrow> ring_layout v \<and> sq_wqe_cnt v = 2 ^ k \<and> k < 16"

lemma ring_size:
  assumes "ring_geometry v k"
  shows "unat (sq_wqe_cnt v) = 2 ^ k" "(2::nat) ^ k \<le> 32768" "1 \<le> (2::nat) ^ k"
proof -
  have "(2::nat) ^ k \<le> 2 ^ 15" using assms by (intro power_increasing) (simp_all add: ring_geometry_def)
  then show "(2::nat) ^ k \<le> 32768" by simp
qed (use assms in \<open>simp_all add: ring_geometry_def unat_exp\<close>)

lemma ring_at_eq:
  assumes "ring_geometry v k"
  shows "ring_at v x z = sq_buf v + of_nat ((64 * unat x + z) mod (64 * 2 ^ k))"
proof -
  have "(64 * (unat x mod 2 ^ k) + z) mod (64 * 2 ^ k) = (64 * unat x + z) mod (64 * 2 ^ k)"
    by (metis mod_add_left_eq mult_mod_right)
  then show ?thesis using assms by (simp add: ring_at_def ring_geometry_def slot_mod unat_exp)
qed

lemma unat_ring_pos:
  assumes "ring_geometry v k" "p < 64 * 2 ^ k + 64"
  shows "unat (sq_buf v + of_nat p) = unat (sq_buf v) + p"
proof -
  have "p < 2 ^ LENGTH(64)" using assms(2) ring_size [OF assms(1)] by simp
  then have "unat (of_nat p :: u64) = p" by (rule unat_of_nat_less)
  moreover have "unat (sq_buf v) + p < 2 ^ 64"
    using assms ring_size(1) [OF assms(1)] by (simp add: ring_geometry_def ring_layout_def)
  ultimately show ?thesis by (simp add: unat_word_ariths)
qed

lemma unat_ring_at:
  assumes "ring_geometry v k"
  shows "unat (ring_at v x z) = unat (sq_buf v) + (64 * unat x + z) mod (64 * 2 ^ k)"
proof -
  have "(64 * unat x + z) mod (64 * 2 ^ k) < 64 * 2 ^ k" by (rule mod_less_divisor) simp
  then show ?thesis unfolding ring_at_eq [OF assms] by (intro unat_ring_pos [OF assms]) linarith
qed

lemma ring_at_in: "ring_geometry v k \<Longrightarrow> in_tx_ring v (ring_at v x z)"
  using mod_less_divisor [of "64 * 2 ^ k" "64 * unat x + z"] by (simp add: in_tx_ring_def unat_ring_at ring_size(1))

lemma ring_at_inj:
  assumes "ring_geometry v k" "z < 64 * 2 ^ k" "z' < 64 * 2 ^ k" "ring_at v x z = ring_at v x z'"
  shows "z = z'"
proof -
  have "(64 * unat x + z) mod (64 * 2 ^ k) = (64 * unat x + z') mod (64 * 2 ^ k)"
    using arg_cong [OF assms(4), of unat] unat_ring_at [OF assms(1)] by simp
  then have "z mod (64 * 2 ^ k) = z' mod (64 * 2 ^ k)" by (simp only: nat_mod_eq_iff) (auto simp: algebra_simps)
  then show ?thesis using assms by simp
qed

text \<open>The same byte counted from a later entry, and the bytes of a segment of 16, which the end of the ring does not divide.\<close>

lemma ring_at_shift:
  assumes "ring_geometry v k"
  shows "ring_at v (x + of_nat d) z = ring_at v x (64 * d + z)"
proof -
  have "slot (2 ^ k) (x + of_nat d) = (unat x + d) mod 2 ^ k" using slot_add assms by (simp add: ring_geometry_def)
  moreover have "(64 * ((unat x + d) mod 2 ^ k) + z) mod (64 * 2 ^ k) = (64 * (unat x + d) + z) mod (64 * 2 ^ k)"
    by (metis mod_add_left_eq mult_mod_right)
  moreover have "sq_wqe_cnt v = 2 ^ k" using assms by (simp add: ring_geometry_def)
  ultimately show ?thesis using ring_size(1) [OF assms]
    by (simp add: ring_at_def [of v "x + of_nat d"] ring_at_eq [OF assms, of x] algebra_simps)
qed

lemma ring_at_plus:
  assumes "ring_geometry v k" "j < 16"
  shows "ring_at v x (16 * i) + of_nat j = ring_at v x (16 * i + j)"
proof -
  let ?N = "4 * 2 ^ k :: nat"
  have m: "(64 * unat x + (16 * i + j)) mod (16 * ?N) = 16 * ((4 * unat x + i) mod ?N) + j" if "j < 16" for j
  proof -
    have "64 * unat x + (16 * i + j) = 16 * (4 * unat x + i) + j" by simp
    moreover have "(16 * q + j) div 16 = q" "(16 * q + j) mod 16 = j" for q using that by simp_all
    ultimately show ?thesis by (simp only: mod_mult2_eq)
  qed
  show ?thesis using m [OF assms(2)] m [of 0] by (simp add: ring_at_eq [OF assms(1)])
qed

section \<open>The addresses the code computes\<close>

lemma ring_slot:
  assumes "ring_geometry v k"
  shows "slot (sq_wqe_cnt v) x < 2 ^ k" "ring_at v x z = sq_buf v + of_nat ((64 * slot (sq_wqe_cnt v) x + z) mod (64 * 2 ^ k))"
  using assms slot_less [of k x] ring_size(1) [OF assms] by (simp_all add: ring_at_def ring_geometry_def)

lemma ring_at_entry:
  assumes "ring_geometry v k" "z < 64"
  shows "ring_at v x z = sq_buf v + of_nat (64 * slot (sq_wqe_cnt v) x + z)"
proof -
  have "64 * slot (sq_wqe_cnt v) x + z < 64 * 2 ^ k" using ring_slot(1) [OF assms(1), of x] assms(2) by linarith
  then show ?thesis by (simp only: ring_slot(2) [OF assms(1)] mod_less)
qed

lemma sq_end_eq:
  assumes "ring_geometry v k"
  shows "sq_end v = sq_buf v + of_nat (64 * 2 ^ k)" "unat (sq_end v) = unat (sq_buf v) + 64 * 2 ^ k"
proof -
  have "(2 ^ k :: u32) * 64 = of_nat (64 * 2 ^ k)" by (simp add: mult.commute)
  moreover have "64 * 2 ^ k < (2::nat) ^ LENGTH(32)" using ring_size(2) [OF assms] by simp
  ultimately have u: "unat ((2 ^ k :: u32) * 64) = 64 * 2 ^ k" by (simp only: unat_of_nat_less)
  show e: "sq_end v = sq_buf v + of_nat (64 * 2 ^ k)"
    using assms ucast_of_nat [OF u] by (simp add: sq_end_def ring_geometry_def ring_layout_def)
  show "unat (sq_end v) = unat (sq_buf v) + 64 * 2 ^ k" unfolding e by (rule unat_ring_pos [OF assms]) simp
qed

lemma segment_start:
  assumes "ring_geometry v k"
  shows "get_segment v (POW2MOD x (sq_wqe_cnt v)) = ring_at v x 0"
proof -
  let ?i = "POW2MOD x (sq_wqe_cnt v)"
  have i: "unat ?i = slot (sq_wqe_cnt v) x" by (simp add: POW2MOD_def slot_def)
  then have "push_bit 6 ?i = of_nat (64 * slot (sq_wqe_cnt v) x)"
    by (simp add: push_bit_eq_mult mult.commute flip: i)
  moreover have "64 * slot (sq_wqe_cnt v) x < 2 ^ LENGTH(32)"
    using ring_slot(1) [OF assms, of x] ring_size(2) [OF assms] by simp
  ultimately have "unat (push_bit 6 ?i) = 64 * slot (sq_wqe_cnt v) x" by (simp only: unat_of_nat_less)
  then have "(ucast (push_bit 6 ?i) :: u64) = of_nat (64 * slot (sq_wqe_cnt v) x)" by (rule ucast_of_nat)
  then show ?thesis
    using assms ring_at_entry [OF assms, of 0 x] by (simp add: get_segment_def ring_geometry_def ring_layout_def)
qed

lemma next_segment:
  assumes "ring_geometry v k"
  shows "(if ring_at v x (16 * i) + 16 = sq_end v then sq_buf v else ring_at v x (16 * i) + 16) = ring_at v x (16 * Suc i)"
proof -
  let ?N = "4 * 2 ^ k :: nat"
  let ?r = "(4 * unat x + i) mod ?N"
  have at: "ring_at v x (16 * j) = sq_buf v + of_nat (16 * ((4 * unat x + j) mod ?N))" for j
  proof -
    have "64 * unat x + 16 * j = 16 * (4 * unat x + j)" "64 * 2 ^ k = 16 * ?N" by simp_all
    then show ?thesis by (simp only: ring_at_eq [OF assms] mult_mod_right)
  qed
  have r: "?r < ?N" by (rule mod_less_divisor) simp
  have small: "16 * Suc n < 64 * 2 ^ k + 64" if "n < ?N" for n using that by simp
  have p: "ring_at v x (16 * i) + 16 = sq_buf v + of_nat (16 * Suc ?r)" by (simp add: at)
  have s: "(4 * unat x + Suc i) mod ?N = (if Suc ?r = ?N then 0 else Suc ?r)"
    using mod_Suc [of "4 * unat x + i" ?N] by simp
  show ?thesis
  proof (cases "Suc ?r = ?N")
    case True
    then have "ring_at v x (16 * i) + 16 = sq_end v" unfolding p True sq_end_eq(1) [OF assms] by simp
    then show ?thesis using s True at [of "Suc i"] by simp
  next
    case False
    have "unat (ring_at v x (16 * i) + 16) = unat (sq_buf v) + 16 * Suc ?r"
      unfolding p by (rule unat_ring_pos [OF assms small [OF r]])
    then have ne: "ring_at v x (16 * i) + 16 \<noteq> sq_end v" using sq_end_eq(2) [OF assms] False by auto
    have "ring_at v x (16 * Suc i) = ring_at v x (16 * i) + 16"
      unfolding p at [of "Suc i"] s if_not_P [OF False] by (rule refl)
    then show ?thesis unfolding if_not_P [OF ne] by (rule sym)
  qed
qed

text \<open>The first data segment is the third one without inlined headers and the seventh with them, also around the end of the ring.\<close>

abbreviation (input) hdr_len :: u64 where "hdr_len \<equiv> 58"

lemma first_data_seg_at:
  assumes "ring_geometry v k" "documented_abi A" "il = 0 \<or> il = hdr_len"
  shows "first_data_seg A v il (ring_at v x 0 + sizeof_ctrl A) = ring_at v x (16 * (if il = 0 then 2 else 6))"
proof (cases "il = 0")
  case True
  have "ring_at v x 0 + 16 = ring_at v x 16" using ring_at_entry [OF assms(1), of _ x] by simp
  then show ?thesis
    using next_segment [OF assms(1), of x 1] True assms(2)
    by (simp add: first_data_seg_def documented_abi_def Let_def split: if_splits)
next
  case False
  let ?q = "slot (sq_wqe_cnt v) x"
  let ?p = "ring_at v x 0 + 16 + 14"
  have il: "il = 58" using False assms(3) by simp
  have p: "?p = sq_buf v + of_nat (64 * ?q + 30)" using ring_at_entry [OF assms(1), of 0 x] by simp
  have q: "?q < 2 ^ k" by (rule ring_slot(1) [OF assms(1)])
  have up: "unat ?p = unat (sq_buf v) + (64 * ?q + 30)" unfolding p using q by (intro unat_ring_pos [OF assms(1)]) linarith
  have d: "unat (sq_end v - ?p) = 64 * 2 ^ k - (64 * ?q + 30)"
    using up sq_end_eq(2) [OF assms(1)] q by (simp add: unat_sub_if')
  have abi: "sizeof_ctrl A = 16" "eth_inline_hdr_start A = 14" using assms(2) by (simp_all add: documented_abi_def)
  have pos: "(0 :: u64) < 58 \<longleftrightarrow> True" "il = 0 \<longleftrightarrow> False" by (simp_all add: il)
  have f: "first_data_seg A v il (ring_at v x 0 + sizeof_ctrl A) = (if sq_end v - ?p < 58
      then sq_buf v + ((58 - (sq_end v - ?p) + 15) AND NOT 0xf) else (?p + 2) + ((58 - 2 + 15) AND NOT 0xf))"
    unfolding first_data_seg_def Let_def abi il pos if_True by (rule refl)
  have at: "ring_at v x 96 = sq_buf v + of_nat ((64 * ?q + 96) mod (64 * 2 ^ k))" by (rule ring_slot(2) [OF assms(1)])
  show ?thesis
  proof (cases "?q + 1 = 2 ^ k")
    case True
    then have "64 * 2 ^ k - (64 * ?q + 30) = 34" by linarith
    then have d34: "sq_end v - ?p = 34" using d by (simp add: word_unat_eq_iff)
    have e: "64 * ?q + 96 = 64 * 2 ^ k + 32" using True by linarith
    have "(64 * 2 ^ k + 32) mod (64 * 2 ^ k) = (32::nat)"
    proof -
      have "32 < 64 * (2::nat) ^ k" using ring_size(3) [OF assms(1)] by linarith
      then show ?thesis by simp
    qed
    then have "ring_at v x 96 = sq_buf v + 32" unfolding at e by (simp only: of_nat_numeral)
    then show ?thesis unfolding f pos(2) if_False d34 by simp
  next
    case False
    then have "2 + ?q \<le> 2 ^ k" using q by linarith
    then have "\<not> sq_end v - ?p < 58" "64 * ?q + 96 < 64 * 2 ^ k"
      using d by (simp_all add: word_less_nat_alt)
    then show ?thesis unfolding f pos(2) if_False p by (simp add: at)
  qed
qed

section \<open>Reading and writing the ring\<close>

definition ring_read :: "mem \<Rightarrow> txq \<Rightarrow> u32 \<Rightarrow> nat \<Rightarrow> nat \<Rightarrow> u8 list" where
  "ring_read h v x z n = map (\<lambda>j. h (ring_at v x (z + j))) [0..<n]"

lemma ring_read_cong:
  assumes "\<And>j. z \<le> j \<Longrightarrow> j < z + n \<Longrightarrow> h' (ring_at v x j) = h (ring_at v x j)"
  shows "ring_read h' v x z n = ring_read h v x z n"
  using assms by (simp add: ring_read_def)

text \<open>A run of bytes that the end of the ring does not divide.\<close>

definition in_a_row :: "txq \<Rightarrow> u32 \<Rightarrow> nat \<Rightarrow> nat \<Rightarrow> bool" where
  "in_a_row v x z n \<longleftrightarrow> (\<forall>j<n. ring_at v x z + of_nat j = ring_at v x (z + j))"

lemma segment_in_a_row:
  assumes "ring_geometry v k" "j + n \<le> 16" "j < 16"
  shows "ring_at v x (16 * i) + of_nat j = ring_at v x (16 * i + j)" "in_a_row v x (16 * i + j) n"
proof -
  show eq: "ring_at v x (16 * i) + of_nat j = ring_at v x (16 * i + j)" by (rule ring_at_plus [OF assms(1,3)])
  show "in_a_row v x (16 * i + j) n"
    unfolding in_a_row_def
  proof (intro allI impI)
    fix l
    assume "l < n"
    then have "ring_at v x (16 * i) + of_nat (j + l) = ring_at v x (16 * i + (j + l))"
      using assms(2) by (intro ring_at_plus [OF assms(1)]) linarith
    then show "ring_at v x (16 * i + j) + of_nat l = ring_at v x (16 * i + j + l)"
      by (simp add: add.assoc flip: eq)
  qed
qed

lemma entry_in_a_row:
  assumes "ring_geometry v k" "z + n \<le> 64"
  shows "in_a_row v x z n"
  unfolding in_a_row_def
proof (intro allI impI)
  fix j
  assume "j < n"
  then have "z + j < 64" "z < 64" using assms(2) by linarith+
  then show "ring_at v x z + of_nat j = ring_at v x (z + j)"
    by (simp add: ring_at_entry [OF assms(1)] add.assoc)
qed

lemma view_store:
  assumes "ring_geometry v k" "in_a_row v x z (length bs)" "z + length bs \<le> 64 * 2 ^ k" "z' < 64 * 2 ^ k"
  shows "store_bytes m (ring_at v x z) bs (ring_at v x z')
    = (if z \<le> z' \<and> z' < z + length bs then bs ! (z' - z) else m (ring_at v x z'))"
proof (cases "z \<le> z' \<and> z' < z + length bs")
  case True
  then have j: "z' - z < length bs" "z + (z' - z) = z'" by auto
  then have at: "ring_at v x z' = ring_at v x z + of_nat (z' - z)" using assms(2) by (metis in_a_row_def)
  have "length bs \<le> 2 ^ 64" using assms(3) ring_size(2) [OF assms(1)] by simp
  then show ?thesis unfolding if_P [OF True] at by (rule store_bytes_at [OF j(1)])
next
  case False
  let ?u = "unat (ring_at v x z' - ring_at v x z)"
  have "length bs \<le> ?u"
  proof (rule ccontr)
    assume "\<not> length bs \<le> ?u"
    then have u: "?u < length bs" by simp
    have "ring_at v x z' = ring_at v x z + of_nat ?u" by simp
    also have "\<dots> = ring_at v x (z + ?u)" using assms(2) u by (simp only: in_a_row_def)
    finally have "z' = z + ?u" using u assms(3) by (intro ring_at_inj [OF assms(1,4)]) simp_all
    then show False using False u by simp
  qed
  then have "store_bytes m (ring_at v x z) bs (ring_at v x z') = m (ring_at v x z')" by (rule store_bytes_outside)
  then show ?thesis unfolding if_not_P [OF False] .
qed

text \<open>A store outside of the ring leaves it as it is.\<close>

lemma view_store_outside:
  assumes "ring_geometry v k" "\<And>j. j < length bs \<Longrightarrow> \<not> in_tx_ring v (a + of_nat j)"
  shows "store_bytes m a bs (ring_at v x z) = m (ring_at v x z)"
proof (rule store_bytes_outside, rule ccontr)
  let ?u = "unat (ring_at v x z - a)"
  assume "\<not> length bs \<le> ?u"
  then have "\<not> in_tx_ring v (a + of_nat ?u)" by (intro assms(2)) simp
  then show False using ring_at_in [OF assms(1)] by simp
qed

lemma view_segment_store:
  assumes "ring_geometry v k" "j + length bs \<le> 16" "j < 16" "16 * i + 16 \<le> 64 * 2 ^ k" "z < 64 * 2 ^ k"
  shows "store_bytes m (ring_at v x (16 * i) + of_nat j) bs (ring_at v x z)
    = (if 16 * i + j \<le> z \<and> z < 16 * i + j + length bs then bs ! (z - (16 * i + j)) else m (ring_at v x z))"
proof -
  have "in_a_row v x (16 * i + j) (length bs)" by (rule segment_in_a_row(2) [OF assms(1-3)])
  moreover have "16 * i + j + length bs \<le> 64 * 2 ^ k" using assms(2,4) by linarith
  ultimately show ?thesis
    unfolding segment_in_a_row(1) [OF assms(1-3)] by (rule view_store [OF assms(1) _ _ assms(5)])
qed

section \<open>The segments\<close>

text \<open>The bytes of a control segment, of the Ethernet segment up to the inlined headers, and of a data segment.\<close>

definition ctrl_bytes :: "abi \<Rightarrow> txq \<Rightarrow> u32 \<Rightarrow> u32 \<Rightarrow> u8 list" where
  "ctrl_bytes A v x ds = le32 (hton32 (push_bit 8 (x AND 0xffff) OR OPCODE_SEND A))
     @ le32 (hton32 (ds OR push_bit 8 (sq_qp_num v))) @ [0, 0, 0, CTRL_CQ_UPDATE A] @ [0, 0, 0, 0]"

definition eth_bytes :: "abi \<Rightarrow> u64 \<Rightarrow> u8 list" where
  "eth_bytes A il = [0, 0, 0, 0, ETH_L3_CSUM A OR ETH_L4_CSUM A, 0, 0, 0, 0, 0, 0, 0] @ le16 (hton16 (ucast il))"

definition data_bytes :: "mbuf \<Rightarrow> u8 list" where
  "data_bytes b = le32 (hton32 (mbuf_length b)) @ le32 (hton32 (m_lkey b)) @ le64 (hton64 (mbuf_data b))"

lemma length_segment [simp]:
  "length (ctrl_bytes A v x ds) = 16" "length (eth_bytes A il) = 14" "length (data_bytes b) = 16"
  by (simp_all add: ctrl_bytes_def eth_bytes_def data_bytes_def)

lemma data_segment:
  fixes h :: mem and b :: mbuf and x :: u32
  assumes "ring_geometry v k" "documented_abi A" "16 * i + 16 \<le> 64 * 2 ^ k"
  defines "p \<equiv> ring_at v x (16 * i)"
  defines "h' \<equiv> st32 (st64 (st32 h (p + data_byte_count A) (hton32 (mbuf_length b))) (p + data_addr A) (hton64 (mbuf_data b)))
    (p + data_lkey A) (hton32 (m_lkey b))"
  shows "ring_read h' v x (16 * i) 16 = data_bytes b"
    and "z < 64 * 2 ^ k \<Longrightarrow> z < 16 * i \<or> 16 * i + 16 \<le> z \<Longrightarrow> h' (ring_at v x z) = h (ring_at v x z)"
proof -
  have abi: "data_byte_count A = 0" "data_addr A = 8" "data_lkey A = 4"
    using assms(2) by (simp_all add: documented_abi_def)
  have at: "h' (ring_at v x z) = (if 16 * i \<le> z \<and> z < 16 * i + 16 then data_bytes b ! (z - 16 * i) else h (ring_at v x z))"
    if "z < 64 * 2 ^ k" for z
  proof -
    note st = view_segment_store [OF assms(1) _ _ assms(3) that, of _ _ _ x]
    show ?thesis
      unfolding h'_def p_def scalar_defs abi
      by (simp add: st [of 4 "le32 (hton32 (m_lkey b))", simplified] st [of 8 "le64 (hton64 (mbuf_data b))", simplified]
          st [of 0 "le32 (hton32 (mbuf_length b))", simplified]) (auto simp: data_bytes_def nth_append add.commute)
  qed
  show "ring_read h' v x (16 * i) 16 = data_bytes b"
    using assms(3) by (intro nth_equalityI) (simp_all add: ring_read_def at)
  show "z < 64 * 2 ^ k \<Longrightarrow> z < 16 * i \<or> 16 * i + 16 \<le> z \<Longrightarrow> h' (ring_at v x z) = h (ring_at v x z)"
    using at by auto
qed

lemma ctrl_segment:
  fixes h :: mem and x ds :: u32
  assumes "ring_geometry v k" "documented_abi A" "x = sq_head v"
  defines "h' \<equiv> fill_ctrl_seg A v ds (ring_at v x 0) h"
  shows "ring_read h' v x 0 16 = ctrl_bytes A v x ds"
    and "z < 64 * 2 ^ k \<Longrightarrow> 16 \<le> z \<Longrightarrow> h' (ring_at v x z) = h (ring_at v x z)"
proof -
  have abi: "ctrl_opmod A = 0" "ctrl_qpn_ds A = 4" "ctrl_fm_ce_se A = 11" "ctrl_imm A = 12"
    using assms(2) by (simp_all add: documented_abi_def)
  have size: "16 * 0 + 16 \<le> 64 * (2::nat) ^ k" using ring_size(3) [OF assms(1)] by simp
  let ?o = "hton32 (push_bit 8 (x AND 0xffff) OR OPCODE_SEND A)" and ?d = "hton32 (ds OR push_bit 8 (sq_qp_num v))"
  have zero: "le32 0 = [0, 0, 0, 0]" by (simp add: le32_def upt_rec)
  have at: "h' (ring_at v x z) = (if z < 16 then ctrl_bytes A v x ds ! z else h (ring_at v x z))"
    if "z < 64 * 2 ^ k" for z
  proof -
    note st = view_segment_store [OF assms(1) _ _ size that, of _ _ _ x]
    have "h' (ring_at v x z) = (if z < 4 then le32 ?o ! z else if 4 \<le> z \<and> z < 8 then le32 ?d ! (z - 4)
      else if z = 11 then CTRL_CQ_UPDATE A else if 8 \<le> z \<and> z < 16 then 0 else h (ring_at v x z))"
      unfolding h'_def fill_ctrl_seg_def Let_def scalar_defs abi zero
      by (simp add: st [of 0 "le32 ?o", simplified] st [of 4 "le32 ?d", simplified] st [of 11 "[CTRL_CQ_UPDATE A]", simplified]
          st [of 12 "[0, 0, 0, 0]", simplified] st [of 8 "[0, 0, 0, 0]", simplified] assms(3) [symmetric])
        (auto simp: nth_Cons')
    then show ?thesis by (auto simp: ctrl_bytes_def nth_append nth_Cons')
  qed
  show "ring_read h' v x 0 16 = ctrl_bytes A v x ds"
  proof (rule nth_equalityI)
    fix i
    assume "i < length (ring_read h' v x 0 16)"
    then have "i < 16" by (simp add: ring_read_def)
    moreover from this have "i < 64 * 2 ^ k" using ring_size(3) [OF assms(1)] by linarith
    ultimately show "ring_read h' v x 0 16 ! i = ctrl_bytes A v x ds ! i" using at [of i] by (simp add: ring_read_def)
  qed (simp add: ring_read_def)
  show "z < 64 * 2 ^ k \<Longrightarrow> 16 \<le> z \<Longrightarrow> h' (ring_at v x z) = h (ring_at v x z)"
    using at by auto
qed

lemma eth_segment:
  fixes h :: mem and x :: u32 and il :: u64
  assumes "ring_geometry v k" "documented_abi A"
  defines "h' \<equiv> fill_eth_seg A il (ring_at v x 0 + sizeof_ctrl A) h"
  shows "ring_read h' v x 16 14 = eth_bytes A il"
    and "z < 64 * 2 ^ k \<Longrightarrow> z < 16 \<or> 48 \<le> z \<Longrightarrow> h' (ring_at v x z) = h (ring_at v x z)"
proof -
  have abi: "eth_cs_flags A = 4" "eth_inline_hdr_sz A = 12" "sizeof_eth_seg A = 32" "sizeof_ctrl A = 16"
    using assms(2) by (simp_all add: documented_abi_def)
  have size: "64 \<le> 64 * (2::nat) ^ k" using ring_size(3) [OF assms(1)] by simp
  have p: "ring_at v x 0 + 16 = ring_at v x 16" "ring_at v x 16 + 4 = ring_at v x 20" "ring_at v x 16 + 12 = ring_at v x 28"
    using ring_at_entry [OF assms(1), of _ x] by simp_all
  let ?f = "ETH_L3_CSUM A OR ETH_L4_CSUM A"
  define m where "m = memset h (ring_at v x 16) 0 32"
  have m: "m (ring_at v x z) = (if 16 \<le> z \<and> z < 48 then 0 else h (ring_at v x z))" if "z < 64 * 2 ^ k" for z
    using view_store [OF assms(1) _ _ that, of x 16 "replicate 32 0" h] size that
    by (auto simp: m_def memset_def entry_in_a_row [OF assms(1)])
  have at: "h' (ring_at v x z) = (if 28 \<le> z \<and> z < 30 then le16 (hton16 (ucast il)) ! (z - 28) else if z = 20 then ?f
      else if 16 \<le> z \<and> z < 48 then 0 else h (ring_at v x z))" if "z < 64 * 2 ^ k" for z
  proof -
    have "h' = store_bytes (store_bytes m (ring_at v x 20) [?f]) (ring_at v x 28) (le16 (hton16 (ucast il)))"
      using m [of 20] size unfolding h'_def fill_eth_seg_def Let_def abi p scalar_defs by (simp add: m_def)
    moreover have "store_bytes m' (ring_at v x 28) (le16 (hton16 (ucast il))) (ring_at v x z)
        = (if 28 \<le> z \<and> z < 30 then le16 (hton16 (ucast il)) ! (z - 28) else m' (ring_at v x z))" for m'
      using view_store [OF assms(1) _ _ that, of x 28 "le16 (hton16 (ucast il))"] entry_in_a_row [OF assms(1)] size by simp
    moreover have "store_bytes m (ring_at v x 20) [?f] (ring_at v x z) = (if z = 20 then ?f else m (ring_at v x z))"
      using view_store [OF assms(1) _ _ that, of x 20 "[?f]" m] entry_in_a_row [OF assms(1)] size by (cases "z = 20") auto
    ultimately show ?thesis by (simp only: m [OF that])
  qed
  show "ring_read h' v x 16 14 = eth_bytes A il"
  proof (rule nth_equalityI)
    fix i
    assume "i < length (ring_read h' v x 16 14)"
    then have i: "i < 14" by (simp add: ring_read_def)
    then show "ring_read h' v x 16 14 ! i = eth_bytes A il ! i"
      using at [of "16 + i"] size by (auto simp: ring_read_def eth_bytes_def nth_append nth_Cons') (simp add: numeral_eq_Suc)
  qed (simp add: ring_read_def)
  show "z < 64 * 2 ^ k \<Longrightarrow> z < 16 \<or> 48 \<le> z \<Longrightarrow> h' (ring_at v x z) = h (ring_at v x z)"
    using at by auto
qed

text \<open>The inlined headers stay between the Ethernet segment and the first data segment, or go in front of the ring.\<close>

lemma fill_inline_view:
  assumes "ring_geometry v k" "documented_abi A" "z < 64 * 2 ^ k" "z < 30 \<or> 88 \<le> z"
  shows "fill_inline A v rh h (ring_at v (sq_head v) z) = h (ring_at v (sq_head v) z)"
proof -
  let ?x = "sq_head v" and ?I = "inline_start A v" and ?S = "sq_buf v"
  let ?q = "slot (sq_wqe_cnt v) ?x"
  have q: "?q < 2 ^ k" by (rule ring_slot(1) [OF assms(1)])
  have I: "?I = ?S + of_nat (64 * ?q + 30)"
    using assms(2) ring_at_entry [OF assms(1), of 0 ?x] segment_start [OF assms(1), of ?x]
    by (simp add: inline_start_def documented_abi_def)
  have uI: "unat ?I = unat ?S + (64 * ?q + 30)" unfolding I using q by (intro unat_ring_pos [OF assms(1)]) linarith
  have away: "n \<le> unat (ring_at v ?x z - ?I)" if n: "64 * ?q + 30 + n \<le> 64 * 2 ^ k" "n \<le> 58" for n
  proof (rule ccontr)
    define u where "u = unat (ring_at v ?x z - ?I)"
    assume "\<not> n \<le> unat (ring_at v ?x z - ?I)"
    then have u: "64 * ?q + (30 + u) < 64 * 2 ^ k" "u < 58" using n unfolding u_def by linarith+
    have "ring_at v ?x z = ?I + of_nat u" by (simp add: u_def)
    also have "\<dots> = ?S + of_nat (64 * ?q + (30 + u))" by (simp add: I)
    also have "\<dots> = ring_at v ?x (30 + u)" unfolding ring_slot(2) [OF assms(1), of ?x "30 + u"] mod_less [OF u(1)] by (rule refl)
    finally have "z = 30 + u" using u by (intro ring_at_inj [OF assms(1,3)]) simp_all
    then show False using assms(4) u(2) by simp
  qed
  show ?thesis
  proof (cases "?q + 1 = 2 ^ k")
    case False
    then have "2 + ?q \<le> 2 ^ k" using q by linarith
    then have "64 * ?q + 30 + 58 \<le> 64 * 2 ^ k" by linarith
    then show ?thesis using uI sq_end_eq(2) [OF assms(1)] away by (intro inline_outside) simp_all
  next
    case True
    then have end34: "64 * ?q + 30 + 34 = 64 * 2 ^ k" by linarith
    have geo: "k < 16" "sq_wqe_cnt v = 2 ^ k" "sq_stride v = 64" "tx_sq_log_stride v = 6" "26 \<le> unat ?S"
      "unat ?S + 64 * 2 ^ k + 16 < 2 ^ 64"
      using assms(1) ring_size(1) [OF assms(1)] by (simp_all add: ring_geometry_def ring_layout_def)
    have "unat (POW2MOD ?x (sq_wqe_cnt v)) + 1 = 2 ^ k" using True by (simp add: slot_def POW2MOD_def)
    moreover have "unat (2 ^ k - 1 :: u32) + 1 = 2 ^ k"
      using geo(1) ring_size(3) [OF assms(1)] by (simp add: unat_sub_if' unat_exp)
    ultimately have last: "POW2MOD ?x (sq_wqe_cnt v) = 2 ^ k - 1" by (simp add: word_unat_eq_iff)
    note behind = inline_data_last(1) [OF assms(2) geo(1-4) last geo(6)]
    have out: "memcpy m (?S - 26) d 8 (ring_at v ?x z) = m (ring_at v ?x z)" for m d
      unfolding memcpy_def
    proof (rule view_store_outside [OF assms(1)])
      fix j
      assume "j < length (load_bytes m d 8)"
      then have j: "j < 8" by simp
      have "unat (?S - 26) = unat ?S - 26" using geo(5) by (simp add: unat_sub_if')
      then have "unat (?S - 26 + of_nat j) = unat ?S - 26 + j"
        using j geo(6) by (simp add: unat_word_ariths unat_of_nat_less)
      then show "\<not> in_tx_ring v (?S - 26 + of_nat j)" using j geo(5) by (simp add: in_tx_ring_def)
    qed
    have a: "34 \<le> unat (ring_at v ?x z - ?I)" using end34 by (intro away) simp_all
    show ?thesis
      using uI sq_end_eq(2) [OF assms(1)] end34 outside_part [OF a, of 0 14] outside_part [OF a, of 14 20]
      unfolding fill_inline_def Let_def by (simp add: inline_data_fits behind out memcpy_outside)
  qed
qed

lemma post_headers_view:
  fixes x ds :: u32 and rh :: ptr and il :: u64 and h :: mem
  assumes "ring_geometry v k" "documented_abi A" "x = sq_head v"
  defines "h' \<equiv> post_headers A v ds rh il h"
  shows "ring_read h' v x 0 16 = ctrl_bytes A v x ds" "ring_read h' v x 16 14 = eth_bytes A il"
    and "z < 64 * 2 ^ k \<Longrightarrow> (if il = 0 then 48 else 88) \<le> z \<Longrightarrow> h' (ring_at v x z) = h (ring_at v x z)"
proof -
  let ?c = "fill_ctrl_seg A v ds (ring_at v x 0) h"
  let ?e = "fill_eth_seg A il (ring_at v x 0 + sizeof_ctrl A) ?c"
  have h': "h' = (if 0 < il then fill_inline A v rh ?e else ?e)"
    unfolding h'_def post_headers_def Let_def assms(3) segment_start [OF assms(1)] by (rule refl)
  note ctrl = ctrl_segment [OF assms(1-3), where h = h and ds = ds]
  note eth = eth_segment [OF assms(1,2), where h = ?c and il = il and x = x]
  have inl: "h' (ring_at v x z) = ?e (ring_at v x z)" if "z < 64 * 2 ^ k" "z < 30 \<or> il = 0 \<or> 88 \<le> z" for z
    using fill_inline_view [OF assms(1,2) that(1)] that(2) unfolding h' assms(3) by auto
  have low: "j < 64 * 2 ^ k" if "j < 30" for j :: nat using that ring_size(3) [OF assms(1)] by linarith
  show "ring_read h' v x 0 16 = ctrl_bytes A v x ds"
    unfolding ctrl(1) [symmetric] by (rule ring_read_cong) (simp add: inl eth(2) low)
  show "ring_read h' v x 16 14 = eth_bytes A il"
    unfolding eth(1) [symmetric] by (rule ring_read_cong) (simp add: inl low)
  show "z < 64 * 2 ^ k \<Longrightarrow> (if il = 0 then 48 else 88) \<le> z \<Longrightarrow> h' (ring_at v x z) = h (ring_at v x z)"
    using inl [of z] eth(2) [of z] ctrl(2) [of z] by (auto split: if_splits)
qed

lemma data_segments:
  assumes "ring_geometry v k" "documented_abi A" "chain (\<lambda>p. m_next (mb p)) cur ms" "16 * (i + length ms) \<le> 64 * 2 ^ k"
    and "fill_data_segs A fuel v mb cur (ring_at v x (16 * i)) h = Inr h'"
  shows "(\<forall>z<64 * 2 ^ k. z < 16 * i \<or> 16 * (i + length ms) \<le> z \<longrightarrow> h' (ring_at v x z) = h (ring_at v x z))
    \<and> (\<forall>j<length ms. ring_read h' v x (16 * (i + j)) 16 = data_bytes (mb (ms ! j)))"
  using assms(3-)
proof (induction ms arbitrary: cur i fuel h)
  case Nil
  then show ?case by (cases fuel) simp_all
next
  case (Cons m ms)
  then have cur: "cur = m" "m \<noteq> NULL" "chain (\<lambda>p. m_next (mb p)) (m_next (mb m)) ms" by simp_all
  obtain f where f: "fuel = Suc f" using Cons.prems(3) cur(1,2) by (cases fuel) simp_all
  let ?p = "ring_at v x (16 * i)" and ?b = "mb m"
  define h1 where "h1 = st32 (st64 (st32 h (?p + data_byte_count A) (hton32 (mbuf_length ?b))) (?p + data_addr A) (hton64 (mbuf_data ?b)))
    (?p + data_lkey A) (hton32 (m_lkey ?b))"
  have size: "16 * i + 16 \<le> 64 * 2 ^ k" "16 * (Suc i + length ms) \<le> 64 * 2 ^ k" using Cons.prems(2) by simp_all
  note seg = data_segment [OF assms(1,2) size(1), where h = h and b = ?b and x = x, folded h1_def]
  have abi: "sizeof_data_seg A = 16" using assms(2) by (simp add: documented_abi_def)
  have "fill_data_segs A f v mb (m_next ?b) (if ?p + sizeof_data_seg A = sq_end v then sq_buf v else ?p + sizeof_data_seg A) h1 = Inr h'"
    using Cons.prems(3) cur(1,2) unfolding f h1_def fill_data_segs.simps Let_def by simp
  then have "fill_data_segs A f v mb (m_next ?b) (ring_at v x (16 * Suc i)) h1 = Inr h'"
    unfolding abi next_segment [OF assms(1)] .
  note ih = Cons.IH [OF cur(3) size(2) this]
  have keep: "h' (ring_at v x z) = h1 (ring_at v x z)" if "z < 64 * 2 ^ k" "z < 16 * Suc i \<or> 16 * (Suc i + length ms) \<le> z" for z
    using ih that by blast
  have "h' (ring_at v x z) = h (ring_at v x z)" if "z < 64 * 2 ^ k" "z < 16 * i \<or> 16 * (i + length (m # ms)) \<le> z" for z
  proof -
    have "z < 16 * Suc i \<or> 16 * (Suc i + length ms) \<le> z" "z < 16 * i \<or> 16 * i + 16 \<le> z" using that(2) by auto
    then show ?thesis using keep [OF that(1)] seg(2) [OF that(1)] by simp
  qed
  moreover have "ring_read h' v x (16 * (i + j)) 16 = data_bytes (mb ((m # ms) ! j))" if "j < length (m # ms)" for j
  proof (cases j)
    case 0
    have "ring_read h' v x (16 * i) 16 = ring_read h1 v x (16 * i) 16"
    proof (rule ring_read_cong)
      fix z
      assume z: "16 * i \<le> z" "z < 16 * i + 16"
      then have "z < 64 * 2 ^ k" using size(1) by linarith
      then show "h' (ring_at v x z) = h1 (ring_at v x z)" using z by (intro keep) simp_all
    qed
    then show ?thesis using seg(1) 0 by simp
  next
    case (Suc l)
    then have "ring_read h' v x (16 * (Suc i + l)) 16 = data_bytes (mb (ms ! l))" using ih that by simp
    then show ?thesis using Suc by simp
  qed
  ultimately show ?case by blast
qed

section \<open>The transmissions in flight\<close>

text \<open>
  What the device finds from entry \<open>x\<close> on for a packet of the mbufs \<open>ms\<close> with \<open>il\<close> bytes of inlined headers:
  the control segment with the index and the number of segments, the Ethernet segment, and the address, length and key of
  every mbuf in order.
\<close>

definition descriptor :: "abi \<Rightarrow> txq \<Rightarrow> (ptr \<Rightarrow> mbuf) \<Rightarrow> mem \<Rightarrow> u32 \<Rightarrow> ptr list \<Rightarrow> u64 \<Rightarrow> bool" where
  "descriptor A v mb h x ms il \<longleftrightarrow> (let hdr = (if il = 0 then 2 else 6) in
     ring_read h v x 0 16 = ctrl_bytes A v x (of_nat (hdr + length ms))
     \<and> ring_read h v x 16 14 = eth_bytes A il
     \<and> (\<forall>i<length ms. ring_read h v x (16 * (hdr + i)) 16 = data_bytes (mb (ms ! i))))"

text \<open>A packet as the program posts it: nothing inlined or the 58 bytes of header, and as many mbufs as the first one says.\<close>

definition program_packet :: "net \<Rightarrow> ptr \<Rightarrow> u64 \<Rightarrow> bool" where
  "program_packet s m il \<longleftrightarrow> (il = 0 \<or> il = hdr_len)
     \<and> (\<exists>ms. chain (\<lambda>p. m_next (n_mbufs s p)) m ms \<and> length ms = unat (m_nb_segs (n_mbufs s m)))"

lemma program_packet_small: "program_packet s m il \<Longrightarrow> il \<le> 1024"
  by (auto simp: program_packet_def word_le_nat_alt)

section \<open>What posting writes\<close>

lemma packet_segments:
  assumes "documented_abi A" "il = 0 \<or> il = hdr_len"
  shows "num_hdr_segs A il = of_nat (if il = 0 then 2 else 6)" "num_dpsegs A nb = nb"
    and "wqes_needed A nb il = ((if il = 0 then 2 else 6) + unat nb + 3) div 4"
proof -
  show h: "num_hdr_segs A il = of_nat (if il = 0 then 2 else 6)"
    using assms by (auto simp: num_hdr_segs_def documented_abi_def)
  have "unat (16 * ucast nb :: u64) = 16 * unat nb"
    using u32_fits [of nb] by (simp add: unat_word_ariths)
  then have "unat (16 * ucast nb div 16 :: u64) = unat nb" by (simp add: unat_div_distrib)
  then have "unat (ucast (16 * ucast nb div 16 :: u64) :: u32) = unat nb"
    using u32_fits [of nb] by (subst unat_ucast_u64_less) simp_all
  then have "(ucast (16 * ucast nb div 16 :: u64) :: u32) = nb" by (simp only: word_unat_eq_iff)
  then show d: "num_dpsegs A nb = nb" using assms(1) by (simp add: num_dpsegs_def documented_abi_def)
  show "wqes_needed A nb il = ((if il = 0 then 2 else 6) + unat nb + 3) div 4"
    by (simp add: wqes_needed_def h d)
qed

lemma posted_bytes:
  assumes "ring_geometry v k" "documented_abi A" "il = 0 \<or> il = hdr_len" "m \<noteq> NULL"
    and "chain (\<lambda>p. m_next (mb p)) m ms" "length ms = unat nb" "wqes_needed A nb il \<le> 2 ^ k"
    and "fill_data_segs A fuel v mb m (first_data_seg A v il (get_segment v (POW2MOD (sq_head v) (sq_wqe_cnt v)) + sizeof_ctrl A))
       (post_headers A v (num_hdr_segs A il + num_dpsegs A nb) rh il h) = Inr h'"
  shows "descriptor A v mb h' (sq_head v) ms il"
    and "z < 64 * 2 ^ k \<Longrightarrow> 64 * wqes_needed A nb il \<le> z \<Longrightarrow> h' (ring_at v (sq_head v) z) = h (ring_at v (sq_head v) z)"
proof -
  let ?x = "sq_head v"
  define hdr :: nat where "hdr = (if il = 0 then 2 else 6)"
  define h0 where "h0 = post_headers A v (of_nat (hdr + length ms)) rh il h"
  have n: "wqes_needed A nb il = (hdr + length ms + 3) div 4"
    using packet_segments(3) [OF assms(2,3)] assms(6) by (simp add: hdr_def)
  have "num_hdr_segs A il + num_dpsegs A nb = of_nat (hdr + length ms)"
    using packet_segments(1,2) [OF assms(2,3)] assms(6) by (simp add: hdr_def)
  then have run: "fill_data_segs A fuel v mb m (ring_at v ?x (16 * hdr)) h0 = Inr h'"
    using assms(8) first_data_seg_at [OF assms(1-3)] segment_start [OF assms(1)] by (simp add: h0_def hdr_def)
  have "hdr + length ms \<le> 4 * wqes_needed A nb il" unfolding n by simp
  then have size: "16 * (hdr + length ms) \<le> 64 * wqes_needed A nb il" by simp
  also have "\<dots> \<le> 64 * 2 ^ k" using assms(7) by (rule mult_le_mono2)
  finally have size2: "16 * (hdr + length ms) \<le> 64 * 2 ^ k" .
  have "ms \<noteq> []" using assms(4,5) by auto
  then have pos: "1 \<le> length ms" by (cases ms) simp_all
  note data = data_segments [OF assms(1,2,5) size2 run]
  note head = post_headers_view [OF assms(1,2) refl, where h = h and ds = "of_nat (hdr + length ms)" and rh = rh and il = il, folded h0_def]
  have keep: "h' (ring_at v ?x z) = h0 (ring_at v ?x z)" if "z < 64 * 2 ^ k" "z < 16 * hdr \<or> 16 * (hdr + length ms) \<le> z" for z
    using data that by blast
  have low: "h' (ring_at v ?x z) = h0 (ring_at v ?x z)" if "z < 30" for z
  proof (rule keep)
    show "z < 64 * 2 ^ k" using that ring_size(3) [OF assms(1)] by linarith
  qed (use that in \<open>simp add: hdr_def\<close>)
  have "ring_read h' v ?x 0 16 = ctrl_bytes A v ?x (of_nat (hdr + length ms))" "ring_read h' v ?x 16 14 = eth_bytes A il"
    unfolding head(1,2) [symmetric] by (rule ring_read_cong, simp add: low)+
  then show "descriptor A v mb h' ?x ms il"
    using data by (simp add: descriptor_def Let_def flip: hdr_def)
  show "h' (ring_at v ?x z) = h (ring_at v ?x z)" if z: "z < 64 * 2 ^ k" "64 * wqes_needed A nb il \<le> z"
  proof -
    have "(if il = 0 then 48 else 88) \<le> z"
      using z(2) size pos by (cases "il = 0") (simp_all add: hdr_def)
    then have "h0 (ring_at v ?x z) = h (ring_at v ?x z)" by (rule head(3) [OF z(1)])
    moreover have "h' (ring_at v ?x z) = h0 (ring_at v ?x z)" by (rule keep [OF z(1)]) (use z(2) size in linarith)
    ultimately show ?thesis by simp
  qed
qed

section \<open>One transmission\<close>

text \<open>The ring and its indices stay where they are; of an mbuf, posting changes the number of entries only.\<close>

definition same_ring :: "txq \<Rightarrow> txq \<Rightarrow> bool" where
  "same_ring v v' \<longleftrightarrow> sq_buf v' = sq_buf v \<and> sq_wqe_cnt v' = sq_wqe_cnt v \<and> sq_stride v' = sq_stride v
     \<and> tx_sq_log_stride v' = tx_sq_log_stride v \<and> sq_qp_num v' = sq_qp_num v
     \<and> sq_dbrec v' = sq_dbrec v \<and> tx_cq_dbrec v' = tx_cq_dbrec v"

definition same_mbufs :: "(ptr \<Rightarrow> mbuf) \<Rightarrow> (ptr \<Rightarrow> mbuf) \<Rightarrow> bool" where
  "same_mbufs mb mb' \<longleftrightarrow> (\<forall>p. \<exists>w. mb' p = (mb p)\<lparr>m_num_wqes := w\<rparr>)"

lemma same_ring_refl [simp]: "same_ring v v"
  by (simp add: same_ring_def)

lemma same_ring_trans: "same_ring v v' \<Longrightarrow> same_ring v' v'' \<Longrightarrow> same_ring v v''"
  by (simp add: same_ring_def)

lemma same_ring_advance [simp]: "same_ring v (advance fl v)"
  by (simp add: same_ring_def advance_def)

lemma same_mbufs_refl [simp]: "same_mbufs mb mb"
proof -
  have "mb p = (mb p)\<lparr>m_num_wqes := m_num_wqes (mb p)\<rparr>" for p by simp
  then show ?thesis unfolding same_mbufs_def by metis
qed

lemma same_mbufs_upd [simp]: "same_mbufs mb (mb(m := (mb m)\<lparr>m_num_wqes := w\<rparr>))"
proof -
  have "mb p = (mb p)\<lparr>m_num_wqes := m_num_wqes (mb p)\<rparr>" for p by simp
  then show ?thesis unfolding same_mbufs_def fun_upd_def by metis
qed

lemma same_mbufs_fields:
  assumes "same_mbufs mb mb'"
  shows "m_next (mb' p) = m_next (mb p)" "data_bytes (mb' p) = data_bytes (mb p)"
    "chain (\<lambda>p. m_next (mb' p)) m ms = chain (\<lambda>p. m_next (mb p)) m ms"
proof -
  have f: "m_next (mb' p) = m_next (mb p) \<and> data_bytes (mb' p) = data_bytes (mb p)" for p
  proof -
    obtain w where "mb' p = (mb p)\<lparr>m_num_wqes := w\<rparr>" using assms by (auto simp: same_mbufs_def)
    then show ?thesis by (simp add: data_bytes_def mbuf_length_def mbuf_data_def)
  qed
  then show "m_next (mb' p) = m_next (mb p)" "data_bytes (mb' p) = data_bytes (mb p)" by blast+
  show "chain (\<lambda>p. m_next (mb' p)) m ms = chain (\<lambda>p. m_next (mb p)) m ms" using f by simp
qed

lemma ring_at_same: "same_ring v v' \<Longrightarrow> ring_at v' = ring_at v"
  by (simp add: same_ring_def ring_at_def fun_eq_iff)

lemma ring_geometry_same: "same_ring v v' \<Longrightarrow> ring_geometry v' k = ring_geometry v k"
  by (simp add: same_ring_def ring_geometry_def ring_layout_def)

lemma tx_layout_same: "same_ring v v' \<Longrightarrow> tx_layout A v' = tx_layout A v"
  by (simp add: same_ring_def tx_layout_def ring_layout_def in_tx_ring_def)

lemma descriptor_same:
  assumes "same_ring v v'" "same_mbufs mb mb'"
  shows "descriptor A v' mb' h x ms il = descriptor A v mb h x ms il"
  using assms(1) same_mbufs_fields(2) [OF assms(2)]
  by (simp add: descriptor_def ring_read_def ring_at_same [OF assms(1)] ctrl_bytes_def same_ring_def)

text \<open>The two indices written for the device lie outside of the ring.\<close>

lemma index_stores:
  assumes "ring_geometry v k" "tx_layout A v"
  shows "st32 m (tx_cq_dbrec v) w (ring_at v x z) = m (ring_at v x z)"
    "st32 m (sq_dbrec v + 4 * SND_DBR A) w (ring_at v x z) = m (ring_at v x z)"
  using assms(2) unfolding st32_def tx_layout_def by (auto intro!: view_store_outside [OF assms(1)])

lemma reaped_ring:
  assumes "documented_abi A" "tx_ok (n_txq s) (n_mbufs s) (fin @ rest)"
    and "completed A (n_txq s) (cq_head (n_txq s)) (true_cq_head (n_txq s)) fin"
    and "reap_completions A s = Inr s1 \<or> s1 = s" "ring_geometry (n_txq s) k" "tx_layout A (n_txq s)"
  shows "same_ring (n_txq s) (n_txq s1) \<and> sq_head (n_txq s1) = sq_head (n_txq s) \<and> n_mbufs s1 = n_mbufs s
    \<and> (\<forall>x z. n_mem s1 (ring_at (n_txq s) x z) = n_mem s (ring_at (n_txq s) x z))"
proof -
  obtain j where "n_txq s1 = advance (take j fin) (n_txq s)" "n_mbufs s1 = n_mbufs s"
    using maybe_reaped [OF assms(1-4)] by blast
  then have "same_ring (n_txq s) (n_txq s1)" "sq_head (n_txq s1) = sq_head (n_txq s)" "n_mbufs s1 = n_mbufs s"
    by (simp_all add: advance_def same_ring_def)
  moreover have "n_mem s1 (ring_at (n_txq s) x z) = n_mem s (ring_at (n_txq s) x z)" for x z
    using assms(4) reap_completions_mem [OF assms(1-3)] index_stores(1) [OF assms(5,6)] by auto
  ultimately show ?thesis by blast
qed

text \<open>What a call that posts or refuses a packet leaves in the ring: at most the entries from the head on are written.\<close>

definition written_from :: "abi \<Rightarrow> net \<Rightarrow> net \<Rightarrow> ptr \<Rightarrow> u64 \<Rightarrow> nat \<Rightarrow> bool" where
  "written_from A s s' m il n \<longleftrightarrow> (let v = n_txq s; x = sq_head v in
     same_ring v (n_txq s') \<and> same_mbufs (n_mbufs s) (n_mbufs s') \<and> sq_head (n_txq s') = x + of_nat n
     \<and> (\<forall>z<64 * unat (sq_wqe_cnt v). 64 * n \<le> z \<longrightarrow> n_mem s' (ring_at v x z) = n_mem s (ring_at v x z))
     \<and> (n \<noteq> 0 \<longrightarrow> (\<exists>ms. chain (\<lambda>p. m_next (n_mbufs s p)) m ms \<and> n = ((if il = 0 then 2 else 6) + length ms + 3) div 4
         \<and> descriptor A v (n_mbufs s) (n_mem s') x ms il)))"

lemma fill_written:
  assumes "documented_abi A" "tx_ok (n_txq s) (n_mbufs s) (fin @ rest)"
    and "completed A (n_txq s) (cq_head (n_txq s)) (true_cq_head (n_txq s)) fin"
    and "ring_layout (n_txq s)" "tx_layout A (n_txq s)" "program_packet s m il"
    and "mlx5_fill_tx_segment A m rh il s = Inr (ret, s')"
  shows "written_from A s s' m il (if ret = 0 then wqes_needed A (m_nb_segs (n_mbufs s m)) il else 0)"
proof -
  let ?v = "n_txq s" and ?n = "wqes_needed A (m_nb_segs (n_mbufs s m)) il"
  obtain k where k: "k < 16" "sq_wqe_cnt ?v = 2 ^ k" using assms(2) by (auto simp: tx_ok_def)
  have geo: "ring_geometry ?v k" using assms(4) k by (simp add: ring_geometry_def)
  note reaped = reaped_ring [OF assms(1-3) _ geo assms(5)]
  from assms(7) show ?thesis
  proof (cases rule: fill_tx_cases)
    case (1 s1)
    then show ?thesis using reaped [of s1] by (simp add: written_from_def)
  next
    case (2 s1 h)
    let ?v1 = "n_txq s1"
    have r: "same_ring ?v ?v1" "sq_head ?v1 = sq_head ?v" "n_mbufs s1 = n_mbufs s"
      "\<And>x z. n_mem s1 (ring_at ?v x z) = n_mem s (ring_at ?v x z)"
      using reaped [OF 2(3)] by blast+
    have geo1: "ring_geometry ?v1 k" using geo ring_geometry_same [OF r(1)] by simp
    obtain j where "?v1 = advance (take j fin) ?v" using maybe_reaped [OF assms(1-3) 2(3)] by blast
    then have "tx_ok ?v1 (n_mbufs s) (drop j fin @ rest)" using tx_ok_advance [OF assms(2)] by simp
    then have "unat (sq_wqe_cnt ?v1 - nr_inflight_tx ?v1) \<le> 2 ^ k"
      by (rule tx_ok_inflight) (use ring_size(1) [OF geo1] in \<open>simp add: unat_exp\<close>)
    then have fits: "?n \<le> 2 ^ k" using 2(5) by linarith
    have packets: "same_mbufs (n_mbufs s) (n_mbufs s')" using 2(7) r(3) by simp
    have il: "il = 0 \<or> il = hdr_len" using assms(6) by (simp add: program_packet_def)
    obtain ms where ms: "chain (\<lambda>p. m_next (n_mbufs s p)) m ms" "length ms = unat (m_nb_segs (n_mbufs s m))"
      using assms(6) by (auto simp: program_packet_def)
    have ms': "chain (\<lambda>p. m_next (n_mbufs s' p)) m ms" using ms(1) same_mbufs_fields(3) [OF packets] by simp
    note bytes = posted_bytes [OF geo1 assms(1) il 2(1) ms' ms(2) fits 2(8)]
    have "descriptor A ?v (n_mbufs s) h (sq_head ?v) ms il"
      using bytes(1) descriptor_same [OF r(1) packets] r(2) by simp
    moreover have "?n = ((if il = 0 then 2 else 6) + length ms + 3) div 4"
      using packet_segments(3) [OF assms(1) il] ms(2) by simp
    moreover have "h (ring_at ?v (sq_head ?v) z) = n_mem s (ring_at ?v (sq_head ?v) z)"
      if "z < 64 * unat (sq_wqe_cnt ?v)" "64 * ?n \<le> z" for z
      using bytes(2) [of z] that r(2,4) ring_at_same [OF r(1)] ring_size(1) [OF geo] by simp
    moreover have "same_ring ?v (n_txq s')" using r(1) 2(7) by (simp add: same_ring_def)
    moreover have "sq_head (n_txq s') = sq_head ?v + of_nat ?n" "n_mem s' = h" using 2(7) r(2) by simp_all
    ultimately show ?thesis using ms(1) packets 2(4) unfolding written_from_def Let_def by auto
  qed
qed

lemma transmit_written:
  assumes "documented_abi A" "tx_ok (n_txq s) (n_mbufs s) (fin @ rest)"
    and "completed A (n_txq s) (cq_head (n_txq s)) (true_cq_head (n_txq s)) fin"
    and "ring_layout (n_txq s)" "tx_layout A (n_txq s)" "program_packet s m il" "m \<notin> fst ` set (fin @ rest)"
    and "get_segment (n_txq s) (sq_head (n_txq s) AND (sq_wqe_cnt (n_txq s) - 1)) \<noteq> NULL"
    and "mlx5_transmit_one A m rh il s = Inr (ret, s')"
  shows "written_from A s s' m il (if ret = 1 then wqes_needed A (m_nb_segs (n_mbufs s m)) il else 0)"
  using assms(9,8)
proof (cases rule: transmit_one_cases)
  case 1
  then show ?thesis using fill_written [OF assms(1-6) 1(2)] by simp
next
  case (2 r s1 s2)
  let ?v = "n_txq s" and ?n = "wqes_needed A (m_nb_segs (n_mbufs s m)) il"
  obtain k where k: "k < 16" "sq_wqe_cnt ?v = 2 ^ k" using assms(2) by (auto simp: tx_ok_def)
  have geo: "ring_geometry ?v k" using assms(4) k by (simp add: ring_geometry_def)
  note small = program_packet_small [OF assms(6)]
  obtain j where j: "completed A (n_txq s1) (cq_head (n_txq s1)) (true_cq_head (n_txq s1)) (drop j fin)" "r = 0"
    "tx_ok (n_txq s1) (n_mbufs s1) (drop j fin @ (rest @ [(m, ?n)]))"
    using fill_tx_ring [OF assms(1) small assms(2,3,7) 2(2)] 2(3) by (auto simp: Let_def split: if_splits)
  have w: "written_from A s s1 m il ?n" using fill_written [OF assms(1-6) 2(2)] j(2) by simp
  then have same: "same_ring ?v (n_txq s1)" by (simp add: written_from_def Let_def)
  have geo1: "ring_geometry (n_txq s1) k" and lay1: "tx_layout A (n_txq s1)"
    using geo assms(5) ring_geometry_same [OF same] tx_layout_same [OF same] by simp_all
  have door: "n_mem s2 (ring_at ?v x z) = n_mem s1 (ring_at ?v x z)" for x z
    using 2(7) index_stores(2) [OF geo1 lay1] ring_at_same [OF same] by auto
  have "same_ring (n_txq s2) (n_txq s') \<and> sq_head (n_txq s') = sq_head (n_txq s2) \<and> n_mbufs s' = n_mbufs s2
    \<and> (\<forall>x z. n_mem s' (ring_at (n_txq s2) x z) = n_mem s2 (ring_at (n_txq s2) x z))"
    by (rule reaped_ring [OF assms(1) _ _ 2(6)]) (use j geo1 lay1 2(4,5) in simp_all)
  then have last: "same_ring (n_txq s1) (n_txq s')" "sq_head (n_txq s') = sq_head (n_txq s1)" "n_mbufs s' = n_mbufs s1"
    "\<And>x z. n_mem s' (ring_at ?v x z) = n_mem s1 (ring_at ?v x z)"
    using 2(4,5) door ring_at_same [OF same] by simp_all
  have "descriptor A ?v (n_mbufs s) (n_mem s') x ms il = descriptor A ?v (n_mbufs s) (n_mem s1) x ms il" for x ms
    by (simp add: descriptor_def ring_read_def last(4))
  then show ?thesis
    using w last same_ring_trans [OF same last(1)] 2(1) by (simp add: written_from_def Let_def)
qed

section \<open>The ring over all steps\<close>

definition on_ring :: "abi \<Rightarrow> net \<Rightarrow> u32 \<Rightarrow> ptr \<times> nat \<Rightarrow> bool" where
  "on_ring A s x p \<longleftrightarrow> (\<exists>ms il. (il = 0 \<or> il = hdr_len) \<and> chain (\<lambda>p. m_next (n_mbufs s p)) (fst p) ms
     \<and> snd p = ((if il = 0 then 2 else 6) + length ms + 3) div 4
     \<and> descriptor A (n_txq s) (n_mbufs s) (n_mem s) x ms il)"

lemma on_ring_cong:
  assumes "on_ring A s x p" "same_ring (n_txq s) (n_txq s')" "same_mbufs (n_mbufs s) (n_mbufs s')"
    and "\<And>z. z < 64 * snd p \<Longrightarrow> n_mem s' (ring_at (n_txq s) x z) = n_mem s (ring_at (n_txq s) x z)"
  shows "on_ring A s' x p"
proof -
  let ?v = "n_txq s"
  obtain ms il where p: "il = 0 \<or> il = hdr_len" "chain (\<lambda>p. m_next (n_mbufs s p)) (fst p) ms"
    "snd p = ((if il = 0 then 2 else 6) + length ms + 3) div 4" "descriptor A ?v (n_mbufs s) (n_mem s) x ms il"
    using assms(1) by (auto simp: on_ring_def)
  define hdr :: nat where "hdr = (if il = 0 then 2 else 6)"
  have n: "snd p = (hdr + length ms + 3) div 4" "2 \<le> hdr" using p(3) by (simp_all add: hdr_def)
  have size: "16 * (hdr + length ms) \<le> 64 * snd p" "64 \<le> 64 * snd p" using n by simp_all
  have cong: "ring_read (n_mem s') ?v x z l = ring_read (n_mem s) ?v x z l" if "z + l \<le> 64 * snd p" for z l
    by (rule ring_read_cong) (use that in \<open>auto intro: assms(4)\<close>)
  have "ring_read (n_mem s') ?v x (16 * (hdr + i)) 16 = ring_read (n_mem s) ?v x (16 * (hdr + i)) 16" if "i < length ms" for i
    by (rule cong) (use that size(1) in simp)
  then have "descriptor A ?v (n_mbufs s) (n_mem s') x ms il"
    using p(4) cong [of 0 16] cong [of 16 14] size(2) by (simp add: descriptor_def Let_def flip: hdr_def)
  then have "descriptor A (n_txq s') (n_mbufs s') (n_mem s') x ms il"
    using descriptor_same [OF assms(2,3)] by simp
  moreover have "chain (\<lambda>p. m_next (n_mbufs s' p)) (fst p) ms" using p(2) same_mbufs_fields(3) [OF assms(3)] by simp
  ultimately show ?thesis using p(1,3) by (auto simp: on_ring_def)
qed

lemma ring_at_round:
  assumes "ring_geometry v k"
  shows "ring_at v x (64 * 2 ^ k + z) = ring_at v x z"
proof -
  have "(64 * unat x + (64 * 2 ^ k + z)) mod (64 * 2 ^ k) = (64 * unat x + z) mod (64 * 2 ^ k)"
    by (metis add.left_commute mod_add_self1)
  then show ?thesis by (simp only: ring_at_eq [OF assms])
qed

text \<open>
  One step: what it collects, \<open>gone\<close>, what stays in flight, \<open>kept\<close>, and what it posts, \<open>new\<close>. The bytes
  of what stays are not touched, and what is posted is on the ring.
\<close>

lemma tx_step_bytes:
  assumes "documented_abi A" "tx_inv A c" "tx_layout A (n_txq (sys_net c))" "tx_step A program_packet c c'"
  defines "v \<equiv> n_txq (sys_net c)" and "v' \<equiv> n_txq (sys_net c')"
  defines "gone \<equiv> take (unat (cq_head v' - cq_head v)) (sys_done c)"
    and "kept \<equiv> drop (unat (cq_head v' - cq_head v)) (sys_done c) @ sys_pending c"
  shows "same_ring v v' \<and> same_mbufs (n_mbufs (sys_net c)) (n_mbufs (sys_net c'))
    \<and> true_cq_head v' = true_cq_head v + of_nat (entries gone)
    \<and> (\<forall>z<64 * entries kept. n_mem (sys_net c') (ring_at v (true_cq_head v') z) = n_mem (sys_net c) (ring_at v (true_cq_head v') z))
    \<and> (\<exists>new. in_flight c' = kept @ new
        \<and> (new = [] \<or> (\<exists>p. new = [p] \<and> on_ring A (sys_net c') (true_cq_head v' + of_nat (entries kept)) p)))"
  using assms(4)
proof (cases rule: tx_step.cases)
  case (device p rest s' cqes)
  then have "v' = v\<lparr>tx_cqes := cqes\<rparr>" "n_mbufs (sys_net c') = n_mbufs (sys_net c)" "n_mem (sys_net c') = n_mem (sys_net c)"
    by (simp_all add: v_def v'_def)
  moreover have "in_flight c' = kept" using device calculation(1) by (simp add: kept_def)
  ultimately show ?thesis by (simp add: same_ring_def gone_def)
next
  case (transmit m rh il ret s' j)
  let ?s = "sys_net c" and ?n = "wqes_needed A (m_nb_segs (n_mbufs (sys_net c) m)) il"
  define n where "n = (if ret = 1 then ?n else 0)"
  define new where "new = (if ret = 1 then [(m, ?n)] else [])"
  have s': "sys_net c' = s'" and fl': "in_flight c' = kept @ new"
    using transmit(1,6) by (simp_all add: kept_def new_def v_def v'_def)
  have inv: "tx_ok v (n_mbufs ?s) (in_flight c)" "completed A v (cq_head v) (true_cq_head v) (sys_done c)"
    using assms(2) by (simp_all add: tx_inv_def v_def)
  obtain k where k: "k < 16" "sq_wqe_cnt v = 2 ^ k" using inv(1) by (auto simp: tx_ok_def)
  have lay: "ring_layout v" "tx_layout A v" using assms(3) by (simp_all add: v_def tx_layout_def)
  have geo: "ring_geometry v k" using lay k by (simp add: ring_geometry_def)
  have w: "written_from A ?s s' m il n"
    using transmit_written [OF assms(1) inv [unfolded v_def] lay [unfolded v_def] transmit(3,4,5,2)] by (simp add: n_def)
  have "tx_inv A c'" by (rule tx_step_inv [OF assms(1,4,2) program_packet_small])
  then have inv': "tx_ok v' (n_mbufs s') (kept @ new)" unfolding tx_inv_def v'_def s' fl' [symmetric] by blast
  have same: "same_ring v v'" and pk: "same_mbufs (n_mbufs ?s) (n_mbufs s')" and head: "sq_head v' = sq_head v + of_nat n"
    and frame: "\<And>z. z < 64 * 2 ^ k \<Longrightarrow> 64 * n \<le> z \<Longrightarrow> n_mem s' (ring_at v (sq_head v) z) = n_mem ?s (ring_at v (sq_head v) z)"
    using w ring_size(1) [OF geo] by (simp_all add: written_from_def Let_def v_def v'_def s')
  have new: "entries new = n" by (simp add: new_def n_def)
  have split: "in_flight c = gone @ kept" by (simp add: gone_def kept_def)
  have "sq_head v = true_cq_head v + of_nat (entries gone) + of_nat (entries kept)"
    using in_ring_head [of v "n_mbufs ?s" "true_cq_head v" "in_flight c"] inv(1) unfolding split tx_ok_def
    by (simp add: add.assoc)
  moreover have "sq_head v' = true_cq_head v' + of_nat (entries kept) + of_nat n"
    using in_ring_head [of v' "n_mbufs s'" "true_cq_head v'" "kept @ new"] inv' new by (simp add: tx_ok_def add.assoc)
  ultimately have t: "true_cq_head v' = true_cq_head v + of_nat (entries gone)"
    and at: "sq_head v = true_cq_head v' + of_nat (entries kept)" using head by (simp_all add: algebra_simps)
  have "(2::nat) ^ k = unat (sq_wqe_cnt v')" using same ring_size(1) [OF geo] by (simp add: same_ring_def)
  then have room: "entries kept + n \<le> 2 ^ k" using inv' new by (auto simp: tx_ok_def unat_exp)
  have keep: "n_mem s' (ring_at v (true_cq_head v') z) = n_mem ?s (ring_at v (true_cq_head v') z)" if "z < 64 * entries kept" for z
  proof -
    let ?z = "64 * 2 ^ k - 64 * entries kept + z"
    have "64 * entries kept + ?z = 64 * 2 ^ k + z" using room by simp
    then have "ring_at v (sq_head v) ?z = ring_at v (true_cq_head v') z"
      unfolding at ring_at_shift [OF geo] by (simp only: ring_at_round [OF geo])
    then show ?thesis using frame [of ?z] that room by simp
  qed
  have post: "on_ring A s' (true_cq_head v' + of_nat (entries kept)) (m, ?n)" if r: "ret = 1"
  proof -
    have "0 < ?n" using packet_segments(3) [OF assms(1), of il] transmit(3) by (auto simp: program_packet_def)
    then obtain ms where ms: "chain (\<lambda>p. m_next (n_mbufs ?s p)) m ms" "?n = ((if il = 0 then 2 else 6) + length ms + 3) div 4"
      "descriptor A v (n_mbufs ?s) (n_mem s') (sq_head v) ms il"
      using w r by (auto simp: written_from_def Let_def v_def n_def)
    then have "descriptor A v' (n_mbufs s') (n_mem s') (sq_head v) ms il" "chain (\<lambda>p. m_next (n_mbufs s' p)) m ms"
      using descriptor_same [OF same pk] same_mbufs_fields(3) [OF pk] by simp_all
    moreover have "il = 0 \<or> il = hdr_len" using transmit(3) by (simp add: program_packet_def)
    ultimately show ?thesis using ms(2) at by (auto simp: on_ring_def v'_def s')
  qed
  then show ?thesis using same pk t keep fl' unfolding s' by (auto simp: new_def)
qed

text \<open>The ring stays where it is whatever its layout, so that the layout of a state is that of every state before it.\<close>

lemma fill_same_ring:
  assumes "documented_abi A" "tx_ok (n_txq s) (n_mbufs s) (fin @ rest)"
    and "completed A (n_txq s) (cq_head (n_txq s)) (true_cq_head (n_txq s)) fin"
    and "mlx5_fill_tx_segment A m rh il s = Inr (ret, s')"
  shows "same_ring (n_txq s) (n_txq s')"
  using assms(4)
proof (cases rule: fill_tx_cases)
  case (1 s1)
  then obtain j where "n_txq s1 = advance (take j fin) (n_txq s)" using maybe_reaped [OF assms(1-3), of s1] by blast
  then show ?thesis using 1(5) by simp
next
  case (2 s1 h)
  obtain j where "n_txq s1 = advance (take j fin) (n_txq s)" using maybe_reaped [OF assms(1-3) 2(3)] by blast
  then have "same_ring (n_txq s) (n_txq s1)" by simp
  then show ?thesis using 2(7) by (simp add: same_ring_def)
qed

lemma tx_step_same_ring:
  assumes "documented_abi A" "tx_inv A c" "tx_step A program_packet c c'"
  shows "same_ring (n_txq (sys_net c)) (n_txq (sys_net c'))"
  using assms(3)
proof (cases rule: tx_step.cases)
  case (device p rest s' cqes)
  then show ?thesis by (simp add: same_ring_def)
next
  case (transmit m rh il ret s' j)
  let ?s = "sys_net c" and ?n = "wqes_needed A (m_nb_segs (n_mbufs (sys_net c) m)) il"
  have inv: "tx_ok (n_txq ?s) (n_mbufs ?s) (in_flight c)"
    "completed A (n_txq ?s) (cq_head (n_txq ?s)) (true_cq_head (n_txq ?s)) (sys_done c)"
    using assms(2) by (simp_all add: tx_inv_def)
  note small = program_packet_small [OF transmit(3)]
  from transmit(2,5) have "same_ring (n_txq ?s) (n_txq s')"
  proof (cases rule: transmit_one_cases)
    case 1
    then show ?thesis using fill_same_ring [OF assms(1) inv 1(2)] by simp
  next
    case (2 r s1 s2)
    have "same_ring (n_txq ?s) (n_txq s1)" by (rule fill_same_ring [OF assms(1) inv 2(2)])
    moreover obtain j where "completed A (n_txq s1) (cq_head (n_txq s1)) (true_cq_head (n_txq s1)) (drop j (sys_done c))"
      "tx_ok (n_txq s1) (n_mbufs s1) (drop j (sys_done c) @ (sys_pending c @ [(m, ?n)]))"
      using fill_tx_ring [OF assms(1) small inv transmit(4) 2(2)] 2(3) by (auto simp: Let_def split: if_splits)
    then obtain i where "n_txq s' = advance (take i (drop j (sys_done c))) (n_txq s2)"
      using maybe_reaped [OF assms(1) _ _ 2(6), of "drop j (sys_done c)" "sys_pending c @ [(m, ?n)]"] 2(4,5) by auto
    then have "same_ring (n_txq s2) (n_txq s')" by simp
    ultimately show ?thesis using same_ring_trans 2(4) by metis
  qed
  then show ?thesis using transmit(1) by simp
qed

definition all_written :: "abi \<Rightarrow> tx_sys \<Rightarrow> bool" where
  "all_written A c \<longleftrightarrow> (\<forall>i<length (in_flight c).
     on_ring A (sys_net c) (true_cq_head (n_txq (sys_net c)) + of_nat (entries (take i (in_flight c)))) (in_flight c ! i))"

lemma all_written_step:
  assumes "documented_abi A" "tx_inv A c" "tx_layout A (n_txq (sys_net c))" "tx_step A program_packet c c'" "all_written A c"
  shows "all_written A c'"
  unfolding all_written_def
proof (intro allI impI)
  let ?v = "n_txq (sys_net c)" and ?v' = "n_txq (sys_net c')"
  define gone where "gone = take (unat (cq_head ?v' - cq_head ?v)) (sys_done c)"
  define kept where "kept = drop (unat (cq_head ?v' - cq_head ?v)) (sys_done c) @ sys_pending c"
  note bytes = tx_step_bytes [OF assms(1-4), folded gone_def kept_def]
  obtain new where new: "in_flight c' = kept @ new"
    "new = [] \<or> (\<exists>p. new = [p] \<and> on_ring A (sys_net c') (true_cq_head ?v' + of_nat (entries kept)) p)"
    using bytes by blast
  have t: "true_cq_head ?v' = true_cq_head ?v + of_nat (entries gone)" and split: "in_flight c = gone @ kept"
    using bytes by (simp_all add: gone_def kept_def)
  obtain k where "k < 16" "sq_wqe_cnt ?v = 2 ^ k" using assms(2) by (auto simp: tx_inv_def tx_ok_def)
  then have geo: "ring_geometry ?v k" using assms(3) by (simp add: ring_geometry_def tx_layout_def)
  fix i
  assume i: "i < length (in_flight c')"
  show "on_ring A (sys_net c') (true_cq_head ?v' + of_nat (entries (take i (in_flight c')))) (in_flight c' ! i)"
  proof (cases "i < length kept")
    case True
    let ?x = "true_cq_head ?v' + of_nat (entries (take i kept))"
    have at: "length gone + i < length (in_flight c)" "in_flight c ! (length gone + i) = kept ! i"
      "entries (take (length gone + i) (in_flight c)) = entries gone + entries (take i kept)"
      using True unfolding split by simp_all
    from assms(5) [unfolded all_written_def, rule_format, OF at(1), unfolded at(2,3)]
    have old: "on_ring A (sys_net c) ?x (kept ! i)" by (simp only: t of_nat_add add.assoc)
    have "entries (take i kept) + snd (kept ! i) \<le> entries kept"
      using entries_take_drop [of "Suc i" kept] True by (cases "kept ! i") (simp add: take_Suc_conv_app_nth)
    then have "on_ring A (sys_net c') ?x (kept ! i)"
      using bytes by (intro on_ring_cong [OF old]) (auto simp: ring_at_shift [OF geo])
    then show ?thesis using True new(1) by (simp add: nth_append)
  next
    case False
    then show ?thesis using i new by (auto simp: nth_append)
  qed
qed

lemma tx_reach_posted:
  assumes "documented_abi A" "tx_reach A program_packet c" "tx_layout A (n_txq (sys_net c))"
  shows "tx_inv A c \<and> all_written A c"
proof -
  show ?thesis
    using assms(2,3)
  proof (induction rule: tx_reach.induct)
    case (init c)
    then show ?case by (auto simp: tx_init_def tx_inv_def all_written_def)
  next
    case (step c c')
    have inv: "tx_inv A c" by (rule tx_reach_inv [OF assms(1) step(1) program_packet_small])
    have "tx_layout A (n_txq (sys_net c))"
      using tx_layout_same [OF tx_step_same_ring [OF assms(1) inv step(2)]] step.prems by simp
    moreover have "tx_inv A c'" by (rule tx_step_inv [OF assms(1) step(2) inv]) (rule program_packet_small)
    ultimately show ?case using step.IH all_written_step [OF assms(1) inv _ step(2)] by blast
  qed
qed

text \<open>
  C1. From an empty ring, whatever packets of the program are posted and whatever the device completes, the entries in
  flight are those of the transmissions posted and not yet collected, never more than the ring has, no two of
  them in one slot. In the memory of the ring each of these transmissions is there in full, in the order they were posted:
  from its first entry on, going round at the end of the ring, a control segment with its index and its number of segments,
  an Ethernet segment, and for each mbuf of the packet a data segment with its length, key and address; it takes as many entries as these
  segments need. No step writes to the entries of a transmission that it does not collect.
\<close>

theorem tx_system_safe:
  assumes "documented_abi A" "tx_reach A program_packet c" "tx_layout A (n_txq (sys_net c))"
  shows "let s = sys_net c; v = n_txq s; fl = in_flight c; start = (\<lambda>i. true_cq_head v + of_nat (entries (take i fl))) in
    unat (nr_inflight_tx v) = entries fl \<and> entries fl \<le> unat (sq_wqe_cnt v)
    \<and> inj_on (\<lambda>d. slot (sq_wqe_cnt v) (true_cq_head v + of_nat d)) {..<entries fl}
    \<and> (\<forall>i<length fl. t_buffers v ! slot (sq_wqe_cnt v) (start i) = fst (fl ! i)
        \<and> (\<exists>ms il. (il = 0 \<or> il = 58) \<and> chain (\<lambda>p. m_next (n_mbufs s p)) (fst (fl ! i)) ms
            \<and> snd (fl ! i) = ((if il = 0 then 2 else 6) + length ms + 3) div 4
            \<and> descriptor A v (n_mbufs s) (n_mem s) (start i) ms il))
    \<and> (\<forall>c'. tx_step A program_packet c c' \<longrightarrow>
        (let gone = take (unat (cq_head (n_txq (sys_net c')) - cq_head v)) (sys_done c) in
         \<forall>z. 64 * entries gone \<le> z \<and> z < 64 * entries fl
           \<longrightarrow> n_mem (sys_net c') (ring_at v (true_cq_head v) z) = n_mem s (ring_at v (true_cq_head v) z)))"
proof -
  let ?v = "n_txq (sys_net c)" and ?fl = "in_flight c"
  have inv: "tx_inv A c" "all_written A c" using tx_reach_posted [OF assms] by simp_all
  obtain k where "k < 16" "sq_wqe_cnt ?v = 2 ^ k" using inv(1) by (auto simp: tx_inv_def tx_ok_def)
  then have geo: "ring_geometry ?v k" using assms(3) by (simp add: ring_geometry_def tx_layout_def)
  have frame: "n_mem (sys_net c') (ring_at ?v (true_cq_head ?v) z) = n_mem (sys_net c) (ring_at ?v (true_cq_head ?v) z)"
    if step: "tx_step A program_packet c c'"
      and z: "64 * entries (take (unat (cq_head (n_txq (sys_net c')) - cq_head ?v)) (sys_done c)) \<le> z" "z < 64 * entries ?fl" for c' z
  proof -
    define j where "j = unat (cq_head (n_txq (sys_net c')) - cq_head ?v)"
    define gone where "gone = take j (sys_done c)"
    define kept where "kept = drop j (sys_done c) @ sys_pending c"
    note bytes = tx_step_bytes [OF assms(1) inv(1) assms(3) step, folded j_def, folded gone_def kept_def]
    have "entries ?fl = entries gone + entries kept" using entries_take_drop [of j "sys_done c"] by (simp add: gone_def kept_def)
    then obtain z' where z': "z = 64 * entries gone + z'" "z' < 64 * entries kept"
      using z by (metis add_diff_inverse_nat distrib_left gone_def j_def less_diff_conv2 linorder_not_less nat_add_left_cancel_less)
    have t: "true_cq_head (n_txq (sys_net c')) = true_cq_head ?v + of_nat (entries gone)" using bytes by blast
    show ?thesis using bytes z'(2) unfolding t z'(1) ring_at_shift [OF geo] by blast
  qed
  show ?thesis
    using tx_bookkeeping [OF inv(1)] inv(2) frame unfolding all_written_def on_ring_def Let_def by blast
qed

lemma tx_system_safe_witness:
  "\<exists>(s' :: net) ms il. unat (nr_inflight_tx (n_txq s')) = 1 \<and> t_buffers (n_txq s') ! 0 = 256
    \<and> chain (\<lambda>p. m_next (n_mbufs s' p)) 256 ms \<and> descriptor mlx5_abi (n_txq s') (n_mbufs s') (n_mem s') 0 ms il"
proof -
  have P: "program_packet (example_net (replicate 4 (example_cqe 0 0xF1))) 256 0"
    unfolding program_packet_def by (rule conjI, simp, rule exI [of _ "[256]"]) (simp add: example_net_def example_packet_def)
  note ex = example_reachable [of program_packet, OF P]
  obtain s' where s': "tx_reach mlx5_abi program_packet \<lparr>sys_net = s', sys_done = [], sys_pending = [(256, 1)]\<rparr>"
    "n_txq s' = (example_txq (replicate 4 (example_cqe 0 0xF1)))\<lparr>t_buffers := [256, 0, 0, 0], sq_head := 1\<rparr>"
    using tx_reach.step [OF ex(1)] ex(2) by blast
  have "\<not> in_tx_ring (n_txq s') (640 + of_nat i) \<and> \<not> in_tx_ring (n_txq s') (516 + of_nat i)" if "i < 4" for i :: nat
  proof -
    have "i = 0 \<or> i = 1 \<or> i = 2 \<or> i = 3" using that by auto
    then show ?thesis by (elim disjE) (simp_all add: s'(2) in_tx_ring_def example_txq_def)
  qed
  then have "tx_layout mlx5_abi (n_txq s')"
    by (simp add: tx_layout_def) (simp add: s'(2) ring_layout_def example_txq_def mlx5_abi_def)
  then have "tx_layout mlx5_abi (n_txq (sys_net \<lparr>sys_net = s', sys_done = [], sys_pending = [(256, 1)]\<rparr>))" by simp
  note safe = tx_system_safe [OF mlx5_abi_documented s'(1) this, unfolded Let_def]
  have "unat (nr_inflight_tx (n_txq s')) = 1" using safe [THEN conjunct1] by simp
  moreover have "t_buffers (n_txq s') ! slot (sq_wqe_cnt (n_txq s')) (true_cq_head (n_txq s')) = 256
    \<and> (\<exists>ms il. chain (\<lambda>p. m_next (n_mbufs s' p)) 256 ms
      \<and> descriptor mlx5_abi (n_txq s') (n_mbufs s') (n_mem s') (true_cq_head (n_txq s')) ms il)"
    using safe [THEN conjunct2, THEN conjunct2, THEN conjunct2, THEN conjunct1, rule_format, of 0] by auto
  moreover have "true_cq_head (n_txq s') = 0" "slot (sq_wqe_cnt (n_txq s')) 0 = 0"
    by (simp_all add: s'(2) example_txq_def slot_def)
  ultimately show ?thesis by - (rule exI [of _ s'], auto)
qed

end
