(* ===== verification/Hash.thy ===== *)
theory Hash
  imports Time
begin

text \<open>
  The hash functions of inc/base/hash.h: CityHash for one and two words, and the checksum instruction of the processor, which is the
  parameter \<open>crc32q\<close>. For a fixed second word the mixing of CityHash loses nothing of the first one.
\<close>

section \<open>CityHash\<close>

abbreviation (input) HASH_CITY_K2 :: u64 where "HASH_CITY_K2 \<equiv> 0x9ae16a3b2f90404f"

definition hash_city_len16 :: "u64 \<Rightarrow> u64 \<Rightarrow> u64 \<Rightarrow> u64" where
  "hash_city_len16 u v mul =
     (let a = (u XOR v) * mul;
          a = a XOR drop_bit 47 a;
          b = (v XOR a) * mul;
          b = b XOR drop_bit 47 b
      in b * mul)"

definition hash_city_rotate :: "u64 \<Rightarrow> nat \<Rightarrow> u64" where
  "hash_city_rotate val shift = drop_bit shift val OR push_bit (64 - shift) val"

definition hash_city_one :: "u64 \<Rightarrow> u64" where
  "hash_city_one val =
     (let mul = HASH_CITY_K2 + 16;
          a = val + HASH_CITY_K2;
          b = val;
          c = hash_city_rotate b 37 * mul + a;
          d = (hash_city_rotate a 25 + b) * mul
      in hash_city_len16 c d mul)"

definition hash_city_two :: "u64 \<Rightarrow> u64 \<Rightarrow> u64" where
  "hash_city_two val_a val_b =
     (let mul = HASH_CITY_K2 + 32;
          a = val_a + HASH_CITY_K2;
          b = val_b;
          c = hash_city_rotate b 37 * mul + a;
          d = (hash_city_rotate a 25 + b) * mul
      in hash_city_len16 c d mul)"

section \<open>The checksum instruction\<close>

definition hash_crc32c_one :: "(u64 \<Rightarrow> u64 \<Rightarrow> u64) \<Rightarrow> u32 \<Rightarrow> u64 \<Rightarrow> u32" where
  "hash_crc32c_one crc32q seed val = ucast (crc32q (ucast seed) val)"

definition hash_crc32c_two :: "(u64 \<Rightarrow> u64 \<Rightarrow> u64) \<Rightarrow> u32 \<Rightarrow> u64 \<Rightarrow> u64 \<Rightarrow> u32" where
  "hash_crc32c_two crc32q seed a b =
     (let seed = ucast (crc32q (ucast seed) a) :: u32 in ucast (crc32q (ucast seed) b))"

definition rand_crc32c :: "(u64 \<Rightarrow> u64 \<Rightarrow> u64) \<Rightarrow> tsc \<Rightarrow> u32 \<Rightarrow> nat \<Rightarrow> u64 \<times> nat" where
  "rand_crc32c crc32q clk seed t = (case rdtsc clk t of (v, t) \<Rightarrow> (ucast (hash_crc32c_one crc32q seed v), t))"

definition rand_city :: "tsc \<Rightarrow> nat \<Rightarrow> u64 \<times> nat" where
  "rand_city clk t = (case rdtsc clk t of (v, t) \<Rightarrow> (hash_city_one v, t))"

lemma hash_crc32c_two_chain: "hash_crc32c_two crc32q seed a b = hash_crc32c_one crc32q (hash_crc32c_one crc32q seed a) b"
  by (simp add: hash_crc32c_two_def hash_crc32c_one_def)

section \<open>Nothing is lost\<close>

lemma hash_city_rotate_bit:
  assumes "0 < k" "k < 64"
  shows "bit (hash_city_rotate v k) i \<longleftrightarrow> i < 64 \<and> bit v ((i + k) mod 64)"
proof (cases "i + k < 64")
  case True
  then show ?thesis using assms by (auto simp: hash_city_rotate_def bit_or_iff bit_drop_bit_eq bit_push_bit_iff add.commute)
next
  case False
  then have "i < 64 \<Longrightarrow> (i + k) mod 64 = i - (64 - k)" using assms by (simp add: mod_if)
  moreover have "i < 64 \<Longrightarrow> 64 - k \<le> i" using False by linarith
  moreover have "\<not> bit v (k + i)" using False bit_imp_le_length [of v "k + i"] by auto
  ultimately show ?thesis using bit_imp_le_length [of "hash_city_rotate v k" i]
    by (auto simp: hash_city_rotate_def bit_or_iff bit_drop_bit_eq bit_push_bit_iff)
qed

lemma hash_city_rotate_inj:
  assumes "0 < k" "k < 64" "hash_city_rotate v k = hash_city_rotate w k"
  shows "v = w"
proof (rule bit_word_eqI)
  fix i assume "i < LENGTH(64)"
  then have i: "i < 64" by simp
  let ?j = "(i + (64 - k)) mod 64"
  have "(?j + k) mod 64 = (i + (64 - k) + k) mod 64" by (simp add: mod_add_left_eq)
  then have "(?j + k) mod 64 = i" using i assms(2) by simp
  then show "bit v i \<longleftrightarrow> bit w i"
    using hash_city_rotate_bit [OF assms(1,2), of v ?j] hash_city_rotate_bit [OF assms(1,2), of w ?j] assms(3) by simp
qed

lemma fold_high_inj:
  fixes x y :: u64
  assumes "x XOR drop_bit 47 x = y XOR drop_bit 47 y"
  shows "x = y"
proof (rule bit_word_eqI)
  have e: "(bit x i \<noteq> bit x (47 + i)) = (bit y i \<noteq> bit y (47 + i))" for i
    using arg_cong [OF assms, of "\<lambda>v. bit v i"] by (simp add: bit_xor_iff bit_drop_bit_eq)
  have high: "bit x i = bit y i" if "17 \<le> i" for i
    using e [of i] that bit_imp_le_length [of x "47 + i"] bit_imp_le_length [of y "47 + i"] by auto
  show "bit x i = bit y i" for i using e [of i] high [of "47 + i"] by (cases "bit y (47 + i)") auto
qed

lemma times_inj:
  fixes x y m n :: "'a::len word"
  assumes "m * n = 1" "x * m = y * m"
  shows "x = y"
  using assms by (metis mult.assoc mult.right_neutral)

text \<open>Every step of the mixing can be undone, because the multipliers are odd: they have an inverse.\<close>

lemma city_multipliers:
  "(HASH_CITY_K2 + 16) * 12142473311022095263 = (1 :: u64)" "(HASH_CITY_K2 + 32) * 11895534230401261199 = (1 :: u64)"
  by simp_all

lemma hash_city_len16_inj:
  assumes "mul * n = (1 :: u64)" "hash_city_len16 u v mul = hash_city_len16 u' v mul"
  shows "u = u'"
proof -
  have xor: "x = y" if "v XOR x = v XOR y" for x y :: u64
  proof -
    have "v XOR (v XOR x) = v XOR (v XOR y)" by (simp only: that)
    then show ?thesis by (simp only: xor.assoc [symmetric] xor_self_eq xor.left_neutral)
  qed
  let ?a = "\<lambda>u. (u XOR v) * mul"
  let ?b = "\<lambda>u. (v XOR (?a u XOR drop_bit 47 (?a u))) * mul"
  have "?b u XOR drop_bit 47 (?b u) = ?b u' XOR drop_bit 47 (?b u')"
    using times_inj [OF assms(1)] assms(2) unfolding hash_city_len16_def Let_def by blast
  then have "?b u = ?b u'" by (rule fold_high_inj)
  then have "v XOR (?a u XOR drop_bit 47 (?a u)) = v XOR (?a u' XOR drop_bit 47 (?a u'))" by (rule times_inj [OF assms(1)])
  then have "?a u XOR drop_bit 47 (?a u) = ?a u' XOR drop_bit 47 (?a u')" by (rule xor)
  then have "?a u = ?a u'" by (rule fold_high_inj)
  then have "u XOR v = u' XOR v" by (rule times_inj [OF assms(1)])
  then show ?thesis using xor by (simp add: xor.commute)
qed

end
