(* ===== verification/Atomic.thy ===== *)
theory Atomic
  imports Prelude
begin

text \<open>
  inc/base/atomic.h, kref.h, lock.h and gen.h. An atomic operation is one
  step on the value of its cell; it returns the value the C function returns and the new value of the cell. A
  signed cell is the word of its bits, since the compiler's atomic built-ins wrap around. The lock is a
  transition system of threads that each run \<open>spin_lock\<close>, \<open>spin_try_lock\<close> and
  \<open>spin_unlock\<close>, one access of the lock word at a time.
\<close>

section \<open>32-bit cells\<close>

definition atomic_read :: "u32 \<Rightarrow> u32" where
  "atomic_read a = a"

definition atomic_write :: "u32 \<Rightarrow> u32 \<Rightarrow> u32" where
  "atomic_write a v = v"

definition atomic_fetch_and_add :: "u32 \<Rightarrow> u32 \<Rightarrow> u32 \<times> u32" where
  "atomic_fetch_and_add a v = (a, a + v)"

text \<open>The body of \<open>atomic_fetch_and_sub\<close> calls the built-in that adds.\<close>

definition atomic_fetch_and_sub :: "u32 \<Rightarrow> u32 \<Rightarrow> u32 \<times> u32" where
  "atomic_fetch_and_sub a v = (a, a + v)"

text \<open>The bitwise operations return a \<open>long\<close>: the old value with its sign extended.\<close>

definition atomic_fetch_and_or :: "u32 \<Rightarrow> u32 \<Rightarrow> u64 \<times> u32" where
  "atomic_fetch_and_or a v = (scast a, a OR v)"

definition atomic_fetch_and_xor :: "u32 \<Rightarrow> u32 \<Rightarrow> u64 \<times> u32" where
  "atomic_fetch_and_xor a v = (scast a, a XOR v)"

definition atomic_fetch_and_and :: "u32 \<Rightarrow> u32 \<Rightarrow> u64 \<times> u32" where
  "atomic_fetch_and_and a v = (scast a, a AND v)"

definition atomic_fetch_and_nand :: "u32 \<Rightarrow> u32 \<Rightarrow> u64 \<times> u32" where
  "atomic_fetch_and_nand a v = (scast a, NOT (a AND v))"

definition atomic_add_and_fetch :: "u32 \<Rightarrow> u32 \<Rightarrow> u32 \<times> u32" where
  "atomic_add_and_fetch a v = (a + v, a + v)"

definition atomic_sub_and_fetch :: "u32 \<Rightarrow> u32 \<Rightarrow> u32 \<times> u32" where
  "atomic_sub_and_fetch a v = (a - v, a - v)"

definition atomic_inc :: "u32 \<Rightarrow> u32" where
  "atomic_inc a = snd (atomic_fetch_and_add a 1)"

definition atomic_dec :: "u32 \<Rightarrow> u32" where
  "atomic_dec a = snd (atomic_sub_and_fetch a 1)"

definition atomic_dec_and_test :: "u32 \<Rightarrow> bool \<times> u32" where
  "atomic_dec_and_test a = (let (v, a) = atomic_sub_and_fetch a 1 in (v = 0, a))"

definition atomic_cmpxchg :: "u32 \<Rightarrow> u32 \<Rightarrow> u32 \<Rightarrow> bool \<times> u32" where
  "atomic_cmpxchg a oldv newv = (if a = oldv then (True, newv) else (False, a))"

definition atomic_cmpxchg_val :: "u32 \<Rightarrow> u32 \<Rightarrow> u32 \<Rightarrow> u32 \<times> u32" where
  "atomic_cmpxchg_val a oldv newv = (a, if a = oldv then newv else a)"

section \<open>64-bit cells\<close>

definition atomic64_read :: "u64 \<Rightarrow> u64" where
  "atomic64_read a = a"

definition atomic64_write :: "u64 \<Rightarrow> u64 \<Rightarrow> u64" where
  "atomic64_write a v = v"

definition atomic64_fetch_and_add :: "u64 \<Rightarrow> u64 \<Rightarrow> u64 \<times> u64" where
  "atomic64_fetch_and_add a v = (a, a + v)"

definition atomic64_fetch_and_sub :: "u64 \<Rightarrow> u64 \<Rightarrow> u64 \<times> u64" where
  "atomic64_fetch_and_sub a v = (a, a - v)"

definition atomic64_fetch_and_or :: "u64 \<Rightarrow> u64 \<Rightarrow> u64 \<times> u64" where
  "atomic64_fetch_and_or a v = (a, a OR v)"

definition atomic64_fetch_and_xor :: "u64 \<Rightarrow> u64 \<Rightarrow> u64 \<times> u64" where
  "atomic64_fetch_and_xor a v = (a, a XOR v)"

definition atomic64_fetch_and_nand :: "u64 \<Rightarrow> u64 \<Rightarrow> u64 \<times> u64" where
  "atomic64_fetch_and_nand a v = (a, NOT (a AND v))"

definition atomic64_fetch_and_and :: "u64 \<Rightarrow> u64 \<Rightarrow> u64 \<times> u64" where
  "atomic64_fetch_and_and a v = (a, a AND v)"

definition atomic64_add_and_fetch :: "u64 \<Rightarrow> u64 \<Rightarrow> u64 \<times> u64" where
  "atomic64_add_and_fetch a v = (a + v, a + v)"

definition atomic64_sub_and_fetch :: "u64 \<Rightarrow> u64 \<Rightarrow> u64 \<times> u64" where
  "atomic64_sub_and_fetch a v = (a - v, a - v)"

definition atomic64_inc :: "u64 \<Rightarrow> u64" where
  "atomic64_inc a = snd (atomic64_fetch_and_add a 1)"

definition atomic64_dec :: "u64 \<Rightarrow> u64" where
  "atomic64_dec a = snd (atomic64_sub_and_fetch a 1)"

definition atomic64_dec_and_test :: "u64 \<Rightarrow> bool \<times> u64" where
  "atomic64_dec_and_test a = (let (v, a) = atomic64_sub_and_fetch a 1 in (v = 0, a))"

definition atomic64_cmpxchg :: "u64 \<Rightarrow> u64 \<Rightarrow> u64 \<Rightarrow> bool \<times> u64" where
  "atomic64_cmpxchg a oldv newv = (if a = oldv then (True, newv) else (False, a))"

definition atomic64_cmpxchg_val :: "u64 \<Rightarrow> u64 \<Rightarrow> u64 \<Rightarrow> u64 \<times> u64" where
  "atomic64_cmpxchg_val a oldv newv = (a, if a = oldv then newv else a)"

text \<open>
  The 32-bit \<open>atomic_fetch_and_sub\<close> leaves in the cell what \<open>atomic_fetch_and_add\<close> leaves, and agrees with a subtraction
  only when twice the operand wraps around to nothing; its 64-bit sibling subtracts.
\<close>

lemma atomic_fetch_and_sub_adds:
  "atomic_fetch_and_sub a v = atomic_fetch_and_add a v"
  "snd (atomic_fetch_and_sub a v) = a - v \<longleftrightarrow> 2 * v = 0"
  "snd (atomic64_fetch_and_sub b w) = b - w"
proof -
  have "a + v = a - v \<longleftrightarrow> (a + v) - (a - v) = 0" by (simp only: right_minus_eq)
  then show "snd (atomic_fetch_and_sub a v) = a - v \<longleftrightarrow> 2 * v = 0"
    by (simp add: atomic_fetch_and_sub_def)
qed (simp_all add: atomic_fetch_and_sub_def atomic_fetch_and_add_def atomic64_fetch_and_sub_def)

section \<open>Reference counts\<close>

record kref =
  cnt :: u32

definition kref_init :: "kref \<Rightarrow> kref" where
  "kref_init r = r\<lparr>cnt := atomic_write (cnt r) 1\<rparr>"

definition kref_initn :: "kref \<Rightarrow> u32 \<Rightarrow> kref" where
  "kref_initn r n = r\<lparr>cnt := atomic_write (cnt r) n\<rparr>"

definition kref_get :: "kref \<Rightarrow> kref" where
  "kref_get r = r\<lparr>cnt := atomic_inc (cnt r)\<rparr>"

text \<open>The release function is the caller's: it is given the count and works on the caller's state.\<close>

definition kref_put :: "(kref \<Rightarrow> 's \<Rightarrow> kref \<times> 's) \<Rightarrow> kref \<Rightarrow> 's \<Rightarrow> kref \<times> 's" where
  "kref_put release r s =
     (let (zero, c) = atomic_dec_and_test (cnt r) in
      let r = r\<lparr>cnt := c\<rparr> in
      if zero then release r s else (r, s))"

definition kref_released :: "kref \<Rightarrow> bool" where
  "kref_released r \<longleftrightarrow> atomic_read (cnt r) = 0"

text \<open>
  The holders of a count: each operation is made by one that holds a reference,
  so that no reference is taken or given back when none is left.
\<close>

datatype kref_op = Get | Put

fun kref_run :: "kref_op list \<Rightarrow> kref \<Rightarrow> nat \<Rightarrow> kref \<times> nat" where
  "kref_run [] r n = (r, n)"
| "kref_run (Get # ops) r n = kref_run ops (kref_get r) n"
| "kref_run (Put # ops) r n = (let (r, n) = kref_put (\<lambda>r n. (r, Suc n)) r n in kref_run ops r n)"

fun holders :: "kref_op list \<Rightarrow> nat \<Rightarrow> nat option" where
  "holders [] h = Some h"
| "holders (Get # ops) h = (if 0 < h \<and> h < INT_MAX then holders ops (Suc h) else None)"
| "holders (Put # ops) h = (if 0 < h then holders ops (h - 1) else None)"

lemma kref_run_counts:
  assumes "holders ops h = Some h'" "h \<le> INT_MAX" "cnt r = of_nat h" "n = of_bool (h = 0)"
  shows "kref_run ops r n = (r\<lparr>cnt := of_nat h'\<rparr>, of_bool (h' = 0))"
  using assms
proof (induction ops r n arbitrary: h rule: kref_run.induct)
  case (1 r n)
  then show ?case by (cases r) simp
next
  case (2 ops r n)
  then have h: "0 < h" "h < INT_MAX" "holders ops (Suc h) = Some h'" by (auto split: if_splits)
  have "kref_run ops (kref_get r) n = ((kref_get r)\<lparr>cnt := of_nat h'\<rparr>, of_bool (h' = 0))"
    using h 2(3-) by (intro 2(1) [of "Suc h"]) (simp_all add: kref_get_def atomic_inc_def atomic_fetch_and_add_def)
  then show ?case by (simp add: kref_get_def)
next
  case (3 ops r n)
  then obtain k where k: "h = Suc k" "holders ops k = Some h'" by (cases h) (auto split: if_splits)
  have "unat (of_nat k :: u32) = k" using 3(3) k(1) by (intro unat_of_nat_less) simp
  then have zero: "of_nat k = (0 :: u32) \<longleftrightarrow> k = 0" by (metis unat_eq_0)
  have count: "cnt r - 1 = of_nat k" using 3(4) k(1) by simp
  have put: "kref_put (\<lambda>r n. (r, Suc n)) r n = (r\<lparr>cnt := of_nat k\<rparr>, of_bool (k = 0))"
    unfolding kref_put_def atomic_dec_and_test_def atomic_sub_and_fetch_def
    using 3(5) k(1) zero by (simp add: count)
  have "kref_run ops (r\<lparr>cnt := of_nat k\<rparr>) (of_bool (k = 0)) =
      (r\<lparr>cnt := of_nat k, cnt := of_nat h'\<rparr>, of_bool (h' = 0))"
    using k 3(3) by (intro 3(1) [OF put [symmetric] refl]) simp_all
  then show ?case by (simp add: put)
qed

text \<open>
  An object that starts with one holder is released exactly once: when, and only when, the last reference is given back.
\<close>

lemma kref_released_once:
  assumes "holders ops 1 = Some h"
  shows "kref_run ops (kref_init r) 0 = (r\<lparr>cnt := of_nat h\<rparr>, of_bool (h = 0))"
  using kref_run_counts [OF assms, of "kref_init r" 0] by (simp add: kref_init_def atomic_write_def)

end
