(* ===== verification/Bitmap.thy ===== *)
theory Bitmap
  imports Atomic Stddef
begin

text \<open>
  inc/base/bitmap.h and bitmap.c, without the parser. A bitmap is its array of longs; a C \<open>int\<close> is an integer
  together with the check that the arithmetic on it stays in range. A position is
  converted to \<open>unsigned long\<close> before it is divided, so that a negative one becomes an
  index far outside every array.
\<close>

section \<open>Positions\<close>

abbreviation (input) BITS_PER_LONG :: u64 where "BITS_PER_LONG \<equiv> 64"

definition BITMAP_POS_IDX :: "int \<Rightarrow> nat" where
  "BITMAP_POS_IDX pos = unat (word_of_int pos div BITS_PER_LONG)"

definition BITMAP_POS_SHIFT :: "int \<Rightarrow> nat" where
  "BITMAP_POS_SHIFT pos = unat (word_of_int pos mod BITS_PER_LONG)"

definition tdiv :: "int \<Rightarrow> int \<Rightarrow> int" where
  "tdiv x d = (if x < 0 then - (- x div d) else x div d)"

definition BITMAP_LONG_SIZE :: "int \<Rightarrow> int res" where
  "BITMAP_LONG_SIZE nbits =
     bindE (guardE SignedOverflow (nbits + 64 \<le> int INT_MAX)) (\<lambda>_. Inr (tdiv (nbits + 64 - 1) 64))"

definition bit_mask :: "int \<Rightarrow> u64" where
  "bit_mask pos = push_bit (BITMAP_POS_SHIFT pos) 1"

section \<open>Single bits\<close>

definition bitmap_set :: "u64 list \<Rightarrow> int \<Rightarrow> u64 list res" where
  "bitmap_set bits pos =
     bindE (nthE bits (BITMAP_POS_IDX pos)) (\<lambda>v. updE bits (BITMAP_POS_IDX pos) (v OR bit_mask pos))"

definition bitmap_clear :: "u64 list \<Rightarrow> int \<Rightarrow> u64 list res" where
  "bitmap_clear bits pos =
     bindE (nthE bits (BITMAP_POS_IDX pos)) (\<lambda>v. updE bits (BITMAP_POS_IDX pos) (v AND NOT (bit_mask pos)))"

definition bitmap_test :: "u64 list \<Rightarrow> int \<Rightarrow> bool res" where
  "bitmap_test bits pos =
     bindE (nthE bits (BITMAP_POS_IDX pos)) (\<lambda>v. Inr (v AND bit_mask pos \<noteq> 0))"

text \<open>An atomic operation on one word of the array.\<close>

definition on_word :: "u64 list \<Rightarrow> nat \<Rightarrow> (u64 \<Rightarrow> u64 \<times> u64) \<Rightarrow> (u64 \<times> u64 list) res" where
  "on_word bits i f =
     bindE (nthE bits i) (\<lambda>a. case f a of (old, a) \<Rightarrow> bindE (updE bits i a) (\<lambda>bits. Inr (old, bits)))"

definition bitmap_atomic_set :: "u64 list \<Rightarrow> int \<Rightarrow> u64 list res" where
  "bitmap_atomic_set bits pos =
     bindE (on_word bits (BITMAP_POS_IDX pos) (\<lambda>a. atomic64_fetch_and_or a (bit_mask pos))) (\<lambda>(_, bits). Inr bits)"

definition bitmap_atomic_test_and_set :: "u64 list \<Rightarrow> int \<Rightarrow> (bool \<times> u64 list) res" where
  "bitmap_atomic_test_and_set bits pos =
     (let b = bit_mask pos in
      bindE (on_word bits (BITMAP_POS_IDX pos) (\<lambda>a. atomic64_fetch_and_or a b)) (\<lambda>(old, bits).
      Inr (old AND b \<noteq> 0, bits)))"

definition bitmap_atomic_clear :: "u64 list \<Rightarrow> int \<Rightarrow> u64 list res" where
  "bitmap_atomic_clear bits pos =
     bindE (on_word bits (BITMAP_POS_IDX pos) (\<lambda>a. atomic64_fetch_and_and a (NOT (bit_mask pos)))) (\<lambda>(_, bits). Inr bits)"

definition bitmap_atomic_test :: "u64 list \<Rightarrow> int \<Rightarrow> bool res" where
  "bitmap_atomic_test bits pos =
     bindE (nthE bits (BITMAP_POS_IDX pos)) (\<lambda>a. Inr (atomic64_read a AND bit_mask pos \<noteq> 0))"

section \<open>Whole bitmaps\<close>

definition popcountl :: "u64 \<Rightarrow> int" where
  "popcountl v = int (length (filter (bit v) [0..<64]))"

definition bitmap_popcount :: "u64 list \<Rightarrow> int \<Rightarrow> int res" where
  "bitmap_popcount bits nbits =
     bindE (BITMAP_LONG_SIZE nbits) (\<lambda>n.
     foldE (\<lambda>i val. bindE (nthE bits i) (\<lambda>v.
       bindE (guardE SignedOverflow (val + popcountl v \<le> int INT_MAX)) (\<lambda>_. Inr (val + popcountl v)))) [0..<nat n] 0)"

definition zip_words :: "(u64 \<Rightarrow> u64 \<Rightarrow> u64) \<Rightarrow> u64 list \<Rightarrow> u64 list \<Rightarrow> u64 list \<Rightarrow> int \<Rightarrow> u64 list res" where
  "zip_words f dst src1 src2 nbits =
     bindE (BITMAP_LONG_SIZE nbits) (\<lambda>n.
     foldE (\<lambda>i dst. bindE (nthE src1 i) (\<lambda>a. bindE (nthE src2 i) (\<lambda>b. updE dst i (f a b)))) [0..<nat n] dst)"

definition bitmap_and :: "u64 list \<Rightarrow> u64 list \<Rightarrow> u64 list \<Rightarrow> int \<Rightarrow> u64 list res" where
  "bitmap_and = zip_words (AND)"

definition bitmap_or :: "u64 list \<Rightarrow> u64 list \<Rightarrow> u64 list \<Rightarrow> int \<Rightarrow> u64 list res" where
  "bitmap_or = zip_words (OR)"

definition bitmap_xor :: "u64 list \<Rightarrow> u64 list \<Rightarrow> u64 list \<Rightarrow> int \<Rightarrow> u64 list res" where
  "bitmap_xor = zip_words (XOR)"

definition bitmap_atomic_or :: "u64 list \<Rightarrow> u64 list \<Rightarrow> int \<Rightarrow> u64 list res" where
  "bitmap_atomic_or dst src nbits =
     bindE (BITMAP_LONG_SIZE nbits) (\<lambda>n.
     foldE (\<lambda>i dst. bindE (nthE src i) (\<lambda>b.
       bindE (on_word dst i (\<lambda>a. atomic64_fetch_and_or a b)) (\<lambda>(_, dst). Inr dst))) [0..<nat n] dst)"

definition bitmap_init :: "u64 list \<Rightarrow> int \<Rightarrow> bool \<Rightarrow> u64 list res" where
  "bitmap_init bits nbits state =
     bindE (BITMAP_LONG_SIZE nbits) (\<lambda>n.
     bindE (guardE OutOfBounds (0 \<le> n \<and> n \<le> int (length bits))) (\<lambda>_.
     Inr (replicate (nat n) (if state then - 1 else 0) @ drop (nat n) bits)))"

section \<open>Searching\<close>

definition ffsl :: "u64 \<Rightarrow> int" where
  "ffsl v = (case filter (bit v) [0..<64] of [] \<Rightarrow> 0 | j # _ \<Rightarrow> int j + 1)"

definition to_int :: "u64 \<Rightarrow> int" where
  "to_int w = sint (ucast w :: u32)"

primrec find_loop :: "nat \<Rightarrow> u64 list \<Rightarrow> int \<Rightarrow> bool \<Rightarrow> int \<Rightarrow> u64 \<Rightarrow> int res" where
  "find_loop 0 bits nbits invert idx m = Inl NoFuel"
| "find_loop (Suc k) bits nbits invert idx m =
     (if idx < nbits
      then bindE (nthE bits (BITMAP_POS_IDX idx)) (\<lambda>val.
        let val = (if invert then NOT val else val) AND m in
        if val \<noteq> 0
        then bindE (guardE SignedOverflow (idx + ffsl val \<le> int INT_MAX)) (\<lambda>_. Inr (min (idx + ffsl val - 1) nbits))
        else find_loop k bits nbits invert (to_int (word_of_int idx + BITS_PER_LONG)) (NOT 0))
      else Inr nbits)"

definition bitmap_find_next :: "u64 list \<Rightarrow> int \<Rightarrow> int \<Rightarrow> bool \<Rightarrow> int res" where
  "bitmap_find_next bits nbits pos invert =
     find_loop (Suc (Suc (length bits))) bits nbits invert
       (sint (align_down (word_of_int pos :: u32) 64)) (NOT (push_bit (BITMAP_POS_SHIFT pos) 1 - 1))"

definition bitmap_find_next_cleared :: "u64 list \<Rightarrow> int \<Rightarrow> int \<Rightarrow> int res" where
  "bitmap_find_next_cleared bits nbits pos = bitmap_find_next bits nbits pos True"

definition bitmap_find_next_set :: "u64 list \<Rightarrow> int \<Rightarrow> int \<Rightarrow> int res" where
  "bitmap_find_next_set bits nbits pos = bitmap_find_next bits nbits pos False"

text \<open>
  The two iteration macros and \<open>for_each_thread\<close> have one shape: the position starts at -1 and moves
  to the next one found until it is not below the bound.
\<close>

primrec each_next :: "nat \<Rightarrow> (int \<Rightarrow> int res) \<Rightarrow> int \<Rightarrow> (int \<Rightarrow> 's \<Rightarrow> 's res) \<Rightarrow> int \<Rightarrow> 's \<Rightarrow> 's res" where
  "each_next 0 nxt n body pos s = Inl NoFuel"
| "each_next (Suc k) nxt n body pos s =
     bindE (nxt (pos + 1)) (\<lambda>pos.
     if pos < n then bindE (body pos s) (each_next k nxt n body pos) else Inr s)"

definition bitmap_for_each_set :: "nat \<Rightarrow> u64 list \<Rightarrow> int \<Rightarrow> (int \<Rightarrow> 's \<Rightarrow> 's res) \<Rightarrow> 's \<Rightarrow> 's res" where
  "bitmap_for_each_set fuel bits nbits body s = each_next fuel (bitmap_find_next_set bits nbits) nbits body (- 1) s"

definition bitmap_for_each_cleared :: "nat \<Rightarrow> u64 list \<Rightarrow> int \<Rightarrow> (int \<Rightarrow> 's \<Rightarrow> 's res) \<Rightarrow> 's \<Rightarrow> 's res" where
  "bitmap_for_each_cleared fuel bits nbits body s = each_next fuel (bitmap_find_next_cleared bits nbits) nbits body (- 1) s"

section \<open>The bits of an array\<close>

definition bit_at :: "u64 list \<Rightarrow> nat \<Rightarrow> bool" where
  "bit_at bits i = bit (bits ! (i div 64)) (i mod 64)"

lemma position:
  assumes "p < 2 ^ 31"
  shows "BITMAP_POS_IDX (int p) = p div 64" "BITMAP_POS_SHIFT (int p) = p mod 64"
proof -
  have p: "unat (word_of_int (int p) :: u64) = p" using unat_of_nat_less [where 'a = 64, of p] assms by simp
  show "BITMAP_POS_IDX (int p) = p div 64" "BITMAP_POS_SHIFT (int p) = p mod 64"
    by (simp_all only: BITMAP_POS_IDX_def BITMAP_POS_SHIFT_def unat_div unat_mod p) simp_all
qed

lemma bit_bit_mask: "p < 2 ^ 31 \<Longrightarrow> bit (bit_mask (int p)) j \<longleftrightarrow> j = p mod 64"
  by (auto simp: bit_mask_def position bit_exp_iff)

lemma and_bit_mask: "p < 2 ^ 31 \<Longrightarrow> v AND bit_mask (int p) \<noteq> 0 \<longleftrightarrow> bit v (p mod 64)"
  unfolding bit_eq_iff [of "v AND bit_mask (int p)" 0] by (auto simp: bit_and_iff bit_bit_mask)

lemma bit_at_update:
  assumes "p div 64 < length bits" "\<And>j. j < 64 \<Longrightarrow> bit w j = (if j = p mod 64 then b else bit (bits ! (p div 64)) j)"
  shows "bit_at (bits[p div 64 := w]) = (bit_at bits)(p := b)"
proof
  fix i
  have "i div 64 = p div 64 \<Longrightarrow> i mod 64 = p mod 64 \<Longrightarrow> i = p" by (metis div_mult_mod_eq)
  then show "bit_at (bits[p div 64 := w]) i = ((bit_at bits)(p := b)) i"
    using assms by (auto simp: bit_at_def nth_list_update)
qed

lemma bit_at_set:
  assumes "p < 2 ^ 31" "p div 64 < length bits"
  shows "\<exists>bits'. bitmap_set bits (int p) = Inr bits' \<and> length bits' = length bits \<and> bit_at bits' = (bit_at bits)(p := True)"
  using assms bit_at_update [of p bits "bits ! (p div 64) OR bit_mask (int p)" True]
  by (auto simp: bitmap_set_def position bit_or_iff bit_bit_mask)

lemma bit_at_clear:
  assumes "p < 2 ^ 31" "p div 64 < length bits"
  shows "\<exists>bits'. bitmap_clear bits (int p) = Inr bits' \<and> length bits' = length bits \<and> bit_at bits' = (bit_at bits)(p := False)"
  using assms bit_at_update [of p bits "bits ! (p div 64) AND NOT (bit_mask (int p))" False]
  by (auto simp: bitmap_clear_def position bit_and_iff bit_not_iff bit_bit_mask)

lemma bit_at_test:
  assumes "p < 2 ^ 31" "p div 64 < length bits"
  shows "bitmap_test bits (int p) = Inr (bit_at bits p)"
  using assms by (simp add: bitmap_test_def position and_bit_mask bit_at_def)

lemma on_word_Inr: "i < length bits \<Longrightarrow> on_word bits i f = Inr (fst (f (bits ! i)), bits[i := snd (f (bits ! i))])"
  by (simp add: on_word_def split: prod.split)

text \<open>The atomic operations do what the plain ones do, and report the bit that was there.\<close>

lemma atomic_bit_operations:
  assumes "p < 2 ^ 31" "p div 64 < length bits"
  shows "bitmap_atomic_set bits (int p) = bitmap_set bits (int p)"
    "bitmap_atomic_clear bits (int p) = bitmap_clear bits (int p)"
    "bitmap_atomic_test bits (int p) = bitmap_test bits (int p)"
    "bitmap_atomic_test_and_set bits (int p) =
       bindE (bitmap_set bits (int p)) (\<lambda>bits'. Inr (bit_at bits p, bits'))"
  using assms
  by (simp_all add: bitmap_atomic_set_def bitmap_set_def bitmap_atomic_clear_def bitmap_clear_def bitmap_atomic_test_def
      bitmap_test_def bitmap_atomic_test_and_set_def Let_def on_word_Inr position atomic64_fetch_and_or_def
      atomic64_fetch_and_and_def atomic64_read_def and_bit_mask bit_at_def)

section \<open>The contract of a bit store\<close>

text \<open>
  What the client of a bitmap relies on, for every position that the array covers: a set, clear or test of one bit touches no other.
\<close>

locale bit_store =
  fixes set_bit_of :: "'s \<Rightarrow> int \<Rightarrow> 's res"
    and clear_bit_of :: "'s \<Rightarrow> int \<Rightarrow> 's res"
    and test_bit_of :: "'s \<Rightarrow> int \<Rightarrow> bool res"
    and holds :: "'s \<Rightarrow> nat \<Rightarrow> bool"
    and covers :: "'s \<Rightarrow> nat \<Rightarrow> bool"
  assumes set_law: "covers s p \<Longrightarrow> \<exists>t. set_bit_of s (int p) = Inr t \<and> covers t = covers s \<and> holds t = (holds s)(p := True)"
    and clear_law: "covers s p \<Longrightarrow> \<exists>t. clear_bit_of s (int p) = Inr t \<and> covers t = covers s \<and> holds t = (holds s)(p := False)"
    and test_law: "covers s p \<Longrightarrow> test_bit_of s (int p) = Inr (holds s p)"
begin

text \<open>Setting a list of positions.\<close>

lemma set_all:
  assumes "\<forall>p \<in> set ps. covers s p"
  shows "\<exists>t. foldE (\<lambda>p s. set_bit_of s (int p)) ps s = Inr t \<and> covers t = covers s \<and>
    (\<forall>i. holds t i \<longleftrightarrow> i \<in> set ps \<or> holds s i)"
  using assms
proof (induction ps arbitrary: s)
  case (Cons p ps)
  then obtain t where t: "set_bit_of s (int p) = Inr t" "covers t = covers s" "holds t = (holds s)(p := True)"
    using set_law by force
  obtain u where "foldE (\<lambda>p s. set_bit_of s (int p)) ps t = Inr u" "covers u = covers t"
    "\<forall>i. holds u i \<longleftrightarrow> i \<in> set ps \<or> holds t i"
    using Cons.IH [of t] Cons.prems t(2) by auto
  then show ?case using t by auto
qed simp

text \<open>Any sequence of sets and clears leaves in every bit what its last operation wrote.\<close>

lemma last_write_wins:
  assumes "\<forall>(p, b) \<in> set ws. covers s p"
  shows "\<exists>t. foldE (\<lambda>(p, b) s. if b then set_bit_of s (int p) else clear_bit_of s (int p)) ws s = Inr t \<and>
    covers t = covers s \<and> holds t = fold (\<lambda>(p, b) h. h(p := b)) ws (holds s)"
  using assms
proof (induction ws arbitrary: s)
  case (Cons w ws)
  obtain p b where w: "w = (p, b)" by (cases w)
  then have "covers s p" using Cons.prems by simp
  then obtain t where t: "(if b then set_bit_of s (int p) else clear_bit_of s (int p)) = Inr t"
    "covers t = covers s" "holds t = (holds s)(p := b)"
    using set_law [of s p] clear_law [of s p] by (cases b) auto
  have "\<forall>(p, b) \<in> set ws. covers t p" using Cons.prems t(2) by simp
  from Cons.IH [OF this] t w show ?case by auto
qed simp

end

definition covered :: "u64 list \<Rightarrow> nat \<Rightarrow> bool" where
  "covered bits p \<longleftrightarrow> p < 2 ^ 31 \<and> p div 64 < length bits"

lemma covered_length: "length bits' = length bits \<Longrightarrow> covered bits' = covered bits"
  by (simp add: covered_def fun_eq_iff)

interpretation plain: bit_store bitmap_set bitmap_clear bitmap_test bit_at covered
proof
  fix s p
  assume c: "covered s p"
  then have p: "p < 2 ^ 31" "p div 64 < length s" unfolding covered_def by blast+
  obtain t where "bitmap_set s (int p) = Inr t" "length t = length s" "bit_at t = (bit_at s)(p := True)"
    using bit_at_set [OF p] by blast
  then show "\<exists>t. bitmap_set s (int p) = Inr t \<and> covered t = covered s \<and> bit_at t = (bit_at s)(p := True)"
    using covered_length by blast
  obtain u where "bitmap_clear s (int p) = Inr u" "length u = length s" "bit_at u = (bit_at s)(p := False)"
    using bit_at_clear [OF p] by blast
  then show "\<exists>t. bitmap_clear s (int p) = Inr t \<and> covered t = covered s \<and> bit_at t = (bit_at s)(p := False)"
    using covered_length by blast
  show "bitmap_test s (int p) = Inr (bit_at s p)" by (rule bit_at_test [OF p])
qed

interpretation atomic: bit_store bitmap_atomic_set bitmap_atomic_clear bitmap_atomic_test bit_at covered
proof
  fix s p
  assume c: "covered s p"
  then have p: "p < 2 ^ 31" "p div 64 < length s" unfolding covered_def by blast+
  show "\<exists>t. bitmap_atomic_set s (int p) = Inr t \<and> covered t = covered s \<and> bit_at t = (bit_at s)(p := True)"
    unfolding atomic_bit_operations(1) [OF p] by (rule plain.set_law [OF c])
  show "\<exists>t. bitmap_atomic_clear s (int p) = Inr t \<and> covered t = covered s \<and> bit_at t = (bit_at s)(p := False)"
    unfolding atomic_bit_operations(2) [OF p] by (rule plain.clear_law [OF c])
  show "bitmap_atomic_test s (int p) = Inr (bit_at s p)"
    unfolding atomic_bit_operations(3) [OF p] by (rule plain.test_law [OF c])
qed

end
