(* ===== verification/Search.thy ===== *)
theory Search
  imports Bitmap
begin

text \<open>
  The searches and iterations over a bitmap (bitmap.c, bitmap.h) and over the threads of the process
  (inc/base/thread.h). Both follow one contract: the next position found is the least one at or above the start, or the bound, and
  the iteration runs its body once for each in ascending order.
\<close>

section \<open>The contract of a scan\<close>

definition next_in :: "(nat \<Rightarrow> bool) \<Rightarrow> nat \<Rightarrow> nat \<Rightarrow> nat" where
  "next_in P n p = hd (filter P [p..<n] @ [n])"

lemma filter_upt_Cons:
  assumes "filter P [p..<n] = q # qs"
  shows "p \<le> q" "q < n" "P q" "qs = filter P [Suc q..<n]" "\<forall>i. p \<le> i \<and> i < q \<longrightarrow> \<not> P i"
proof -
  have "q \<in> set (filter P [p..<n])" unfolding assms by simp
  then show q: "p \<le> q" "q < n" "P q" by auto
  have split: "[p..<n] = [p..<q] @ q # [Suc q..<n]"
    using q(1,2) upt_add_eq_append [of p q "n - q"] by (simp add: upt_conv_Cons)
  have sorted: "sorted_wrt (<) (filter P [p..<n])" by (intro sorted_wrt_filter) simp
  have none: "\<not> P i" if "p \<le> i" "i < q" for i
  proof
    assume "P i"
    then have "i \<in> set (q # qs)" unfolding assms [symmetric] using that q by simp
    then show False using sorted that unfolding assms by auto
  qed
  then show "\<forall>i. p \<le> i \<and> i < q \<longrightarrow> \<not> P i" by blast
  have "filter P [p..<q] = []" using none by (auto simp: filter_empty_conv)
  then show "qs = filter P [Suc q..<n]" using assms q(3) unfolding split by simp
qed

lemma next_in_least:
  assumes "p \<le> n"
  shows "p \<le> next_in P n p" "next_in P n p \<le> n" "next_in P n p < n \<Longrightarrow> P (next_in P n p)"
    "\<forall>i. p \<le> i \<and> i < next_in P n p \<longrightarrow> \<not> P i"
proof -
  have "p \<le> next_in P n p \<and> next_in P n p \<le> n \<and> (next_in P n p < n \<longrightarrow> P (next_in P n p)) \<and>
    (\<forall>i. p \<le> i \<and> i < next_in P n p \<longrightarrow> \<not> P i)"
  proof (cases "filter P [p..<n]")
    case Nil
    then show ?thesis using assms by (auto simp: next_in_def filter_empty_conv)
  next
    case (Cons q qs)
    then show ?thesis using filter_upt_Cons [OF Cons] by (simp add: next_in_def)
  qed
  then show "p \<le> next_in P n p" "next_in P n p \<le> n" "next_in P n p < n \<Longrightarrow> P (next_in P n p)"
    "\<forall>i. p \<le> i \<and> i < next_in P n p \<longrightarrow> \<not> P i" by blast+
qed

lemma next_in_eqI:
  assumes "p \<le> q" "q < n" "P q" "\<And>i. p \<le> i \<Longrightarrow> i < q \<Longrightarrow> \<not> P i"
  shows "next_in P n p = q"
  using next_in_least [of p n P] assms by (metis less_le_trans linorder_neqE_nat nless_le order_less_imp_le)

lemma next_in_none: "(\<And>i. p \<le> i \<Longrightarrow> i < n \<Longrightarrow> \<not> P i) \<Longrightarrow> next_in P n p = n"
  by (auto simp: next_in_def filter_empty_conv hd_append)

locale scan =
  fixes nxt :: "'a \<Rightarrow> int \<Rightarrow> int \<Rightarrow> int res"
    and found :: "'a \<Rightarrow> nat \<Rightarrow> bool"
    and scannable :: "'a \<Rightarrow> nat \<Rightarrow> bool"
  assumes nxt_law: "scannable xs n \<Longrightarrow> p \<le> n \<Longrightarrow> nxt xs (int n) (int p) = Inr (int (next_in (found xs) n p))"
begin

lemma each_from:
  assumes "scannable xs n" "p \<le> n" "length (filter (found xs) [p..<n]) < fuel"
  shows "each_next fuel (nxt xs (int n)) (int n) body (int p - 1) s =
    foldE (\<lambda>i. body (int i)) (filter (found xs) [p..<n]) s"
  using assms(2-)
proof (induction fuel arbitrary: p s)
  case (Suc fuel)
  show ?case
  proof (cases "filter (found xs) [p..<n]")
    case Nil
    then show ?thesis using nxt_law [OF assms(1) Suc.prems(1)] by (simp add: next_in_def)
  next
    case (Cons q qs)
    note q = filter_upt_Cons [OF Cons]
    have "each_next fuel (nxt xs (int n)) (int n) body (int q) s = foldE (\<lambda>i. body (int i)) qs s" for s
      using Suc.IH [of "Suc q" s] Suc.prems(2) q(2,4) Cons by simp
    then have "each_next fuel (nxt xs (int n)) (int n) body (int q) = foldE (\<lambda>i. body (int i)) qs" by blast
    then show ?thesis using nxt_law [OF assms(1) Suc.prems(1)] q(2) by (simp add: next_in_def Cons)
  qed
qed simp

text \<open>The iteration visits exactly what is found, once each and in ascending order, and ends.\<close>

lemma each_visits:
  assumes "scannable xs n" "n < fuel"
  shows "each_next fuel (nxt xs (int n)) (int n) body (- 1) s =
    foldE (\<lambda>i. body (int i)) (filter (found xs) [0..<n]) s"
  using each_from [OF assms(1), of 0 fuel body s] assms(2) le_less_trans [OF length_filter_le [of "found xs" "[0..<n]"]] by simp

end

section \<open>The search in a bitmap\<close>

lemma sint_small:
  fixes x :: "'a::len word"
  assumes "unat x < 2 ^ (LENGTH('a) - 1)"
  shows "sint x = int (unat x)"
proof -
  have "int (unat x) < int (2 ^ (LENGTH('a) - 1))" using assms by (simp only: of_nat_less_iff)
  then have "int (unat x) < 2 ^ (LENGTH('a) - Suc 0)" by simp
  moreover have "- (2 ^ (LENGTH('a) - Suc 0)) \<le> int (unat x)" by (rule order_trans [of _ 0]) simp_all
  ultimately have "signed_take_bit (LENGTH('a) - Suc 0) (int (unat x)) = int (unat x)"
    by (intro signed_take_bit_int_eq_self)
  then show ?thesis unfolding sint_uint uint_nat .
qed
lemma to_int_of_nat:
  assumes "x < 2 ^ 31"
  shows "to_int (word_of_int (int x)) = int x"
proof -
  have u: "unat (word_of_int (int x) :: u64) = x" using unat_of_nat_less [where 'a = 64, of x] assms by simp
  have "unat (ucast (word_of_int (int x) :: u64) :: u32) = x" using assms by (subst unat_ucast_u64_less) (simp_all only: u, simp)
  then show ?thesis using assms sint_small [of "ucast (word_of_int (int x) :: u64) :: u32"] by (simp add: to_int_def)
qed
lemma align_down_int:
  assumes "p < 2 ^ 31"
  shows "sint (align_down (word_of_int (int p) :: u32) 64) = int (64 * (p div 64))"
proof -
  have p: "unat (word_of_nat p :: u32) = p" using unat_of_nat_less [where 'a = 32, of p] assms by simp
  have u: "unat (align_down (word_of_int (int p) :: u32) 64) = 64 * (p div 64)"
    using unat_align_down [of 6 "word_of_int (int p) :: u32"] by (simp add: p)
  have "64 * (p div 64) < 2 ^ 31" using assms by (meson le_less_trans times_div_less_eq_dividend)
  then show ?thesis using sint_small [of "align_down (word_of_int (int p) :: u32) 64"] unfolding u by simp
qed
lemma bit_mask_from: 
  assumes "p < 2 ^ 31" "j < 64"
  shows "bit (NOT (push_bit (BITMAP_POS_SHIFT (int p)) 1 - 1) :: u64) j \<longleftrightarrow> p mod 64 \<le> j"
  using assms by (auto simp: position bit_not_iff bit_mask_iff simp flip: mask_eq_exp_minus_1)

lemma ffsl_least:
  assumes "v \<noteq> 0"
  obtains j where "j < 64" "bit v j" "\<forall>i < j. \<not> bit v i" "ffsl v = int j + 1"
proof (cases "filter (bit v) [0..<64]")
  case Nil
  then have "\<forall>i < 64. \<not> bit v i" by (auto simp: filter_empty_conv)
  then have "v = 0" by (intro bit_word_eqI) simp
  with assms show ?thesis by simp
next
  case (Cons j js)
  with filter_upt_Cons [OF Cons] that show ?thesis by (simp add: ffsl_def)
qed

definition wanted :: "u64 list \<Rightarrow> bool \<Rightarrow> nat \<Rightarrow> bool" where
  "wanted bits invert i \<longleftrightarrow> bit_at bits i \<noteq> invert"

lemma wanted_word:
  assumes "j < 64" "\<forall>j < 64. bit m j \<longleftrightarrow> off \<le> j"
  shows "bit ((if invert then NOT (bits ! k) else bits ! k) AND m) j \<longleftrightarrow> off \<le> j \<and> wanted bits invert (64 * k + j)"
  using assms by (auto simp: wanted_def bit_at_def bit_and_iff bit_not_iff)

lemma find_loop_finds:
  assumes "n \<le> 64 * length bits" "n + 64 \<le> 2 ^ 31" "off < 64" "\<forall>j < 64. bit m j \<longleftrightarrow> off \<le> j" "length bits < fuel + k"
    "64 * k < 2 ^ 31" "0 < fuel"
  shows "find_loop fuel bits (int n) invert (int (64 * k)) m = Inr (int (next_in (wanted bits invert) n (64 * k + off)))"
  using assms(3-)
proof (induction fuel arbitrary: k off m)
  case (Suc fuel)
  show ?case
  proof (cases "64 * k < n")
    case False
    then show ?thesis by (subst next_in_none) (auto simp: not_less)
  next
    case True
    with assms(1) have k: "k < length bits" by simp
    have idx: "BITMAP_POS_IDX (int (64 * k)) = k" using position(1) [OF Suc.prems(4)] by simp
    let ?v = "(if invert then NOT (bits ! k) else bits ! k) AND m"
    have v: "bit ?v j \<longleftrightarrow> off \<le> j \<and> wanted bits invert (64 * k + j)" if "j < 64" for j
      using wanted_word [OF that Suc.prems(2)] .
    have start: "find_loop (Suc fuel) bits (int n) invert (int (64 * k)) m =
      (if ?v \<noteq> 0
       then bindE (guardE SignedOverflow (int (64 * k) + ffsl ?v \<le> int INT_MAX)) (\<lambda>_. Inr (min (int (64 * k) + ffsl ?v - 1) (int n)))
       else find_loop fuel bits (int n) invert (to_int (word_of_int (int (64 * k)) + 64)) (NOT 0))"
      using True by (simp only: find_loop.simps(2) idx nthE_Inr [OF k] bindE_simps of_nat_less_iff if_True Let_def)
    show ?thesis
    proof (cases "?v = 0")
      case True
      then have none: "\<not> wanted bits invert i" if "64 * k + off \<le> i" "i < 64 * Suc k" for i
        using v [of "i - 64 * k"] that by simp
      have step: "to_int (word_of_int (int (64 * k)) + 64) = int (64 * Suc k)"
        using to_int_of_nat [of "64 * Suc k"] assms(2) \<open>64 * k < n\<close> by (simp add: algebra_simps)
      have "find_loop fuel bits (int n) invert (int (64 * Suc k)) (NOT 0) =
          Inr (int (next_in (wanted bits invert) n (64 * Suc k + 0)))"
        using Suc.prems k assms(2) \<open>64 * k < n\<close> by (intro Suc.IH) (simp_all add: bit_simps)
      moreover have "next_in (wanted bits invert) n (64 * k + off) = next_in (wanted bits invert) n (64 * Suc k)"
      proof (cases "n \<le> 64 * Suc k")
        case True
        then show ?thesis using none by (simp add: next_in_none)
      next
        case False
        then have "[64 * k + off..<n] = [64 * k + off..<64 * Suc k] @ [64 * Suc k..<n]"
          using Suc.prems(1) upt_add_eq_append [of "64 * k + off" "64 * Suc k" "n - 64 * Suc k"] by simp
        moreover have "filter (wanted bits invert) [64 * k + off..<64 * Suc k] = []"
          using none by (auto simp: filter_empty_conv)
        ultimately show ?thesis by (simp add: next_in_def)
      qed
      ultimately show ?thesis unfolding start step using True by simp
    next
      case False
      then obtain j where j: "j < 64" "bit ?v j" "\<forall>i < j. \<not> bit ?v i" "ffsl ?v = int j + 1" by (rule ffsl_least)
      have hit: "64 * k + off \<le> 64 * k + j" "wanted bits invert (64 * k + j)" using v [OF j(1)] j(2) by auto
      have before: "\<not> wanted bits invert i" if "64 * k + off \<le> i" "i < 64 * k + j" for i
        using v [of "i - 64 * k"] j(1,3) that by auto
      have "next_in (wanted bits invert) n (64 * k + off) = min (64 * k + j) n"
      proof (cases "64 * k + j < n")
        case True
        have "next_in (wanted bits invert) n (64 * k + off) = 64 * k + j"
          by (rule next_in_eqI) (use hit before True in auto)
        then show ?thesis using True by simp
      next
        case False
        then show ?thesis using before by (subst next_in_none) auto
      qed
      moreover have "int (64 * k) + ffsl ?v \<le> int INT_MAX" using j(1,4) True assms(2) by simp
      ultimately show ?thesis unfolding start using False j(4) by simp
    qed
  qed
qed simp

lemma find_next_finds:
  assumes "n \<le> 64 * length bits" "n + 64 \<le> 2 ^ 31" "p \<le> n"
  shows "bitmap_find_next bits (int n) (int p) invert = Inr (int (next_in (wanted bits invert) n p))"
proof -
  have p: "p < 2 ^ 31" using assms by simp
  have "64 * (p div 64) < 2 ^ 31" using p by (meson le_less_trans times_div_less_eq_dividend)
  moreover have "\<forall>j < 64. bit (NOT (push_bit (BITMAP_POS_SHIFT (int p)) 1 - 1) :: u64) j \<longleftrightarrow> p mod 64 \<le> j"
    using bit_mask_from [OF p] by blast
  ultimately show ?thesis
    unfolding bitmap_find_next_def align_down_int [OF p]
    using find_loop_finds [OF assms(1,2), of "p mod 64" "NOT (push_bit (BITMAP_POS_SHIFT (int p)) 1 - 1)" "Suc (Suc (length bits))" "p div 64" invert]
    by simp
qed

definition searchable :: "u64 list \<Rightarrow> nat \<Rightarrow> bool" where
  "searchable bits n \<longleftrightarrow> n \<le> 64 * length bits \<and> n + 64 \<le> 2 ^ 31"

interpretation set_bits: scan bitmap_find_next_set bit_at searchable
proof
  fix bits n p
  assume "searchable bits n" "p \<le> n"
  moreover have "wanted bits False = bit_at bits" by (simp add: wanted_def fun_eq_iff)
  ultimately show "bitmap_find_next_set bits (int n) (int p) = Inr (int (next_in (bit_at bits) n p))"
    using find_next_finds [of n bits p False] by (simp add: bitmap_find_next_set_def searchable_def)
qed

interpretation cleared_bits: scan bitmap_find_next_cleared "\<lambda>bits i. \<not> bit_at bits i" searchable
proof
  fix bits n p
  assume "searchable bits n" "p \<le> n"
  moreover have "wanted bits True = (\<lambda>i. \<not> bit_at bits i)" by (simp add: wanted_def fun_eq_iff)
  ultimately show "bitmap_find_next_cleared bits (int n) (int p) = Inr (int (next_in (\<lambda>i. \<not> bit_at bits i) n p))"
    using find_next_finds [of n bits p True] by (simp add: bitmap_find_next_cleared_def searchable_def)
qed

text \<open>
  C30. The search for a set (cleared) bit returns the least set (cleared) position at or above the start, and the number of
  bits when there is none; the iteration runs its body exactly for the set (cleared) positions, once each and in ascending order, and ends, for every body.
\<close>

theorem bitmap_search_and_iterate:
  assumes "n \<le> 64 * length bits" "n + 64 \<le> 2 ^ 31" "p \<le> n" "n < fuel"
  shows "(\<exists>q. bitmap_find_next_set bits (int n) (int p) = Inr (int q) \<and> p \<le> q \<and> q \<le> n \<and>
      (q < n \<longrightarrow> bit_at bits q) \<and> (\<forall>i. p \<le> i \<and> i < q \<longrightarrow> \<not> bit_at bits i))
    \<and> (\<exists>q. bitmap_find_next_cleared bits (int n) (int p) = Inr (int q) \<and> p \<le> q \<and> q \<le> n \<and>
      (q < n \<longrightarrow> \<not> bit_at bits q) \<and> (\<forall>i. p \<le> i \<and> i < q \<longrightarrow> bit_at bits i))
    \<and> bitmap_for_each_set fuel bits (int n) body s = foldE (\<lambda>i. body (int i)) (filter (bit_at bits) [0..<n]) s
    \<and> bitmap_for_each_cleared fuel bits (int n) body s =
      foldE (\<lambda>i. body (int i)) (filter (\<lambda>i. \<not> bit_at bits i) [0..<n]) s"
proof (intro conjI)
  have s: "searchable bits n" using assms by (simp add: searchable_def)
  note least = next_in_least [OF assms(3)]
  show "\<exists>q. bitmap_find_next_set bits (int n) (int p) = Inr (int q) \<and> p \<le> q \<and> q \<le> n \<and>
      (q < n \<longrightarrow> bit_at bits q) \<and> (\<forall>i. p \<le> i \<and> i < q \<longrightarrow> \<not> bit_at bits i)"
    using set_bits.nxt_law [OF s assms(3)] least [where P = "bit_at bits"] by blast
  show "\<exists>q. bitmap_find_next_cleared bits (int n) (int p) = Inr (int q) \<and> p \<le> q \<and> q \<le> n \<and>
      (q < n \<longrightarrow> \<not> bit_at bits q) \<and> (\<forall>i. p \<le> i \<and> i < q \<longrightarrow> bit_at bits i)"
    using cleared_bits.nxt_law [OF s assms(3)] least [where P = "\<lambda>i. \<not> bit_at bits i"] by blast
  show "bitmap_for_each_set fuel bits (int n) body s = foldE (\<lambda>i. body (int i)) (filter (bit_at bits) [0..<n]) s"
    unfolding bitmap_for_each_set_def by (rule set_bits.each_visits [OF s assms(4)])
  show "bitmap_for_each_cleared fuel bits (int n) body s =
      foldE (\<lambda>i. body (int i)) (filter (\<lambda>i. \<not> bit_at bits i) [0..<n]) s"
    unfolding bitmap_for_each_cleared_def by (rule cleared_bits.each_visits [OF s assms(4)])
qed

theorem bitmap_search_and_iterate_witness:
  "bitmap_for_each_set 101 [0x8000000000000001, 0x10] 100 (\<lambda>p ps. Inr (ps @ [p])) [] = Inr [0, 63, 68]"
proof -
  have bits: "bit_at [0x8000000000000001, 0x10] i \<longleftrightarrow> i = 0 \<or> i = 63 \<or> i = 68" if "i < 100" for i
  proof -
    have "\<forall>i \<in> set [0..<100]. bit_at [0x8000000000000001, 0x10] i = (i = 0 \<or> i = 63 \<or> i = 68)" by code_simp
    then show ?thesis using that by simp
  qed
  have "filter (bit_at [0x8000000000000001, 0x10]) [0..<100] = filter (\<lambda>i. i = 0 \<or> i = 63 \<or> i = 68) [0..<100]"
    by (rule filter_cong) (use bits in auto)
  also have "\<dots> = [0, 63, 68]" by code_simp
  finally show ?thesis
    using bitmap_search_and_iterate [of 100 "[0x8000000000000001, 0x10]" 0 101 "\<lambda>p ps. Inr (ps @ [p])" "[]"] by simp
qed

section \<open>The threads of the process\<close>

definition thread_is_active :: "ptr list \<Rightarrow> int \<Rightarrow> bool res" where
  "thread_is_active offsets thread =
     bindE (guardE OutOfBounds (0 \<le> thread)) (\<lambda>_. bindE (nthE offsets (nat thread)) (\<lambda>p. Inr (p \<noteq> NULL)))"

primrec thread_scan :: "nat \<Rightarrow> ptr list \<Rightarrow> int \<Rightarrow> int \<Rightarrow> int res" where
  "thread_scan 0 offsets thread_count thread = Inl NoFuel"
| "thread_scan (Suc k) offsets thread_count thread =
     (if thread < thread_count
      then bindE (thread_is_active offsets (thread + 1)) (\<lambda>active.
        if active then Inr (thread + 1) else thread_scan k offsets thread_count (thread + 1))
      else Inr thread)"

definition thread_next_active :: "ptr list \<Rightarrow> int \<Rightarrow> int \<Rightarrow> int res" where
  "thread_next_active offsets thread_count thread =
     thread_scan (Suc (nat (thread_count - thread))) offsets thread_count thread"

definition for_each_thread :: "nat \<Rightarrow> ptr list \<Rightarrow> int \<Rightarrow> (int \<Rightarrow> 's \<Rightarrow> 's res) \<Rightarrow> 's \<Rightarrow> 's res" where
  "for_each_thread fuel offsets thread_count body s =
     each_next fuel (\<lambda>pos. thread_next_active offsets thread_count (pos - 1)) thread_count body (- 1) s"

text \<open>
  The loop of \<open>__thread_next_active\<close> looks at the slot of \<open>thread_count\<close> itself before it notices that the threads are used up.
\<close>

lemma thread_scan_finds:
  assumes "n < length offsets" "p \<le> n" "n + 1 < k + p"
  shows "thread_scan k offsets (int n) (int p - 1) = Inr (int (next_in (\<lambda>i. offsets ! i \<noteq> NULL) n p))"
  using assms(2,3)
proof (induction k arbitrary: p)
  case (Suc k)
  let ?P = "\<lambda>i. offsets ! i \<noteq> NULL"
  have active: "thread_is_active offsets (int p) = Inr (?P p)"
    using assms(1) Suc.prems(1) by (simp add: thread_is_active_def)
  have start: "thread_scan (Suc k) offsets (int n) (int p - 1) =
      (if ?P p then Inr (int p) else thread_scan k offsets (int n) (int p))"
    using Suc.prems(1) active by simp
  show ?case
  proof (cases "p = n")
    case True
    then have "next_in ?P n p = n" by (simp add: next_in_none)
    moreover have "thread_scan k offsets (int n) (int p) = Inr (int n)" if "0 < k"
      using that True by (cases k) simp_all
    ultimately show ?thesis using start True Suc.prems by simp
  next
    case False
    then have p: "p < n" using Suc.prems(1) by simp
    show ?thesis
    proof (cases "?P p")
      case True
      then have "next_in ?P n p = p" using p by (intro next_in_eqI) auto
      then show ?thesis using start True by simp
    next
      case none: False
      have "thread_scan k offsets (int n) (int (Suc p) - 1) = Inr (int (next_in ?P n (Suc p)))"
        using Suc.prems p by (intro Suc.IH) auto
      moreover have "next_in ?P n p = next_in ?P n (Suc p)" using p none by (simp add: next_in_def upt_conv_Cons)
      ultimately show ?thesis using start none by simp
    qed
  qed
qed simp

interpretation threads: scan "\<lambda>offsets count pos. thread_next_active offsets count (pos - 1)" "\<lambda>offsets i. offsets ! i \<noteq> NULL"
  "\<lambda>offsets n. n < length offsets"
proof
  fix offsets :: "ptr list" and n p
  assume "n < length offsets" "p \<le> n"
  then show "thread_next_active offsets (int n) (int p - 1) = Inr (int (next_in (\<lambda>i. offsets ! i \<noteq> NULL) n p))"
    unfolding thread_next_active_def by (intro thread_scan_finds) auto
qed

lemma for_each_thread_visits:
  assumes "n < length offsets" "n < fuel"
  shows "for_each_thread fuel offsets (int n) body s =
    foldE (\<lambda>i. body (int i)) (filter (\<lambda>i. offsets ! i \<noteq> NULL) [0..<n]) s"
  unfolding for_each_thread_def using threads.each_visits [OF assms] .

text \<open>When the table has no slot beyond the threads in use, the search that follows the last thread reads behind the table.\<close>

lemma thread_next_active_overruns:
  "offsets \<noteq> [] \<Longrightarrow> thread_next_active offsets (int (length offsets)) (int (length offsets) - 1) = Inl OutOfBounds"
  by (simp add: thread_next_active_def thread_is_active_def nthE_def)

end
