(* ===== verification/Page.thy ===== *)
theory Page
  imports Mem Search
begin

text \<open>
  inc/base/page.h: large pages of 2 MB in a fixed range of addresses, each described by an entry of one table, and large pages cut into
  small ones of 4 KB, whose descriptions lie at the start of the large page itself. Also the addresses of per-thread variables of inc/base/thread.h.
\<close>

section \<open>Descriptions of pages\<close>

record page_info =
  pg_flags :: u32
  pg_ref :: kref
  pg_paddr :: u64

type_synonym page_infos = "ptr \<Rightarrow> page_info"

abbreviation (input) PAGE_FLAG_LARGE :: u32 where "PAGE_FLAG_LARGE \<equiv> 0x01"
abbreviation (input) PAGE_FLAG_SHATTERED :: u32 where "PAGE_FLAG_SHATTERED \<equiv> 0x08"

text \<open>The size of \<open>struct page\<close>, and with it the sizes derived from it, for 4 nodes.\<close>

abbreviation (input) sizeof_page :: u64 where "sizeof_page \<equiv> 64"
abbreviation (input) PAGE_BASE_ADDR :: u64 where "PAGE_BASE_ADDR \<equiv> 0x100000000000"

definition LGPAGE_META_ENTS :: u64 where
  "LGPAGE_META_ENTS = 1 * PGSIZE_2MB div sizeof_page"

definition LGPAGE_NODE_ADDR_LEN :: u64 where
  "LGPAGE_NODE_ADDR_LEN = LGPAGE_META_ENTS * PGSIZE_2MB"

definition PAGE_END_ADDR :: u64 where
  "PAGE_END_ADDR = PAGE_BASE_ADDR + LGPAGE_META_ENTS * PGSIZE_2MB * 4"

definition is_page_addr :: "ptr \<Rightarrow> bool" where
  "is_page_addr addr \<longleftrightarrow> PAGE_BASE_ADDR \<le> addr \<and> addr < PAGE_END_ADDR"

definition addr_to_numa_node :: "ptr \<Rightarrow> u32" where
  "addr_to_numa_node addr = ucast ((addr - PAGE_BASE_ADDR) div LGPAGE_NODE_ADDR_LEN)"

definition LGPGN :: "ptr \<Rightarrow> u64" where
  "LGPGN addr = PGN_2MB (addr - PAGE_BASE_ADDR)"

definition PGN :: "ptr \<Rightarrow> u64" where
  "PGN addr = PGN_4KB (addr - PGADDR_2MB addr)"

text \<open>The difference of two pointers into a table.\<close>

definition page_diff :: "ptr \<Rightarrow> ptr \<Rightarrow> int" where
  "page_diff pg base = sint (pg - base) div 64"

definition addr_to_lgpage :: "ptr \<Rightarrow> ptr \<Rightarrow> ptr" where
  "addr_to_lgpage page_tbl addr = page_tbl + LGPGN addr * sizeof_page"

definition lgpage_to_addr :: "ptr \<Rightarrow> ptr \<Rightarrow> ptr" where
  "lgpage_to_addr page_tbl pg = PAGE_BASE_ADDR + word_of_int (page_diff pg page_tbl) * PGSIZE_2MB"

definition addr_to_smpage :: "ptr \<Rightarrow> ptr" where
  "addr_to_smpage addr = PGADDR_2MB addr + PGN addr * sizeof_page"

definition smpage_to_addr :: "ptr \<Rightarrow> ptr" where
  "smpage_to_addr pg = PGADDR_2MB pg + word_of_int (page_diff pg (PGADDR_2MB pg)) * PGSIZE_4KB"

definition addr_to_page :: "page_infos \<Rightarrow> ptr \<Rightarrow> ptr \<Rightarrow> ptr" where
  "addr_to_page P page_tbl addr =
     (let pg = addr_to_lgpage page_tbl addr in
      if pg_flags (P pg) AND PAGE_FLAG_SHATTERED \<noteq> 0 then addr_to_smpage addr else pg)"

definition page_to_addr :: "page_infos \<Rightarrow> ptr \<Rightarrow> ptr \<Rightarrow> ptr" where
  "page_to_addr P page_tbl pg =
     (if pg_flags (P pg) AND PAGE_FLAG_LARGE \<noteq> 0 then lgpage_to_addr page_tbl pg else smpage_to_addr pg)"

definition addr_to_pa :: "page_infos \<Rightarrow> ptr \<Rightarrow> ptr \<Rightarrow> u64" where
  "addr_to_pa P page_tbl addr = pg_paddr (P (addr_to_lgpage page_tbl addr)) + PGOFF_2MB addr"

definition smpage_to_lgpage :: "ptr \<Rightarrow> ptr \<Rightarrow> ptr" where
  "smpage_to_lgpage page_tbl pg = addr_to_lgpage page_tbl pg"

definition page_to_size :: "page_infos \<Rightarrow> ptr \<Rightarrow> u64" where
  "page_to_size P pg = (if pg_flags (P pg) AND PAGE_FLAG_LARGE \<noteq> 0 then PGSIZE_2MB else PGSIZE_4KB)"

definition page_get :: "ptr \<Rightarrow> page_infos \<Rightarrow> ptr \<times> page_infos" where
  "page_get pg P = (pg, P(pg := (P pg)\<lparr>pg_ref := kref_get (pg_ref (P pg))\<rparr>))"

text \<open>What \<open>page_release\<close> does is not in the repository; it is given the page.\<close>

definition page_put :: "(ptr \<Rightarrow> kref \<Rightarrow> 's \<Rightarrow> kref \<times> 's) \<Rightarrow> ptr \<Rightarrow> page_infos \<times> 's \<Rightarrow> page_infos \<times> 's" where
  "page_put page_release pg = (\<lambda>(P, s).
     case kref_put (page_release pg) (pg_ref (P pg)) s of (r, s) \<Rightarrow> (P(pg := (P pg)\<lparr>pg_ref := r\<rparr>), s))"

section \<open>Per-thread variables\<close>

text \<open>The address of the copy of a variable that belongs to the thread whose memory starts at \<open>thread_ptr\<close>.\<close>

definition perthread_get :: "ptr \<Rightarrow> ptr \<Rightarrow> ptr \<Rightarrow> ptr" where
  "perthread_get perthread_start perthread_ptr key = key + perthread_ptr - perthread_start"

definition perthread_get_remote :: "ptr \<Rightarrow> ptr list \<Rightarrow> ptr \<Rightarrow> int \<Rightarrow> ptr res" where
  "perthread_get_remote perthread_start perthread_offsets key thread =
     bindE (guardE OutOfBounds (0 \<le> thread)) (\<lambda>_. bindE (nthE perthread_offsets (nat thread)) (\<lambda>off. Inr (key + off - perthread_start)))"

lemma perthread_apart:
  assumes "k < length offs" "l < length offs" "perthread_get_remote start offs key (int k) = Inr a"
    and "perthread_get_remote start offs key (int l) = Inr a"
  shows "offs ! k = offs ! l"
proof -
  have "key + offs ! k - start = key + offs ! l - start" using assms by (simp add: perthread_get_remote_def)
  then show ?thesis by (metis add_left_cancel diff_add_cancel)
qed

section \<open>Addresses and pages\<close>

lemma unat_PGADDR: "unat (PGADDR_2MB a) = unat a div 2097152 * 2097152" "unat (PGADDR_4KB a) = unat a div 4096 * 4096"
  using unat_align_down [of 21 a] unat_align_down [of 12 a] by (simp_all add: PGADDR_2MB_def PGADDR_4KB_def align_down_def)

lemma unat_PGN: "unat (PGN_2MB a) = unat a div 2097152" "unat (PGN_4KB a) = unat a div 4096"
  by (simp_all only: PGN_2MB_def PGN_4KB_def unat_drop_bit_eq) (simp_all add: drop_bit_eq_div)

lemma meta_sizes: "LGPAGE_META_ENTS = 32768" "LGPAGE_NODE_ADDR_LEN = 68719476736" "PAGE_END_ADDR = 17867063951360"
  by (simp_all add: LGPAGE_META_ENTS_def LGPAGE_NODE_ADDR_LEN_def PAGE_END_ADDR_def)

lemma is_page_addr_nat: "is_page_addr a \<longleftrightarrow> 17592186044416 \<le> unat a \<and> unat a < 17867063951360"
  by (simp add: is_page_addr_def meta_sizes word_le_nat_alt word_less_nat_alt)

lemma page_diff_index:
  assumes "unat k < 2 ^ 32"
  shows "page_diff (base + k * sizeof_page) base = int (unat k)"
proof -
  have "unat k * 64 < 2 ^ 64" using assms by simp
  then have u: "unat (k * sizeof_page) = unat k * 64" by (simp add: unat_word_ariths)
  then have "sint (k * sizeof_page) = int (unat k * 64)" using assms by (subst sint_small) simp_all
  then show ?thesis by (simp add: page_diff_def)
qed

lemma index_small:
  assumes "is_page_addr a"
  shows "unat (LGPGN a) = (unat a - 17592186044416) div 2097152" "unat (LGPGN a) < 131072"
proof -
  have a: "17592186044416 \<le> unat a" "unat a < 17867063951360" using assms by (simp_all add: is_page_addr_nat)
  then have "unat (a - PAGE_BASE_ADDR) = unat a - 17592186044416" by (subst unat_sub) (simp_all add: word_le_nat_alt)
  then show u: "unat (LGPGN a) = (unat a - 17592186044416) div 2097152" by (simp add: LGPGN_def unat_PGN)
  show "unat (LGPGN a) < 131072" unfolding u using a by (simp add: less_mult_imp_div_less)
qed

lemma lgpage_round_trip:
  assumes "is_page_addr a"
  shows "lgpage_to_addr tbl (addr_to_lgpage tbl a) = PGADDR_2MB a"
proof -
  note k = index_small [OF assms]
  have a: "17592186044416 \<le> unat a" "unat a < 17867063951360" using assms by (simp_all add: is_page_addr_nat)
  have "page_diff (tbl + LGPGN a * sizeof_page) tbl = int (unat (LGPGN a))" using k(2) by (intro page_diff_index) simp
  then have e: "lgpage_to_addr tbl (addr_to_lgpage tbl a) = PAGE_BASE_ADDR + LGPGN a * PGSIZE_2MB"
    by (simp add: lgpage_to_addr_def addr_to_lgpage_def)
  have "unat (LGPGN a * PGSIZE_2MB) = unat (LGPGN a) * 2097152" using k(2) by (simp add: unat_word_ariths)
  then have "unat (PAGE_BASE_ADDR + LGPGN a * PGSIZE_2MB) = 17592186044416 + unat (LGPGN a) * 2097152" using k(2) by (simp add: unat_word_ariths)
  also have "\<dots> = unat a div 2097152 * 2097152"
  proof -
    obtain d where d: "unat a = 17592186044416 + d" using a(1) le_Suc_ex by blast
    have "(17592186044416 + d) div 2097152 = 8388608 + d div 2097152" by (simp add: div_add1_eq)
    then show ?thesis unfolding k(1) d by simp
  qed
  finally show ?thesis unfolding e word_unat_eq_iff unat_PGADDR .
qed

lemma small_index:
  "unat (PGN a) = unat a mod 2097152 div 4096" "unat (PGN a) < 512" "unat (addr_to_smpage a) = unat (PGADDR_2MB a) + unat (PGN a) * 64"
proof -
  have "PGADDR_2MB a \<le> a" by (simp add: word_le_nat_alt unat_PGADDR)
  then have "unat (a - PGADDR_2MB a) = unat a mod 2097152" by (simp add: unat_sub unat_PGADDR minus_div_mult_eq_mod)
  then show u: "unat (PGN a) = unat a mod 2097152 div 4096" by (simp add: PGN_def unat_PGN)
  show l: "unat (PGN a) < 512" unfolding u by (simp add: less_mult_imp_div_less)
  have "unat a < 2 ^ LENGTH(64)" by (rule unsigned_less)
  then have "unat (PGADDR_2MB a) \<le> 2 ^ 64 - 2097152" unfolding unat_PGADDR by simp
  then show "unat (addr_to_smpage a) = unat (PGADDR_2MB a) + unat (PGN a) * 64" using l by (simp add: addr_to_smpage_def unat_word_ariths)
qed

text \<open>The description of a small page lies in the large page it describes a part of.\<close>

lemma smpage_in_lgpage: "PGADDR_2MB (addr_to_smpage a) = PGADDR_2MB a"
proof -
  have "unat (PGN a) * 64 < 2097152" using small_index(2) [of a] by simp
  then have "(unat a div 2097152 * 2097152 + unat (PGN a) * 64) div 2097152 = unat a div 2097152" by simp
  then show ?thesis by (simp add: word_unat_eq_iff unat_PGADDR small_index(3))
qed

lemma smpage_round_trip: "smpage_to_addr (addr_to_smpage a) = PGADDR_4KB a"
proof -
  have "page_diff (addr_to_smpage a) (PGADDR_2MB a) = int (unat (PGN a))"
    unfolding addr_to_smpage_def using small_index(2) [of a] by (intro page_diff_index) simp
  then have e: "smpage_to_addr (addr_to_smpage a) = PGADDR_2MB a + PGN a * PGSIZE_4KB" by (simp add: smpage_to_addr_def smpage_in_lgpage)
  have "unat a < 2 ^ LENGTH(64)" by (rule unsigned_less)
  then have "unat (PGADDR_2MB a) \<le> 2 ^ 64 - 2097152" unfolding unat_PGADDR by simp
  then have "unat (PGADDR_2MB a + PGN a * PGSIZE_4KB) = unat a div 2097152 * 2097152 + unat a mod 2097152 div 4096 * 4096"
    using small_index(2) [of a] by (simp add: unat_word_ariths unat_PGADDR(1) small_index(1))
  also have "\<dots> = unat a div 4096 * 4096"
  proof -
    have "(q * 2097152 + r) div 4096 = q * 512 + r div 4096" for q r :: nat
      using div_mult_self1 [of 4096 r "q * 512"] by simp
    from this [of "unat a div 2097152" "unat a mod 2097152"]
    have "unat a div 4096 = unat a div 2097152 * 512 + unat a mod 2097152 div 4096" by simp
    then show ?thesis by simp
  qed
  finally show ?thesis unfolding e word_unat_eq_iff unat_PGADDR .
qed

lemma node_in_range: "is_page_addr a \<Longrightarrow> unat (addr_to_numa_node a) < 4"
proof -
  assume "is_page_addr a"
  then have a: "17592186044416 \<le> unat a" "unat a < 17867063951360" by (simp_all add: is_page_addr_nat)
  then have "unat (a - PAGE_BASE_ADDR) = unat a - 17592186044416" by (subst unat_sub) (simp_all add: word_le_nat_alt)
  then have "unat ((a - PAGE_BASE_ADDR) div LGPAGE_NODE_ADDR_LEN) < 4" using a by (simp add: meta_sizes unat_div less_mult_imp_div_less)
  then show "unat (addr_to_numa_node a) < 4" unfolding addr_to_numa_node_def by (simp only: unsigned_ucast_eq) (simp add: take_bit_nat_eq_self)
qed

text \<open>
  C40. For every address of page memory: the description found for it leads back to the start of the page it lies in, 2 MB aligned or, when
  the large page is shattered, 4 KB aligned; the description of a small page leads to the one of its large page; and the node is one of the four.
\<close>

theorem page_addresses:
  assumes "is_page_addr a" "pg_flags (P (addr_to_lgpage tbl a)) AND PAGE_FLAG_LARGE \<noteq> 0"
    and "pg_flags (P (addr_to_smpage a)) AND PAGE_FLAG_LARGE = 0"
  shows "page_to_addr P tbl (addr_to_page P tbl a) =
      (if pg_flags (P (addr_to_lgpage tbl a)) AND PAGE_FLAG_SHATTERED \<noteq> 0 then PGADDR_4KB a else PGADDR_2MB a)
    \<and> smpage_to_lgpage tbl (addr_to_smpage a) = addr_to_lgpage tbl a
    \<and> unat (addr_to_numa_node a) < 4"
proof -
  have "page_to_addr P tbl (addr_to_page P tbl a) =
      (if pg_flags (P (addr_to_lgpage tbl a)) AND PAGE_FLAG_SHATTERED \<noteq> 0 then PGADDR_4KB a else PGADDR_2MB a)"
    using assms by (simp add: page_to_addr_def addr_to_page_def Let_def lgpage_round_trip smpage_round_trip)
  moreover have "LGPGN (addr_to_smpage a) = LGPGN a"
  proof -
    have s: "unat (addr_to_smpage a) div 2097152 = unat a div 2097152"
      using smpage_in_lgpage [of a] by (simp add: word_unat_eq_iff unat_PGADDR)
    have a: "17592186044416 \<le> unat a" "unat a < 17867063951360" using assms(1) by (simp_all add: is_page_addr_nat)
    then have "8388608 \<le> unat a div 2097152" "unat a div 2097152 < 8519680"
      by (simp_all add: less_eq_div_iff_mult_less_eq less_mult_imp_div_less)
    moreover have "unat (addr_to_smpage a) = unat a div 2097152 * 2097152 + unat (PGN a) * 64" "unat (PGN a) < 512"
      using small_index(2,3) [of a] by (simp_all add: unat_PGADDR)
    ultimately have p: "is_page_addr (addr_to_smpage a)" unfolding is_page_addr_nat by linarith
    have "(x - 17592186044416) div 2097152 = x div 2097152 - 8388608" if "17592186044416 \<le> x" for x :: nat
      using that by (auto simp: le_iff_add div_add1_eq)
    then have "unat (LGPGN (addr_to_smpage a)) = unat (LGPGN a)"
      using index_small(1) [OF p] index_small(1) [OF assms(1)] s p a by (simp add: is_page_addr_nat)
    then show ?thesis by (simp add: word_unat_eq_iff)
  qed
  then have "smpage_to_lgpage tbl (addr_to_smpage a) = addr_to_lgpage tbl a" by (simp add: smpage_to_lgpage_def addr_to_lgpage_def)
  ultimately show ?thesis using node_in_range [OF assms(1)] by simp
qed

definition shattered_page :: page_infos where
  "shattered_page = (\<lambda>pg. \<lparr>pg_flags = (if pg = 0x7f0000000040 then 0x0b else 0), pg_ref = \<lparr>cnt = 1\<rparr>, pg_paddr = 0\<rparr>)"

lemma page_addresses_witness:
  "page_to_addr shattered_page 0x7f0000000000 (addr_to_page shattered_page 0x7f0000000000 0x100000203456) = 0x100000203000"
proof -
  have p: "is_page_addr 0x100000203456" by (simp add: is_page_addr_nat)
  have "addr_to_lgpage 0x7f0000000000 0x100000203456 = 0x7f0000000040" "addr_to_smpage 0x100000203456 = 0x1000002000c0"
    "PGADDR_4KB 0x100000203456 = 0x100000203000"
    by (simp_all add: addr_to_lgpage_def addr_to_smpage_def LGPGN_def PGN_def PGN_2MB_def PGN_4KB_def PGADDR_2MB_def PGADDR_4KB_def)
  then show ?thesis using page_addresses [OF p, of shattered_page "0x7f0000000000"] by (simp add: shattered_page_def)
qed

end
