(* ===== verification/Bitlist.thy ===== *)
theory Bitlist
  imports Search Numeral
begin

text \<open>
  The parsers of lists of bits: \<open>string_to_bitmap\<close> of bitmap.c, which reads ranges with strides from a string, and those of
  sysfs.c, which read a number or ranges from a file. A pointer into a string is the rest of the string, so that
  of two pointers into the same one the longer comes first; \<open>None\<close> is NULL.
\<close>

section \<open>bitmap.c\<close>

definition nexttoken :: "string option \<Rightarrow> char \<Rightarrow> string option" where
  "nexttoken q sep = (case q of None \<Rightarrow> None | Some s \<Rightarrow> (case dropWhile (\<lambda>c. c \<noteq> sep) s of [] \<Rightarrow> None | _ # r \<Rightarrow> Some r))"

text \<open>The result, and what is stored behind the pointers \<open>end\<close> and \<open>result\<close>.\<close>

definition nextnumber :: "string option \<Rightarrow> string option \<Rightarrow> u32 \<Rightarrow> int \<times> string option \<times> u32" where
  "nextnumber str end0 result =
     (case str of None \<Rightarrow> (- EINVAL, end0, result)
      | Some s \<Rightarrow>
        if s = [] \<or> \<not> is_digit 10 (hd s) then (- EINVAL, end0, result)
        else (case strtoul 10 s 0 of (v, err, r) \<Rightarrow>
          if err \<noteq> 0 then (- err, Some r, ucast v)
          else if length r = length s then (- EINVAL, Some r, ucast v)
          else (0, Some r, ucast v)))"

definition before :: "string option \<Rightarrow> string option \<Rightarrow> bool" where
  "before c1 c2 \<longleftrightarrow> c1 \<noteq> None \<and> (c2 = None \<or> length (the c2) < length (the c1))"

text \<open>What follows the first number of a range: \<open>c1\<close> is behind its hyphen, \<open>c2\<close> behind the next comma.\<close>

definition range_end :: "string option \<Rightarrow> string option \<Rightarrow> string option \<Rightarrow> u32 \<Rightarrow> int \<times> string option \<times> u32 \<times> u32" where
  "range_end c1 c2 end0 b =
     (case nextnumber c1 end0 b of (ret, end0, b) \<Rightarrow>
      if ret \<noteq> 0 then (1, end0, b, 1)
      else let c1 = (if end0 \<noteq> None \<and> the end0 \<noteq> [] then nexttoken end0 CHR '':'' else None) in
      if before c1 c2
      then (case nextnumber c1 end0 1 of (ret, end0, s) \<Rightarrow>
        if ret \<noteq> 0 then (1, end0, b, s) else if s = 0 then (1, end0, b, s) else (0, end0, b, s))
      else (0, end0, b, 1))"

primrec fill_range :: "nat \<Rightarrow> u32 \<Rightarrow> u32 \<Rightarrow> u32 \<Rightarrow> int \<Rightarrow> u64 list \<Rightarrow> (int \<times> u64 list) res" where
  "fill_range 0 a b s nbits bits = Inl NoFuel"
| "fill_range (Suc k) a b s nbits bits =
     (if a \<le> b
      then if word_of_int nbits \<le> a then Inr (1, bits)
        else bindE (bitmap_set bits (sint a)) (\<lambda>bits. fill_range k (a + s) b s nbits bits)
      else Inr (0, bits))"

definition parse_range :: "string \<Rightarrow> string option \<Rightarrow> int \<Rightarrow> u64 list \<Rightarrow> (int \<times> string option \<times> u64 list) res" where
  "parse_range p end0 nbits bits =
     (case nextnumber (Some p) end0 0 of (ret, end0, a) \<Rightarrow>
      if ret \<noteq> 0 then Inr (1, end0, bits)
      else let c1 = nexttoken end0 CHR ''-''; c2 = nexttoken end0 CHR '','' in
      (case (if before c1 c2 then range_end c1 c2 end0 a else (0, end0, a, 1)) of (ret, end0, b, s) \<Rightarrow>
       if ret \<noteq> 0 then Inr (1, end0, bits)
       else if \<not> a \<le> b then Inr (1, end0, bits)
       else bindE (fill_range (Suc (nat nbits)) a b s nbits bits) (\<lambda>(ret, bits). Inr (ret, end0, bits))))"

lemma length_nexttoken: "nexttoken (Some p) c = Some q \<Longrightarrow> length q < length p"
  using length_dropWhile_le [of "\<lambda>x. x \<noteq> c" p] by (auto simp: nexttoken_def split: list.splits)

function parse_ranges :: "string \<Rightarrow> string option \<Rightarrow> int \<Rightarrow> u64 list \<Rightarrow> (int \<times> u64 list) res" where
  "parse_ranges p end0 nbits bits =
     bindE (parse_range p end0 nbits bits) (\<lambda>(ret, end0, bits).
       if ret \<noteq> 0 then Inr (ret, bits)
       else (case nexttoken (Some p) CHR '','' of
          None \<Rightarrow> Inr (if end0 \<noteq> None \<and> the end0 \<noteq> [] then 1 else 0, bits)
        | Some q \<Rightarrow> parse_ranges q end0 nbits bits))"
  by pat_completeness auto
termination
  by (relation "measure (\<lambda>(p, _, _, _). length p)") (auto dest: length_nexttoken)

declare parse_ranges.simps [simp del]

definition string_to_bitmap :: "string \<Rightarrow> u64 list \<Rightarrow> int \<Rightarrow> (int \<times> u64 list) res" where
  "string_to_bitmap str bits nbits = bindE (bitmap_init bits nbits False) (parse_ranges str None nbits)"

section \<open>sysfs.c\<close>

text \<open>The first line of a file, as \<open>fgets\<close> leaves it in the buffer; \<open>None\<close> if it cannot be opened or is empty.\<close>

definition first_line :: "string option \<Rightarrow> string option" where
  "first_line f = (case f of None \<Rightarrow> None | Some s \<Rightarrow> if s = [] then None else
     Some (takeWhile (\<lambda>c. c \<noteq> CHR 0x00) (fst (file_gets 8191 s))))"

text \<open>The result, the value stored if there is one, and the error number of the process.\<close>

definition sysfs_parse_val :: "string option \<Rightarrow> u64 \<Rightarrow> int \<Rightarrow> int \<times> u64 \<times> int" where
  "sysfs_parse_val file val_out err =
     (case first_line file of None \<Rightarrow> (- EIO, val_out, err)
      | Some buf \<Rightarrow>
        (case strtoul 0 buf err of (val, err, r) \<Rightarrow>
         if val = - 1 then (- err, val_out, err)
         else if length r = length buf \<or> r = [] \<or> hd r \<noteq> newline then (- EINVAL, val_out, err)
         else (0, val, err)))"

text \<open>
  A number of a list, at most \<open>INT_MAX\<close>, and the rest behind it, or what the parser returns, and the error number. What is returned is 0 for
  a value of all ones when no error was recorded.
\<close>

definition list_number :: "string \<Rightarrow> int \<Rightarrow> (int + int \<times> string) \<times> int" where
  "list_number pos err =
     (case strtoul 0 pos err of (val, err, r) \<Rightarrow>
      (if val = - 1 then Inl (- err)
       else if length r = length pos then Inl (- EINVAL)
       else if of_nat INT_MAX < val then Inl (- ERANGE)
       else Inr (uint val, r), err))"

definition list_range :: "string \<Rightarrow> int \<Rightarrow> (int + int \<times> int \<times> string) \<times> int" where
  "list_range pos err =
     (case list_number pos err of
        (Inl ret, err) \<Rightarrow> (Inl ret, err)
      | (Inr (bit_start, r), err) \<Rightarrow>
        if r \<noteq> [] \<and> hd r = CHR ''-''
        then (case list_number (tl r) err of (Inl ret, err) \<Rightarrow> (Inl ret, err) | (Inr (bit_end, r), err) \<Rightarrow> (Inr (bit_start, bit_end, r), err))
        else (Inr (bit_start, bit_start, r), err))"

lemma length_split_sign: "split_sign s = (neg, t) \<Longrightarrow> length t \<le> length s"
  by (auto simp: split_sign_def split: list.splits if_splits)

lemma length_strto: "strto b s = Some (neg, v, r) \<Longrightarrow> length r < length s"
proof -
  assume "strto b s = Some (neg, v, r)"
  then obtain t d u where t: "split_sign (dropWhile is_space s) = (neg, t)" and d: "pick_base b t = (d, u)"
    and ne: "takeWhile (is_digit d) u \<noteq> []" and r: "r = dropWhile (is_digit d) u"
    by (auto simp: strto_def Let_def split: prod.splits if_splits)
  have "length t \<le> length (dropWhile is_space s)" using t by (rule length_split_sign)
  moreover have "length (dropWhile is_space s) \<le> length s" by (rule length_dropWhile_le)
  moreover have "length u \<le> length t" using d by (auto simp: pick_base_def split: list.splits if_splits)
  moreover have "length r < length u"
    using ne r by (metis append_Nil length_dropWhile_le order_le_less takeWhile_dropWhile_id append_same_eq length_append length_greater_0_conv less_add_same_cancel2)
  ultimately show ?thesis by linarith
qed

lemma length_strtoul: "strtoul b s err = (v, err', r) \<Longrightarrow> length r \<le> length s"
  by (auto simp: strtoul_def dest: length_strto split: option.splits if_splits)

lemma length_list_number: "list_number pos err = (Inr (v, r), err') \<Longrightarrow> length r < length pos"
  using length_strtoul [of 0 pos err] by (fastforce simp: list_number_def split: prod.splits if_splits)

lemma length_list_range: "list_range pos err = (Inr (v, w, r), err') \<Longrightarrow> length r < length pos"
  by (auto simp: list_range_def split: prod.splits sum.splits if_splits dest!: length_list_number)

function bitlist_loop :: "string \<Rightarrow> int \<Rightarrow> int \<Rightarrow> u64 list \<Rightarrow> (int \<times> u64 list) res" where
  "bitlist_loop pos err nbits bits =
     (if pos = [] \<or> hd pos = newline then Inr (0, bits)
      else if hd pos = CHR '','' then bitlist_loop (tl pos) err nbits bits
      else (case list_range pos err of
          (Inl ret, err) \<Rightarrow> Inr (ret, bits)
        | (Inr (bit_start, bit_end, r), err) \<Rightarrow>
            if bit_end < bit_start then Inr (EINVAL, bits)
            else if nbits \<le> bit_end then Inr (- ERANGE, bits)
            else bindE (foldE (\<lambda>p bits. bitmap_set bits (int p)) [nat bit_start..<Suc (nat bit_end)] bits) (bitlist_loop r err nbits)))"
  by pat_completeness auto
termination
  by (relation "measure (\<lambda>(pos, _, _, _). length pos)") (auto dest: length_list_range [OF sym])

declare bitlist_loop.simps [simp del]

definition sysfs_parse_bitlist :: "string option \<Rightarrow> u64 list \<Rightarrow> int \<Rightarrow> int \<Rightarrow> (int \<times> u64 list) res" where
  "sysfs_parse_bitlist file bits nbits err =
     (case first_line file of None \<Rightarrow> Inr (- EIO, bits)
      | Some buf \<Rightarrow> bindE (bitmap_init bits nbits False) (bitlist_loop buf err nbits))"

section \<open>The parsers return\<close>

lemma u32_int: "x < 2 ^ 31 \<Longrightarrow> sint (of_nat x :: u32) = int x"
  using sint_small [of "of_nat x :: u32"] unat_of_nat_less [where 'a = 32, of x] by simp

lemma u32_le: "x < 2 ^ 32 \<Longrightarrow> y < 2 ^ 32 \<Longrightarrow> (of_nat x :: u32) \<le> of_nat y \<longleftrightarrow> x \<le> y"
  by (simp add: word_le_nat_alt unat_of_nat_less)

lemma u32_bound:
  assumes "n < 2 ^ 31" "x < 2 ^ 32"
  shows "(word_of_int (int n) :: u32) \<le> of_nat x \<longleftrightarrow> n \<le> x"
  using u32_le [of n x] assms by simp

lemma fill_fuel_step:
  fixes x y s n k :: nat
  assumes "x < n" "n < 2 ^ 31" "0 < s" "s < 2 ^ 32" "y = (if x + s < 2 ^ 32 then x + s else x + s - 2 ^ 32)" "y < n"
    and "(if s < 2 ^ 31 then n - x else x + 1) < Suc k"
  shows "(if s < 2 ^ 31 then n - y else y + 1) < k"
  using assms by (auto split: if_splits)

text \<open>
  The loop of a range ends although its counter can wrap around: a stride below the sign bit moves it up to the end or to the
  bound, a larger one down until it wraps below zero.
\<close>

lemma fill_range_returns:
  assumes "n < 2 ^ 31" "s \<noteq> 0" "0 < k"
    and "unat a < n \<Longrightarrow> (if unat s < 2 ^ 31 then n - unat a else unat a + 1) < k"
    and "\<forall>p < n. covered bits p"
  shows "\<exists>ret bits'. fill_range k a b s (int n) bits = Inr (ret, bits') \<and> covered bits' = covered bits
    \<and> (\<forall>i. n \<le> i \<longrightarrow> bit_at bits' i = bit_at bits i)"
  using assms(3-)
proof (induction k arbitrary: a bits)
  case (Suc k)
  have "unat a < 2 ^ LENGTH(32)" by (rule unsigned_less)
  then have a: "unat a < 2 ^ 32" "a = of_nat (unat a)" by simp_all
  have le: "(word_of_int (int n) :: u32) \<le> a \<longleftrightarrow> n \<le> unat a" using u32_bound [OF assms(1) a(1)] a(2) by metis
  show ?case
  proof (cases "a \<le> b \<and> unat a < n")
    case True
    then have "unat a < 2 ^ 31" using assms(1) by linarith
    then have p: "sint a = int (unat a)" using u32_int [of "unat a"] a(2) by simp
    obtain t where t: "bitmap_set bits (int (unat a)) = Inr t" "covered t = covered bits" "bit_at t = (bit_at bits)(unat a := True)"
      using plain.set_law [of bits "unat a"] Suc.prems(3) True by blast
    have "unat s < 2 ^ LENGTH(32)" by (rule unsigned_less)
    then have s: "unat s < 2 ^ 32" "0 < unat s" using assms(2) by (simp_all add: unat_gt_0)
    have next_a: "(if unat s < 2 ^ 31 then n - unat (a + s) else unat (a + s) + 1) < k" if "unat (a + s) < n"
      by (rule fill_fuel_step [of "unat a" n "unat s"]) (use that s True assms(1) Suc.prems(2) in \<open>simp_all add: unat_plus_if'\<close>)
    have "0 < k" using Suc.prems(2) True by (cases "unat s < 2 ^ 31") auto
    have "\<forall>p < n. covered t p" using Suc.prems(3) t(2) by simp
    note Suc.IH [OF \<open>0 < k\<close> next_a this]
    then obtain ret bits' where "fill_range k (a + s) b s (int n) t = Inr (ret, bits')" "covered bits' = covered t"
      "\<forall>i. n \<le> i \<longrightarrow> bit_at bits' i = bit_at t i" by blast
    moreover have "\<not> (word_of_int (int n) :: u32) \<le> a" using le True by simp
    ultimately show ?thesis using True p t by (intro exI [of _ ret] exI [of _ bits']) simp
  next
    case False
    then have "fill_range (Suc k) a b s (int n) bits = Inr (if a \<le> b then 1 else 0, bits)" using le by auto
    then show ?thesis by blast
  qed
qed simp

lemma stride_step: "(\<exists>j. i = a + j * s \<and> i \<le> b) \<longleftrightarrow> i = a \<and> a \<le> b \<or> (\<exists>j. i = a + s + j * s \<and> i \<le> b)" for i a s b :: nat
proof
  assume "\<exists>j. i = a + j * s \<and> i \<le> b"
  then obtain j where "i = a + j * s" "i \<le> b" by blast
  then show "i = a \<and> a \<le> b \<or> (\<exists>j. i = a + s + j * s \<and> i \<le> b)" by (cases j) auto
next
  assume "i = a \<and> a \<le> b \<or> (\<exists>j. i = a + s + j * s \<and> i \<le> b)"
  then show "\<exists>j. i = a + j * s \<and> i \<le> b"
    by (metis ab_semigroup_add_class.add_ac(1) add.right_neutral mult_Suc mult_zero_left)
qed

text \<open>A stride that does not make the counter wrap sets the positions of the range.\<close>

lemma fill_range_positions:
  assumes "n < 2 ^ 31" "0 < s" "s < 2 ^ 31" "b < n" "a \<le> b + s" "0 < k" "b + 1 - a < k" "\<forall>p < n. covered bits p"
  shows "\<exists>bits'. fill_range k (of_nat a) (of_nat b) (of_nat s) (int n) bits = Inr (0, bits') \<and> covered bits' = covered bits
    \<and> (\<forall>i. bit_at bits' i \<longleftrightarrow> bit_at bits i \<or> (\<exists>j. i = a + j * s \<and> i \<le> b))"
  using assms(5-)
proof (induction k arbitrary: a bits)
  case (Suc k)
  have le: "(of_nat a :: u32) \<le> of_nat b \<longleftrightarrow> a \<le> b" using Suc.prems(1) assms(1,3,4) by (intro u32_le) simp_all
  show ?case
  proof (cases "a \<le> b")
    case True
    have nb: "\<not> (word_of_int (int n) :: u32) \<le> of_nat a" using u32_bound [of n a] True assms(1,4) by simp
    obtain t where t: "bitmap_set bits (int a) = Inr t" "covered t = covered bits" "bit_at t = (bit_at bits)(a := True)"
      using plain.set_law [of bits a] Suc.prems(4) True assms(4) by (metis le_less_trans)
    have "sint (of_nat a :: u32) = int a" using True assms(1,4) by (intro u32_int) linarith
    moreover have "\<forall>p < n. covered t p" using Suc.prems(4) t(2) by simp
    have fuel: "a + s \<le> b + s" "0 < k" "b + 1 - (a + s) < k" using Suc.prems(3) True assms(2) by linarith+
    obtain u where u: "fill_range k (of_nat (a + s)) (of_nat b) (of_nat s) (int n) t = Inr (0, u)" "covered u = covered t"
      "\<forall>i. bit_at u i \<longleftrightarrow> bit_at t i \<or> (\<exists>j. i = a + s + j * s \<and> i \<le> b)"
      using Suc.IH [OF fuel \<open>\<forall>p < n. covered t p\<close>] by blast
    have "bit_at u i \<longleftrightarrow> bit_at bits i \<or> (\<exists>j. i = a + j * s \<and> i \<le> b)" for i
      using u(3) t(3) True stride_step [of i a s b] by auto
    ultimately show ?thesis using le nb True t u by (intro exI [of _ u]) simp
  next
    case False
    then have "fill_range (Suc k) (of_nat a) (of_nat b) (of_nat s) (int n) bits = Inr (0, bits)" using le by simp
    then show ?thesis using False by auto
  qed
qed simp

definition keeps_outside :: "nat \<Rightarrow> u64 list \<Rightarrow> u64 list \<Rightarrow> bool" where
  "keeps_outside n bits bits' \<longleftrightarrow> covered bits' = covered bits \<and> (\<forall>i. n \<le> i \<longrightarrow> bit_at bits' i = bit_at bits i)"

lemma keeps_outside_refl [simp]: "keeps_outside n bits bits"
  by (simp add: keeps_outside_def)

lemma keeps_outside_trans: "keeps_outside n bits t \<Longrightarrow> keeps_outside n t u \<Longrightarrow> keeps_outside n bits u"
  by (simp add: keeps_outside_def)

lemma range_end_stride: "range_end c1 c2 e b = (0, e', b', s) \<Longrightarrow> s \<noteq> 0"
  by (auto simp: range_end_def Let_def split: prod.splits if_splits)

lemma parse_range_returns:
  assumes "n < 2 ^ 31" "\<forall>p < n. covered bits p"
  shows "\<exists>ret e bits'. parse_range p e0 (int n) bits = Inr (ret, e, bits') \<and> keeps_outside n bits bits'"
proof -
  obtain r e a where na: "nextnumber (Some p) e0 0 = (r, e, a)" by (cases "nextnumber (Some p) e0 0") auto
  let ?c1 = "nexttoken e CHR ''-''" and ?c2 = "nexttoken e CHR '',''"
  obtain r' e' b s where re: "(if before ?c1 ?c2 then range_end ?c1 ?c2 e a else (0, e, a, 1)) = (r', e', b, s)"
    by (cases "if before ?c1 ?c2 then range_end ?c1 ?c2 e a else (0, e, a, 1)") auto
  have s: "s \<noteq> 0" if "r' = 0" using re that by (auto split: if_splits dest: range_end_stride)
  have "\<exists>ret bits'. fill_range (Suc n) a b s (int n) bits = Inr (ret, bits') \<and> keeps_outside n bits bits'" if "r' = 0"
  proof -
    have "(if unat s < 2 ^ 31 then n - unat a else unat a + 1) < Suc n" if "unat a < n" using that by (simp add: less_Suc_eq_le)
    from fill_range_returns [OF assms(1) s [OF that] zero_less_Suc this assms(2), of b]
    show ?thesis unfolding keeps_outside_def by blast
  qed
  then obtain ret bits' where "r' = 0 \<Longrightarrow> fill_range (Suc n) a b s (int n) bits = Inr (ret, bits')" "r' = 0 \<Longrightarrow> keeps_outside n bits bits'" by blast
  then show ?thesis unfolding parse_range_def na Let_def re by (cases "r = 0"; cases "r' = 0"; cases "a \<le> b") (simp_all add: re Let_def)
qed

lemma parse_ranges_returns:
  assumes "n < 2 ^ 31" "\<forall>p < n. covered bits p"
  shows "\<exists>ret bits'. parse_ranges str e (int n) bits = Inr (ret, bits') \<and> keeps_outside n bits bits'"
  using assms(2)
proof (induction "length str" arbitrary: str e bits rule: less_induct)
  case less
  obtain ret e' t where t: "parse_range str e (int n) bits = Inr (ret, e', t)" "keeps_outside n bits t"
    using parse_range_returns [OF assms(1) less.prems] by blast
  show ?case
  proof (cases "ret = 0 \<and> nexttoken (Some str) CHR '','' \<noteq> None")
    case True
    then obtain q where q: "nexttoken (Some str) CHR '','' = Some q" by auto
    have "\<forall>p < n. covered t p" using less.prems t(2) by (simp add: keeps_outside_def)
    then obtain ret' u where "parse_ranges q e' (int n) t = Inr (ret', u)" "keeps_outside n t u"
      using less.hyps [OF length_nexttoken [OF q]] by blast
    then show ?thesis using True t q keeps_outside_trans by (subst parse_ranges.simps) auto
  next
    case False
    then show ?thesis using t by (subst parse_ranges.simps) (auto split: option.splits)
  qed
qed

lemma bitmap_init_cleared:
  assumes "n < 2 ^ 31 - 64" "(n + 63) div 64 \<le> length bits"
  shows "\<exists>t. bitmap_init bits (int n) False = Inr t \<and> length t = length bits \<and> (\<forall>i < n. \<not> bit_at t i)
    \<and> (\<forall>i. 64 * ((n + 63) div 64) \<le> i \<longrightarrow> i div 64 < length bits \<longrightarrow> bit_at t i = bit_at bits i)"
proof -
  let ?m = "(n + 63) div 64"
  have l: "BITMAP_LONG_SIZE (int n) = Inr (int ?m)" using assms(1) by (simp add: BITMAP_LONG_SIZE_def tdiv_def zdiv_int)
  let ?t = "replicate ?m 0 @ drop ?m bits"
  have "bitmap_init bits (int n) False = Inr ?t" using assms(2) by (simp add: bitmap_init_def l)
  moreover have "\<not> bit_at ?t i" if "i < n" for i
  proof -
    have "i div 64 < ?m" using that by (intro less_le_trans [OF _ div_le_mono [of "i + 64" "n + 63" 64]]) simp_all
    then show ?thesis by (simp add: bit_at_def nth_append)
  qed
  moreover have "bit_at ?t i = bit_at bits i" if "64 * ?m \<le> i" for i
  proof -
    have "?m \<le> i div 64" using that by (simp add: less_eq_div_iff_mult_less_eq mult.commute)
    then show ?thesis using assms(2) by (simp add: bit_at_def nth_append)
  qed
  ultimately show ?thesis using assms(2) by (intro exI [of _ ?t]) simp
qed

lemma list_number_nonneg: "list_number pos err = (Inr (v, r), err') \<Longrightarrow> 0 \<le> v"
  by (auto simp: list_number_def split: prod.splits if_splits)

lemma list_range_nonneg: "list_range pos err = (Inr (v, w, r), err') \<Longrightarrow> 0 \<le> v \<and> 0 \<le> w"
  by (auto simp: list_range_def split: prod.splits sum.splits if_splits dest!: list_number_nonneg)

lemma set_positions:
  assumes "\<forall>p < n. covered bits p" "b < n"
  shows "\<exists>t. foldE (\<lambda>p bits. bitmap_set bits (int p)) [a..<Suc b] bits = Inr t \<and> covered t = covered bits
    \<and> (\<forall>i. bit_at t i \<longleftrightarrow> (a \<le> i \<and> i \<le> b) \<or> bit_at bits i)"
proof -
  have "\<forall>p \<in> set [a..<Suc b]. covered bits p" using assms by auto
  from plain.set_all [OF this] show ?thesis by (auto simp: less_Suc_eq_le)
qed

lemma bitlist_loop_returns:
  assumes "\<forall>p < n. covered bits p"
  shows "\<exists>ret bits'. bitlist_loop pos err (int n) bits = Inr (ret, bits') \<and> keeps_outside n bits bits'"
  using assms
proof (induction "length pos" arbitrary: pos err bits rule: less_induct)
  case less
  consider "pos = [] \<or> hd pos = newline" | "pos \<noteq> []" "hd pos \<noteq> newline" "hd pos = CHR '',''"
    | "pos \<noteq> []" "hd pos \<noteq> newline" "hd pos \<noteq> CHR '',''" by blast
  then show ?case
  proof cases
    case 2
    then have "length (tl pos) < length pos" by simp
    then show ?thesis using 2 less.hyps [of "tl pos" bits err] less.prems by (subst bitlist_loop.simps) simp
  next
    case 3
    note eq = bitlist_loop.simps [of pos err "int n" bits]
    show ?thesis
    proof (cases "list_range pos err")
      case (Pair x err')
      show ?thesis
      proof (cases x)
        case (Inr y)
        obtain v w r where y: "y = (v, w, r)" by (cases y) auto
        note lr = Pair [unfolded Inr y]
        show ?thesis
        proof (cases "w < v \<or> int n \<le> w")
          case False
          then have "nat w < n" using list_range_nonneg [OF lr] by linarith
          obtain t where t: "foldE (\<lambda>p bits. bitmap_set bits (int p)) [nat v..<Suc (nat w)] bits = Inr t" "covered t = covered bits"
            "\<forall>i. bit_at t i \<longleftrightarrow> (nat v \<le> i \<and> i \<le> nat w) \<or> bit_at bits i"
            using set_positions [OF less.prems \<open>nat w < n\<close>] by blast
          have "keeps_outside n bits t" using t(2,3) \<open>nat w < n\<close> by (auto simp: keeps_outside_def)
          moreover have "\<forall>p < n. covered t p" using less.prems t(2) by simp
          then obtain ret u where "bitlist_loop r err' (int n) t = Inr (ret, u)" "keeps_outside n t u"
            using less.hyps [OF length_list_range [OF lr]] by blast
          ultimately show ?thesis using 3 lr False t(1) keeps_outside_trans by (subst eq) (auto simp del: upt_Suc)
        qed (use 3 lr in \<open>subst eq, auto\<close>)
      qed (use 3 Pair in \<open>subst eq, auto\<close>)
    qed
  qed (subst bitlist_loop.simps, auto)
qed

lemma covered_below:
  assumes "n < 2 ^ 31 - 64" "(n + 63) div 64 \<le> length bits" "length t = length bits" "p < n"
  shows "covered t p"
proof -
  have "p div 64 < (n + 63) div 64" using assms(4) by (intro less_le_trans [OF _ div_le_mono [of "p + 64" "n + 63" 64]]) simp_all
  then show ?thesis using assms by (simp add: covered_def)
qed

lemma init_then_parse:
  assumes "n < 2 ^ 31 - 64" "(n + 63) div 64 \<le> length bits"
    and "\<And>t. length t = length bits \<Longrightarrow> \<forall>p < n. covered t p \<Longrightarrow> \<exists>ret u. f t = Inr (ret, u) \<and> keeps_outside n t u"
  shows "\<exists>ret t. bindE (bitmap_init bits (int n) False) f = Inr (ret, t) \<and> (\<forall>i < 64 * length bits. 64 * ((n + 63) div 64) \<le> i \<longrightarrow> bit_at t i = bit_at bits i)"
proof -
  obtain t where t: "bitmap_init bits (int n) False = Inr t" "length t = length bits"
    "\<forall>i. 64 * ((n + 63) div 64) \<le> i \<longrightarrow> i div 64 < length bits \<longrightarrow> bit_at t i = bit_at bits i"
    using bitmap_init_cleared [OF assms(1,2)] by blast
  have "\<forall>p < n. covered t p" using covered_below [OF assms(1,2)] t(2) by blast
  then obtain ret u where u: "f t = Inr (ret, u)" "keeps_outside n t u" using assms(3) [OF t(2)] by blast
  have "bit_at u i = bit_at bits i" if "i < 64 * length bits" "64 * ((n + 63) div 64) \<le> i" for i
  proof -
    have "n \<le> 64 * ((n + 63) div 64)" by simp
    then have "n \<le> i" using that(2) by linarith
    then show ?thesis using u(2) t(3) that by (auto simp: keeps_outside_def)
  qed
  then show ?thesis using t(1) u(1) by auto
qed

text \<open>
  C37. Both parsers return on every input, whatever it contains, numbers that wrap around and strides that do not move the
  counter forward included: neither loops for ever nor touches anything outside the array, and no bit behind the last word of the bitmap is changed.
\<close>

theorem bitmap_parsers_return:
  assumes "n < 2 ^ 31 - 64" "(n + 63) div 64 \<le> length bits"
  shows "(\<exists>ret t. string_to_bitmap str bits (int n) = Inr (ret, t) \<and>
       (\<forall>i < 64 * length bits. 64 * ((n + 63) div 64) \<le> i \<longrightarrow> bit_at t i = bit_at bits i))
    \<and> (\<exists>ret t. sysfs_parse_bitlist file bits (int n) err = Inr (ret, t) \<and>
       (\<forall>i < 64 * length bits. 64 * ((n + 63) div 64) \<le> i \<longrightarrow> bit_at t i = bit_at bits i))"
proof
  have n: "n < 2 ^ 31" using assms(1) by simp
  show "\<exists>ret t. string_to_bitmap str bits (int n) = Inr (ret, t) \<and>
      (\<forall>i < 64 * length bits. 64 * ((n + 63) div 64) \<le> i \<longrightarrow> bit_at t i = bit_at bits i)"
    unfolding string_to_bitmap_def by (rule init_then_parse [OF assms parse_ranges_returns [OF n]])
  show "\<exists>ret t. sysfs_parse_bitlist file bits (int n) err = Inr (ret, t) \<and>
      (\<forall>i < 64 * length bits. 64 * ((n + 63) div 64) \<le> i \<longrightarrow> bit_at t i = bit_at bits i)"
  proof (cases "first_line file")
    case (Some buf)
    then show ?thesis unfolding sysfs_parse_bitlist_def by (simp add: init_then_parse [OF assms bitlist_loop_returns])
  qed (simp add: sysfs_parse_bitlist_def)
qed

lemma bitmap_parsers_return_witness:
  "(\<exists>ret t. string_to_bitmap ''3-5:4294967295'' [7, 9] (int 10) = Inr (ret, t) \<and> bit_at t 64 = bit_at [7, 9] 64)
   \<and> (\<exists>ret t. sysfs_parse_bitlist (Some ''1,3'') [7, 9] (int 10) 0 = Inr (ret, t) \<and> bit_at t 64 = bit_at [7, 9] 64)"
  using bitmap_parsers_return [of 10 "[7, 9]" "''3-5:4294967295''" "Some ''1,3''" 0] by force

section \<open>What the parsers read\<close>

text \<open>A number, a range, or a range with a stride, as text and as a set of positions.\<close>

type_synonym bit_range = "nat \<times> (nat \<times> nat option) option"

fun range_text :: "bit_range \<Rightarrow> string" where
  "range_text (a, None) = numeral_of 10 a"
| "range_text (a, Some (b, None)) = numeral_of 10 a @ CHR ''-'' # numeral_of 10 b"
| "range_text (a, Some (b, Some s)) = numeral_of 10 a @ CHR ''-'' # numeral_of 10 b @ CHR '':'' # numeral_of 10 s"

fun range_has :: "bit_range \<Rightarrow> nat \<Rightarrow> bool" where
  "range_has (a, None) i \<longleftrightarrow> i = a"
| "range_has (a, Some (b, None)) i \<longleftrightarrow> a \<le> i \<and> i \<le> b"
| "range_has (a, Some (b, Some s)) i \<longleftrightarrow> a \<le> i \<and> i \<le> b \<and> s dvd i - a"

fun range_ok :: "nat \<Rightarrow> bit_range \<Rightarrow> bool" where
  "range_ok n (a, None) \<longleftrightarrow> a < n"
| "range_ok n (a, Some (b, None)) \<longleftrightarrow> a \<le> b \<and> b < n"
| "range_ok n (a, Some (b, Some s)) \<longleftrightarrow> a \<le> b \<and> b < n \<and> 0 < s \<and> s < 2 ^ 31"

fun ranges_text :: "bit_range list \<Rightarrow> string" where
  "ranges_text [] = []"
| "ranges_text [r] = range_text r"
| "ranges_text (r # rs) = range_text r @ CHR '','' # ranges_text rs"

lemma decimal_chars: "c \<in> set (numeral_of 10 a) \<Longrightarrow> is_digit 10 c"
  using numeral_of_number [of 10 a] by simp

lemma decimal_chars_not:
  assumes "c \<in> set (numeral_of 10 a)"
  shows "c \<noteq> CHR '',''" "c \<noteq> CHR ''-''" "c \<noteq> CHR '':''" "c \<noteq> newline" "c \<noteq> CHR 0x00"
  using decimal_chars [OF assms] by (auto simp: is_digit_def digit_val_def)

lemma nexttoken_simps:
  "nexttoken (Some (c # r)) c = Some r" "c \<noteq> d \<Longrightarrow> nexttoken (Some (c # r)) d = nexttoken (Some r) d" "nexttoken (Some []) d = None"
  by (simp_all add: nexttoken_def)

lemma nexttoken_skip: "(\<And>c. c \<in> set ds \<Longrightarrow> c \<noteq> d) \<Longrightarrow> nexttoken (Some (ds @ r)) d = nexttoken (Some r) d"
  by (induction ds) (simp_all add: nexttoken_simps)

lemma nexttoken_decimal:
  assumes "d \<in> {CHR '','', CHR ''-'', CHR '':''}"
  shows "nexttoken (Some (numeral_of 10 a @ r)) d = nexttoken (Some r) d"
  using assms decimal_chars_not by (intro nexttoken_skip) blast

definition ends_number :: "string \<Rightarrow> bool" where
  "ends_number r \<longleftrightarrow> r = [] \<or> \<not> is_digit 10 (hd r)"

lemma nextnumber_decimal:
  assumes "ends_number r" "a < 2 ^ 31"
  shows "nextnumber (Some (numeral_of 10 a @ r)) e b = (0, Some r, of_nat a)"
proof -
  note num = numeral_of_number [of 10 a, simplified]
  have "strto 10 (numeral_of 10 a @ r) = Some (False, number 10 (numeral_of 10 a), r)"
    using num assms(1) by (intro strto_digits) (auto simp: ends_number_def)
  then have "strtoul 10 (numeral_of 10 a @ r) 0 = (of_nat a, 0, r)" using num assms(2) by (simp add: strtoul_def)
  moreover have "ucast (of_nat a :: u64) = (of_nat a :: u32)" using assms(2) by (simp add: unsigned_of_nat take_bit_nat_eq_self)
  moreover have "is_digit 10 (hd (numeral_of 10 a @ r))" using num by (simp add: hd_append)
  ultimately show ?thesis using num by (simp add: nextnumber_def)
qed

definition rest_ok :: "string \<Rightarrow> bool" where
  "rest_ok r \<longleftrightarrow> r = [] \<or> (\<exists>q. r = CHR '','' # q)"

lemma rest_ok_ends: "rest_ok r \<Longrightarrow> ends_number r" "ends_number (CHR ''-'' # q)" "ends_number (CHR '':'' # q)"
  by (auto simp: rest_ok_def ends_number_def is_digit_def digit_val_def)

lemma not_before_rest:
  assumes "rest_ok r" "d \<noteq> CHR '',''"
  shows "\<not> before (nexttoken (Some r) d) (nexttoken (Some r) CHR '','')"
proof (cases "nexttoken (Some r) d")
  case (Some q)
  then obtain t where r: "r = CHR '','' # t" using assms(1) by (auto simp: rest_ok_def nexttoken_simps)
  then have "nexttoken (Some t) d = Some q" using Some assms(2) nexttoken_simps(2) [of "CHR '',''" d t] by simp
  then have "length q < length t" by (rule length_nexttoken)
  then show ?thesis using Some r by (simp add: before_def nexttoken_simps)
qed (simp add: before_def)

lemma before_suffix: "before (Some (xs @ r)) (nexttoken (Some r) d)"
  using length_nexttoken [of r d] by (cases "nexttoken (Some r) d") (auto simp: before_def intro: trans_less_add2)

lemma parse_range_fill:
  assumes "nextnumber (Some p) e 0 = (0, e', of_nat a)"
    and "(if before (nexttoken e' CHR ''-'') (nexttoken e' CHR '','')
      then range_end (nexttoken e' CHR ''-'') (nexttoken e' CHR '','') e' (of_nat a) else (0, e', of_nat a, 1)) = (0, e'', of_nat b, of_nat s)"
    and "n < 2 ^ 31" "0 < s" "s < 2 ^ 31" "a \<le> b" "b < n" "\<forall>p < n. covered bits p"
  shows "\<exists>t. parse_range p e (int n) bits = Inr (0, e'', t) \<and> covered t = covered bits
    \<and> (\<forall>i. bit_at t i \<longleftrightarrow> bit_at bits i \<or> a \<le> i \<and> i \<le> b \<and> s dvd i - a)"
proof -
  have "a \<le> b + s" "b + 1 - a < Suc n" using assms(6,7) by linarith+
  then obtain t where t: "fill_range (Suc n) (of_nat a) (of_nat b) (of_nat s) (int n) bits = Inr (0, t)" "covered t = covered bits"
    "\<forall>i. bit_at t i \<longleftrightarrow> bit_at bits i \<or> (\<exists>j. i = a + j * s \<and> i \<le> b)"
    using fill_range_positions [OF assms(3,4,5,7) _ zero_less_Suc _ assms(8), of a n] by blast
  have "(\<exists>j. i = a + j * s \<and> i \<le> b) \<longleftrightarrow> a \<le> i \<and> i \<le> b \<and> s dvd i - a" for i
    by (auto simp: dvd_def mult.commute) (metis le_add_diff_inverse)
  moreover have "(of_nat a :: u32) \<le> of_nat b" using u32_le [of a b] assms(3,6,7) by simp
  then have "parse_range p e (int n) bits = Inr (0, e'', t)"
    unfolding parse_range_def assms(1) using t(1) by (simp only: prod.case Let_def assms(2) nat_int) simp
  ultimately show ?thesis using t(2,3) by auto
qed

lemma parse_range_text:
  assumes "range_ok n r" "rest_ok rest" "n < 2 ^ 31" "\<forall>p < n. covered bits p"
  shows "\<exists>t. parse_range (range_text r @ rest) e (int n) bits = Inr (0, Some rest, t) \<and> covered t = covered bits
    \<and> (\<forall>i. bit_at t i \<longleftrightarrow> bit_at bits i \<or> range_has r i)"
  using assms(1)
proof (cases rule: range_ok.cases [of "(n, r)"])
  case (1 _ a)
  then have r: "r = (a, None)" and a: "a < n" using assms(1) by auto
  have na: "nextnumber (Some (range_text r @ rest)) e 0 = (0, Some rest, of_nat a)"
    using nextnumber_decimal [OF rest_ok_ends(1) [OF assms(2)], of a] a assms(3) r by simp
  show ?thesis using parse_range_fill [OF na, of "Some rest" a 1 n bits] not_before_rest [OF assms(2), of "CHR ''-''"] a assms(3,4) r
    by auto
next
  case (2 _ a b)
  then have r: "r = (a, Some (b, None))" and a: "a \<le> b" "b < n" using assms(1) by auto
  let ?e = "CHR ''-'' # numeral_of 10 b @ rest"
  have na: "nextnumber (Some (range_text r @ rest)) e 0 = (0, Some ?e, of_nat a)"
    using nextnumber_decimal [OF rest_ok_ends(2), of a "numeral_of 10 b @ rest" e 0] a assms(3) r by simp
  have nb: "nextnumber (Some (numeral_of 10 b @ rest)) (Some ?e) (of_nat a) = (0, Some rest, of_nat b)"
    using nextnumber_decimal [OF rest_ok_ends(1) [OF assms(2)], of b] a assms(3) by simp
  have "range_end (Some (numeral_of 10 b @ rest)) (nexttoken (Some rest) CHR '','') (Some ?e) (of_nat a) = (0, Some rest, of_nat b, 1)"
    using not_before_rest [OF assms(2), of "CHR '':''"] by (auto simp: range_end_def nb before_def)
  then show ?thesis using parse_range_fill [OF na, of "Some rest" b 1 n bits] before_suffix a assms(3,4) r
    by (simp add: nexttoken_simps nexttoken_decimal)
next
  case (3 _ a b s)
  then have r: "r = (a, Some (b, Some s))" and a: "a \<le> b" "b < n" "0 < s" "s < 2 ^ 31" using assms(1) by auto
  let ?c = "CHR '':'' # numeral_of 10 s @ rest"
  let ?e = "CHR ''-'' # numeral_of 10 b @ ?c"
  have na: "nextnumber (Some (range_text r @ rest)) e 0 = (0, Some ?e, of_nat a)"
    using nextnumber_decimal [OF rest_ok_ends(2), of a "numeral_of 10 b @ ?c" e 0] a assms(3) r by simp
  have nb: "nextnumber (Some (numeral_of 10 b @ ?c)) (Some ?e) (of_nat a) = (0, Some ?c, of_nat b)"
    using nextnumber_decimal [OF rest_ok_ends(3), of b "numeral_of 10 s @ rest"] a assms(3) by simp
  have ns: "nextnumber (Some (numeral_of 10 s @ rest)) (Some ?c) 1 = (0, Some rest, of_nat s)"
    using nextnumber_decimal [OF rest_ok_ends(1) [OF assms(2)], of s] a by simp
  have "unat (of_nat s :: u32) = s" using a(4) by (intro unat_of_nat_less) simp
  then have "(of_nat s :: u32) \<noteq> 0" using a(3) by (metis less_irrefl unsigned_0)
  then have "range_end (Some (numeral_of 10 b @ ?c)) (nexttoken (Some rest) CHR '','') (Some ?e) (of_nat a) = (0, Some rest, of_nat b, of_nat s)"
    by (simp add: range_end_def nb ns nexttoken_simps before_suffix)
  moreover have "before (Some (numeral_of 10 b @ ?c)) (nexttoken (Some rest) CHR '','')"
    using before_suffix [of "numeral_of 10 b @ CHR '':'' # numeral_of 10 s" rest] by simp
  ultimately show ?thesis using parse_range_fill [OF na, of "Some rest" b s n bits] a assms(3,4) r
    by (simp add: nexttoken_simps nexttoken_decimal)
qed

lemma comma_not_in_range: "c \<in> set (range_text r) \<Longrightarrow> c \<noteq> CHR '','' \<and> c \<noteq> newline \<and> c \<noteq> CHR 0x00"
  by (cases r rule: range_text.cases) (auto dest: decimal_chars_not)

lemma parse_ranges_text:
  assumes "rs \<noteq> []" "\<forall>r \<in> set rs. range_ok n r" "n < 2 ^ 31" "\<forall>p < n. covered bits p"
  shows "\<exists>t. parse_ranges (ranges_text rs) e (int n) bits = Inr (0, t) \<and> (\<forall>i. bit_at t i \<longleftrightarrow> bit_at bits i \<or> (\<exists>r \<in> set rs. range_has r i))"
  using assms(1,2,4)
proof (induction rs arbitrary: e bits rule: ranges_text.induct)
  case (2 r)
  obtain t where t: "parse_range (range_text r @ []) e (int n) bits = Inr (0, Some [], t)" "\<forall>i. bit_at t i \<longleftrightarrow> bit_at bits i \<or> range_has r i"
    using parse_range_text [of n r "[]" bits e] 2 assms(3) by (auto simp: rest_ok_def)
  have "nexttoken (Some (range_text r @ [])) CHR '','' = None"
    using comma_not_in_range by (subst nexttoken_skip) (auto simp: nexttoken_simps)
  then show ?case using t by (subst parse_ranges.simps) simp
next
  case (3 r r' rs)
  let ?q = "ranges_text (r' # rs)"
  obtain t where t: "parse_range (range_text r @ CHR '','' # ?q) e (int n) bits = Inr (0, Some (CHR '','' # ?q), t)" "covered t = covered bits"
    "\<forall>i. bit_at t i \<longleftrightarrow> bit_at bits i \<or> range_has r i"
    using parse_range_text [of n r "CHR '','' # ?q" bits e] "3.prems" assms(3) by (auto simp: rest_ok_def)
  have q: "nexttoken (Some (range_text r @ CHR '','' # ?q)) CHR '','' = Some ?q"
    using comma_not_in_range by (subst nexttoken_skip) (auto simp: nexttoken_simps)
  have "\<forall>p < n. covered t p" using "3.prems"(3) t(2) by simp
  then obtain u where "parse_ranges ?q (Some (CHR '','' # ?q)) (int n) t = Inr (0, u)"
    "\<forall>i. bit_at u i \<longleftrightarrow> bit_at t i \<or> (\<exists>r \<in> set (r' # rs). range_has r i)"
    using "3.IH" [of t "Some (CHR '','' # ?q)"] "3.prems"(2) by auto
  then show ?case using t q by (subst ranges_text.simps, subst parse_ranges.simps) auto
qed simp

lemma hd_numeral_of: "0 < a \<Longrightarrow> hd (numeral_of 10 a) \<noteq> CHR ''0''"
proof (induction a rule: less_induct)
  case (less a)
  show ?case
  proof (cases "a < 10")
    case True
    then have "digit_val (digit_chr a) = a" by (intro digit_val_chr) simp
    then have "digit_chr a \<noteq> CHR ''0''" using less.prems by auto
    then show ?thesis using True by (subst numeral_of.simps) simp
  next
    case False
    then show ?thesis using less.IH [of "a div 10"] numeral_of_number [of 10 "a div 10"] by (subst numeral_of.simps) simp
  qed
qed

lemma list_number_decimal:
  assumes "r \<noteq> []" "hd r \<in> {CHR '','', CHR ''-'', newline}" "a < 2 ^ 31"
  shows "list_number (numeral_of 10 a @ r) err = (Inr (int a, r), err)"
proof -
  note num = numeral_of_number [of 10 a, simplified]
  obtain d ds where d: "numeral_of 10 a = d # ds" using num by (cases "numeral_of 10 a") auto
  have plain: "\<not> is_space d" "d \<noteq> CHR ''-''" "d \<noteq> CHR ''+''" using num digit_not_space [of 10 d] by (auto simp: d)
  then have sign: "split_sign (dropWhile is_space (numeral_of 10 a @ r)) = (False, numeral_of 10 a @ r)" by (simp add: d split_sign_def)
  have stop: "\<not> is_digit b (hd r)" if "b \<le> 16" for b using assms(2) that by (auto simp: is_digit_def digit_val_def)
  have "strto 0 (numeral_of 10 a @ r) = Some (False, a, r)"
  proof (cases "a = 0")
    case True
    then have "numeral_of 10 a = [CHR ''0'']" by (subst numeral_of.simps) (simp add: digit_chr_def char_of_eq_iff)
    moreover have "\<not> has_hex_prefix (CHR ''0'' # r)" using assms(1,2) by (cases r) (auto simp: has_hex_prefix_def split: list.splits)
    moreover have "takeWhile (is_digit 8) r = []" "dropWhile (is_digit 8) r = r" using stop [of 8] assms(1) by (cases r; simp)+
    ultimately show ?thesis using sign True by (simp add: strto_def pick_base_def is_digit_def number_def digit_val_def)
  next
    case False
    then have "d \<noteq> CHR ''0''" using hd_numeral_of [of a] by (simp add: d)
    then have "pick_base 0 (numeral_of 10 a @ r) = (10, numeral_of 10 a @ r)" by (auto simp: pick_base_def has_hex_prefix_def d split: list.splits)
    moreover have "takeWhile (is_digit 10) (numeral_of 10 a @ r) = numeral_of 10 a" "dropWhile (is_digit 10) (numeral_of 10 a @ r) = r"
      by (rule takeWhile_digits; use num stop [of 10] in simp)+
    ultimately show ?thesis using sign num by (simp add: strto_def)
  qed
  then have s: "strtoul 0 (numeral_of 10 a @ r) err = (of_nat a, err, r)" using assms(3) by (simp add: strtoul_def)
  have u: "unat (of_nat a :: u64) = a" using assms(3) by (intro unat_of_nat_less) simp
  have "unat (- 1 :: u64) = 18446744073709551615" by (simp add: unsigned_minus_1_eq_mask mask_eq_exp_minus_1)
  then have "(of_nat a :: u64) \<noteq> - 1" using u assms(3) by auto
  moreover have "uint (of_nat a :: u64) = int a" using u uint_nat [of "of_nat a :: u64"] by metis
  ultimately show ?thesis using u assms(3) num by (simp add: list_number_def s word_less_nat_alt)
qed

fun no_stride :: "bit_range \<Rightarrow> bool" where
  "no_stride (a, Some (b, Some s)) = False"
| "no_stride (a, None) = True"
| "no_stride (a, Some (b, None)) = True"

lemma list_range_text:
  assumes "range_ok n r" "no_stride r" "n < 2 ^ 31" "q \<noteq> []" "hd q \<in> {CHR '','', newline}"
  shows "\<exists>a b. list_range (range_text r @ q) err = (Inr (int a, int b, q), err) \<and> a \<le> b \<and> b < n \<and> (\<forall>i. range_has r i \<longleftrightarrow> a \<le> i \<and> i \<le> b)"
proof (cases r rule: no_stride.cases)
  case (2 a)
  then have "list_number (range_text r @ q) err = (Inr (int a, q), err)" using assms by (auto intro!: list_number_decimal)
  then have "list_range (range_text r @ q) err = (Inr (int a, int a, q), err)" using assms(5) by (auto simp: list_range_def)
  then show ?thesis using 2 assms(1) by (intro exI [of _ a] exI [of _ a]) auto
next
  case (3 a b)
  then have ab: "a \<le> b" "b < n" using assms(1) by simp_all
  have "list_number (range_text r @ q) err = (Inr (int a, CHR ''-'' # numeral_of 10 b @ q), err)"
    using 3 ab assms(3) list_number_decimal [of "CHR ''-'' # numeral_of 10 b @ q" a err] by simp
  moreover have "list_number (numeral_of 10 b @ q) err = (Inr (int b, q), err)"
    using ab assms(3-5) by (intro list_number_decimal) auto
  ultimately have "list_range (range_text r @ q) err = (Inr (int a, int b, q), err)" by (simp add: list_range_def)
  then show ?thesis using 3 ab by (intro exI [of _ a] exI [of _ b]) auto
qed (use assms(2) in auto)

lemma range_text_start: "range_text r \<noteq> []" "hd (range_text r @ q) \<noteq> newline" "hd (range_text r @ q) \<noteq> CHR '',''"
proof -
  show r: "range_text r \<noteq> []" using numeral_of_number [of 10] by (cases r rule: range_text.cases) auto
  then have "hd (range_text r @ q) \<in> set (range_text r)" by simp
  then show "hd (range_text r @ q) \<noteq> newline" "hd (range_text r @ q) \<noteq> CHR '',''" using comma_not_in_range by blast+
qed

lemma bitlist_loop_range:
  assumes "range_ok n r" "no_stride r" "n < 2 ^ 31" "q \<noteq> []" "hd q \<in> {CHR '','', newline}" "\<forall>p < n. covered bits p"
  shows "\<exists>t. bitlist_loop (range_text r @ q) err (int n) bits = bitlist_loop q err (int n) t \<and> covered t = covered bits
    \<and> (\<forall>i. bit_at t i \<longleftrightarrow> bit_at bits i \<or> range_has r i)"
proof -
  obtain a b where ab: "list_range (range_text r @ q) err = (Inr (int a, int b, q), err)" "a \<le> b" "b < n" "\<forall>i. range_has r i \<longleftrightarrow> a \<le> i \<and> i \<le> b"
    using list_range_text [OF assms(1-5)] by blast
  obtain t where "foldE (\<lambda>p bits. bitmap_set bits (int p)) [a..<Suc b] bits = Inr t" "covered t = covered bits"
    "\<forall>i. bit_at t i \<longleftrightarrow> (a \<le> i \<and> i \<le> b) \<or> bit_at bits i" using set_positions [OF assms(6) ab(3)] by blast
  then show ?thesis using ab range_text_start [of r]
    by (intro exI [of _ t], subst bitlist_loop.simps) (auto simp del: upt_Suc simp: range_text_start)
qed

lemma bitlist_loop_text:
  assumes "rs \<noteq> []" "\<forall>r \<in> set rs. range_ok n r \<and> no_stride r" "n < 2 ^ 31" "\<forall>p < n. covered bits p"
  shows "\<exists>t. bitlist_loop (ranges_text rs @ [newline]) err (int n) bits = Inr (0, t) \<and> (\<forall>i. bit_at t i \<longleftrightarrow> bit_at bits i \<or> (\<exists>r \<in> set rs. range_has r i))"
  using assms(1,2,4)
proof (induction rs arbitrary: bits rule: ranges_text.induct)
  case (2 r)
  obtain t where "bitlist_loop (range_text r @ [newline]) err (int n) bits = bitlist_loop [newline] err (int n) t"
    "\<forall>i. bit_at t i \<longleftrightarrow> bit_at bits i \<or> range_has r i" using bitlist_loop_range [of n r "[newline]" bits err] 2 assms(3) by auto
  then show ?case by (simp add: bitlist_loop.simps [of "[newline]"])
next
  case (3 r r' rs)
  let ?q = "ranges_text (r' # rs) @ [newline]"
  obtain t where t: "bitlist_loop (range_text r @ CHR '','' # ?q) err (int n) bits = bitlist_loop (CHR '','' # ?q) err (int n) t"
    "covered t = covered bits" "\<forall>i. bit_at t i \<longleftrightarrow> bit_at bits i \<or> range_has r i"
    using bitlist_loop_range [of n r "CHR '','' # ?q" bits err] "3.prems" assms(3) by auto
  have skip: "bitlist_loop (CHR '','' # ?q) err (int n) t = bitlist_loop ?q err (int n) t" by (subst bitlist_loop.simps) simp
  have "\<forall>p < n. covered t p" using "3.prems"(3) t(2) by simp
  then obtain u where "bitlist_loop ?q err (int n) t = Inr (0, u)" "\<forall>i. bit_at u i \<longleftrightarrow> bit_at t i \<or> (\<exists>r \<in> set (r' # rs). range_has r i)"
    using "3.IH" [of t] "3.prems"(2) by auto
  then show ?case using t skip by auto
qed simp

lemma ranges_text_chars: "c \<in> set (ranges_text rs) \<Longrightarrow> c \<noteq> newline \<and> c \<noteq> CHR 0x00"
  by (induction rs rule: ranges_text.induct) (auto dest: comma_not_in_range)

lemma first_line_one:
  assumes "length s < 8191" "\<And>c. c \<in> set s \<Longrightarrow> c \<noteq> newline \<and> c \<noteq> CHR 0x00"
  shows "first_line (Some (s @ [newline])) = Some (s @ [newline])"
proof -
  have "takeWhile (\<lambda>c. c \<noteq> newline) (s @ [newline]) = s" using assms(2) by (simp add: takeWhile_append2)
  then have "fst (file_gets 8191 (s @ [newline])) = s @ [newline]" using assms(1) by (simp add: file_gets_def Let_def)
  moreover have "takeWhile (\<lambda>c. c \<noteq> CHR 0x00) (s @ [newline]) = s @ [newline]" using assms(2) by (subst takeWhile_append2) auto
  ultimately show ?thesis by (simp add: first_line_def)
qed

text \<open>
  C38. Numbers, ranges and ranges with strides below the size of the bitmap, written one after the other with commas, are read back by
  \<open>string_to_bitmap\<close> as exactly the positions they stand for, and so are those without strides as the one line of a file.
\<close>

theorem bit_ranges_read:
  assumes "n < 2 ^ 31 - 64" "(n + 63) div 64 \<le> length bits" "rs \<noteq> []" "\<forall>r \<in> set rs. range_ok n r"
  shows "(\<exists>t. string_to_bitmap (ranges_text rs) bits (int n) = Inr (0, t) \<and> (\<forall>i < n. bit_at t i \<longleftrightarrow> (\<exists>r \<in> set rs. range_has r i)))
    \<and> ((\<forall>r \<in> set rs. no_stride r) \<and> length (ranges_text rs) < 8191 \<longrightarrow>
       (\<exists>t. sysfs_parse_bitlist (Some (ranges_text rs @ [newline])) bits (int n) err = Inr (0, t) \<and>
         (\<forall>i < n. bit_at t i \<longleftrightarrow> (\<exists>r \<in> set rs. range_has r i))))"
proof -
  have n: "n < 2 ^ 31" using assms(1) by simp
  obtain t where t: "bitmap_init bits (int n) False = Inr t" "length t = length bits" "\<forall>i < n. \<not> bit_at t i"
    using bitmap_init_cleared [OF assms(1,2)] by blast
  have c: "\<forall>p < n. covered t p" using covered_below [OF assms(1,2)] t(2) by blast
  have "\<exists>t. string_to_bitmap (ranges_text rs) bits (int n) = Inr (0, t) \<and> (\<forall>i < n. bit_at t i \<longleftrightarrow> (\<exists>r \<in> set rs. range_has r i))"
    using parse_ranges_text [OF assms(3,4) n c, of None] t by (auto simp: string_to_bitmap_def)
  moreover have "\<exists>t. sysfs_parse_bitlist (Some (ranges_text rs @ [newline])) bits (int n) err = Inr (0, t) \<and>
      (\<forall>i < n. bit_at t i \<longleftrightarrow> (\<exists>r \<in> set rs. range_has r i))"
    if "\<forall>r \<in> set rs. no_stride r" "length (ranges_text rs) < 8191"
  proof -
    have "first_line (Some (ranges_text rs @ [newline])) = Some (ranges_text rs @ [newline])"
      using that(2) ranges_text_chars by (intro first_line_one) blast+
    moreover have "\<forall>r \<in> set rs. range_ok n r \<and> no_stride r" using assms(4) that(1) by blast
    note bitlist_loop_text [OF assms(3) this n c, of err]
    ultimately show ?thesis using t by (auto simp: sysfs_parse_bitlist_def)
  qed
  ultimately show ?thesis by blast
qed

lemma bit_ranges_read_witness:
  "\<exists>t. string_to_bitmap (ranges_text [(1, None), (4, Some (9, Some 2))]) [7, 9] (int 10) = Inr (0, t) \<and> bit_at t 6 \<and> \<not> bit_at t 7"
  using bit_ranges_read [of 10 "[7, 9]" "[(1, None), (4, Some (9, Some 2))]"] by force

end
