(* ===== verification/Pci.thy ===== *)
theory Pci
  imports Bitlist Mem
begin

text \<open>
  pci.c and inc/base/pci.h: a device is read from the files of the kernel, its memory bars are found and mapped. The readable files are a map from
  paths to contents, opening and closing are parameters besides the kernel of the memory mappings.
\<close>

section \<open>Devices\<close>

record pci_bar =
  bar_start :: u64
  bar_len :: u64
  bar_flags :: u64

record pci_dev =
  pci_address :: pci_addr
  pci_ref :: kref
  vendor_id :: u16
  device_id :: u16
  subsystem_vendor_id :: u16
  subsystem_device_id :: u16
  bars :: "pci_bar list"
  numa_node :: int
  max_vfs :: int

abbreviation (input) PCI_BAR_MEM :: u64 where "PCI_BAR_MEM \<equiv> 0x200"
abbreviation (input) PCI_BAR_PREFETCH :: u64 where "PCI_BAR_PREFETCH \<equiv> 0x2000"
abbreviation (input) PCI_BAR_READONLY :: u64 where "PCI_BAR_READONLY \<equiv> 0x4000"
abbreviation (input) PCI_MAX_BARS :: nat where "PCI_MAX_BARS \<equiv> 7"

definition pci_dev_get :: "pci_dev \<Rightarrow> pci_dev" where
  "pci_dev_get d = d\<lparr>pci_ref := kref_get (pci_ref d)\<rparr>"

text \<open>The device, or nothing when the last reference was put and it is freed.\<close>

definition pci_dev_put :: "pci_dev \<Rightarrow> pci_dev option" where
  "pci_dev_put d = (case kref_put (\<lambda>r freed. (r, True)) (pci_ref d) False of (r, freed) \<Rightarrow> if freed then None else Some (d\<lparr>pci_ref := r\<rparr>))"

section \<open>Reading a device\<close>

text \<open>The paths \<open>%s/%04x:%02x:%02x.%d\<close> and those below; a path that does not fit the buffer is an error.\<close>

definition pci_addr_str :: "pci_addr \<Rightarrow> string" where
  "pci_addr_str a = zero_pad 4 (numeral_of 16 (unat (domain a))) @ CHR '':'' # zero_pad 2 (numeral_of 16 (unat (bus a))) @ CHR '':'' #
     zero_pad 2 (numeral_of 16 (unat (slot_no a))) @ CHR ''.'' # numeral_of 10 (unat (func_no a))"

definition pci_dir :: "pci_addr \<Rightarrow> string" where
  "pci_dir a = ''/sys/bus/pci/devices/'' @ pci_addr_str a"

definition fits_path :: "string \<Rightarrow> string option" where
  "fits_path p = (if 4096 \<le> length p then None else Some p)"

text \<open>The device, the variable \<open>tmp\<close> of the values and the error number of the process.\<close>

record pci_scan =
  sc_dev :: pci_dev
  sc_tmp :: u64
  sc_errno :: int

type_synonym files = "string \<Rightarrow> string option"

definition scan_value :: "files \<Rightarrow> string \<Rightarrow> (u64 \<Rightarrow> pci_dev \<Rightarrow> pci_dev) \<Rightarrow> pci_scan \<Rightarrow> int \<times> pci_scan" where
  "scan_value fs path store s =
     (case sysfs_parse_val (fs path) (sc_tmp s) (sc_errno s) of (ret, v, e) \<Rightarrow>
      let s = s\<lparr>sc_tmp := v, sc_errno := e\<rparr> in
      if ret \<noteq> 0 then (- EIO, s) else (0, s\<lparr>sc_dev := store (sc_tmp s) (sc_dev s)\<rparr>))"

definition scan_required :: "files \<Rightarrow> string \<Rightarrow> (u64 \<Rightarrow> pci_dev \<Rightarrow> pci_dev) \<Rightarrow> pci_scan \<Rightarrow> int \<times> pci_scan" where
  "scan_required fs path store s = (case fits_path path of None \<Rightarrow> (- EIO, s) | Some p \<Rightarrow> scan_value fs p store s)"

definition scan_optional :: "files \<Rightarrow> string \<Rightarrow> (u64 \<Rightarrow> pci_dev \<Rightarrow> pci_dev) \<Rightarrow> (pci_dev \<Rightarrow> pci_dev) \<Rightarrow> pci_scan \<Rightarrow> int \<times> pci_scan" where
  "scan_optional fs path store absent s =
     (case fits_path path of None \<Rightarrow> (- EIO, s)
      | Some p \<Rightarrow> if fs p = None then (0, s\<lparr>sc_dev := absent (sc_dev s)\<rparr>) else scan_value fs p store s)"

definition and_then :: "('s \<Rightarrow> int \<times> 's) \<Rightarrow> ('s \<Rightarrow> int \<times> 's) \<Rightarrow> 's \<Rightarrow> int \<times> 's" where
  "and_then f g s = (case f s of (ret, s) \<Rightarrow> if ret \<noteq> 0 then (ret, s) else g s)"

definition pci_scan_dev_info :: "files \<Rightarrow> string \<Rightarrow> pci_scan \<Rightarrow> int \<times> pci_scan" where
  "pci_scan_dev_info fs dir =
     and_then (scan_required fs (dir @ ''/vendor'') (\<lambda>v d. d\<lparr>vendor_id := ucast v\<rparr>))
    (and_then (scan_required fs (dir @ ''/device'') (\<lambda>v d. d\<lparr>device_id := ucast v\<rparr>))
    (and_then (scan_required fs (dir @ ''/subsystem_vendor'') (\<lambda>v d. d\<lparr>subsystem_vendor_id := ucast v\<rparr>))
    (and_then (scan_required fs (dir @ ''/subsystem_device'') (\<lambda>v d. d\<lparr>subsystem_device_id := ucast v\<rparr>))
    (and_then (scan_optional fs (dir @ ''/numa_node'') (\<lambda>v d. d\<lparr>numa_node := sint (ucast v :: u32)\<rparr>) (\<lambda>d. d\<lparr>numa_node := - 1\<rparr>))
      (scan_optional fs (dir @ ''/max_vfs'') (\<lambda>v d. d\<lparr>max_vfs := uint (ucast v :: u16)\<rparr>) (\<lambda>d. d\<lparr>max_vfs := 0\<rparr>))))))"

text \<open>Seven lines of three hexadecimal numbers; the bars read before a bad line are stored.\<close>

definition bar_format :: "conversion list" where
  "bar_format = replicate 3 \<lparr>cv_base = 16, cv_width = None, cv_signed = False, cv_next = None\<rparr>"

primrec scan_bars :: "nat \<Rightarrow> nat \<Rightarrow> string \<Rightarrow> pci_bar list \<Rightarrow> int \<times> pci_bar list" where
  "scan_bars 0 i f bs = (0, bs)"
| "scan_bars (Suc k) i f bs =
     (case file_gets 8191 f of (buf, f) \<Rightarrow>
      if buf = [] then (- EIO, bs)
      else (case scan_fields bar_format (takeWhile (\<lambda>c. c \<noteq> CHR 0x00) buf) of
          [start, end, flags] \<Rightarrow>
            scan_bars k (Suc i) f (bs[i := \<lparr>bar_start = start, bar_len = end - start + 1, bar_flags = flags\<rparr>])
        | _ \<Rightarrow> (- EINVAL, bs)))"

definition pci_scan_dev_resources :: "files \<Rightarrow> string \<Rightarrow> pci_dev \<Rightarrow> int \<times> pci_dev" where
  "pci_scan_dev_resources fs dir d =
     (case fits_path (dir @ ''/resource'') of None \<Rightarrow> (- EIO, d)
      | Some p \<Rightarrow> (case fs p of None \<Rightarrow> (- EIO, d)
        | Some f \<Rightarrow> (case scan_bars PCI_MAX_BARS 0 f (bars d) of (ret, bs) \<Rightarrow> (ret, d\<lparr>bars := bs\<rparr>))))"

definition pci_zero_dev :: "pci_addr \<Rightarrow> pci_dev" where
  "pci_zero_dev a = \<lparr>pci_address = a, pci_ref = \<lparr>cnt = 0\<rparr>, vendor_id = 0, device_id = 0, subsystem_vendor_id = 0, subsystem_device_id = 0,
     bars = replicate PCI_MAX_BARS \<lparr>bar_start = 0, bar_len = 0, bar_flags = 0\<rparr>, numa_node = 0, max_vfs = 0\<rparr>"

text \<open>\<open>stack\<close> is what the variable of the values holds at the call.\<close>

definition pci_alloc_dev :: "bool \<Rightarrow> files \<Rightarrow> pci_addr \<Rightarrow> u64 \<Rightarrow> int \<Rightarrow> pci_dev option" where
  "pci_alloc_dev malloc_ok fs a stack err =
     (if \<not> malloc_ok then None
      else (case pci_scan_dev_info fs (pci_dir a) \<lparr>sc_dev = pci_zero_dev a, sc_tmp = stack, sc_errno = err\<rparr> of (ret, s) \<Rightarrow>
        if ret \<noteq> 0 then None
        else (case pci_scan_dev_resources fs (pci_dir a) (sc_dev s) of (ret, d) \<Rightarrow>
          if ret \<noteq> 0 then None else Some (d\<lparr>pci_ref := kref_init (pci_ref d)\<rparr>))))"

section \<open>Memory bars\<close>

text \<open>A pointer to a bar is its index.\<close>

primrec find_mem_bar :: "nat \<Rightarrow> pci_bar list \<Rightarrow> int \<Rightarrow> nat option res" where
  "find_mem_bar i [] skip = Inr None"
| "find_mem_bar i (b # bs) skip =
     (if bar_flags b AND PCI_BAR_MEM = 0 then find_mem_bar (Suc i) bs skip
      else if skip = 0 then Inr (Some i)
      else bindE (guardE SignedOverflow (- int INT_MAX - 1 < skip)) (\<lambda>_. find_mem_bar (Suc i) bs (skip - 1)))"

definition pci_find_mem_bar :: "pci_dev \<Rightarrow> int \<Rightarrow> nat option res" where
  "pci_find_mem_bar d skip = find_mem_bar 0 (bars d) skip"

text \<open>The difference of the pointers counts bars already, and is divided by the size of one.\<close>

abbreviation (input) sizeof_pci_bar :: u64 where "sizeof_pci_bar \<equiv> 24"

definition pci_bar_to_idx :: "nat \<Rightarrow> int" where
  "pci_bar_to_idx bar =
     (let idx = sint (ucast ((of_nat bar :: u64) div sizeof_pci_bar) :: u32) in
      if idx < 0 \<or> int PCI_MAX_BARS \<le> idx then - EINVAL else idx)"

record 'k file_calls =
  sys_open :: "string \<Rightarrow> 'k \<Rightarrow> int \<times> 'k"
  sys_close :: "int \<Rightarrow> 'k \<Rightarrow> 'k"

definition pci_map_mem_bar :: "'k kernel \<Rightarrow> 'k file_calls \<Rightarrow> pci_dev \<Rightarrow> nat \<Rightarrow> bool \<Rightarrow> 'k \<Rightarrow> (ptr \<times> 'k) res" where
  "pci_map_mem_bar K F d bar wc s =
     bindE (nthE (bars d) bar) (\<lambda>b.
     if bar_flags b AND PCI_BAR_READONLY \<noteq> 0 then Inr (NULL, s)
     else if bar_len b = 0 then Inr (NULL, s)
     else
       let idx = pci_bar_to_idx bar in
       if idx < 0 then Inr (NULL, s)
       else if wc \<and> bar_flags b AND PCI_BAR_PREFETCH = 0 then Inr (NULL, s)
       else
         let path = pci_dir (pci_address d) @ ''/resource'' @ numeral_of 10 (nat idx) @ (if wc then ''_wc'' else '''') in
         (case sys_open F path s of (fd, s) \<Rightarrow>
          if fd = - 1 then Inr (NULL, s)
          else (case mem_map_file K NULL (bar_len b) fd 0 s of (vaddr, s) \<Rightarrow>
            let s = sys_close F fd s in
            if vaddr = MAP_FAILED then Inr (NULL, s) else Inr (vaddr, s))))"

definition pci_unmap_mem_bar :: "'k kernel \<Rightarrow> pci_bar \<Rightarrow> ptr \<Rightarrow> 'k \<Rightarrow> 'k" where
  "pci_unmap_mem_bar K b vaddr s = snd (sys_munmap K vaddr (bar_len b) s)"

section \<open>Addresses\<close>

lemma scan_conv_digits:
  assumes "ds \<noteq> []" "\<forall>c \<in> set ds. is_digit b c" "b = 10 \<or> b = 16" "number b ds < 2 ^ 63"
    and "w = Some (length ds) \<or> w = None \<and> b = 10 \<and> (r = [] \<or> \<not> is_digit 10 (hd r))"
  shows "scan_conv \<lparr>cv_base = b, cv_width = w, cv_signed = sg, cv_next = nx\<rparr> (ds @ r) = Some (of_nat (number b ds), r)"
proof -
  obtain d t where d: "ds = d # t" using assms(1) by (cases ds) auto
  have plain: "\<not> is_space d" "d \<noteq> CHR ''-''" "d \<noteq> CHR ''+''" using digit_not_space [of b d] assms(2,3) by (auto simp: d)
  let ?t = "case w of None \<Rightarrow> ds @ r | Some w \<Rightarrow> take w (ds @ r)" and ?r = "if w = None then r else []"
  have t: "?t = ds @ ?r" using assms(5) by auto
  have sign: "split_sign (ds @ ?r) = (False, ds @ ?r)" using plain by (simp add: split_sign_def d)
  have x: "\<not> is_digit b CHR ''x''" "\<not> is_digit b CHR ''X''" using assms(3) by (auto simp: is_digit_def digit_val_def)
  have hex: "\<not> has_hex_prefix (ds @ ?r)" "\<not> bare_prefix b (ds @ ?r)" if "b = 16"
    using assms(2,5) x that by (auto simp: d has_hex_prefix_def bare_prefix_def split: list.splits)
  have bare: "\<not> bare_prefix b (ds @ ?r)" using hex assms(3) by (auto simp: bare_prefix_def)
  have st: "strto b (ds @ ?r) = Some (False, number b ds, ?r)"
    using assms hex by (intro strto_digits) (auto split: if_splits)
  have v: "fst (strtoul b (ds @ ?r) 0) = of_nat (number b ds)" "word_of_int (fst (strtol b (ds @ ?r) 0)) = (of_nat (number b ds) :: u64)"
    using st assms(4) by (simp_all add: strtoul_def strtol_def)
  have "dropWhile is_space (ds @ r) = ds @ r" using plain by (simp add: d)
  moreover have "drop (length (ds @ ?r) - length ?r) (ds @ r) = r" by simp
  ultimately show ?thesis
    by (simp only: scan_conv_def Let_def conversion.select_convs t sign bare st v snd_conv if_False option.case prod.case if_cancel)
qed

text \<open>
  C39. The address that names the directory of a device is read back from its text by \<open>pci_str_to_addr\<close>, every field in full.
\<close>

theorem pci_address_read_back: "pci_str_to_addr (pci_addr_str a) x = (0, a)"
proof -
  have hex: "scan_conv \<lparr>cv_base = 16, cv_width = Some w, cv_signed = False, cv_next = nx\<rparr> (zero_pad w (numeral_of 16 n) @ r) = Some (of_nat n, r)"
    if "n < 16 ^ w" "w = 4 \<or> w = 2" for w n nx r
  proof -
    have "n < 16 ^ Suc (w - 1)" using that by auto
    then have l: "length (zero_pad w (numeral_of 16 n)) = w" using length_numeral_of [of 16 n "w - 1"] that(2) by (intro length_zero_pad) auto
    have "n < 2 ^ 63" using that by auto
    then show ?thesis using scan_conv_digits [of "zero_pad w (numeral_of 16 n)" 16 "Some w"] zero_pad_number(1,3) [of 16 w n]
        zero_pad_number(2) [where b = 16 and w = w and n = n] l by simp
  qed
  have dec: "scan_conv \<lparr>cv_base = 10, cv_width = None, cv_signed = True, cv_next = nx\<rparr> (numeral_of 10 n) = Some (of_nat n, [])" if "n < 2 ^ 8" for n nx
    using scan_conv_digits [of "numeral_of 10 n" 10 None "[]"] numeral_of_number [of 10 n] that by simp
  have "unat (domain a) < 2 ^ LENGTH(16)" "unat (bus a) < 2 ^ LENGTH(8)" "unat (slot_no a) < 2 ^ LENGTH(8)" "unat (func_no a) < 2 ^ LENGTH(8)"
    by (rule unsigned_less)+
  then have "scan_fields pci_format (pci_addr_str a) = [of_nat (unat (domain a)), of_nat (unat (bus a)), of_nat (unat (slot_no a)), of_nat (unat (func_no a))]"
    by (simp add: pci_format_def pci_addr_str_def hex dec)
  moreover have "ucast (of_nat (unat v) :: u64) = v" for v :: u16
    by (rule bit_word_eqI) (simp add: bit_unsigned_iff)
  moreover have "ucast (of_nat (unat v) :: u64) = v" for v :: u8
    by (rule bit_word_eqI) (simp add: bit_unsigned_iff)
  ultimately show ?thesis by (simp add: pci_str_to_addr_def store_pci_def)
qed

section \<open>Mapping a bar\<close>

definition is_mem_bar :: "pci_bar \<Rightarrow> bool" where
  "is_mem_bar b \<longleftrightarrow> bar_flags b AND PCI_BAR_MEM \<noteq> 0"

lemma find_mem_bar_nth:
  "find_mem_bar i bs (int m) = Inr (let ms = filter (\<lambda>j. is_mem_bar (bs ! (j - i))) [i..<i + length bs] in if m < length ms then Some (ms ! m) else None)"
proof (induction bs arbitrary: i m)
  case (Cons b bs)
  have "filter (\<lambda>j. is_mem_bar ((b # bs) ! (j - i))) [Suc i..<i + length (b # bs)] = filter (\<lambda>j. is_mem_bar (bs ! (j - Suc i))) [Suc i..<Suc i + length bs]"
    by (intro filter_cong) (auto simp: nth_Cons')
  moreover have "[i..<i + length (b # bs)] = i # [Suc i..<i + length (b # bs)]" by (rule upt_conv_Cons) simp
  ultimately have f: "filter (\<lambda>j. is_mem_bar ((b # bs) ! (j - i))) [i..<i + length (b # bs)]
      = (if is_mem_bar b then [i] else []) @ filter (\<lambda>j. is_mem_bar (bs ! (j - Suc i))) [Suc i..<Suc i + length bs]" by (simp del: upt_Suc)
  show ?case
  proof (cases "is_mem_bar b")
    case True
    show ?thesis
    proof (cases m)
      case (Suc k)
      then have "find_mem_bar i (b # bs) (int m) = find_mem_bar (Suc i) bs (int k)" using True by (simp add: is_mem_bar_def)
      then show ?thesis unfolding f using Cons.IH [of "Suc i" k] True Suc by (simp add: Let_def)
    qed (unfold f, use True in \<open>simp add: is_mem_bar_def Let_def\<close>)
  next
    case False
    then show ?thesis unfolding f using Cons.IH [of "Suc i" m] by (simp add: is_mem_bar_def)
  qed
qed simp

lemma bar_index_zero: "bar < 7 \<Longrightarrow> pci_bar_to_idx bar = 0"
proof -
  assume "bar < 7"
  then have "unat (of_nat bar :: u64) = bar" by (intro unat_of_nat_less) simp
  then have "unat ((of_nat bar :: u64) div sizeof_pci_bar) = 0" using \<open>bar < 7\<close> by (simp add: unat_div)
  then have "(of_nat bar :: u64) div sizeof_pci_bar = 0" by (simp only: unat_eq_zero)
  then show ?thesis by (simp add: pci_bar_to_idx_def)
qed

text \<open>
  \<open>pci_find_mem_bar\<close> finds the memory bar with as many of them before it as asked for, but mapping it opens the file of bar
  0, whichever bar it is: the index is divided once more by the size of a bar.
\<close>

lemma map_opens_first_bar:
  assumes "length (bars d) = 7" "pci_find_mem_bar d (int m) = Inr (Some bar)"
  shows "bar = filter (\<lambda>j. is_mem_bar (bars d ! j)) [0..<7] ! m \<and>
    pci_map_mem_bar K F d bar wc s =
      (if bar_flags (bars d ! bar) AND PCI_BAR_READONLY \<noteq> 0 \<or> bar_len (bars d ! bar) = 0 \<or>
          wc \<and> bar_flags (bars d ! bar) AND PCI_BAR_PREFETCH = 0 then Inr (NULL, s)
       else (case sys_open F (pci_dir (pci_address d) @ ''/resource0'' @ (if wc then ''_wc'' else '''')) s of (fd, s) \<Rightarrow>
         if fd = - 1 then Inr (NULL, s)
         else (case mem_map_file K NULL (bar_len (bars d ! bar)) fd 0 s of (vaddr, s) \<Rightarrow>
           Inr (if vaddr = MAP_FAILED then NULL else vaddr, sys_close F fd s))))"
proof -
  let ?ms = "filter (\<lambda>j. is_mem_bar (bars d ! j)) [0..<7]"
  have "(if m < length ?ms then Some (?ms ! m) else None) = Some bar"
    using assms find_mem_bar_nth [of 0 "bars d" m] by (simp add: pci_find_mem_bar_def Let_def)
  then have m: "m < length ?ms" "bar = ?ms ! m" by (simp_all split: if_splits)
  then have "bar \<in> set ?ms" using nth_mem by blast
  then have bar: "bar < 7" by simp
  have "numeral_of 10 0 = ''0''" by (subst numeral_of.simps) (simp add: digit_chr_def char_of_eq_iff)
  then have "pci_map_mem_bar K F d bar wc s =
      (if bar_flags (bars d ! bar) AND PCI_BAR_READONLY \<noteq> 0 \<or> bar_len (bars d ! bar) = 0 \<or>
          wc \<and> bar_flags (bars d ! bar) AND PCI_BAR_PREFETCH = 0 then Inr (NULL, s)
       else (case sys_open F (pci_dir (pci_address d) @ ''/resource0'' @ (if wc then ''_wc'' else '''')) s of (fd, s) \<Rightarrow>
         if fd = - 1 then Inr (NULL, s)
         else (case mem_map_file K NULL (bar_len (bars d ! bar)) fd 0 s of (vaddr, s) \<Rightarrow>
           Inr (if vaddr = MAP_FAILED then NULL else vaddr, sys_close F fd s))))"
    using bar assms(1) by (simp add: pci_map_mem_bar_def bar_index_zero Let_def split: prod.splits)
  then show ?thesis using m(2) by blast
qed

section \<open>The node of a device\<close>

lemma and_then_zero: "and_then f g s = (0, t) \<longleftrightarrow> (\<exists>u. f s = (0, u) \<and> g u = (0, t))"
  by (auto simp: and_then_def split: prod.splits if_splits)

lemma scan_required_zero:
  "scan_required fs p store s = (0, t) \<Longrightarrow> \<exists>v e. sysfs_parse_val (fs p) (sc_tmp s) (sc_errno s) = (0, v, e) \<and>
     t = s\<lparr>sc_tmp := v, sc_errno := e, sc_dev := store v (sc_dev s)\<rparr>"
  by (auto simp: scan_required_def scan_value_def fits_path_def Let_def split: prod.splits if_splits option.splits)

lemma minus_one_line: "sysfs_parse_val (Some (''-1'' @ [newline])) v e = (- e, v, e)"
  by (simp add: sysfs_parse_val_def first_line_def file_gets_def strtoul_def strto_def is_space_def split_sign_def
      pick_base_def has_hex_prefix_def is_digit_def digit_val_def number_def)

lemma sysfs_parse_val_errno: "sysfs_parse_val f v e = (0, v', e') \<Longrightarrow> e' = e"
  by (auto simp: sysfs_parse_val_def strtoul_def split: option.splits prod.splits if_splits)

lemma scan_optional_zero:
  "scan_optional fs p store absent s = (0, t) \<Longrightarrow> \<exists>v e. t = s\<lparr>sc_tmp := v, sc_errno := e, sc_dev := (if fs p = None then absent else store v) (sc_dev s)\<rparr>
     \<and> (fs p \<noteq> None \<longrightarrow> sysfs_parse_val (fs p) (sc_tmp s) (sc_errno s) = (0, v, e))"
  by (cases s) (auto simp: scan_optional_def scan_value_def fits_path_def Let_def split: prod.splits if_splits)

lemma scan_bars_keep: "pci_scan_dev_resources fs dir d = (ret, d') \<Longrightarrow> numa_node d' = numa_node d \<and> subsystem_device_id d' = subsystem_device_id d"
  by (auto simp: pci_scan_dev_resources_def split: option.splits prod.splits)

text \<open>
  The kernel writes -1 for the node of a device that has none. Reading it yields the largest value, which \<open>sysfs_parse_val\<close> takes
  for a failure but returns the error number for: the device is refused when any earlier call left an error number, and otherwise
  its node is the value read before, the one of \<open>subsystem_device\<close>.
\<close>

lemma unknown_node:
  assumes "pci_alloc_dev ok fs a stack err = Some d" "fs (pci_dir a @ ''/numa_node'') = Some (''-1'' @ [newline])"
  shows "err = 0 \<and> (\<exists>x v. sysfs_parse_val (fs (pci_dir a @ ''/subsystem_device'')) x 0 = (0, v, 0)
    \<and> subsystem_device_id d = ucast v \<and> numa_node d = sint (ucast v :: u32))"
proof -
  let ?s = "\<lparr>sc_dev = pci_zero_dev a, sc_tmp = stack, sc_errno = err\<rparr>"
  obtain t d' where t: "pci_scan_dev_info fs (pci_dir a) ?s = (0, t)" and d': "pci_scan_dev_resources fs (pci_dir a) (sc_dev t) = (0, d')"
    and d: "d = d'\<lparr>pci_ref := kref_init (pci_ref d')\<rparr>"
    using assms(1) by (auto simp: pci_alloc_dev_def split: if_splits prod.splits)
  obtain s1 s2 s3 s4 s5 where s:
    "scan_required fs (pci_dir a @ ''/vendor'') (\<lambda>v d. d\<lparr>vendor_id := ucast v\<rparr>) ?s = (0, s1)"
    "scan_required fs (pci_dir a @ ''/device'') (\<lambda>v d. d\<lparr>device_id := ucast v\<rparr>) s1 = (0, s2)"
    "scan_required fs (pci_dir a @ ''/subsystem_vendor'') (\<lambda>v d. d\<lparr>subsystem_vendor_id := ucast v\<rparr>) s2 = (0, s3)"
    "scan_required fs (pci_dir a @ ''/subsystem_device'') (\<lambda>v d. d\<lparr>subsystem_device_id := ucast v\<rparr>) s3 = (0, s4)"
    "scan_optional fs (pci_dir a @ ''/numa_node'') (\<lambda>v d. d\<lparr>numa_node := sint (ucast v :: u32)\<rparr>) (\<lambda>d. d\<lparr>numa_node := - 1\<rparr>) s4 = (0, s5)"
    "scan_optional fs (pci_dir a @ ''/max_vfs'') (\<lambda>v d. d\<lparr>max_vfs := uint (ucast v :: u16)\<rparr>) (\<lambda>d. d\<lparr>max_vfs := 0\<rparr>) s5 = (0, t)"
    using t unfolding pci_scan_dev_info_def and_then_zero by blast
  have e: "sc_errno s1 = err" "sc_errno s2 = sc_errno s1" "sc_errno s3 = sc_errno s2"
    using scan_required_zero [OF s(1)] scan_required_zero [OF s(2)] scan_required_zero [OF s(3)] by (auto dest: sysfs_parse_val_errno)
  obtain v e4 where v: "sysfs_parse_val (fs (pci_dir a @ ''/subsystem_device'')) (sc_tmp s3) (sc_errno s3) = (0, v, e4)"
    "s4 = s3\<lparr>sc_tmp := v, sc_errno := e4, sc_dev := (sc_dev s3)\<lparr>subsystem_device_id := ucast v\<rparr>\<rparr>"
    using scan_required_zero [OF s(4)] by blast
  have "e4 = err" using sysfs_parse_val_errno [OF v(1)] e by simp
  obtain w e5 where w: "s5 = s4\<lparr>sc_tmp := w, sc_errno := e5, sc_dev := (sc_dev s4)\<lparr>numa_node := sint (ucast w :: u32)\<rparr>\<rparr>"
    "sysfs_parse_val (Some (''-1'' @ [newline])) (sc_tmp s4) (sc_errno s4) = (0, w, e5)"
    using scan_optional_zero [OF s(5)] assms(2) by auto
  then have "err = 0" "w = v" using \<open>e4 = err\<close> v(2) unfolding minus_one_line by simp_all
  have "numa_node (sc_dev t) = numa_node (sc_dev s5)" "subsystem_device_id (sc_dev t) = subsystem_device_id (sc_dev s5)"
    using scan_optional_zero [OF s(6)] by (auto split: if_splits)
  then have "numa_node d = sint (ucast v :: u32)" "subsystem_device_id d = ucast v"
    using scan_bars_keep [OF d'] d w(1) v(2) \<open>w = v\<close> by simp_all
  then show ?thesis using v(1) e \<open>err = 0\<close> \<open>e4 = err\<close> by auto
qed

section \<open>A device\<close>

definition some_address :: pci_addr where
  "some_address = \<lparr>domain = 0, bus = 0x3b, slot_no = 0, func_no = 1\<rparr>"

definition bar_line :: string where
  "bar_line = ''0x10 0x1f 0x200'' @ [newline]"

definition number_line :: string where
  "number_line = ''0x15b3'' @ [newline]"

definition node_line :: string where
  "node_line = ''-1'' @ [newline]"

definition some_files :: files where
  "some_files = (\<lambda>p.
     if p = pci_dir some_address @ ''/numa_node'' then Some node_line
     else if p = pci_dir some_address @ ''/max_vfs'' then None
     else if p = pci_dir some_address @ ''/resource'' then Some (concat (replicate 7 bar_line))
     else Some number_line)"

lemma short_path: "length q < 1000 \<Longrightarrow> fits_path (pci_dir some_address @ q) = Some (pci_dir some_address @ q)"
proof -
  have "length (pci_dir some_address) < 1000"
    by (simp add: pci_dir_def pci_addr_str_def some_address_def zero_pad_def numeral_of.simps)
  then show "length q < 1000 \<Longrightarrow> fits_path (pci_dir some_address @ q) = Some (pci_dir some_address @ q)" by (simp add: fits_path_def)
qed

lemma hex_value: "sysfs_parse_val (Some number_line) v e = (0, 0x15b3, e)"
  by (simp add: number_line_def sysfs_parse_val_def first_line_def file_gets_def strtoul_def strto_def is_space_def split_sign_def
      pick_base_def has_hex_prefix_def is_digit_def digit_val_def number_def)

lemma bar_line_fields: "scan_fields bar_format (takeWhile (\<lambda>c. c \<noteq> CHR 0x00) bar_line) = [16, 31, 512]"
  by (simp add: bar_line_def bar_format_def numeral_3_eq_3 scan_conv_def strtoul_def strto_def is_space_def split_sign_def
      pick_base_def has_hex_prefix_def bare_prefix_def is_digit_def digit_val_def number_def)

lemma node_value: "sysfs_parse_val (Some node_line) v e = (- e, v, e)"
  unfolding node_line_def by (rule minus_one_line)

lemma scan_bar_lines: "\<exists>bs'. scan_bars k i (concat (replicate k bar_line)) bs = (0, bs')"
proof (induction k arbitrary: i bs)
  case (Suc k)
  have "file_gets 8191 (bar_line @ f) = (bar_line, f)" for f by (simp add: bar_line_def file_gets_def)
  moreover have "bar_line \<noteq> []" by (simp add: bar_line_def)
  ultimately show ?case using Suc by (simp add: bar_line_fields)
qed simp

lemma unknown_node_witness:
  "map_option numa_node (pci_alloc_dev True some_files some_address 0 0) = Some 0x15b3
   \<and> (\<exists>x v. sysfs_parse_val (some_files (pci_dir some_address @ ''/subsystem_device'')) x 0 = (0, v, 0) \<and> sint (ucast v :: u32) = 0x15b3)"
proof -
  have files: "some_files (pci_dir some_address @ ''/vendor'') = Some number_line"
    "some_files (pci_dir some_address @ ''/device'') = Some number_line"
    "some_files (pci_dir some_address @ ''/subsystem_vendor'') = Some number_line"
    "some_files (pci_dir some_address @ ''/subsystem_device'') = Some number_line"
    "some_files (pci_dir some_address @ ''/numa_node'') = Some node_line"
    "some_files (pci_dir some_address @ ''/max_vfs'') = None"
    "some_files (pci_dir some_address @ ''/resource'') = Some (concat (replicate 7 bar_line))"
    by (simp_all add: some_files_def)
  obtain bs where bars: "scan_bars 7 0 (concat (replicate 7 bar_line)) (replicate 7 \<lparr>bar_start = 0, bar_len = 0, bar_flags = 0\<rparr>) = (0, bs)"
    using scan_bar_lines by blast
  have n: "map_option numa_node (pci_alloc_dev True some_files some_address 0 0) = Some 0x15b3"
    by (simp add: pci_alloc_dev_def pci_scan_dev_info_def and_then_def scan_required_def scan_optional_def scan_value_def short_path files
        hex_value node_value pci_scan_dev_resources_def bars pci_zero_dev_def Let_def)
  then obtain d where d: "pci_alloc_dev True some_files some_address 0 0 = Some d" "numa_node d = 0x15b3" by auto
  have "some_files (pci_dir some_address @ ''/numa_node'') = Some (''-1'' @ [newline])" unfolding node_line_def [symmetric] by (rule files(5))
  from unknown_node [OF d(1) this] n d(2) show ?thesis by auto
qed

definition some_device :: pci_dev where
  "some_device = (pci_zero_dev some_address)\<lparr>bars := [\<lparr>bar_start = 0, bar_len = 16, bar_flags = 0x100\<rparr>, \<lparr>bar_start = 64, bar_len = 32, bar_flags = 0x200\<rparr>,
     \<lparr>bar_start = 128, bar_len = 32, bar_flags = 0x200\<rparr>, \<lparr>bar_start = 0, bar_len = 0, bar_flags = 0\<rparr>, \<lparr>bar_start = 0, bar_len = 0, bar_flags = 0\<rparr>,
     \<lparr>bar_start = 0, bar_len = 0, bar_flags = 0\<rparr>, \<lparr>bar_start = 0, bar_len = 0, bar_flags = 0\<rparr>]\<rparr>"

text \<open>A kernel whose state is the last path opened, and that opens none.\<close>

lemma map_opens_first_bar_witness:
  "\<forall>K. pci_map_mem_bar K \<lparr>sys_open = \<lambda>p s. (- 1, p), sys_close = \<lambda>fd s. s\<rparr> some_device 2 False []
     = Inr (NULL, pci_dir some_address @ ''/resource0'')"
proof
  fix K
  have "length (bars some_device) = 7" "pci_find_mem_bar some_device (int 1) = Inr (Some 2)"
    by (simp_all add: some_device_def pci_zero_dev_def pci_find_mem_bar_def)
  from map_opens_first_bar [OF this, of K "\<lparr>sys_open = \<lambda>p s. (- 1, p), sys_close = \<lambda>fd s. s\<rparr>" False "[]"]
  show "pci_map_mem_bar K \<lparr>sys_open = \<lambda>p s. (- 1, p), sys_close = \<lambda>fd s. s\<rparr> some_device 2 False []
     = Inr (NULL, pci_dir some_address @ ''/resource0'')" by (simp add: some_device_def pci_zero_dev_def)
qed

end
