(* ===== verification/Rounds.thy ===== *)
theory Rounds
  imports Posting
begin

text \<open>
  Many rounds of the server's loop: what happens to the receive buffers over a run. Packets that are not for the server go back to the pool they came
  from, whatever their number; acceptable packets in front of one that is not are lost, and enough of them stop the server.
\<close>

section \<open>The receive side between rounds\<close>

text \<open>The ring holds the buffers \<open>fl\<close>, the pool the others, none of them twice.\<close>

definition rx_sound :: "net \<Rightarrow> ptr list \<Rightarrow> bool" where
  "rx_sound s fl \<longleftrightarrow> posted (n_rxq s) fl \<and> pool_inv (rx_buf_mempool s)
     \<and> distinct (NULL # fl @ pool_free_stack (rx_buf_mempool s))"

abbreviation rx_free :: "net \<Rightarrow> ptr list" where
  "rx_free s \<equiv> pool_free_stack (rx_buf_mempool s)"

text \<open>Between two rounds the device writes completions for buffers of the ring, and into their bytes; ring and pool are the program's.\<close>

definition delivered :: "abi \<Rightarrow> net \<Rightarrow> net \<Rightarrow> cqe list \<Rightarrow> bool" where
  "delivered A s d cs \<longleftrightarrow> rx_buf_mempool d = rx_buf_mempool s \<and> n_rxq d = (n_rxq s)\<lparr>rx_cqes := rx_cqes (n_rxq d)\<rparr>
     \<and> received A (n_rxq d) (consumer_idx (n_rxq d)) cs \<and> length cs \<le> unat (wq_head (n_rxq s) - consumer_idx (n_rxq s))"

text \<open>A run in which the packets of every burst satisfy \<open>Q\<close>.\<close>

primrec rounds ::
  "(net \<Rightarrow> ptr list \<Rightarrow> bool) \<Rightarrow> abi \<Rightarrow> (nat \<Rightarrow> net \<Rightarrow> net) \<Rightarrow> nat \<Rightarrow> server_cfg \<Rightarrow> nat \<Rightarrow> net \<Rightarrow> bool" where
  "rounds Q A dev fuel cfg 0 s \<longleftrightarrow> True"
| "rounds Q A dev fuel cfg (Suc n) s \<longleftrightarrow> (\<exists>cs. delivered A s (dev n s) cs)
     \<and> (\<forall>pkts t. mlx5_gather_rx A BURST_SIZE (dev n s) = Inr (pkts, t) \<longrightarrow> Q t pkts
       \<and> (\<forall>u. server_burst A dev fuel cfg pkts [] t = Inr u \<longrightarrow> rounds Q A dev fuel cfg n u))"

lemma rounds_SucI:
  assumes "delivered A s (dev n s) cs" "mlx5_gather_rx A BURST_SIZE (dev n s) = Inr (pkts, t)" "Q t pkts"
    and "\<And>u. server_burst A dev fuel cfg pkts [] t = Inr u \<Longrightarrow> rounds Q A dev fuel cfg n u"
  shows "rounds Q A dev fuel cfg (Suc n) s"
  using assms by auto

lemma posted_outstanding: "posted v fl \<Longrightarrow> unat (wq_head v - consumer_idx v) = length fl"
proof -
  assume "posted v fl"
  then obtain k where "k < 16" "length fl \<le> 2 ^ k" "wq_head v = consumer_idx v + of_nat (length fl)" by (auto simp: posted_def)
  moreover from this have "(2 :: nat) ^ k < 2 ^ 16" by (intro power_strict_increasing) simp_all
  ultimately show ?thesis by (simp add: unat_of_nat_less)
qed

lemma posted_cqes [simp]: "posted (v\<lparr>rx_cqes := c\<rparr>) fl \<longleftrightarrow> posted v fl"
  by (simp add: posted_def)

section \<open>Releasing received packets\<close>

definition received_mbuf :: "net \<Rightarrow> ptr \<Rightarrow> bool" where
  "received_mbuf s m \<longleftrightarrow> m \<noteq> NULL \<and> m_head (n_mbufs s m) = m \<and> m_release (n_mbufs s m) = RxCompletion"

lemma free_received:
  assumes "received_mbuf s m" "pool_inv (rx_buf_mempool s)" "length (rx_free s) < unat (capacity (rx_buf_mempool s))"
  shows "\<exists>p. free_mbuf m s = Inr (s\<lparr>rx_buf_mempool := p\<rparr>) \<and> pool_free_stack p = m # rx_free s
    \<and> pool_inv p \<and> capacity p = capacity (rx_buf_mempool s)"
proof -
  have "0 < unat (allocated (rx_buf_mempool s))" using pool_in_use [OF assms(2)] assms(3) by linarith
  then obtain p where p: "mempool_free (rx_buf_mempool s) m = Inr p" "pool_free_stack p = m # rx_free s" "pool_inv p"
    using pool.free_push [OF assms(2)] by blast
  have "free_mbuf m s = Inr (s\<lparr>rx_buf_mempool := p\<rparr>)"
    using assms(1) p(1) by (simp add: received_mbuf_def free_mbuf_def mbuf_free_def net_release_def rx_completion_def)
  then show ?thesis using p mempool_free_capacity [OF p(1)] by (intro exI [of _ p]) simp
qed

lemma free_all_received:
  assumes "\<forall>m\<in>set ms. received_mbuf s m" "pool_inv (rx_buf_mempool s)"
    and "length ms + length (rx_free s) \<le> unat (capacity (rx_buf_mempool s))"
  shows "\<exists>p. foldE free_mbuf ms s = Inr (s\<lparr>rx_buf_mempool := p\<rparr>) \<and> pool_free_stack p = rev ms @ rx_free s \<and> pool_inv p"
  using assms
proof (induction ms arbitrary: s)
  case (Cons m ms)
  have "received_mbuf s m" "length (rx_free s) < unat (capacity (rx_buf_mempool s))" using Cons.prems(1,3) by auto
  from free_received [OF this(1) Cons.prems(2) this(2)] obtain p where
    p: "free_mbuf m s = Inr (s\<lparr>rx_buf_mempool := p\<rparr>)" "pool_free_stack p = m # rx_free s" "pool_inv p" "capacity p = capacity (rx_buf_mempool s)" by blast
  have "\<exists>q. foldE free_mbuf ms (s\<lparr>rx_buf_mempool := p\<rparr>) = Inr (s\<lparr>rx_buf_mempool := q\<rparr>) \<and> pool_free_stack q = rev ms @ m # rx_free s \<and> pool_inv q"
    using Cons.IH [of "s\<lparr>rx_buf_mempool := p\<rparr>"] Cons.prems p(2-4) by (simp add: received_mbuf_def)
  then show ?case using p(1) by simp
next
  case Nil
  then show ?case by (intro exI [of _ "rx_buf_mempool s"]) simp
qed

section \<open>One round\<close>

lemma gather_round:
  assumes "documented_abi A" "rx_sound s fl" "delivered A s d cs" "j = min BURST_SIZE (length cs)" "j \<le> length (rx_free s)"
  obtains t where "mlx5_gather_rx A BURST_SIZE d = Inr (take j fl, t)" "posted (n_rxq t) (drop j fl @ take j (rx_free s))"
    "rx_free t = drop j (rx_free s)" "pool_inv (rx_buf_mempool t)" "\<forall>m\<in>set (take j fl). received_mbuf t m"
    "j + length (rx_free t) \<le> unat (capacity (rx_buf_mempool t))"
proof -
  have d: "rx_buf_mempool d = rx_buf_mempool s" "n_rxq d = (n_rxq s)\<lparr>rx_cqes := rx_cqes (n_rxq d)\<rparr>"
    "received A (n_rxq d) (consumer_idx (n_rxq d)) cs" "length cs \<le> length fl"
    using assms(2,3) posted_outstanding by (auto simp: delivered_def rx_sound_def)
  have s: "posted (n_rxq s) fl" "pool_inv (rx_buf_mempool d)" "distinct (NULL # fl @ pool_free_stack (rx_buf_mempool d))"
    using assms(2) by (simp_all add: rx_sound_def d(1))
  have "posted (n_rxq d) fl" using s(1) posted_cqes by (subst d(2)) simp
  from gather_rx_full [OF assms(1) this d(3,4) s(2) _ s(3), of BURST_SIZE] obtain t where
    t: "mlx5_gather_rx A BURST_SIZE d = Inr (take j fl, t)" "posted (n_rxq t) (drop j fl @ take j (rx_free s))"
      "rx_free t = drop j (rx_free s)" "pool_inv (rx_buf_mempool t)"
    and mb: "\<And>i. i < j \<Longrightarrow> n_mbufs t (fl ! i) = mbuf_fill_cqe (fl ! i) (cs ! i) (n_mbufs d (fl ! i))"
    using assms(4,5) by (auto simp: d(1))
  have "received_mbuf t m" if m: "m \<in> set (take j fl)" for m
  proof -
    obtain i where i: "i < j" "m = fl ! i" using m unfolding in_set_conv_nth by auto
    have "m \<noteq> NULL" using s(3) in_set_takeD [OF m] by auto
    then show ?thesis using mb [OF i(1)] i(2) by (simp add: received_mbuf_def filled_mbuf)
  qed
  moreover have "capacity (rx_buf_mempool t) = capacity (rx_buf_mempool s)" using gather_rx_capacity [OF t(1)] d(1) by simp
  then have "j + length (rx_free t) \<le> unat (capacity (rx_buf_mempool t))"
    using pool_in_use [OF s(2)] t(3) assms(5) d(1) by simp
  ultimately show thesis using that t by blast
qed

text \<open>A burst that ends with a packet the server does not accept: such packets are freed, those it accepts are gone.\<close>

lemma rejected_burst:
  assumes "documented_abi A" "rx_sound s fl" "delivered A s d cs" "j = min BURST_SIZE (length cs)" "j \<le> length (rx_free s)"
    and "mlx5_gather_rx A BURST_SIZE d = Inr (pkts, t)" "pkts = [] \<or> \<not> accepted cfg t (last pkts)"
  shows "\<exists>u. server_burst A dev fuel cfg pkts [] t = Inr u \<and> pkts = take j fl \<and> rx_sound u (drop j fl @ take j (rx_free s))
    \<and> n_rxq u = n_rxq t \<and> rx_free u = rev (filter (\<lambda>p. \<not> accepted cfg t p) pkts) @ drop j (rx_free s)"
proof -
  obtain t' where t': "mlx5_gather_rx A BURST_SIZE d = Inr (take j fl, t')" "posted (n_rxq t') (drop j fl @ take j (rx_free s))"
    "rx_free t' = drop j (rx_free s)" "pool_inv (rx_buf_mempool t')" "\<forall>m\<in>set (take j fl). received_mbuf t' m"
    "j + length (rx_free t') \<le> unat (capacity (rx_buf_mempool t'))"
    by (rule gather_round [OF assms(1-5)])
  then have t: "pkts = take j fl" "t' = t" using assms(6) by auto
  let ?ms = "filter (\<lambda>p. \<not> accepted cfg t p) pkts"
  have ms: "length ?ms \<le> j" using length_filter_le [of "\<lambda>p. \<not> accepted cfg t p" pkts] t(1) by simp
  then obtain p where p: "foldE free_mbuf ?ms t = Inr (t\<lparr>rx_buf_mempool := p\<rparr>)" "pool_free_stack p = rev ?ms @ rx_free t" "pool_inv p"
    using free_all_received [of ?ms t] t'(4-6) t by auto
  have "length pkts \<le> BURST_SIZE" using t(1) assms(4) by simp
  then have "server_burst A dev fuel cfg pkts [] t = Inr (t\<lparr>rx_buf_mempool := p\<rparr>)"
    using server_burst_eq [of "[]" pkts A dev fuel cfg t] assms(7) p(1) by (cases "pkts = []") auto
  moreover have "distinct (NULL # (drop j fl @ take j (rx_free s)) @ rev ?ms @ drop j (rx_free s))"
  proof -
    have "distinct (NULL # (take j fl @ drop j fl) @ take j (rx_free s) @ drop j (rx_free s))" using assms(2) by (simp add: rx_sound_def)
    moreover have "set ?ms \<subseteq> set (take j fl)" "distinct (take j fl) \<Longrightarrow> distinct ?ms" using t(1) by auto
    ultimately show ?thesis unfolding distinct.simps distinct_append set_append set_rev distinct_rev by blast
  qed
  then have "rx_sound (t\<lparr>rx_buf_mempool := p\<rparr>) (drop j fl @ take j (rx_free s))"
    using t'(2,3) t(2) p(2,3) by (simp add: rx_sound_def)
  ultimately show ?thesis using t p(2) t'(3) by (intro exI [of _ "t\<lparr>rx_buf_mempool := p\<rparr>"]) simp
qed

lemma starved_round:
  assumes "documented_abi A" "rx_sound s fl" "delivered A s d cs" "length (rx_free s) < min BURST_SIZE (length cs)"
  shows "mlx5_gather_rx A BURST_SIZE d = Inl NullDeref"
proof -
  have d: "rx_buf_mempool d = rx_buf_mempool s" "n_rxq d = (n_rxq s)\<lparr>rx_cqes := rx_cqes (n_rxq d)\<rparr>"
    "received A (n_rxq d) (consumer_idx (n_rxq d)) cs" "length cs \<le> length fl"
    using assms(2,3) posted_outstanding by (auto simp: delivered_def rx_sound_def)
  have "posted (n_rxq d) fl" using assms(2) posted_cqes by (subst d(2)) (simp add: rx_sound_def)
  from gather_rx_starved [OF assms(1) this d(3,4)] show ?thesis using assms(2,4) by (simp add: rx_sound_def d(1))
qed

section \<open>Runs\<close>

text \<open>
  C10. As long as the server receives only packets it does not accept, no round of its loop fails, and no buffer is lost: the ring stays
  as full as it was, and ring and pool together hold the buffers they held, however many rounds there are.
\<close>

theorem noise_harmless:
  assumes "documented_abi A" "rx_sound s fl" "min BURST_SIZE (length fl) \<le> length (rx_free s)"
    and "rounds (\<lambda>t pkts. \<forall>p\<in>set pkts. \<not> accepted cfg t p) A dev fuel cfg n s"
  shows "\<exists>s' fl'. do_server A dev fuel cfg n s = Inr s' \<and> rx_sound s' fl' \<and> length fl' = length fl
    \<and> mset (fl' @ rx_free s') = mset (fl @ rx_free s)"
  using assms(2-)
proof (induction n arbitrary: s fl)
  case (Suc n)
  obtain cs where cs: "delivered A s (dev n s) cs" using Suc.prems(3) by auto
  let ?j = "min BURST_SIZE (length cs)"
  have len: "length cs \<le> length fl" using cs Suc.prems(1) posted_outstanding by (auto simp: delivered_def rx_sound_def)
  then have j: "?j \<le> length (rx_free s)" "?j \<le> length fl" using Suc.prems(2) by auto
  obtain pkts t where t: "mlx5_gather_rx A BURST_SIZE (dev n s) = Inr (pkts, t)"
    by (rule gather_round [OF assms(1) Suc.prems(1) cs refl j(1)])
  then have bad: "\<forall>p\<in>set pkts. \<not> accepted cfg t p"
    and rest: "\<And>u. server_burst A dev fuel cfg pkts [] t = Inr u \<Longrightarrow> rounds (\<lambda>t pkts. \<forall>p\<in>set pkts. \<not> accepted cfg t p) A dev fuel cfg n u"
    using Suc.prems(3) by auto
  then have "pkts = [] \<or> \<not> accepted cfg t (last pkts)" by auto
  from rejected_burst [OF assms(1) Suc.prems(1) cs refl j(1) t this] obtain u where
    u: "server_burst A dev fuel cfg pkts [] t = Inr u" "pkts = take ?j fl" "rx_sound u (drop ?j fl @ take ?j (rx_free s))"
      "rx_free u = rev (filter (\<lambda>p. \<not> accepted cfg t p) pkts) @ drop ?j (rx_free s)" by blast
  have "filter (\<lambda>p. \<not> accepted cfg t p) pkts = take ?j fl" using bad u(2) by (simp add: filter_id_conv)
  then have free: "rx_free u = rev (take ?j fl) @ drop ?j (rx_free s)" using u(4) by simp
  have "mset ((drop ?j fl @ take ?j (rx_free s)) @ rx_free u) = mset (take ?j fl @ drop ?j fl) + mset (take ?j (rx_free s) @ drop ?j (rx_free s))"
    unfolding free mset_append mset_rev by (simp only: ac_simps)
  then have m: "mset ((drop ?j fl @ take ?j (rx_free s)) @ rx_free u) = mset (fl @ rx_free s)" by (simp only: append_take_drop_id mset_append)
  have l: "length (drop ?j fl @ take ?j (rx_free s)) = length fl" "length (rx_free u) = length (rx_free s)" using j free by auto
  from Suc.IH [OF u(3) _ rest [OF u(1)]] l Suc.prems(2) obtain s' fl' where
    "do_server A dev fuel cfg n u = Inr s'" "rx_sound s' fl'" "length fl' = length fl" "mset (fl' @ rx_free s') = mset (fl @ rx_free s)"
    unfolding m l by auto
  then show ?case using t u(1) by auto
qed auto

text \<open>
  C11. A burst that holds a packet the server accepts and ends with one it does not accept costs a buffer for good. When every
  burst is of this kind the server dereferences NULL before it has served more rounds than its pool had free buffers.
\<close>

theorem lost_bursts_crash:
  assumes "documented_abi A" "rx_sound s fl" "length (rx_free s) < n"
    and "rounds (\<lambda>t pkts. \<not> accepted cfg t (last pkts) \<and> (\<exists>p\<in>set pkts. accepted cfg t p)) A dev fuel cfg n s"
  shows "do_server A dev fuel cfg n s = Inl NullDeref"
  using assms(2-)
proof (induction n arbitrary: s fl)
  case (Suc n)
  let ?Q = "\<lambda>t pkts. \<not> accepted cfg t (last pkts) \<and> (\<exists>p\<in>set pkts. accepted cfg t p)"
  obtain cs where cs: "delivered A s (dev n s) cs" using Suc.prems(3) by auto
  let ?j = "min BURST_SIZE (length cs)"
  show ?case
  proof (cases "?j \<le> length (rx_free s)")
    case False
    then have "length (rx_free s) < ?j" by (simp only: not_le)
    from starved_round [OF assms(1) Suc.prems(1) cs this] show ?thesis by simp
  next
    case True
    obtain pkts t where t: "mlx5_gather_rx A BURST_SIZE (dev n s) = Inr (pkts, t)"
      by (rule gather_round [OF assms(1) Suc.prems(1) cs refl True])
    then have bad: "?Q t pkts" and rest: "\<And>u. server_burst A dev fuel cfg pkts [] t = Inr u \<Longrightarrow> rounds ?Q A dev fuel cfg n u"
      using Suc.prems(3) by auto
    then have "pkts = [] \<or> \<not> accepted cfg t (last pkts)" by auto
    from rejected_burst [OF assms(1) Suc.prems(1) cs refl True t this] obtain u where
      u: "server_burst A dev fuel cfg pkts [] t = Inr u" "pkts = take ?j fl" "rx_sound u (drop ?j fl @ take ?j (rx_free s))"
        "rx_free u = rev (filter (\<lambda>p. \<not> accepted cfg t p) pkts) @ drop ?j (rx_free s)" by blast
    obtain p where "p \<in> set pkts" "accepted cfg t p" using bad by blast
    then have "length (filter (\<lambda>p. \<not> accepted cfg t p) pkts) < length pkts" by (intro length_filter_less) auto
    then have "length (rx_free u) < length (rx_free s)" using True u(2,4) by auto
    then have "do_server A dev fuel cfg n u = Inl NullDeref"
      using Suc.IH [OF u(3) _ rest [OF u(1)]] Suc.prems(2) by simp
    then show ?thesis using t u(1) by simp
  qed
qed simp

section \<open>Two runs\<close>

text \<open>Two posted buffers and two free ones; the first buffer holds a packet for the server, the second one does not.\<close>

definition example_cqes :: "nat \<Rightarrow> cqe list" where
  "example_cqes n = map (\<lambda>i. example_cqe (of_nat i) (if i < n then 0x20 else 0xF0)) [0..<4]"

definition example_run :: "mem \<Rightarrow> net" where
  "example_run h = (example_rx [0x30000, 0x40000])\<lparr>n_mem := h\<rparr>"

definition deliver :: "nat \<Rightarrow> net \<Rightarrow> net" where
  "deliver n s = s\<lparr>n_rxq := (n_rxq s)\<lparr>rx_cqes := example_cqes n\<rparr>\<rparr>"

definition example_bytes :: mem where
  "example_bytes = (\<lambda>_. 0)(0x1008c := 8, 0x10097 := 17)"

lemma example_run_sound: "rx_sound (example_run h) [0x10000, 0x20000]" "rx_free (example_run h) = [0x30000, 0x40000]"
proof -
  have p: "n_rxq (example_run h) = n_rxq (example_rx [0x30000, 0x40000])"
    "rx_buf_mempool (example_run h) = rx_buf_mempool (example_rx [0x30000, 0x40000])" by (simp_all add: example_run_def)
  have "pool_inv (rx_buf_mempool (example_rx [0x30000, 0x40000]))" by (rule example_rx_pool) simp
  then show "rx_sound (example_run h) [0x10000, 0x20000]" "rx_free (example_run h) = [0x30000, 0x40000]"
    using example_rx_ok(1) by (simp_all add: rx_sound_def p example_rx_pool(2))
qed

lemma example_delivered: "delivered mlx5_abi (example_run h) (deliver 2 (example_run h)) [example_cqe 0 0x20, example_cqe 1 0x20]"
proof -
  have "cqe_status mlx5_abi (example_cqe c 0x20) (2 ^ 2) 0 = 2" "cqe_status mlx5_abi (example_cqe c 0x20) (2 ^ 2) 1 = 2"
    "cqe_status mlx5_abi (example_cqe c 0xF0) (2 ^ 2) 2 = 15" for c
    by (simp_all add: cqe_status_def Let_def example_cqe_def mlx5_abi_def)
  then show ?thesis
    by (simp add: delivered_def deliver_def example_run_def example_rx_def example_rxq_def example_cqes_def upt_rec slot_def mlx5_abi_def
      example_cqe_def mlx5_get_cqe_format_def ntoh16_def hton16_def)
qed

text \<open>Receiving the two packets, with what it writes.\<close>

lemma refill_two:
  assumes "rx_buf_mempool r = zero_mempool\<lparr>mp_free_items := [0x30000, 0x40000], capacity := 2, item_len := 16384\<rparr>"
    and "n_rxq r = example_rxq\<lparr>r_buffers := [0x10000, 0x20000], wq_head := 2, rx_cqe_cnt := 4, rx_cqes := cqes, consumer_idx := 2\<rparr>"
  shows "\<exists>t. mlx5_refill_rxqueue mlx5_abi 2 r = Inr (0, t) \<and> (\<forall>m. m \<noteq> 0x30000 \<and> m \<noteq> 0x40000 \<longrightarrow> n_mbufs t m = n_mbufs r m)
    \<and> n_rxq t = example_rxq\<lparr>r_buffers := [0x30000, 0x40000], wq_head := 4, rx_cqe_cnt := 4, rx_cqes := cqes, consumer_idx := 2\<rparr>
    \<and> n_mem t = st32 (st64 (st64 (n_mem r) 8200 (hton64 0x30080)) 8216 (hton64 0x40080)) 1024 (hton32 4)"
proof -
  have "refill_loop mlx5_abi 2 r = refill_loop mlx5_abi (Suc (Suc 0)) r" by (simp only: numeral_2_eq_2)
  then show ?thesis unfolding mlx5_refill_rxqueue_def using assms
    by (simp add: Let_def example_rxq_def mempool_alloc_def zero_mempool_def mlx5_abi_def word_le_nat_alt)
qed

lemma example_gather:
  "\<exists>t. mlx5_gather_rx mlx5_abi 32 (deliver 2 (example_run h)) = Inr ([0x10000, 0x20000], t)
    \<and> m_data (n_mbufs t 0x10000) = 0x10080 \<and> m_data (n_mbufs t 0x20000) = 0x20080
    \<and> n_rxq t = example_rxq\<lparr>r_buffers := [0x30000, 0x40000], wq_head := 4, rx_cqe_cnt := 4, rx_cqes := example_cqes 2, consumer_idx := 2\<rparr>
    \<and> n_mem t = st32 (st64 (st64 (st32 h 1152 (hton32 2)) 8200 (hton64 0x30080)) 8216 (hton64 0x40080)) 1024 (hton32 4)"
proof -
  let ?d = "deliver 2 (example_run h)" and ?cs = "[example_cqe 0 0x20, example_cqe 1 0x20]"
  let ?r = "rx_read 2 [0x10000, 0x20000] ?cs ?d"
  have d: "posted (n_rxq ?d) [0x10000, 0x20000]" "received mlx5_abi (n_rxq ?d) (consumer_idx (n_rxq ?d)) ?cs"
    using example_run_sound(1) example_delivered by (simp_all add: rx_sound_def delivered_def deliver_def)
  from gather_rx_eq [OF mlx5_abi_documented d, of 2 32]
  have g: "mlx5_gather_rx mlx5_abi 32 ?d = bindE (mlx5_refill_rxqueue mlx5_abi 2 ?r) (\<lambda>(ret, s).
     bindE (guardE Abort (ret = 0)) (\<lambda>_. Inr ([0x10000, 0x20000], s)))" by simp
  have r: "rx_buf_mempool ?r = zero_mempool\<lparr>mp_free_items := [0x30000, 0x40000], capacity := 2, item_len := 16384\<rparr>"
    "n_rxq ?r = example_rxq\<lparr>r_buffers := [0x10000, 0x20000], wq_head := 2, rx_cqe_cnt := 4, rx_cqes := example_cqes 2, consumer_idx := 2\<rparr>"
    "n_mem ?r = st32 h 1152 (hton32 2)"
    by (simp_all add: rx_read_def Let_def deliver_def example_run_def example_rx_def example_rxq_def)
  have "m_data (n_mbufs ?r 0x10000) = 0x10080" "m_data (n_mbufs ?r 0x20000) = 0x20080"
    by (simp_all add: rx_read_def Let_def filled_mbuf take_Suc numeral_2_eq_2)
  then show ?thesis using refill_two [OF r(1,2)] unfolding g r(3) by auto
qed

lemma second_delivery:
  assumes "n_rxq u = example_rxq\<lparr>r_buffers := [0x30000, 0x40000], wq_head := 4, rx_cqe_cnt := 4, rx_cqes := example_cqes 2, consumer_idx := 2\<rparr>"
  shows "delivered mlx5_abi u (deliver 4 u) [example_cqe 2 0x20, example_cqe 3 0x20]"
proof -
  have "cqe_status mlx5_abi (example_cqe c 0x20) (2 ^ 2) 2 = 2" "cqe_status mlx5_abi (example_cqe c 0x20) (2 ^ 2) 3 = 2"
    "cqe_status mlx5_abi (example_cqe c 0x20) (2 ^ 2) 4 = 15" for c
    by (simp_all add: cqe_status_def Let_def example_cqe_def mlx5_abi_def)
  then show ?thesis
    by (simp add: delivered_def deliver_def assms example_rxq_def example_cqes_def upt_rec slot_def mlx5_abi_def
      example_cqe_def mlx5_get_cqe_format_def ntoh16_def hton16_def)
qed

text \<open>Which of the two packets are for the server.\<close>

lemma example_accepted:
  assumes "n_mem t = st32 (st64 (st64 (st32 h 1152 a) 8200 b) 8216 c) 1024 d" "m_data (n_mbufs t p) = q" "q = 0x10080 \<or> q = 0x20080"
    and "load_bytes h q 6 = load_bytes h 0x98000 6"
  shows "accepted example_cfg t p \<longleftrightarrow> ntoh16 (ld16 h (q + 12)) = 0x800 \<and> h (q + 23) = 17"
  using assms(3)
proof (elim disjE)
  assume q: "q = 0x10080"
  show ?thesis using assms(4) unfolding q
    by (simp add: accepted_def check_valid_packet_def Let_def assms(1,2) q example_cfg_def eth_addr_equal_iff ld16_def field_access disjoint_regions_def)
next
  assume q: "q = 0x20080"
  show ?thesis using assms(4) unfolding q
    by (simp add: accepted_def check_valid_packet_def Let_def assms(1,2) q example_cfg_def eth_addr_equal_iff ld16_def field_access disjoint_regions_def)
qed

lemma noise_harmless_witness:
  "\<exists>s' fl'. do_server mlx5_abi (\<lambda>_. deliver 2) 1 example_cfg 1 (example_run (\<lambda>_. 0)) = Inr s' \<and> rx_sound s' fl'
    \<and> mset (fl' @ rx_free s') = {#0x10000, 0x20000, 0x30000, 0x40000#}"
proof -
  let ?s = "example_run (\<lambda>_. 0)"
  have z: "load_bytes (\<lambda>_. 0) q 6 = load_bytes (\<lambda>_. 0) q' 6" "ld16 (\<lambda>_. 0) q = 0" for q q' :: ptr
    by (simp_all add: load_bytes_def ld16_def upt_rec of_le16_def)
  have "rounds (\<lambda>t pkts. \<forall>p\<in>set pkts. \<not> accepted example_cfg t p) mlx5_abi (\<lambda>_. deliver 2) 1 example_cfg 1 ?s"
    using example_delivered [of "\<lambda>_. 0"] example_gather [of "\<lambda>_. 0"] example_accepted [OF _ _ _ z(1)] z(2)
    by (auto simp: ntoh16_def)
  from noise_harmless [OF mlx5_abi_documented example_run_sound(1) _ this] show ?thesis
    by (auto simp: example_run_sound(2))
qed

lemma lost_bursts_crash_witness:
  "do_server mlx5_abi (\<lambda>i. deliver (if i = 2 then 2 else 4)) 1 example_cfg 3 (example_run example_bytes) = Inl NullDeref"
proof -
  let ?s = "example_run example_bytes" and ?dev = "\<lambda>i. deliver (if i = (2 :: nat) then 2 else 4)"
  let ?Q = "\<lambda>t pkts. \<not> accepted example_cfg t (last pkts) \<and> (\<exists>p\<in>set pkts. accepted example_cfg t p)"
  obtain t where t: "mlx5_gather_rx mlx5_abi 32 (deliver 2 ?s) = Inr ([0x10000, 0x20000], t)"
    "m_data (n_mbufs t 0x10000) = 0x10080" "m_data (n_mbufs t 0x20000) = 0x20080"
    "n_rxq t = example_rxq\<lparr>r_buffers := [0x30000, 0x40000], wq_head := 4, rx_cqe_cnt := 4, rx_cqes := example_cqes 2, consumer_idx := 2\<rparr>"
    "n_mem t = st32 (st64 (st64 (st32 example_bytes 1152 (hton32 2)) 8200 (hton64 0x30080)) 8216 (hton64 0x40080)) 1024 (hton32 4)"
    using example_gather [of example_bytes] by blast
  have a: "accepted example_cfg t 0x10000" "\<not> accepted example_cfg t 0x20000"
    using example_accepted [OF t(5,2)] example_accepted [OF t(5,3)]
    by (simp_all add: load_bytes_def upt_rec example_bytes_def ld16_def of_le16_def ntoh16_def bswap16_def)
  have r: "rounds ?Q mlx5_abi ?dev 1 example_cfg 2 u" if u: "server_burst mlx5_abi ?dev 1 example_cfg [0x10000, 0x20000] [] t = Inr u" for u
  proof -
    have j: "2 = min BURST_SIZE (length [example_cqe 0 0x20, example_cqe 1 0x20])" by simp
    have "rx_sound u [0x30000, 0x40000]" "rx_free u = [0x20000]" "n_rxq u = n_rxq t"
      using rejected_burst [OF mlx5_abi_documented example_run_sound(1) example_delivered j _ t(1), of example_cfg ?dev 1] u a
      by (auto simp: example_run_sound(2))
    moreover from this(3) have "delivered mlx5_abi u (deliver 4 u) [example_cqe 2 0x20, example_cqe 3 0x20]"
      using second_delivery t(4) by simp
    ultimately have "\<exists>cs. delivered mlx5_abi u (?dev 1 u) cs" "mlx5_gather_rx mlx5_abi BURST_SIZE (?dev 1 u) = Inl NullDeref"
      using starved_round [OF mlx5_abi_documented, of u _ "?dev 1 u"] by auto
    then show ?thesis by (simp add: numeral_2_eq_2)
  qed
  have "?dev 2 ?s = deliver 2 ?s" by simp
  then have "rounds ?Q mlx5_abi ?dev 1 example_cfg (Suc 2) ?s"
    using rounds_SucI [of mlx5_abi ?s ?dev 2 _ _ t ?Q 1 example_cfg, OF _ _ _ r] example_delivered [of example_bytes] t(1) a
    by (simp del: rounds.simps server_burst.simps)
  then have "rounds ?Q mlx5_abi ?dev 1 example_cfg 3 ?s" by (simp only: Suc_numeral semiring_norm)
  from lost_bursts_crash [OF mlx5_abi_documented example_run_sound(1) _ this] show ?thesis
    by (simp add: example_run_sound(2))
qed

end
