(* ===== verification/Lock.thy ===== *)
theory Lock
  imports Atomic
begin

text \<open>
  inc/base/lock.h and gen.h. The lock word is shared; a thread that takes the lock is between two accesses
  of that word, so each access is a step and the threads interleave freely. A generation number is shared by one
  writer and any number of readers.
\<close>

section \<open>Spin locks\<close>

definition lock_test_and_set :: "u32 \<Rightarrow> u32 \<Rightarrow> u32 \<times> u32" where
  "lock_test_and_set l v = (l, v)"

definition spin_lock_init :: "u32 \<Rightarrow> u32" where
  "spin_lock_init l = 0"

definition spin_lock_held :: "u32 \<Rightarrow> bool" where
  "spin_lock_held l \<longleftrightarrow> l \<noteq> 0"

text \<open>
  Where a thread is: outside, about to test and set the word in the condition of the outer loop, in the inner loop
  that waits for the word to become zero, or past the loops with the lock taken.
\<close>

datatype place = Outside | Setting | Waiting | Holding

definition spin_lock_step :: "place \<Rightarrow> u32 \<Rightarrow> place \<times> u32" where
  "spin_lock_step pc l =
     (case pc of
        Setting \<Rightarrow> (let (old, l) = lock_test_and_set l 1 in (if old \<noteq> 0 then Waiting else Holding, l))
      | Waiting \<Rightarrow> (if l \<noteq> 0 then Waiting else Setting, l)
      | _ \<Rightarrow> (pc, l))"

definition spin_try_lock :: "u32 \<Rightarrow> bool \<times> u32" where
  "spin_try_lock l = (let (old, l) = lock_test_and_set l 1 in (old = 0, l))"

definition spin_unlock :: "u32 \<Rightarrow> u32" where
  "spin_unlock l = 0"

text \<open>
  Threads that follow the discipline of the lock: only the one that holds it releases it.
\<close>

type_synonym threads = "(nat \<Rightarrow> place) \<times> u32"

inductive lock_step :: "threads \<Rightarrow> threads \<Rightarrow> bool" where
  call: "P i = Outside \<Longrightarrow> lock_step (P, l) (P(i := Setting), l)"
| access: "P i = Setting \<or> P i = Waiting \<Longrightarrow> spin_lock_step (P i) l = (pc, l') \<Longrightarrow>
    lock_step (P, l) (P(i := pc), l')"
| attempt: "P i = Outside \<Longrightarrow> spin_try_lock l = (ok, l') \<Longrightarrow>
    lock_step (P, l) (P(i := if ok then Holding else Outside), l')"
| release: "P i = Holding \<Longrightarrow> lock_step (P, l) (P(i := Outside), spin_unlock l)"

inductive lock_reach :: "threads \<Rightarrow> bool" where
  start: "lock_reach (\<lambda>_. Outside, spin_lock_init l)"
| step: "lock_reach s \<Longrightarrow> lock_step s t \<Longrightarrow> lock_reach t"

inductive_cases lock_stepE: "lock_step (P, l) t"

definition lock_inv :: "threads \<Rightarrow> bool" where
  "lock_inv s = (case s of (P, l) \<Rightarrow>
     (l = 0 \<longrightarrow> (\<forall>i. P i \<noteq> Holding)) \<and> (l \<noteq> 0 \<longrightarrow> l = 1 \<and> (\<exists>!i. P i = Holding)))"

lemma lock_inv_free: "lock_inv (P, 0) \<longleftrightarrow> (\<forall>i. P i \<noteq> Holding)"
  by (simp add: lock_inv_def)

lemma lock_inv_taken: "lock_inv (P, 1) \<longleftrightarrow> (\<exists>!i. P i = Holding)"
  by (simp add: lock_inv_def)

lemma lock_inv_cases:
  assumes "lock_inv (P, l)"
  obtains "l = 0" "\<forall>i. P i \<noteq> Holding" | "l = 1" "\<exists>!i. P i = Holding"
  using assms by (cases "l = 0") (auto simp: lock_inv_def)

lemma lock_inv_outside:
  assumes "lock_inv (P, l)" "P i \<noteq> Holding" "pc \<noteq> Holding"
  shows "lock_inv (P(i := pc), l)"
proof -
  have "(P(i := pc)) j = Holding \<longleftrightarrow> P j = Holding" for j using assms(2,3) by simp
  then show ?thesis using assms(1) by (simp only: lock_inv_def prod.case)
qed

lemma lock_inv_take:
  assumes "lock_inv (P, 0)"
  shows "lock_inv (P(i := Holding), 1)"
  using assms by (auto simp: lock_inv_free lock_inv_taken)

lemma lock_inv_fail:
  assumes "lock_inv (P, l)" "l \<noteq> 0" "P i \<noteq> Holding" "pc \<noteq> Holding"
  shows "lock_inv (P(i := pc), 1)"
  using lock_inv_outside [OF assms(1,3,4)] assms(1,2) by (auto elim: lock_inv_cases)

lemma lock_inv_release:
  assumes "lock_inv (P, l)" "P i = Holding"
  shows "lock_inv (P(i := Outside), 0)"
  using assms(1)
proof (cases rule: lock_inv_cases)
  case 2
  then show ?thesis using assms(2) by (auto simp: lock_inv_free)
qed (use assms(2) in simp)

lemma lock_step_inv:
  assumes "lock_step s t" "lock_inv s"
  shows "lock_inv t"
  using assms
proof (cases rule: lock_step.cases)
  case (access P i l pc l')
  show ?thesis
  proof (cases "P i = Setting \<and> l = 0")
    case True
    then show ?thesis using access assms(2) by (auto simp: spin_lock_step_def lock_test_and_set_def intro: lock_inv_take)
  next
    case False
    have "pc \<noteq> Holding" "P i \<noteq> Holding" "l' = (if P i = Setting then 1 else l)"
      using False access by (auto simp: spin_lock_step_def lock_test_and_set_def split: if_splits)
    with False access assms(2) show ?thesis
      by (auto intro: lock_inv_outside lock_inv_fail split: if_splits)
  qed
next
  case (attempt P i l ok l')
  show ?thesis
  proof (cases "l = 0")
    case True
    then show ?thesis using attempt assms(2) by (auto simp: spin_try_lock_def lock_test_and_set_def intro: lock_inv_take)
  next
    case False
    then show ?thesis using attempt assms(2)
      by (auto simp: spin_try_lock_def lock_test_and_set_def intro: lock_inv_fail)
  qed
qed (auto simp: spin_unlock_def intro: lock_inv_outside lock_inv_release)

lemma lock_reach_inv: "lock_reach s \<Longrightarrow> lock_inv s"
  by (induction rule: lock_reach.induct) (auto simp: lock_inv_def spin_lock_init_def dest: lock_step_inv [unfolded lock_inv_def])

text \<open>
  C29. Whatever way the threads interleave, no two of them hold the lock at the same time,
  and the word is nonzero exactly while one does; a thread in the loops of \<open>spin_lock\<close> leaves them in at
  most two of its own accesses once the lock is free and no other thread comes between.
\<close>

theorem spin_lock_exclusive:
  assumes "lock_reach (P, l)"
  shows "(P i = Holding \<and> P j = Holding \<longrightarrow> i = j) \<and>
    (spin_lock_held l \<longleftrightarrow> (\<exists>i. P i = Holding)) \<and>
    (\<not> spin_lock_held l \<longrightarrow>
      (P i = Setting \<longrightarrow> fst (spin_lock_step (P i) l) = Holding) \<and>
      (P i = Waiting \<longrightarrow> fst (case spin_lock_step (P i) l of (pc, l) \<Rightarrow> spin_lock_step pc l) = Holding))"
proof -
  have "lock_inv (P, l)" using assms by (rule lock_reach_inv)
  then show ?thesis
    by (cases rule: lock_inv_cases)
      (auto simp: spin_lock_held_def spin_lock_step_def lock_test_and_set_def)
qed

lemma lock_reach_example: "lock_reach ((\<lambda>_. Outside)(0 := Holding, 1 := Waiting), 1)"
proof -
  let ?o = "\<lambda>_ :: nat. Outside"
  have 0: "lock_reach (?o, 0)" using lock_reach.start [of 0] by (simp add: spin_lock_init_def)
  have 1: "lock_reach (?o(0 := Setting), 0)" using lock_reach.step [OF 0 lock_step.call [of ?o 0 0]] by simp
  have 2: "lock_reach (?o(0 := Holding), 1)"
    using lock_reach.step [OF 1 lock_step.access [of "?o(0 := Setting)" 0 0 Holding 1]]
    by (simp add: spin_lock_step_def lock_test_and_set_def)
  have 3: "lock_reach (?o(0 := Holding, 1 := Setting), 1)"
    using lock_reach.step [OF 2 lock_step.call [of "?o(0 := Holding)" 1 1]] by simp
  show ?thesis
    using lock_reach.step [OF 3 lock_step.access [of "?o(0 := Holding, 1 := Setting)" 1 1 Waiting 1]]
    by (simp add: spin_lock_step_def lock_test_and_set_def)
qed

theorem spin_lock_exclusive_witness:
  "spin_lock_held 1 \<and> (\<exists>i. ((\<lambda>_. Outside)(0 := Holding, 1 := Waiting)) (i :: nat) = Holding)"
  using spin_lock_exclusive [OF lock_reach_example, of 0 1] by (auto simp: spin_lock_held_def)

section \<open>Generation numbers\<close>

text \<open>The shared number lives behind a pointer; the numbers of all generations are the memory \<open>G\<close>.\<close>

record gen_num =
  prev_gen :: u32
  gen :: ptr

type_synonym gens = "ptr \<Rightarrow> u32"

definition gen_active :: "gen_num \<Rightarrow> gens \<Rightarrow> gens" where
  "gen_active g G = (if G (gen g) = 0 then G(gen g := prev_gen g + 1) else G)"

definition gen_inactive :: "gen_num \<Rightarrow> gens \<Rightarrow> gen_num \<times> gens" where
  "gen_inactive g G =
     (if G (gen g) \<noteq> 0 then (g\<lparr>prev_gen := G (gen g)\<rparr>, G(gen g := 0)) else (g, G))"

definition gen_in_same_gen :: "gen_num \<Rightarrow> gens \<Rightarrow> bool \<times> gen_num" where
  "gen_in_same_gen g G =
     (let current_gen = G (gen g);
          unchanged = current_gen \<noteq> 0 \<and> current_gen = prev_gen g
      in (unchanged, g\<lparr>prev_gen := current_gen\<rparr>))"

definition gen_init :: "gen_num \<Rightarrow> ptr \<Rightarrow> gen_num" where
  "gen_init g p = g\<lparr>prev_gen := 0, gen := p\<rparr>"

text \<open>
  The writer begins and ends generations: after \<open>k\<close> of them the shared number is \<open>k\<close> inside the generation and zero
  between two, as long as fewer than \<open>2 ^ 32\<close> generations have begun.
\<close>

definition writer_at :: "gen_num \<Rightarrow> gens \<Rightarrow> nat \<Rightarrow> bool \<Rightarrow> bool" where
  "writer_at g G k on \<longleftrightarrow> k < 2 ^ 32 \<and>
     (if on then 0 < k \<and> unat (G (gen g)) = k else G (gen g) = 0 \<and> unat (prev_gen g) = k)"

lemma writer_steps:
  assumes "writer_at g G k on"
  shows "on \<Longrightarrow> writer_at g (gen_active g G) k True"
    "\<not> on \<Longrightarrow> k + 1 < 2 ^ 32 \<Longrightarrow> writer_at g (gen_active g G) (k + 1) True"
    "case gen_inactive g G of (g', G') \<Rightarrow> writer_at g' G' k False"
proof -
  show "writer_at g (gen_active g G) k True" if on
    using assms that by (auto simp: writer_at_def gen_active_def unat_eq_0)
  show "writer_at g (gen_active g G) (k + 1) True" if "\<not> on" "k + 1 < 2 ^ 32"
  proof -
    have "unat (prev_gen g + 1) = k + 1"
      using assms that by (simp add: writer_at_def unat_word_ariths)
    then show ?thesis using assms that by (simp add: writer_at_def gen_active_def)
  qed
  show "case gen_inactive g G of (g', G') \<Rightarrow> writer_at g' G' k False"
    using assms by (cases on) (auto simp: writer_at_def gen_inactive_def)
qed

text \<open>
  A reader that looked at the number in one state of the writer and looks again in a later one is told
  that it is in the same generation exactly when both looks fell into one generation.
\<close>

lemma reader_same_generation:
  assumes "writer_at w G k on" "writer_at w' G' k' on'" "gen r = gen w" "gen w' = gen w"
  shows "fst (gen_in_same_gen (snd (gen_in_same_gen r G)) G') \<longleftrightarrow> on \<and> on' \<and> k = k'"
proof -
  let ?a = "G (gen w)" and ?b = "G' (gen w)"
  have look: "fst (gen_in_same_gen (snd (gen_in_same_gen r G)) G') \<longleftrightarrow> ?b \<noteq> 0 \<and> ?b = ?a"
    using assms(3) by (simp add: gen_in_same_gen_def Let_def)
  have a: "if on then 0 < k \<and> unat ?a = k else ?a = 0"
    using assms(1) by (cases on) (simp_all add: writer_at_def)
  have b: "if on' then 0 < k' \<and> unat ?b = k' else ?b = 0"
    using assms(2) by (cases on') (simp_all add: writer_at_def assms(4))
  show ?thesis unfolding look using a b by (metis unat_0 less_irrefl word_unat_eq_iff)
qed

text \<open>The number of the generation that follows the last one is zero, so that generation never becomes active.\<close>

lemma gen_active_wraps: "prev_gen g = 0xFFFFFFFF \<Longrightarrow> G (gen g) = 0 \<Longrightarrow> gen_active g G = G"
  by (auto simp: gen_active_def)

end
