(* ===== verification/Statistics.thy ===== *)
theory Statistics
  imports Latency
begin

text \<open>
  The statistics latency.c prints: the comparison function sorts, the rounded percentile
  indices lie inside the array, and what is printed are order statistics of the latencies.
\<close>

section \<open>The order statistics\<close>

text \<open>The comparison is right for latencies less than \<open>2 ^ 31\<close> apart; it is an \<open>int\<close>, cut from the 64-bit difference.\<close>

lemma cmpfunc_eq:
  assumes "unat a < 2 ^ 31" "unat b < 2 ^ 31"
  shows "cmpfunc a b = int (unat a) - int (unat b)"
proof -
  have "cmpfunc a b = signed_take_bit 31 (uint (a - b))"
    by (simp add: cmpfunc_def signed_ucast_eq)
  also have "\<dots> = signed_take_bit 31 (uint a - uint b)"
  proof -
    have "uint (a - b) = take_bit 64 (uint a - uint b)" by (simp add: uint_word_ariths take_bit_eq_mod)
    then show ?thesis by (simp add: signed_take_bit_eq_iff_take_bit_eq take_bit_take_bit)
  qed
  also have "\<dots> = uint a - uint b"
  proof (rule signed_take_bit_int_eq_self)
    have "int (unat a) < int (2 ^ 31)" "int (unat b) < int (2 ^ 31)" using assms by (simp_all only: of_nat_less_iff)
    then have "uint a < 2 ^ 31" "uint b < 2 ^ 31" by simp_all
    moreover have "0 \<le> uint a" "0 \<le> uint b" by simp_all
    ultimately show "- (2 ^ 31) \<le> uint a - uint b" "uint a - uint b < 2 ^ 31" by linarith+
  qed
  finally show ?thesis by simp
qed

lemma cmpfunc_wrong: "0 < (0x80000000 :: u64)" "cmpfunc 0x80000000 0 < 0" "cmpfunc 0x100000000 0 = 0"
  by (simp_all add: cmpfunc_def)

lemma qsort_by_sort:
  assumes "\<And>x y. x \<in> set xs \<Longrightarrow> y \<in> set xs \<Longrightarrow> cmp x y \<le> 0 \<longleftrightarrow> x \<le> y"
  shows "qsort_by cmp xs = sort xs"
proof -
  have ins: "insert_by cmp x ys = insort x ys" if "\<And>y. y \<in> set ys \<Longrightarrow> cmp x y \<le> 0 \<longleftrightarrow> x \<le> y" for x ys
    using that by (induction ys) auto
  show ?thesis using assms
  proof (induction xs)
    case (Cons x xs)
    then have "qsort_by cmp xs = sort xs" by simp
    moreover have "insert_by cmp x (sort xs) = insort x (sort xs)" using Cons.prems by (intro ins) simp
    ultimately show ?case by (simp add: qsort_by_def)
  qed (simp add: qsort_by_def)
qed

lemma bit_length_0 [simp]: "bit_length 0 = 0"
  by (subst bit_length.simps) simp

lemma bit_length_1 [simp]: "bit_length (Suc 0) = 1"
  by (subst bit_length.simps) simp

lemmas bit_length_numeral = bit_length.simps [of "numeral k" for k]

lemma bit_length_bounds: "n < 2 ^ bit_length n" "0 < n \<Longrightarrow> 2 ^ (bit_length n - 1) \<le> n"
proof (induction n rule: bit_length.induct)
  case (1 n)
  have step: "0 < n \<Longrightarrow> bit_length n = Suc (bit_length (n div 2))" by (subst bit_length.simps) simp
  {
    case 1
    show ?case
    proof (cases "n = 0")
      case False
      then have "n div 2 < 2 ^ bit_length (n div 2)" using "1.IH"(1) by simp
      then show ?thesis using step False by simp
    qed simp
  next
    case 2
    show ?case
    proof (cases "n div 2 = 0")
      case False
      then have "0 < bit_length (n div 2)" by (subst bit_length.simps) simp
      moreover have "2 ^ (bit_length (n div 2) - 1) \<le> n div 2" using "1.IH"(2) 2 False by simp
      ultimately show ?thesis using step [OF 2] by (cases "bit_length (n div 2)") auto
    next
      case True
      then have "bit_length (n div 2) = 0" by (subst bit_length.simps) simp
      then show ?thesis using step [OF 2] 2 by simp
    qed
  }
qed

lemma bit_length_le:
  assumes "n < 2 ^ p"
  shows "bit_length n \<le> p"
proof (rule ccontr)
  assume "\<not> bit_length n \<le> p"
  then have "p \<le> bit_length n - 1" "0 < n" by (auto intro!: gr0I)
  then have "(2::nat) ^ p \<le> 2 ^ (bit_length n - 1)" "2 ^ (bit_length n - 1) \<le> n"
    using bit_length_bounds(2) by (simp_all add: power_increasing)
  then show False using assms by linarith
qed

lemma round_bits_exact: "n < 2 ^ p \<Longrightarrow> round_bits p n = n"
  by (drule bit_length_le) (simp add: round_bits_def)

lemma round_bits_le:
  assumes "n < 2 ^ (p + k)" "0 < k"
  shows "round_bits p n \<le> n + 2 ^ (k - 1)"
proof (cases "bit_length n - p = 0")
  case False
  let ?e = "bit_length n - p"
  have e: "?e \<le> k" using bit_length_le [OF assms(1)] by simp
  have h: "(2::nat) ^ ?e = 2 * 2 ^ (?e - 1)" using False by (cases ?e) simp_all
  have "round_bits p n \<le> n + 2 ^ (?e - 1)"
  proof (cases "2 ^ (?e - 1) \<le> n mod 2 ^ ?e")
    case True
    have "(n div 2 ^ ?e + 1) * 2 ^ ?e = n - n mod 2 ^ ?e + 2 ^ ?e" by (simp add: minus_mod_eq_div_mult [symmetric])
    also have "\<dots> \<le> n + 2 ^ (?e - 1)" using True h mod_less_eq_dividend [of n "2 ^ ?e"] by linarith
    finally show ?thesis using False by (simp add: round_bits_def Let_def trans_le_add1)
  next
    case False
    then have "round_bits p n = n div 2 ^ ?e * 2 ^ ?e"
      using \<open>?e \<noteq> 0\<close> by (simp add: round_bits_def Let_def)
    then show ?thesis by (simp add: trans_le_add1)
  qed
  also have "2 ^ (?e - 1) \<le> (2::nat) ^ (k - 1)" using e by (intro power_increasing) simp_all
  finally show ?thesis by simp
qed (simp add: round_bits_def)

lemma round_bits_ge:
  assumes "n < 2 ^ (p + k)" "0 < k"
  shows "n \<le> round_bits p n + 2 ^ (k - 1)"
proof (cases "bit_length n - p = 0")
  case False
  let ?e = "bit_length n - p"
  have e: "?e \<le> k" using bit_length_le [OF assms(1)] by simp
  have h: "(2::nat) ^ ?e = 2 * 2 ^ (?e - 1)" using False by (cases ?e) simp_all
  have split: "n = n div 2 ^ ?e * 2 ^ ?e + n mod 2 ^ ?e" "n mod 2 ^ ?e < 2 ^ ?e"
    by (rule div_mult_mod_eq [symmetric], simp)
  have "n \<le> round_bits p n + 2 ^ (?e - 1)"
  proof (cases "2 ^ (?e - 1) < n mod 2 ^ ?e")
    case True
    then have "round_bits p n = n div 2 ^ ?e * 2 ^ ?e + 2 ^ ?e" using False by (simp add: round_bits_def Let_def)
    then show ?thesis using split by linarith
  next
    case small: False
    have "n div 2 ^ ?e * 2 ^ ?e \<le> round_bits p n" using False by (simp add: round_bits_def Let_def)
    then show ?thesis using split small by linarith
  qed
  also have "2 ^ (?e - 1) \<le> (2::nat) ^ (k - 1)" using e by (intro power_increasing) simp_all
  finally show ?thesis by simp
qed (simp add: round_bits_def)

text \<open>A number just below a multiple of its last place is rounded up to it.\<close>

lemma round_bits_up:
  assumes "x + s = M * 2 ^ e" "e = bit_length x - p" "0 < s" "2 * s < 2 ^ e" "0 < e"
  shows "round_bits p x = M * 2 ^ e"
proof -
  have h: "(2::nat) ^ e = 2 * 2 ^ (e - 1)" using assms(5) by (cases e) simp_all
  have "M \<noteq> 0" using assms(1,3) by (cases "M = 0") simp_all
  then obtain m where m: "M = Suc m" by (cases M) simp_all
  have x: "x = m * 2 ^ e + (2 ^ e - s)" "2 ^ e - s < (2::nat) ^ e" using assms(1,3,4) m by simp_all
  have "x div 2 ^ e = m" "x mod 2 ^ e = 2 ^ e - s"
    using x div_mult_self3 [of "(2::nat) ^ e" m "2 ^ e - s"] by simp_all
  moreover have "2 ^ (e - 1) < (2::nat) ^ e - s" using assms(4) h by linarith
  ultimately show ?thesis using assms(2,5) m by (simp add: round_bits_def Let_def)
qed

text \<open>
  The constants are the \<open>double\<close> numbers just below \<open>(d - 1) / d\<close>. The truncated product is the truncated
  exact one: where that one is an integer, the product is rounded up to it.
\<close>

lemma scaled_percent:
  assumes k: "d * k + 8 = (d - 1) * 2 ^ 53" and d: "100 \<le> d" "d \<le> 1000" and n: "0 < unat n" "unat n < 2 ^ 24"
  shows "scaled k n = (d - 1) * unat n div d"
proof -
  define N x q t where "N = unat n" and "x = N * k" and "q = (d - 1) * N div d" and "t = (d - 1) * N mod d"
  have N: "0 < N" "N < 16777216" using n by (simp_all add: N_def)
  have qt: "(d - 1) * N = d * q + t" "t < d" using d by (simp_all add: q_def t_def)
  have "N * (d * k + 8) = N * ((d - 1) * 2 ^ 53)" by (simp only: k)
  also have "\<dots> = (d * q + t) * 2 ^ 53" by (simp add: qt(1) [symmetric])
  finally have dx: "d * x + 8 * N = d * q * 2 ^ 53 + t * 2 ^ 53" by (simp add: x_def algebra_simps)
  have "d * q \<le> d * N" using qt(1) mult_le_mono1 [of "d - 1" d N] by linarith
  then have q: "q < 2 ^ 24" using d N(2) by simp
  have "d * k < d * 2 ^ 53" using k mult_le_mono1 [of "d - 1" d "2 ^ 53"] by linarith
  then have "k < 2 ^ 53" by simp
  then have "x \<le> N * 2 ^ 53" by (simp add: x_def)
  then have x: "x < 2 ^ (53 + 24)" using N(2) by simp
  define R where "R = round_bits 53 x"
  have R: "R \<le> x + 8388608" "x \<le> R + 8388608"
    using round_bits_le [OF x] round_bits_ge [OF x] by (simp_all add: R_def)
  have dR: "d * R \<le> d * x + d * 8388608" "d * x \<le> d * R + d * 8388608"
    using mult_le_mono2 [OF R(1), of d] mult_le_mono2 [OF R(2), of d] by (simp_all add: distrib_left)
  have "d * R < d * ((q + 1) * 2 ^ 53)"
  proof -
    have "t * 2 ^ 53 \<le> (d - 1) * 2 ^ 53" using qt(2) by (intro mult_le_mono1) linarith
    moreover have "(d - 1) * 2 ^ 53 + 2 ^ 53 = d * 2 ^ 53" using d by (cases d) simp_all
    moreover have "d * ((q + 1) * 2 ^ 53) = d * q * 2 ^ 53 + d * 2 ^ 53" by (simp add: algebra_simps)
    ultimately show ?thesis using dx dR(1) d by simp
  qed
  then have up: "R < (q + 1) * 2 ^ 53" by simp
  have c: "(2::nat) ^ 53 = 9007199254740992" by simp
  have low: "q * 2 ^ 53 \<le> R"
  proof (cases "t = 0")
    case False
    then have "2 ^ 53 \<le> t * 2 ^ 53" by simp
    then have "d * q * 2 ^ 53 \<le> d * R" using dx dR(2) N(2) d(2) unfolding c by linarith
    then show ?thesis using d by (simp add: mult.assoc)
  next
    case True
    have "d dvd (d - 1) * N" using True qt(1) by simp
    moreover have "coprime d (d - 1)" using d coprime_diff_one_right_nat [of d] by simp
    ultimately obtain j where j: "N = d * j" by (auto simp: coprime_dvd_mult_right_iff)
    have "d * q = d * ((d - 1) * j)" using qt(1) True j by (auto simp: mult.left_commute)
    then have qj: "q = (d - 1) * j" using d by simp
    have "d * (x + 8 * j) = d * (q * 2 ^ 53)" using dx True j by (simp add: algebra_simps)
    then have sum: "x + 8 * j = q * 2 ^ 53" using d by simp
    have jq: "99 * j \<le> q" "0 < j" using d j N(1) qj by simp_all
    define e where "e = bit_length x - 53"
    have "x < 2 ^ bit_length x" by (rule bit_length_bounds)
    have "2 ^ 53 \<le> x" using sum jq q by simp
    then have "(2::nat) ^ 53 < 2 ^ bit_length x" using \<open>x < 2 ^ bit_length x\<close> by (rule le_less_trans)
    then have "53 < bit_length x" by (rule power_less_imp_less_exp [rotated]) simp
    then have e: "0 < e" "bit_length x = 53 + e" by (simp_all add: e_def)
    have "e \<le> 24" using bit_length_le [OF x] e(2) by simp
    have "x < 2 ^ e * 2 ^ 53" using \<open>x < 2 ^ bit_length x\<close> e(2) by (simp add: power_add)
    then have "q * 2 ^ 53 < (2 ^ e + 1) * 2 ^ 53" using sum jq q by simp
    then have "q < 2 ^ e + 1" by (rule mult_less_cancel2 [THEN iffD1, THEN conjunct2])
    then have "2 * (8 * j) < 2 ^ e" using jq by linarith
    moreover have "q * 2 ^ 53 = q * 2 ^ (53 - e) * 2 ^ e" using \<open>e \<le> 24\<close> by (simp flip: power_add add: mult.assoc)
    ultimately have "R = q * 2 ^ 53" unfolding R_def
      using round_bits_up [of x "8 * j" "q * 2 ^ (53 - e)" e 53] sum e(1) jq(2) by (simp add: e_def)
    then show ?thesis by simp
  qed
  have "R div 2 ^ 53 = q"
    using up low div_nat_eqI [of "2 ^ 53" q R] by (simp add: mult.commute)
  then show ?thesis using n(2) by (simp add: scaled_def round_bits_exact R_def x_def N_def q_def)
qed

lemma scaled_half:
  assumes "unat n < 2 ^ 24"
  shows "scaled HALF n = unat n div 2"
proof -
  have "round_bits 53 (unat n * 2 ^ 52) = unat n * 2 ^ 52"
  proof -
    have b: "bit_length (m * 2 ^ j) = (if m = 0 then 0 else bit_length m + j)" for m j :: nat
    proof (induction j)
      case (Suc j)
      show ?case
      proof (cases "m = 0")
        case False
        then have "bit_length (m * 2 ^ Suc j) = Suc (bit_length (m * 2 ^ Suc j div 2))" by (subst bit_length.simps) simp
        then show ?thesis using Suc False by simp
      qed simp
    qed simp
    let ?e = "bit_length (unat n * 2 ^ 52) - 53"
    have "?e \<le> 52"
    proof (cases "unat n = 0")
      case False
      have "bit_length (unat n) \<le> 24" using bit_length_le assms by blast
      then show ?thesis using b [of "unat n" 52] False by simp
    qed simp
    then have "(2::nat) ^ ?e dvd unat n * 2 ^ 52" by (intro dvd_mult le_imp_power_dvd)
    then have "unat n * 2 ^ 52 mod 2 ^ ?e = 0" "unat n * 2 ^ 52 div 2 ^ ?e * 2 ^ ?e = unat n * 2 ^ 52"
      by (simp_all only: dvd_eq_mod_eq_0 dvd_div_mult_self)
    then show ?thesis by (simp add: round_bits_def Let_def)
  qed
  moreover have "unat n * 2 ^ 52 div 2 ^ 53 = unat n div 2"
    using div_mult_mult2 [of "2 ^ 52 :: nat" "unat n" 2] by simp
  ultimately show ?thesis using assms by (simp add: scaled_def round_bits_exact)
qed

lemma cut_latency_all:
  assumes "unat (ld_count d) \<le> length (ld_latencies d)" "length arr = unat (ld_count d)"
  shows "foldE (cut_latency d 0) [0..<unat (ld_count d)] (arr, s) = Inr (take (unat (ld_count d)) (ld_latencies d), s)"
proof -
  have "foldE (cut_latency d 0) [0..<k] (arr, s) = Inr (take k (ld_latencies d) @ drop k arr, s)" if "k \<le> unat (ld_count d)" for k
    using that
  proof (induction k)
    case (Suc k)
    have "unat (of_nat k :: u64) = k" using Suc.prems unat_bound [of "ld_count d"] by (intro unat_of_nat_less) simp
    then show ?case using Suc assms
      by (simp add: cut_latency_def list_update_append take_Suc_conv_app_nth Cons_nth_drop_Suc [symmetric])
  qed simp
  from this [OF order_refl] show ?thesis using assms(2) by simp
qed

text \<open>
  C27. With fewer than \<open>2 ^ 24\<close> latencies, all below \<open>2 ^ 31\<close>, the statistics are those of the sorted
  list: the median is element \<open>n div 2\<close>, the percentiles are elements \<open>99 * n div 100\<close> and \<open>999 * n div 1000\<close>,
  all inside the array although the products are computed in floating point, and the average is the sum
  divided by the count. The first bound is that of the integers a \<open>float\<close> holds, the second one keeps the
  difference of two latencies inside the \<open>int\<close> the comparison function cuts it to.
\<close>

theorem summary_order_statistics:
  assumes "0 < ld_count d" "unat (ld_count d) < 2 ^ 24" "unat (ld_count d) \<le> length (ld_latencies d)"
    and "\<forall>l\<in>set (take (unat (ld_count d)) (ld_latencies d)). unat l < 2 ^ 31"
  shows "let n = unat (ld_count d); xs = sort (take n (ld_latencies d)); show = \<lambda>v. display to_ns v cyc in
    n div 2 < length xs \<and> 99 * n div 100 < length xs \<and> 999 * n div 1000 < length xs
    \<and> latency_summary to_ns True d cyc = Inr \<lparr>st_min = show (ld_min d), st_max = show (ld_max d),
        st_avg = show (ld_sum d div ld_count d), st_median = show (xs ! (n div 2)),
        st_p99 = show (xs ! (99 * n div 100)), st_p999 = show (xs ! (999 * n div 1000))\<rparr>"
proof -
  let ?n = "ld_count d" and ?ls = "take (unat (ld_count d)) (ld_latencies d)"
  have pos: "0 < unat ?n" using assms(1) by (simp add: unat_gt_0 word_greater_zero_iff)
  have len: "length (sort ?ls) = unat ?n" using assms(3) by simp
  have num: "of_nat (round_bits 24 (unat ?n)) = ?n" using assms(2) by (simp add: round_bits_exact)
  have "unat (8 :: u64) * unat ?n < 2 ^ 64" using assms(2) by simp
  then have "malloc_array True 8 ?n 0 = Some (replicate (unat ?n) (0 :: u64))" by (intro malloc_array_fits) simp_all
  moreover have "qsort_by cmpfunc ?ls = sort ?ls"
  proof (rule qsort_by_sort)
    fix x y
    assume "x \<in> set ?ls" "y \<in> set ?ls"
    then have "unat x < 2 ^ 31" "unat y < 2 ^ 31" using assms(4) by blast+
    then show "cmpfunc x y \<le> 0 \<longleftrightarrow> x \<le> y" by (simp add: cmpfunc_eq word_le_def)
  qed
  moreover have "scaled P99 ?n = 99 * unat ?n div 100" "scaled P999 ?n = 999 * unat ?n div 1000"
    using scaled_percent [of 100 P99 ?n] scaled_percent [of 1000 P999 ?n] pos assms(2) by simp_all
  moreover have "99 * unat ?n div 100 < unat ?n" "999 * unat ?n div 1000 < unat ?n"
    using pos by (simp_all add: less_mult_imp_div_less)
  moreover have "scaled HALF ?n = unat ?n div 2" "unat ?n div 2 < unat ?n" using scaled_half [OF assms(2)] pos by simp_all
  ultimately show ?thesis
    using cut_latency_all [OF assms(3), of "replicate (unat ?n) 0" "ld_sum d"] assms(1) len
    by (simp add: latency_summary_def Let_def num word_greater_zero_iff del: length_sort)
qed

lemma summary_order_statistics_witness:
  "\<exists>st. latency_summary (\<lambda>c. c) True (example_dist\<lparr>ld_latencies := [30, 10, 20], ld_count := 3, ld_sum := 60\<rparr>) 0 = Inr st
    \<and> st_median st = 20 \<and> st_avg st = 20 \<and> st_p99 st = 30 \<and> st_p999 st = 30"
proof -
  let ?d = "example_dist\<lparr>ld_latencies := [30, 10, 20], ld_count := 3, ld_sum := 60\<rparr>"
  have e: "ld_count ?d = 3" "ld_sum ?d = 60" "ld_latencies ?d = [30, 10, 20]" by simp_all
  have t: "take 3 [30, 10, 20] = [30, 10, 20 :: u64]"
  proof -
    have "(3 :: nat) = Suc (Suc (Suc 0))" by simp
    then show ?thesis by (simp only: take_Suc_Cons take_0)
  qed
  have u: "unat (3 :: u64) = 3" by simp
  have q: "sort [30, 10, 20 :: u64] = [10, 20, 30]" by simp
  have lt: "\<forall>l\<in>set [30, 10, 20 :: u64]. unat l < 2 ^ 31" by simp
  have c: "(0 :: u64) < 3" "(3 :: nat) < 2 ^ 24" "(3 :: nat) \<le> length [30, 10, 20 :: u64]" by simp_all
  have "(3 :: nat) div 2 = 1" "99 * (3 :: nat) div 100 = 2" "999 * (3 :: nat) div 1000 = 2" "(60 :: u64) div 3 = 20"
    "[10, 20, 30 :: u64] ! 1 = 20" "[10, 20, 30 :: u64] ! 2 = 30" by simp_all
  then have "latency_summary (\<lambda>c. c) True ?d 0 = Inr \<lparr>st_min = ld_min ?d, st_max = ld_max ?d, st_avg = 20,
      st_median = 20, st_p99 = 30, st_p999 = 30\<rparr>"
    using summary_order_statistics [of ?d "\<lambda>c. c" 0, unfolded e u t q Let_def display_def, OF c lt] unfolding e by simp
  then show ?thesis by simp
qed

end
