(* ===== verification/Spec2Isabelle.thy ===== *)
theory Spec2Isabelle
  imports Boot Calibrate Chains Channel Descriptors Hash Page Pci Rounds Lock Lists Statistics Packet Memcpy Mbuf Checksum Byteorder Stddef
begin

text \<open>
  A verification library for a network benchmark that drives a Mellanox ConnectX card from user space: a server that
  answers requests with segments of a large working set, by zero-copy or by copying, and a client that sends requests at
  given times and records round trip times. The code is C; the definitions follow the functions under src/ statement by
  statement, with their names.

  How the program works. At the start \<open>init_mlx5\<close> (main.c, mlx5_init.c) maps huge pages, makes pools of equal buffers in
  them (mempool.c), registers them and creates one receive and one transmit ring. The server loop (main.c) gathers
  received packets (\<open>mlx5_gather_rx\<close>), checks each (\<open>check_valid_packet\<close>), collects them into batches and builds a reply
  to each (\<open>process_server_requests\<close>): a chain of mbufs that point into the working set, counted in reference counts, or one
  buffer with the bytes copied in. Headers are copied or inlined into the transmit ring, the replies are posted
  (\<open>post_mbufs\<close>), and completions release the buffers (\<open>mlx5_gather_completions\<close>). The client builds a table of requests
  that follow a pointer chase (requests.c), sends them on schedule and stores the round trip times (latency.c).

  Conventions. Fixed-width integers are words (\<open>u8\<close> to \<open>u64\<close>), so that arithmetic wraps as in C; signed \<open>int\<close>s are integers with an
  explicit check of their range. Memory is a function from addresses to bytes, a pointer an address; where the code works on objects of one type, an explicit store of
  records stands for them. Every operation that can fail in a way the
  language does not define, or that ends the process, returns \<open>fault + 'a\<close> (Prelude): out of bounds, NULL dereference, bad shift, division
  by zero, signed overflow, a conversion to \<open>int\<close> of a value it does not hold, abort, exit. A theorem with the conclusion \<open>Inr\<close> thus also says that
  none of these happens. The build is the one of the Makefile without debugging: assertions and debug output do nothing.

  The theories, in the order of the layers:
    \<^item> Prelude: words, the fault monad with its loops and tables, the collections of facts. Stddef: the arithmetic macros of inc/base/stddef.h.
    \<^item> Memory, Memcpy: the byte memory, and the vector copies of inc/base/rte_memcpy.h, equal to a plain copy at every size.
    \<^item> Byteorder, Checksum: inc/base/byteorder.h; inc/net/chksum.h, inc/asm/chksum.h and inc/net/ip.h, all equal to one sum of 16-bit words.
    \<^item> Mempool, Mbuf: mempool.c and the two mbuf headers; layout and conservation of the pool, the window of an mbuf under
      any sequence of operations, up to the first that does not fit.
    \<^item> Packet: headers of inc/net/ and the functions of main.c and requests that build, flip and check them.
    \<^item> Mlx5, TxRing, TxSystem, Inline, RxRing: inc/mlx5.h, inc/mlx5_rxtx.h, mlx5_rxtx.c; the rings as the code fills
      them, refining a queue of transmissions and a ring of posted buffers, with the device as an arbitrary source of completions.
    \<^item> Descriptors: the bytes of the transmit ring; every transmission in flight is written in full in entries of its own.
    \<^item> Init: the pool, queue and reference count set-up of mlx5_init.c, ending in the state the rings' invariants ask for. Mem: the mappings of mem.c.
    \<^item> Server, Reply, Posting: the server loop of main.c; the replies, their buffers and reference counts, and what is posted.
      Rounds: the loop over many rounds, and what becomes of the receive buffers.
    \<^item> Requests, Latency, Statistics, Time: requests.c, latency.c, time.c, inc/base/time.h and busy_work.c. Calibrate: the
      measurement of the counter in time.c. Hash: inc/base/hash.h, whose rotation and final mixing can be undone.
    \<^item> Linked, Lists: inc/base/list.h over explicit pointers, refining lists of addresses. Chains: the queues of inc/net/mbufq.h and
      the thread caches of inc/base/tcache.h, a first-in first-out queue and a stack over explicit links.
    \<^item> Page: inc/base/page.h, from addresses to descriptions of pages and back, and the per-thread addresses of inc/base/thread.h.
    \<^item> Atomic, Lock, Bitmap, Search: inc/base/atomic.h, kref.h, lock.h, gen.h, bitmap.h and thread.h; the lock is a transition system over interleaved threads.
    \<^item> Channel: inc/base/lrpc.h, a sender and a receiver over a shared ring in every interleaving of their accesses.
    \<^item> Scan, Numeral: the parsers of inc/base/parse.h and of a bus address, over the conversions of the C library, and numbers as it
      writes them. Bitlist: the parsers of bit lists of bitmap.c and sysfs.c. Pci: pci.c, devices read from files and mapped.
    \<^item> Client, Args, Boot: the rest of main.c; the client loop and its waits, with the replies that arrive in them, the options, and from \<open>main\<close> through \<open>init_mlx5\<close> and \<open>init_workload\<close> to the loops, ending in the
      invariants the rings start from, with the clean-up.

  Interfaces. What several operations share is a locale interpreted on the model's definitions: the scans of a bitmap, of its
  complement and of the threads (\<open>scan\<close>), the plain and the atomic stores into a bitmap (\<open>bit_store\<close>), and the others
  next to the components that provide them.

  Bounds and fuel. Loops over tables recurse on the table. A loop with no bound of its own (a spinning delay, a chain of
  pointers) has fuel, and a theorem says how much is enough: the delay returns when the
  counter advances, a list is walked with its length, a chain of mbufs with its number of segments, a range of bits with the size of
  the bitmap although its counter may wrap around. The parsers recurse on the rest of their string.

  Parameters. The system calls (a record of functions in Mem), the results of the verbs library (Init), \<open>rand\<close>, the time
  stamp counter and the clock (sequences), the files of the kernel (a map from paths to contents), success of \<open>malloc\<close> (a boolean), the slow
  paths of the channels and thread caches, the release of a page, the checksum instruction, and floating point except for the conversion
  of integers to floats and back, which is written out (Statistics).

  Not modelled. Printing and logging (inc/base/log.h, debug.h, assert.h); the compiler's attributes (compiler.h); headers
  that only lay out structures no function of the program reads (inc/net/icmp.h, arp.h, tcp.h, ping.h) or name constants
  (defs.h, limits.h, mlx5_ifc.h); declarations without a definition in the repository (slab.h, stat.h, init.h, cpu.h, the page allocator of
  page.h, the magazines behind tcache.h, \<open>jenkins_hash\<close>); the measurement code of a debugging build.
\<close>

end
